(* ===== verification/Prelude.thy ===== *)
theory Prelude
  imports Main "HOL-Library.Word" "HOL-Library.Multiset" "HOL-Library.Monad_Syntax"
begin

text \<open>
  Shared vocabulary of the development.  C strings are HOL strings (a HOL \<open>char\<close> is
  one byte) that stand for the characters before the terminating NUL; a pointer into a C
  string is the rest of the string from that pointer on, and reading at the end of it
  gives the NUL.  Byte buffers are lists of \<open>8 word\<close>.  The simp collection
  \<open>tor_simps\<close> gathers the evaluation rules that several components share.
\<close>

named_theorems tor_simps \<open>evaluation rules shared by the component theories\<close>

type_synonym byte = "8 word"
type_synonym bytes = "8 word list"
type_synonym cstring = string

definition NUL :: char where
  "NUL = CHR 0x00"

text \<open>The character a pointer into a C string points at.\<close>

definition cur :: "cstring \<Rightarrow> char" where
  "cur s = (case s of [] \<Rightarrow> NUL | c # _ \<Rightarrow> c)"

lemma cur_Nil [simp, tor_simps]: "cur [] = NUL"
  by (simp add: cur_def)

lemma cur_Cons [simp, tor_simps]: "cur (c # s) = c"
  by (simp add: cur_def)

lemma cur_append: "s \<noteq> [] \<Longrightarrow> cur (s @ t) = cur s"
  by (cases s) auto

text \<open>The C string held by a byte buffer: what comes before its first NUL.\<close>

definition cstr :: "string \<Rightarrow> cstring" where
  "cstr s = takeWhile (\<lambda>c. c \<noteq> NUL) s"

lemma cstr_id: "NUL \<notin> set s \<Longrightarrow> cstr s = s"
  by (auto simp: cstr_def takeWhile_eq_all_conv)

lemma cstr_no_NUL [simp]: "NUL \<notin> set (cstr s)"
  by (auto simp: cstr_def dest: set_takeWhileD)

text \<open>
  Byte comparison of two memory regions (\<open>fast_memeq\<close>, \<open>memcmp\<close>): the first
  \<open>n\<close> bytes agree.
\<close>

definition memeq :: "'a list \<Rightarrow> 'a list \<Rightarrow> nat \<Rightarrow> bool" where
  "memeq a b n \<longleftrightarrow> take n a = take n b"

lemma memeq_full: "length a = n \<Longrightarrow> length b = n \<Longrightarrow> memeq a b n \<longleftrightarrow> a = b"
  by (simp add: memeq_def)

text \<open>\<open>memchr\<close>: the index of the first occurrence of a byte.\<close>

fun memchr :: "'a list \<Rightarrow> 'a \<Rightarrow> nat option" where
  "memchr [] c = None"
| "memchr (x # xs) c = (if x = c then Some 0 else map_option Suc (memchr xs c))"

lemma memchr_None: "memchr xs c = None \<longleftrightarrow> c \<notin> set xs"
  by (induction xs) auto

lemma memchr_Some:
  "memchr xs c = Some i \<Longrightarrow> i < length xs \<and> xs ! i = c \<and> c \<notin> set (take i xs)"
  by (induction xs arbitrary: i) (auto split: if_splits)

lemma memchr_append:
  "memchr (xs @ c # ys) c = Some (length xs)" if "c \<notin> set xs"
  using that by (induction xs) auto

subsection \<open>Decimal printing (printf \<open>%d\<close>, \<open>%i\<close>, \<open>%u\<close> of a nonnegative number)\<close>

definition digit_char :: "nat \<Rightarrow> char" where
  "digit_char d = char_of (48 + d)"

fun decimal :: "nat \<Rightarrow> cstring" where
  "decimal n = (if n < 10 then [digit_char n] else decimal (n div 10) @ [digit_char (n mod 10)])"

declare decimal.simps [simp del]

text \<open>The value of a character as a digit of a number, for bases up to 36.\<close>

definition digit_val :: "char \<Rightarrow> nat" where
  "digit_val c =
     (let u = of_char c :: nat in
      if 48 \<le> u \<and> u \<le> 57 then u - 48
      else if 65 \<le> u \<and> u \<le> 90 then u - 55
      else if 97 \<le> u \<and> u \<le> 122 then u - 87
      else 255)"

definition digits_value :: "nat \<Rightarrow> cstring \<Rightarrow> nat" where
  "digits_value b s = foldl (\<lambda>v c. v * b + digit_val c) 0 s"

lemma of_digit_char [simp]: "d < 10 \<Longrightarrow> (of_char (digit_char d) :: nat) = 48 + d"
  by (simp add: digit_char_def)

lemma digit_val_digit_char [simp]: "d < 10 \<Longrightarrow> digit_val (digit_char d) = d"
  by (simp add: digit_val_def)

lemma digits_value_snoc: "digits_value b (s @ [c]) = digits_value b s * b + digit_val c"
  by (simp add: digits_value_def)

lemma decimal_value: "digits_value 10 (decimal n) = n"
proof (induction n rule: decimal.induct)
  case (1 n)
  show ?case
  proof (cases "n < 10")
    case True
    then show ?thesis by (simp add: decimal.simps [of n] digits_value_def)
  next
    case False
    with "1.IH" show ?thesis
      by (simp add: decimal.simps [of n] digits_value_snoc)
  qed
qed

lemma decimal_nonempty [simp]: "decimal n \<noteq> []"
  by (subst decimal.simps) simp

lemma decimal_digits: "c \<in> set (decimal n) \<Longrightarrow> \<exists>d<10. c = digit_char d"
proof (induction n rule: decimal.induct)
  case (1 n)
  show ?case
  proof (cases "n < 10")
    case True
    with "1.prems" show ?thesis by (auto simp: decimal.simps [of n])
  next
    case False
    with "1.prems" have "c \<in> set (decimal (n div 10)) \<or> c = digit_char (n mod 10)"
      by (auto simp: decimal.simps [of n])
    with False "1.IH" show ?thesis by (auto intro: exI [of _ "n mod 10"])
  qed
qed

lemma decimal_digit_val: "c \<in> set (decimal n) \<Longrightarrow> digit_val c < 10"
  by (auto dest: decimal_digits)

lemma decimal_length: "n < 10 ^ k \<Longrightarrow> 0 < k \<Longrightarrow> length (decimal n) \<le> k"
proof (induction n arbitrary: k rule: decimal.induct)
  case (1 n)
  show ?case
  proof (cases "n < 10")
    case True
    with "1.prems" show ?thesis by (simp add: decimal.simps [of n])
  next
    case False
    with "1.prems" obtain j where k: "k = Suc j" "0 < j"
      by (cases k; cases "k - 1") auto
    with "1.prems" have "n div 10 < 10 ^ j" by (simp add: less_mult_imp_div_less)
    with "1.IH" False k have "length (decimal (n div 10)) \<le> j" by blast
    with False k show ?thesis by (simp add: decimal.simps [of n])
  qed
qed

subsection \<open>Lists\<close>

lemma takeWhile_all_stop:
  "(\<And>x. x \<in> set xs \<Longrightarrow> P x) \<Longrightarrow> (ys = [] \<or> \<not> P (hd ys)) \<Longrightarrow> takeWhile P (xs @ ys) = xs"
  by (cases ys) (auto simp: takeWhile_append2)

lemma dropWhile_all_stop:
  "(\<And>x. x \<in> set xs \<Longrightarrow> P x) \<Longrightarrow> (ys = [] \<or> \<not> P (hd ys)) \<Longrightarrow> dropWhile P (xs @ ys) = ys"
  by (cases ys) (auto simp: dropWhile_append2)

lemma drop_take_Cons: "i < j \<Longrightarrow> j \<le> length xs \<Longrightarrow> drop i (take j xs) = xs ! i # drop (Suc i) (take j xs)"
  by (metis (no_types, lifting) Cons_nth_drop_Suc length_take min.absorb2 nth_take)

end
