(* ===== verification/Ctype.thy ===== *)
theory Ctype
  imports Prelude
begin

text \<open>
  Locale-independent character classes (lib/string/compat_ctype.c and .h): the 256-bit
  tables of the source, the lookup the TOR_IS* macros expand to, the case-mapping tables,
  and \<open>hex_decode_digit\<close>.  The lemmas give each table its meaning as a range of byte
  values; the other components use only those.
\<close>

text \<open>
  \<open>TABLE[(u >> 5) & 7] & (1u << (u & 31))\<close>, on the value \<open>u\<close> of the byte; the
  entries of a table are its 32-bit words.
\<close>

definition ctype_bit :: "nat list \<Rightarrow> nat \<Rightarrow> bool" where
  "ctype_bit table u \<longleftrightarrow> bit (table ! (u div 32 mod 8)) (u mod 32)"

definition ctype_lookup :: "nat list \<Rightarrow> char \<Rightarrow> bool" where
  "ctype_lookup table c = ctype_bit table (of_char c)"

definition TOR_ISALPHA_TABLE :: "nat list" where
  "TOR_ISALPHA_TABLE = [0, 0, 0x7fffffe, 0x7fffffe, 0, 0, 0, 0]"

definition TOR_ISALNUM_TABLE :: "nat list" where
  "TOR_ISALNUM_TABLE = [0, 0x3ff0000, 0x7fffffe, 0x7fffffe, 0, 0, 0, 0]"

definition TOR_ISSPACE_TABLE :: "nat list" where
  "TOR_ISSPACE_TABLE = [0x3e00, 0x1, 0, 0, 0, 0, 0, 0]"

definition TOR_ISXDIGIT_TABLE :: "nat list" where
  "TOR_ISXDIGIT_TABLE = [0, 0x3ff0000, 0x7e, 0x7e, 0, 0, 0, 0]"

definition TOR_ISDIGIT_TABLE :: "nat list" where
  "TOR_ISDIGIT_TABLE = [0, 0x3ff0000, 0, 0, 0, 0, 0, 0]"

definition TOR_ISPRINT_TABLE :: "nat list" where
  "TOR_ISPRINT_TABLE = [0, 0xffffffff, 0xffffffff, 0x7fffffff, 0, 0, 0, 0x0]"

definition TOR_ISUPPER_TABLE :: "nat list" where
  "TOR_ISUPPER_TABLE = [0, 0, 0x7fffffe, 0, 0, 0, 0, 0]"

definition TOR_ISLOWER_TABLE :: "nat list" where
  "TOR_ISLOWER_TABLE = [0, 0, 0, 0x7fffffe, 0, 0, 0, 0]"

definition TOR_ISALPHA :: "char \<Rightarrow> bool" where
  "TOR_ISALPHA c = ctype_lookup TOR_ISALPHA_TABLE c"

definition TOR_ISALNUM :: "char \<Rightarrow> bool" where
  "TOR_ISALNUM c = ctype_lookup TOR_ISALNUM_TABLE c"

definition TOR_ISSPACE :: "char \<Rightarrow> bool" where
  "TOR_ISSPACE c = ctype_lookup TOR_ISSPACE_TABLE c"

definition TOR_ISXDIGIT :: "char \<Rightarrow> bool" where
  "TOR_ISXDIGIT c = ctype_lookup TOR_ISXDIGIT_TABLE c"

definition TOR_ISDIGIT :: "char \<Rightarrow> bool" where
  "TOR_ISDIGIT c = ctype_lookup TOR_ISDIGIT_TABLE c"

definition TOR_ISPRINT :: "char \<Rightarrow> bool" where
  "TOR_ISPRINT c = ctype_lookup TOR_ISPRINT_TABLE c"

definition TOR_ISUPPER :: "char \<Rightarrow> bool" where
  "TOR_ISUPPER c = ctype_lookup TOR_ISUPPER_TABLE c"

definition TOR_ISLOWER :: "char \<Rightarrow> bool" where
  "TOR_ISLOWER c = ctype_lookup TOR_ISLOWER_TABLE c"

definition TOR_TOUPPER_TABLE :: "nat list" where
  "TOR_TOUPPER_TABLE = [
    0, 1, 2, 3, 4, 5, 6, 7, 8, 9, 10, 11, 12, 13, 14, 15,
    16, 17, 18, 19, 20, 21, 22, 23, 24, 25, 26, 27, 28, 29, 30, 31,
    32, 33, 34, 35, 36, 37, 38, 39, 40, 41, 42, 43, 44, 45, 46, 47,
    48, 49, 50, 51, 52, 53, 54, 55, 56, 57, 58, 59, 60, 61, 62, 63,
    64, 65, 66, 67, 68, 69, 70, 71, 72, 73, 74, 75, 76, 77, 78, 79,
    80, 81, 82, 83, 84, 85, 86, 87, 88, 89, 90, 91, 92, 93, 94, 95,
    96, 65, 66, 67, 68, 69, 70, 71, 72, 73, 74, 75, 76, 77, 78, 79,
    80, 81, 82, 83, 84, 85, 86, 87, 88, 89, 90, 123, 124, 125, 126, 127,
    128, 129, 130, 131, 132, 133, 134, 135, 136, 137, 138, 139, 140, 141, 142, 143,
    144, 145, 146, 147, 148, 149, 150, 151, 152, 153, 154, 155, 156, 157, 158, 159,
    160, 161, 162, 163, 164, 165, 166, 167, 168, 169, 170, 171, 172, 173, 174, 175,
    176, 177, 178, 179, 180, 181, 182, 183, 184, 185, 186, 187, 188, 189, 190, 191,
    192, 193, 194, 195, 196, 197, 198, 199, 200, 201, 202, 203, 204, 205, 206, 207,
    208, 209, 210, 211, 212, 213, 214, 215, 216, 217, 218, 219, 220, 221, 222, 223,
    224, 225, 226, 227, 228, 229, 230, 231, 232, 233, 234, 235, 236, 237, 238, 239,
    240, 241, 242, 243, 244, 245, 246, 247, 248, 249, 250, 251, 252, 253, 254, 255]"

definition TOR_TOUPPER :: "char \<Rightarrow> char" where
  "TOR_TOUPPER c = char_of (TOR_TOUPPER_TABLE ! of_char c)"

definition TOR_TOLOWER_TABLE :: "nat list" where
  "TOR_TOLOWER_TABLE = [
    0, 1, 2, 3, 4, 5, 6, 7, 8, 9, 10, 11, 12, 13, 14, 15,
    16, 17, 18, 19, 20, 21, 22, 23, 24, 25, 26, 27, 28, 29, 30, 31,
    32, 33, 34, 35, 36, 37, 38, 39, 40, 41, 42, 43, 44, 45, 46, 47,
    48, 49, 50, 51, 52, 53, 54, 55, 56, 57, 58, 59, 60, 61, 62, 63,
    64, 97, 98, 99, 100, 101, 102, 103, 104, 105, 106, 107, 108, 109, 110, 111,
    112, 113, 114, 115, 116, 117, 118, 119, 120, 121, 122, 91, 92, 93, 94, 95,
    96, 97, 98, 99, 100, 101, 102, 103, 104, 105, 106, 107, 108, 109, 110, 111,
    112, 113, 114, 115, 116, 117, 118, 119, 120, 121, 122, 123, 124, 125, 126, 127,
    128, 129, 130, 131, 132, 133, 134, 135, 136, 137, 138, 139, 140, 141, 142, 143,
    144, 145, 146, 147, 148, 149, 150, 151, 152, 153, 154, 155, 156, 157, 158, 159,
    160, 161, 162, 163, 164, 165, 166, 167, 168, 169, 170, 171, 172, 173, 174, 175,
    176, 177, 178, 179, 180, 181, 182, 183, 184, 185, 186, 187, 188, 189, 190, 191,
    192, 193, 194, 195, 196, 197, 198, 199, 200, 201, 202, 203, 204, 205, 206, 207,
    208, 209, 210, 211, 212, 213, 214, 215, 216, 217, 218, 219, 220, 221, 222, 223,
    224, 225, 226, 227, 228, 229, 230, 231, 232, 233, 234, 235, 236, 237, 238, 239,
    240, 241, 242, 243, 244, 245, 246, 247, 248, 249, 250, 251, 252, 253, 254, 255]"

definition TOR_TOLOWER :: "char \<Rightarrow> char" where
  "TOR_TOLOWER c = char_of (TOR_TOLOWER_TABLE ! of_char c)"

text \<open>
  \<open>hex_decode_digit\<close>: the value of a hexadecimal digit, or -1.  The cases of the switch
  are the labels with what they return.
\<close>

definition hex_digit_cases :: "(string \<times> int) list" where
  "hex_digit_cases =
     [(''0'', 0), (''1'', 1), (''2'', 2), (''3'', 3), (''4'', 4), (''5'', 5), (''6'', 6),
      (''7'', 7), (''8'', 8), (''9'', 9), (''Aa'', 10), (''Bb'', 11), (''Cc'', 12),
      (''Dd'', 13), (''Ee'', 14), (''Ff'', 15)]"

definition hex_decode_digit :: "char \<Rightarrow> int" where
  "hex_decode_digit c =
     (case find (\<lambda>(labels, v). c \<in> set labels) hex_digit_cases of
        Some (labels, v) \<Rightarrow> v
      | None \<Rightarrow> - 1)"

subsection \<open>What the tables mean\<close>

text \<open>A property of all byte values is checked on the 256 of them.\<close>

lemma upt_256: "[0..<256] = 0 # 1 # [2..<256]"
  by (simp add: upt_rec [of 0] upt_rec [of "Suc 0"] numeral_2_eq_2)

lemma all_bytes: "list_all P [0..<256] \<Longrightarrow> P (of_char c :: nat)"
  by (simp add: list_all_iff)

definition byte_between :: "nat \<Rightarrow> nat \<Rightarrow> char \<Rightarrow> bool" where
  "byte_between lo hi c \<longleftrightarrow> lo \<le> (of_char c :: nat) \<and> (of_char c :: nat) \<le> hi"

lemma char_eq_iff_byte: "(c = d) = (of_char c = (of_char d :: nat))"
  by simp

lemma ISDIGIT_bytes:
  "list_all (\<lambda>n. ctype_bit TOR_ISDIGIT_TABLE n = (48 \<le> n \<and> n \<le> 57)) [0..<256]"
  unfolding upt_256 by (simp add: upt_rec_numeral ctype_bit_def TOR_ISDIGIT_TABLE_def bit_iff_odd)

lemma TOR_ISDIGIT_iff: "TOR_ISDIGIT c \<longleftrightarrow> byte_between 48 57 c"
  using all_bytes [OF ISDIGIT_bytes, of c]
  by (simp add: TOR_ISDIGIT_def ctype_lookup_def byte_between_def)

lemma ISUPPER_bytes:
  "list_all (\<lambda>n. ctype_bit TOR_ISUPPER_TABLE n = (65 \<le> n \<and> n \<le> 90)) [0..<256]"
  unfolding upt_256 by (simp add: upt_rec_numeral ctype_bit_def TOR_ISUPPER_TABLE_def bit_iff_odd)

lemma TOR_ISUPPER_iff: "TOR_ISUPPER c \<longleftrightarrow> byte_between 65 90 c"
  using all_bytes [OF ISUPPER_bytes, of c]
  by (simp add: TOR_ISUPPER_def ctype_lookup_def byte_between_def)

lemma ISLOWER_bytes:
  "list_all (\<lambda>n. ctype_bit TOR_ISLOWER_TABLE n = (97 \<le> n \<and> n \<le> 122)) [0..<256]"
  unfolding upt_256 by (simp add: upt_rec_numeral ctype_bit_def TOR_ISLOWER_TABLE_def bit_iff_odd)

lemma TOR_ISLOWER_iff: "TOR_ISLOWER c \<longleftrightarrow> byte_between 97 122 c"
  using all_bytes [OF ISLOWER_bytes, of c]
  by (simp add: TOR_ISLOWER_def ctype_lookup_def byte_between_def)

lemma ISALPHA_bytes:
  "list_all (\<lambda>n. ctype_bit TOR_ISALPHA_TABLE n = (65 \<le> n \<and> n \<le> 90 \<or> 97 \<le> n \<and> n \<le> 122)) [0..<256]"
  unfolding upt_256 by (simp add: upt_rec_numeral ctype_bit_def TOR_ISALPHA_TABLE_def bit_iff_odd)

lemma TOR_ISALPHA_iff: "TOR_ISALPHA c \<longleftrightarrow> byte_between 65 90 c \<or> byte_between 97 122 c"
  using all_bytes [OF ISALPHA_bytes, of c]
  by (simp add: TOR_ISALPHA_def ctype_lookup_def byte_between_def)

lemma ISALNUM_bytes:
  "list_all (\<lambda>n. ctype_bit TOR_ISALNUM_TABLE n = (48 \<le> n \<and> n \<le> 57 \<or> 65 \<le> n \<and> n \<le> 90 \<or> 97 \<le> n \<and> n \<le> 122)) [0..<256]"
  unfolding upt_256 by (simp add: upt_rec_numeral ctype_bit_def TOR_ISALNUM_TABLE_def bit_iff_odd)

lemma TOR_ISALNUM_iff: "TOR_ISALNUM c \<longleftrightarrow> byte_between 48 57 c \<or> byte_between 65 90 c \<or> byte_between 97 122 c"
  using all_bytes [OF ISALNUM_bytes, of c]
  by (simp add: TOR_ISALNUM_def ctype_lookup_def byte_between_def)

lemma ISSPACE_bytes:
  "list_all (\<lambda>n. ctype_bit TOR_ISSPACE_TABLE n = (9 \<le> n \<and> n \<le> 13 \<or> 32 \<le> n \<and> n \<le> 32)) [0..<256]"
  unfolding upt_256 by (simp add: upt_rec_numeral ctype_bit_def TOR_ISSPACE_TABLE_def bit_iff_odd)

lemma TOR_ISSPACE_iff: "TOR_ISSPACE c \<longleftrightarrow> byte_between 9 13 c \<or> byte_between 32 32 c"
  using all_bytes [OF ISSPACE_bytes, of c]
  by (simp add: TOR_ISSPACE_def ctype_lookup_def byte_between_def)

lemma ISXDIGIT_bytes:
  "list_all (\<lambda>n. ctype_bit TOR_ISXDIGIT_TABLE n = (48 \<le> n \<and> n \<le> 57 \<or> 65 \<le> n \<and> n \<le> 70 \<or> 97 \<le> n \<and> n \<le> 102)) [0..<256]"
  unfolding upt_256 by (simp add: upt_rec_numeral ctype_bit_def TOR_ISXDIGIT_TABLE_def bit_iff_odd)

lemma TOR_ISXDIGIT_iff: "TOR_ISXDIGIT c \<longleftrightarrow> byte_between 48 57 c \<or> byte_between 65 70 c \<or> byte_between 97 102 c"
  using all_bytes [OF ISXDIGIT_bytes, of c]
  by (simp add: TOR_ISXDIGIT_def ctype_lookup_def byte_between_def)

lemma ISPRINT_bytes:
  "list_all (\<lambda>n. ctype_bit TOR_ISPRINT_TABLE n = (32 \<le> n \<and> n \<le> 126)) [0..<256]"
  unfolding upt_256 by (simp add: upt_rec_numeral ctype_bit_def TOR_ISPRINT_TABLE_def bit_iff_odd)

lemma TOR_ISPRINT_iff: "TOR_ISPRINT c \<longleftrightarrow> byte_between 32 126 c"
  using all_bytes [OF ISPRINT_bytes, of c]
  by (simp add: TOR_ISPRINT_def ctype_lookup_def byte_between_def)

lemma TOLOWER_table:
  "TOR_TOLOWER_TABLE = map (\<lambda>n. if 65 \<le> n \<and> n \<le> 90 then n + 32 else n) [0..<256]"
  unfolding upt_256 by (simp add: upt_rec_numeral TOR_TOLOWER_TABLE_def)

lemma TOR_TOLOWER_iff:
  "TOR_TOLOWER c = (if TOR_ISUPPER c then char_of ((of_char c :: nat) + 32) else c)"
  by (simp add: TOR_TOLOWER_def TOLOWER_table TOR_ISUPPER_iff byte_between_def)

lemma TOUPPER_table:
  "TOR_TOUPPER_TABLE = map (\<lambda>n. if 97 \<le> n \<and> n \<le> 122 then n - 32 else n) [0..<256]"
  unfolding upt_256 by (simp add: upt_rec_numeral TOR_TOUPPER_TABLE_def)

lemma TOR_TOUPPER_iff:
  "TOR_TOUPPER c = (if TOR_ISLOWER c then char_of ((of_char c :: nat) - 32) else c)"
  by (simp add: TOR_TOUPPER_def TOUPPER_table TOR_ISLOWER_iff byte_between_def)

definition hex_digit_byte :: "nat \<Rightarrow> int" where
  "hex_digit_byte u =
     (if u = 48 then 0 else if u = 49 then 1 else if u = 50 then 2 else if u = 51 then 3
      else if u = 52 then 4 else if u = 53 then 5 else if u = 54 then 6 else if u = 55 then 7
      else if u = 56 then 8 else if u = 57 then 9
      else if u = 65 \<or> u = 97 then 10 else if u = 66 \<or> u = 98 then 11
      else if u = 67 \<or> u = 99 then 12 else if u = 68 \<or> u = 100 then 13
      else if u = 69 \<or> u = 101 then 14 else if u = 70 \<or> u = 102 then 15 else - 1)"

lemma hex_digit_bytes:
  "list_all (\<lambda>n. hex_digit_byte n =
     (if 48 \<le> n \<and> n \<le> 57 then int n - 48 else if 65 \<le> n \<and> n \<le> 70 then int n - 55
      else if 97 \<le> n \<and> n \<le> 102 then int n - 87 else - 1)) [0..<256]"
  unfolding upt_256 by (simp add: upt_rec_numeral hex_digit_byte_def)

lemma hex_decode_digit_byte: "hex_decode_digit c = hex_digit_byte (of_char c)"
  by (simp add: hex_decode_digit_def hex_digit_cases_def hex_digit_byte_def char_eq_iff_byte [of c]
      del: of_char_eq_iff)

lemma hex_decode_digit_iff:
  "hex_decode_digit c = (if TOR_ISXDIGIT c then int (digit_val c) else - 1)"
  using all_bytes [OF hex_digit_bytes, of c]
  by (simp add: hex_decode_digit_byte TOR_ISXDIGIT_iff byte_between_def digit_val_def Let_def)

lemma hex_decode_digit_bounds: "- 1 \<le> hex_decode_digit c \<and> hex_decode_digit c < 16"
  by (simp add: hex_decode_digit_byte hex_digit_byte_def)

lemma TOR_ISDIGIT_digit_val: "TOR_ISDIGIT c \<longleftrightarrow> digit_val c < 10"
  by (auto simp: TOR_ISDIGIT_iff byte_between_def digit_val_def Let_def)

lemma TOR_ISDIGIT_digit_char [simp]: "d < 10 \<Longrightarrow> TOR_ISDIGIT (digit_char d)"
  by (simp add: TOR_ISDIGIT_digit_val)

lemma TOR_ISDIGIT_decimal: "c \<in> set (decimal n) \<Longrightarrow> TOR_ISDIGIT c"
  by (simp add: TOR_ISDIGIT_digit_val decimal_digit_val)

lemma TOR_ISDIGIT_not_space: "TOR_ISDIGIT c \<Longrightarrow> \<not> TOR_ISSPACE c"
  by (auto simp: TOR_ISDIGIT_iff TOR_ISSPACE_iff byte_between_def)

end
