(* ===== verification/Parse_Int.thy ===== *)
theory Parse_Int
  imports Ctype
begin

text \<open>
  Bounds-checked integer parsing (lib/string/parse_int.c).  \<open>strtol\<close>, \<open>strtoul\<close>
  and \<open>strtoull\<close> are the C library's, on an LP64 platform and for the bases the
  C standard gives a meaning (0 and 2 to 36): they return the value, whether
  \<open>errno\<close> was set to ERANGE, and the end pointer (the rest of the string).
  \<open>tor_parse_double\<close> is left out: it needs \<open>strtod\<close>.
\<close>

definition LONG_MAX :: int where "LONG_MAX = 9223372036854775807"
definition LONG_MIN :: int where "LONG_MIN = - 9223372036854775808"
definition ULONG_MAX :: int where "ULONG_MAX = 18446744073709551615"

text \<open>Leading white space and sign.\<close>

definition strtox_sign :: "cstring \<Rightarrow> bool \<times> cstring" where
  "strtox_sign s =
     (let t = dropWhile TOR_ISSPACE s
      in if cur t = CHR ''-'' then (True, tl t)
         else if cur t = CHR ''+'' then (False, tl t)
         else (False, t))"

text \<open>The base, with the prefixes of base 0 and base 16.\<close>

definition strtox_base :: "int \<Rightarrow> cstring \<Rightarrow> nat \<times> cstring" where
  "strtox_base base s =
     (if (base = 0 \<or> base = 16) \<and> cur s = CHR ''0''
         \<and> (cur (tl s) = CHR ''x'' \<or> cur (tl s) = CHR ''X'') \<and> TOR_ISXDIGIT (cur (tl (tl s)))
      then (16, tl (tl s))
      else if base = 0 then (if cur s = CHR ''0'' then (8, s) else (10, s))
      else (nat base, s))"

text \<open>Sign, magnitude and end pointer; \<open>None\<close> when no digit could be converted.\<close>

definition strtox :: "cstring \<Rightarrow> int \<Rightarrow> (bool \<times> nat \<times> cstring) option" where
  "strtox s base =
     (let (neg, t) = strtox_sign s;
          (b, u) = strtox_base base t;
          ds = takeWhile (\<lambda>c. digit_val c < b) u
      in if ds = [] then None
         else Some (neg, digits_value b ds, dropWhile (\<lambda>c. digit_val c < b) u))"

definition strtol :: "cstring \<Rightarrow> int \<Rightarrow> int \<times> bool \<times> cstring" where
  "strtol s base =
     (case strtox s base of None \<Rightarrow> (0, False, s)
      | Some (neg, m, rest) \<Rightarrow>
          let v = (if neg then - int m else int m)
          in if v > LONG_MAX then (LONG_MAX, True, rest)
             else if v < LONG_MIN then (LONG_MIN, True, rest)
             else (v, False, rest))"

definition strtoul :: "cstring \<Rightarrow> int \<Rightarrow> int \<times> bool \<times> cstring" where
  "strtoul s base =
     (case strtox s base of None \<Rightarrow> (0, False, s)
      | Some (neg, m, rest) \<Rightarrow>
          if int m > ULONG_MAX then (ULONG_MAX, True, rest)
          else ((if neg then - int m mod (ULONG_MAX + 1) else int m), False, rest))"

text \<open>
  What a \<open>tor_parse_*\<close> call leaves: the \<open>*ok\<close> flag, the return value and what is
  stored in \<open>*next\<close> (\<open>None\<close> when it is not written).
\<close>

record parse_result =
  pr_ok :: bool
  pr_val :: int
  pr_next :: "cstring option"

text \<open>The macro CHECK_STRTOX_RESULT; \<open>nxt\<close> says whether the caller passed a next pointer.\<close>

definition CHECK_STRTOX_RESULT ::
  "cstring \<Rightarrow> int \<Rightarrow> int \<Rightarrow> bool \<Rightarrow> int \<times> bool \<times> cstring \<Rightarrow> parse_result" where
  "CHECK_STRTOX_RESULT s mn mx nxt = (\<lambda>(r, erange, endptr).
     let next_out = (if nxt then Some endptr else None);
         err = \<lparr>pr_ok = False, pr_val = 0, pr_next = next_out\<rparr>
     in if erange then err
        else if length endptr = length s then err
        else if \<not> nxt \<and> cur endptr \<noteq> NUL then err
        else if mx < mn then err
        else if r < mn \<or> r > mx then err
        else \<lparr>pr_ok = True, pr_val = r, pr_next = next_out\<rparr>)"

definition tor_parse_long :: "cstring \<Rightarrow> int \<Rightarrow> int \<Rightarrow> int \<Rightarrow> bool \<Rightarrow> parse_result" where
  "tor_parse_long s base mn mx nxt =
     (if base < 0 then \<lparr>pr_ok = False, pr_val = 0, pr_next = None\<rparr>
      else CHECK_STRTOX_RESULT s mn mx nxt (strtol s base))"

definition tor_parse_ulong :: "cstring \<Rightarrow> int \<Rightarrow> int \<Rightarrow> int \<Rightarrow> bool \<Rightarrow> parse_result" where
  "tor_parse_ulong s base mn mx nxt =
     (if base < 0 then \<lparr>pr_ok = False, pr_val = 0, pr_next = None\<rparr>
      else CHECK_STRTOX_RESULT s mn mx nxt (strtoul s base))"

text \<open>On LP64, \<open>strtoull\<close> is \<open>strtoul\<close>.\<close>

definition tor_parse_uint64 :: "cstring \<Rightarrow> int \<Rightarrow> int \<Rightarrow> int \<Rightarrow> bool \<Rightarrow> parse_result" where
  "tor_parse_uint64 s base mn mx nxt =
     (if base < 0 then \<lparr>pr_ok = False, pr_val = 0, pr_next = None\<rparr>
      else CHECK_STRTOX_RESULT s mn mx nxt (strtoul s base))"

subsection \<open>Properties\<close>

lemma check_ok_bounds:
  "pr_ok (CHECK_STRTOX_RESULT s lo hi nx res) \<Longrightarrow>
     lo \<le> pr_val (CHECK_STRTOX_RESULT s lo hi nx res) \<and> pr_val (CHECK_STRTOX_RESULT s lo hi nx res) \<le> hi"
  by (cases res) (auto simp: CHECK_STRTOX_RESULT_def Let_def split: if_splits)

lemma check_fail_zero:
  "\<not> pr_ok (CHECK_STRTOX_RESULT s lo hi nx res) \<Longrightarrow> pr_val (CHECK_STRTOX_RESULT s lo hi nx res) = 0"
  by (cases res) (auto simp: CHECK_STRTOX_RESULT_def Let_def split: if_splits)

lemma cur_not_sign: "TOR_ISDIGIT c \<Longrightarrow> c \<noteq> CHR ''-'' \<and> c \<noteq> CHR ''+''"
  by (auto simp: TOR_ISDIGIT_iff byte_between_def)

lemma NUL_digit [simp]: "\<not> TOR_ISDIGIT NUL"
  by (simp add: TOR_ISDIGIT_iff byte_between_def NUL_def)

text \<open>A string that starts with a digit is read as the number of its leading digits.\<close>

lemma strtox_digit:
  assumes "TOR_ISDIGIT (cur s)"
  shows "strtox s 10 = Some (False, digits_value 10 (takeWhile TOR_ISDIGIT s), dropWhile TOR_ISDIGIT s)"
proof (cases s)
  case Nil
  with assms show ?thesis by simp
next
  case (Cons c t)
  with assms have c: "TOR_ISDIGIT c" by simp
  have sign: "strtox_sign s = (False, s)"
    using Cons c by (simp add: strtox_sign_def TOR_ISDIGIT_not_space cur_not_sign)
  have dig: "(\<lambda>c. digit_val c < 10) = TOR_ISDIGIT"
    by (simp add: fun_eq_iff TOR_ISDIGIT_digit_val)
  have "takeWhile TOR_ISDIGIT s \<noteq> []"
    using Cons c by simp
  then show ?thesis
    by (simp add: strtox_def sign strtox_base_def dig)
qed

lemma digits_split:
  assumes "rest = [] \<or> \<not> TOR_ISDIGIT (hd rest)"
  shows "takeWhile TOR_ISDIGIT (decimal n @ rest) = decimal n"
    and "dropWhile TOR_ISDIGIT (decimal n @ rest) = rest"
  using assms TOR_ISDIGIT_decimal
  by (blast intro: takeWhile_all_stop dropWhile_all_stop)+

lemma cur_decimal: "TOR_ISDIGIT (cur (decimal n @ rest))"
proof (cases "decimal n")
  case Nil
  then show ?thesis by simp
next
  case (Cons c t)
  then show ?thesis using TOR_ISDIGIT_decimal [of c n] by simp
qed

lemma strtox_decimal:
  assumes "rest = [] \<or> \<not> TOR_ISDIGIT (hd rest)"
  shows "strtox (decimal n @ rest) 10 = Some (False, n, rest)"
  by (simp add: strtox_digit cur_decimal digits_split [OF assms] decimal_value)

text \<open>Printing a number and parsing it back gives the number and the text after it.\<close>

lemma tor_parse_long_decimal:
  assumes "rest = [] \<or> \<not> TOR_ISDIGIT (hd rest)" and "lo \<le> int n" and "int n \<le> hi" and "hi \<le> LONG_MAX"
  shows "tor_parse_long (decimal n @ rest) 10 lo hi True
           = \<lparr>pr_ok = True, pr_val = int n, pr_next = Some rest\<rparr>"
  using assms
  by (simp add: tor_parse_long_def strtol_def strtox_decimal CHECK_STRTOX_RESULT_def Let_def LONG_MIN_def)

lemma tor_parse_ulong_decimal:
  assumes "rest = [] \<or> \<not> TOR_ISDIGIT (hd rest)" and "lo \<le> int n" and "int n \<le> hi" and "hi \<le> ULONG_MAX"
  shows "tor_parse_ulong (decimal n @ rest) 10 lo hi True
           = \<lparr>pr_ok = True, pr_val = int n, pr_next = Some rest\<rparr>"
  using assms
  by (simp add: tor_parse_ulong_def strtoul_def strtox_decimal CHECK_STRTOX_RESULT_def Let_def)

text \<open>
  The whole contract of \<open>tor_parse_long\<close> on a string that starts with a digit: it
  succeeds exactly when the number is within bounds.
\<close>

lemma tor_parse_long_digit:
  assumes "TOR_ISDIGIT (cur s)" and "0 \<le> lo" and "hi \<le> LONG_MAX" and "lo \<le> hi"
  defines "v \<equiv> int (digits_value 10 (takeWhile TOR_ISDIGIT s))"
  shows "tor_parse_long s 10 lo hi True =
           (let rest = dropWhile TOR_ISDIGIT s
            in if lo \<le> v \<and> v \<le> hi then \<lparr>pr_ok = True, pr_val = v, pr_next = Some rest\<rparr>
               else \<lparr>pr_ok = False, pr_val = 0, pr_next = Some rest\<rparr>)"
proof -
  obtain c t where s: "s = c # t" and c: "TOR_ISDIGIT c"
    using assms(1) by (cases s) auto
  then have "length (dropWhile TOR_ISDIGIT s) \<noteq> length s"
    using length_dropWhile_le [of TOR_ISDIGIT t] by simp
  then show ?thesis
    using assms
    by (auto simp: tor_parse_long_def strtol_def strtox_digit CHECK_STRTOX_RESULT_def Let_def LONG_MIN_def)
qed

lemma check_decimal:
  assumes "hi \<le> M" "lo \<le> hi" "NUL \<notin> set rest"
  shows "CHECK_STRTOX_RESULT (decimal n @ rest) lo hi nxt
      (if int n > M then (M, True, rest) else (int n, False, rest)) =
    \<lparr>pr_ok = (lo \<le> int n \<and> int n \<le> hi \<and> (nxt \<or> rest = [])),
     pr_val = (if lo \<le> int n \<and> int n \<le> hi \<and> (nxt \<or> rest = []) then int n else 0),
     pr_next = (if nxt then Some rest else None)\<rparr>"
proof -
  have "cur rest = NUL \<longleftrightarrow> rest = []" using assms(3) by (cases rest) auto
  then show ?thesis using assms(1,2) by (simp add: CHECK_STRTOX_RESULT_def Let_def)
qed

text \<open>The bounded decimal parsers of parse_int.c.  A number printed in decimal, with anything
  but a digit after it, is read back by tor_parse_long, tor_parse_ulong and tor_parse_uint64 as that
  number with the rest as *next when it lies within [min, max]; otherwise they report failure and
  return 0, and without a next pointer they accept it only when nothing follows.\<close>

theorem tor_parse_decimal_contract:
  assumes "rest = [] \<or> \<not> TOR_ISDIGIT (hd rest)" "NUL \<notin> set rest"
    and "0 \<le> lo" "lo \<le> hi" "hi \<le> LONG_MAX" "parse \<in> {tor_parse_long, tor_parse_ulong, tor_parse_uint64}"
  shows "parse (decimal n @ rest) 10 lo hi True =
      (if lo \<le> int n \<and> int n \<le> hi then \<lparr>pr_ok = True, pr_val = int n, pr_next = Some rest\<rparr>
       else \<lparr>pr_ok = False, pr_val = 0, pr_next = Some rest\<rparr>)
    \<and> parse (decimal n @ rest) 10 lo hi False =
      \<lparr>pr_ok = (lo \<le> int n \<and> int n \<le> hi \<and> rest = []),
       pr_val = (if lo \<le> int n \<and> int n \<le> hi \<and> rest = [] then int n else 0), pr_next = None\<rparr>"
proof -
  have l: "strtol (decimal n @ rest) 10 =
      (if int n > LONG_MAX then (LONG_MAX, True, rest) else (int n, False, rest))"
    and u: "strtoul (decimal n @ rest) 10 =
      (if int n > ULONG_MAX then (ULONG_MAX, True, rest) else (int n, False, rest))"
    by (simp_all add: strtol_def strtoul_def strtox_decimal [OF assms(1)] LONG_MIN_def)
  have "hi \<le> ULONG_MAX" using assms(5) by (simp add: LONG_MAX_def ULONG_MAX_def)
  then have c: "CHECK_STRTOX_RESULT (decimal n @ rest) lo hi nxt (strtol (decimal n @ rest) 10) =
      CHECK_STRTOX_RESULT (decimal n @ rest) lo hi nxt (strtoul (decimal n @ rest) 10)" for nxt
    unfolding l u check_decimal [OF assms(5,4,2)] by (simp only: check_decimal [OF _ assms(4,2)])
  have "parse (decimal n @ rest) 10 lo hi nxt =
      CHECK_STRTOX_RESULT (decimal n @ rest) lo hi nxt (strtol (decimal n @ rest) 10)" for nxt
    using assms(6) c by (auto simp: tor_parse_long_def tor_parse_ulong_def tor_parse_uint64_def)
  then show ?thesis unfolding l check_decimal [OF assms(5,4,2)] by simp
qed

theorem tor_parse_decimal_contract_witness:
  "tor_parse_long (decimal 42 @ '', x'') 10 0 100 True = \<lparr>pr_ok = True, pr_val = 42, pr_next = Some '', x''\<rparr>"
  using tor_parse_decimal_contract [of "'', x''" 0 100 tor_parse_long 42]
  by (simp add: TOR_ISDIGIT_iff byte_between_def LONG_MAX_def NUL_def)

end
