(* ===== verification/Smartlist.thy ===== *)
theory Smartlist
  imports Ctype "HOL-Library.Sublist"
begin

text \<open>
  The resizeable array (lib/smartlist_core, lib/container/smartlist.c): a smartlist is
  the list of its \<open>num_used\<close> elements, and two elements are the same pointer when they
  are equal.  A failed assertion of the source is \<open>None\<close>.  The loops are the source's,
  index by index; the lemmas give each the list function it computes.
  The heap-structured smartlists are in the theory Pqueue.
\<close>

subsection \<open>Core operations (smartlist_core.c)\<close>

definition smartlist_add :: "'a list \<Rightarrow> 'a \<Rightarrow> 'a list" where
  "smartlist_add sl element = sl @ [element]"

definition smartlist_add_all :: "'a list \<Rightarrow> 'a list \<Rightarrow> 'a list" where
  "smartlist_add_all s1 s2 = s1 @ s2"

text \<open>\<open>sl->list[i] = sl->list[--sl->num_used]\<close>: the last element takes the place of the i-th.\<close>

definition swap_with_end :: "'a list \<Rightarrow> nat \<Rightarrow> 'a list" where
  "swap_with_end sl i = (butlast sl)[i := last sl]"

definition smartlist_del :: "'a list \<Rightarrow> nat \<Rightarrow> 'a list option" where
  "smartlist_del sl idx = (if idx < length sl then Some (swap_with_end sl idx) else None)"

definition smartlist_del_keeporder :: "'a list \<Rightarrow> nat \<Rightarrow> 'a list option" where
  "smartlist_del_keeporder sl idx =
     (if idx < length sl then Some (take idx sl @ drop (idx + 1) sl) else None)"

definition smartlist_insert :: "'a list \<Rightarrow> nat \<Rightarrow> 'a \<Rightarrow> 'a list option" where
  "smartlist_insert sl idx val =
     (if idx \<le> length sl then
        (if idx = length sl then Some (smartlist_add sl val)
         else Some (take idx sl @ [val] @ drop idx sl))
      else None)"

definition smartlist_pop_last :: "'a list \<Rightarrow> 'a option \<times> 'a list" where
  "smartlist_pop_last sl = (if sl = [] then (None, sl) else (Some (last sl), butlast sl))"

fun smartlist_contains :: "'a list \<Rightarrow> 'a \<Rightarrow> bool" where
  "smartlist_contains [] element = False"
| "smartlist_contains (x # xs) element = (if x = element then True else smartlist_contains xs element)"

text \<open>
  The removal loop of \<open>smartlist_remove\<close>, \<open>smartlist_string_remove\<close> and
  \<open>smartlist_intersect\<close>: on a hit the end of the list is swapped in and the same index
  is looked at again.
\<close>

function remove_swap_loop :: "('a \<Rightarrow> bool) \<Rightarrow> 'a list \<Rightarrow> nat \<Rightarrow> 'a list" where
  "remove_swap_loop hit sl i =
     (if i < length sl then
        (if hit (sl ! i) then remove_swap_loop hit (swap_with_end sl i) i
         else remove_swap_loop hit sl (i + 1))
      else sl)"
  by pat_completeness auto
termination
  by (relation "measure (\<lambda>(hit, sl, i). length sl - i)") (auto simp: swap_with_end_def)

declare remove_swap_loop.simps [simp del]

text \<open>A \<open>NULL\<close> element is \<open>None\<close>: nothing is removed.\<close>

definition smartlist_remove :: "'a list \<Rightarrow> 'a option \<Rightarrow> 'a list" where
  "smartlist_remove sl element =
     (case element of None \<Rightarrow> sl | Some e \<Rightarrow> remove_swap_loop (\<lambda>x. x = e) sl 0)"

definition smartlist_string_remove :: "cstring list \<Rightarrow> cstring \<Rightarrow> cstring list" where
  "smartlist_string_remove sl element = remove_swap_loop (\<lambda>x. element = x) sl 0"

text \<open>
  \<open>smartlist_remove_keeporder\<close>: reads at \<open>j\<close>, writes at \<open>i \<le> j\<close>, in place, and
  then shortens the list.
\<close>

function remove_keeporder_loop :: "'a \<Rightarrow> 'a list \<Rightarrow> nat \<Rightarrow> nat \<Rightarrow> 'a list" where
  "remove_keeporder_loop e sl i j =
     (if j < length sl then
        (if sl ! j = e then remove_keeporder_loop e sl i (j + 1)
         else remove_keeporder_loop e (sl[i := sl ! j]) (i + 1) (j + 1))
      else take i sl)"
  by pat_completeness auto
termination
  by (relation "measure (\<lambda>(e, sl, i, j). length sl - j)") auto

declare remove_keeporder_loop.simps [simp del]

definition smartlist_remove_keeporder :: "'a list \<Rightarrow> 'a option \<Rightarrow> 'a list" where
  "smartlist_remove_keeporder sl element =
     (case element of None \<Rightarrow> sl | Some e \<Rightarrow> remove_keeporder_loop e sl 0 0)"

subsection \<open>Splitting a string (smartlist_split.c)\<close>

fun strstr :: "cstring \<Rightarrow> cstring \<Rightarrow> nat option" where
  "strstr s p = (if prefix p s then Some 0
     else case s of [] \<Rightarrow> None | _ # t \<Rightarrow> map_option Suc (strstr t p))"

declare strstr.simps [simp del]

definition is_hspace :: "char \<Rightarrow> bool" where
  "is_hspace c \<longleftrightarrow> c = CHR 0x09 \<or> c = CHR '' ''"

definition strip_right :: "cstring \<Rightarrow> cstring" where
  "strip_right s = rev (dropWhile TOR_ISSPACE (rev s))"

definition tor_strstrip_spaces :: "cstring \<Rightarrow> cstring" where
  "tor_strstrip_spaces s = filter (\<lambda>c. c \<noteq> CHR '' '') s"

record split_flags =
  SPLIT_SKIP_SPACE :: bool
  SPLIT_IGNORE_BLANK :: bool
  SPLIT_STRIP_SPACE :: bool

text \<open>
  The loop of \<open>smartlist_split_string\<close> from the position \<open>cp\<close> on, with \<open>n\<close> pieces
  already added: where the piece ends, where the next one starts (\<open>None\<close> for \<open>NULL\<close>),
  and the piece after stripping.  With an empty separator the position never advances, so
  the loop is defined by its equation only; \<open>None\<close> is not returning.
\<close>

definition split_end :: "cstring option \<Rightarrow> int \<Rightarrow> cstring \<Rightarrow> nat \<Rightarrow> nat" where
  "split_end sep max_n cp n =
     (if max_n > 0 \<and> int n = max_n - 1 then length cp
      else case sep of
        Some p \<Rightarrow> (case strstr cp p of None \<Rightarrow> length cp | Some i \<Rightarrow> i)
      | None \<Rightarrow> length (takeWhile (\<lambda>c. \<not> is_hspace c) cp))"

definition split_next :: "cstring option \<Rightarrow> cstring \<Rightarrow> nat \<Rightarrow> cstring option" where
  "split_next sep cp e =
     (if e \<ge> length cp then None
      else case sep of
        Some p \<Rightarrow> Some (drop (e + length p) cp)
      | None \<Rightarrow> Some (dropWhile is_hspace (drop (e + 1) cp)))"

definition split_piece :: "split_flags \<Rightarrow> cstring \<Rightarrow> nat \<Rightarrow> cstring list" where
  "split_piece flags cp e =
     (let piece = take e cp;
          piece = (if SPLIT_SKIP_SPACE flags then strip_right piece else piece)
      in if piece \<noteq> [] \<or> \<not> SPLIT_IGNORE_BLANK flags
         then [if SPLIT_STRIP_SPACE flags then tor_strstrip_spaces piece else piece]
         else [])"

partial_function (option) split_loop ::
  "cstring option \<Rightarrow> split_flags \<Rightarrow> int \<Rightarrow> cstring \<Rightarrow> nat \<Rightarrow> cstring list option" where
  "split_loop sep flags max_n cp n =
     (let cp = (if SPLIT_SKIP_SPACE flags then dropWhile TOR_ISSPACE cp else cp);
          e = split_end sep max_n cp n;
          out = split_piece flags cp e
      in case split_next sep cp e of
           None \<Rightarrow> Some out
         | Some cp' \<Rightarrow> Option.bind (split_loop sep flags max_n cp' (n + length out)) (\<lambda>r. Some (out @ r)))"

definition smartlist_split_string ::
  "cstring list \<Rightarrow> cstring \<Rightarrow> cstring option \<Rightarrow> split_flags \<Rightarrow> int \<Rightarrow> (cstring list \<times> nat) option" where
  "smartlist_split_string sl str sep flags max_n =
     (case split_loop sep flags max_n str 0 of
        None \<Rightarrow> None | Some r \<Rightarrow> Some (sl @ r, length r))"

subsection \<open>Container operations (smartlist.c)\<close>

text \<open>The swap loop of \<open>smartlist_reverse\<close>; \<open>j\<close> is an \<open>int\<close>, -1 for an empty list.\<close>

function reverse_loop :: "'a list \<Rightarrow> int \<Rightarrow> int \<Rightarrow> 'a list" where
  "reverse_loop sl i j =
     (if i < j then
        reverse_loop (sl[nat i := sl ! nat j, nat j := sl ! nat i]) (i + 1) (j - 1)
      else sl)"
  by pat_completeness auto
termination
  by (relation "measure (\<lambda>(sl, i, j). nat (j - i))") auto

declare reverse_loop.simps [simp del]

definition smartlist_reverse :: "'a list \<Rightarrow> 'a list" where
  "smartlist_reverse sl = reverse_loop sl 0 (int (length sl) - 1)"

text \<open>
  \<open>smartlist_pos\<close>, \<open>smartlist_string_pos\<close>: the index of the first match or -1;
  \<open>smartlist_contains_string\<close>.  The list pointer may be \<open>NULL\<close> (\<open>None\<close>).
\<close>

fun pos_loop :: "('a \<Rightarrow> bool) \<Rightarrow> 'a list \<Rightarrow> int \<Rightarrow> int" where
  "pos_loop hit [] i = - 1"
| "pos_loop hit (x # xs) i = (if hit x then i else pos_loop hit xs (i + 1))"

definition smartlist_pos :: "'a list option \<Rightarrow> 'a \<Rightarrow> int" where
  "smartlist_pos sl element =
     (case sl of None \<Rightarrow> - 1 | Some xs \<Rightarrow> pos_loop (\<lambda>x. element = x) xs 0)"

definition smartlist_string_pos :: "cstring list option \<Rightarrow> cstring \<Rightarrow> int" where
  "smartlist_string_pos sl element =
     (case sl of None \<Rightarrow> - 1 | Some xs \<Rightarrow> pos_loop (\<lambda>x. x = element) xs 0)"

definition smartlist_contains_string :: "cstring list option \<Rightarrow> cstring \<Rightarrow> bool" where
  "smartlist_contains_string sl element =
     (case sl of None \<Rightarrow> False | Some xs \<Rightarrow> smartlist_contains xs element)"

definition smartlist_overlap :: "'a list \<Rightarrow> 'a list \<Rightarrow> bool" where
  "smartlist_overlap sl1 sl2 = list_ex (\<lambda>x. smartlist_contains sl1 x) sl2"

definition smartlist_intersect :: "'a list \<Rightarrow> 'a list \<Rightarrow> 'a list" where
  "smartlist_intersect sl1 sl2 = remove_swap_loop (\<lambda>x. \<not> smartlist_contains sl2 x) sl1 0"

definition smartlist_subtract :: "'a list \<Rightarrow> 'a list \<Rightarrow> 'a list" where
  "smartlist_subtract sl1 sl2 = foldl (\<lambda>s x. smartlist_remove s (Some x)) sl1 sl2"

text \<open>Element-wise equality of two possibly \<open>NULL\<close> lists.\<close>

definition smartlist_strings_eq :: "cstring list option \<Rightarrow> cstring list option \<Rightarrow> bool" where
  "smartlist_strings_eq sl1 sl2 =
     (case sl1 of None \<Rightarrow> sl2 = None
      | Some a \<Rightarrow> (case sl2 of None \<Rightarrow> False
         | Some b \<Rightarrow> if length a \<noteq> length b then False
                   else list_all (\<lambda>i. a ! i = b ! i) [0..<length a]))"

text \<open>
  \<open>smartlist_join_strings2\<close>: the size computed for the allocation, and the bytes
  written.
\<close>

fun join_size_loop :: "cstring list \<Rightarrow> nat \<Rightarrow> nat" where
  "join_size_loop [] join_len = 0"
| "join_size_loop (x # xs) join_len =
     length x + (if xs \<noteq> [] then join_len else 0) + join_size_loop xs join_len"

definition join_alloc_size :: "cstring list \<Rightarrow> cstring \<Rightarrow> bool \<Rightarrow> nat" where
  "join_alloc_size sl join terminate =
     (if terminate then length join else 0) + join_size_loop sl (length join) + 1"

fun join_loop :: "cstring list \<Rightarrow> cstring \<Rightarrow> cstring" where
  "join_loop [] join = []"
| "join_loop (x # xs) join = x @ (if xs \<noteq> [] then join @ join_loop xs join else [])"

definition smartlist_join_strings2 :: "cstring list \<Rightarrow> cstring \<Rightarrow> bool \<Rightarrow> cstring" where
  "smartlist_join_strings2 sl join terminate =
     join_loop sl join @ (if terminate then join else [])"

definition smartlist_join_strings :: "cstring list \<Rightarrow> cstring \<Rightarrow> bool \<Rightarrow> cstring" where
  "smartlist_join_strings sl join terminate = smartlist_join_strings2 sl join terminate"

text \<open>
  \<open>smartlist_get_most_frequent_\<close>: the state of the loop is the candidate, its count,
  the current run and its count.
\<close>

fun most_frequent_loop ::
  "('a \<Rightarrow> 'a \<Rightarrow> int) \<Rightarrow> 'a list \<Rightarrow> 'a option \<Rightarrow> nat \<Rightarrow> 'a option \<Rightarrow> nat \<Rightarrow> 'a option \<times> nat" where
  "most_frequent_loop cmp [] best bestn run n =
     (if run \<noteq> None \<and> n \<ge> bestn then (run, n) else (best, bestn))"
| "most_frequent_loop cmp (item # xs) best bestn run n =
     (case run of
        Some c \<Rightarrow>
          if cmp c item = 0 then most_frequent_loop cmp xs best bestn run (n + 1)
          else if n \<ge> bestn then most_frequent_loop cmp xs run n (Some item) 1
          else most_frequent_loop cmp xs best bestn (Some item) 1
      | None \<Rightarrow> most_frequent_loop cmp xs best bestn (Some item) 1)"

definition smartlist_get_most_frequent :: "('a \<Rightarrow> 'a \<Rightarrow> int) \<Rightarrow> 'a list \<Rightarrow> 'a option \<times> nat" where
  "smartlist_get_most_frequent cmp sl =
     (if sl = [] then (None, 0) else most_frequent_loop cmp sl None 0 None 0)"

text \<open>\<open>smartlist_uniq\<close>: an element equal to the one before it is deleted in place.\<close>

function uniq_loop :: "('a \<Rightarrow> 'a \<Rightarrow> int) \<Rightarrow> 'a list \<Rightarrow> nat \<Rightarrow> 'a list" where
  "uniq_loop cmp sl i =
     (if i < length sl then
        (if cmp (sl ! (i - 1)) (sl ! i) = 0
         then uniq_loop cmp (take i sl @ drop (i + 1) sl) i
         else uniq_loop cmp sl (i + 1))
      else sl)"
  by pat_completeness auto
termination
  by (relation "measure (\<lambda>(cmp, sl, i). length sl - i)") auto

declare uniq_loop.simps [simp del]

definition smartlist_uniq :: "('a \<Rightarrow> 'a \<Rightarrow> int) \<Rightarrow> 'a list \<Rightarrow> 'a list" where
  "smartlist_uniq cmp sl = uniq_loop cmp sl 1"

text \<open>
  \<open>smartlist_bsearch_idx\<close>: the three ways out of the loop are a match, an early return
  when the key is below every element, and falling out with the final \<open>lo\<close> and
  \<open>hi\<close>; the assertions after the loop are in \<open>smartlist_bsearch_idx\<close> itself.  \<open>cmp\<close> is
  \<open>compare(key, .)\<close>.
\<close>

datatype bsearch_exit = BFound int | BBelowAll | BFell int int

function bsearch_loop :: "('a \<Rightarrow> int) \<Rightarrow> 'a list \<Rightarrow> int \<Rightarrow> int \<Rightarrow> bsearch_exit" where
  "bsearch_loop cmp sl lo hi =
     (if lo \<le> hi then
        let mid = lo + (hi - lo) div 2; c = cmp (sl ! nat mid)
        in if c = 0 then BFound mid
           else if c > 0 then bsearch_loop cmp sl (mid + 1) hi
           else if mid > 0 then bsearch_loop cmp sl lo (mid - 1)
           else BBelowAll
      else BFell lo hi)"
  by pat_completeness auto
termination
  by (relation "measure (\<lambda>(cmp, sl, lo, hi). nat (hi - lo + 1))") auto

declare bsearch_loop.simps [simp del]

definition smartlist_bsearch_idx :: "'a list \<Rightarrow> ('a \<Rightarrow> int) \<Rightarrow> (int \<times> bool) option" where
  "smartlist_bsearch_idx sl cmp =
     (let len = int (length sl) in
      if len = 0 then Some (0, False)
      else case bsearch_loop cmp sl 0 (len - 1) of
        BFound mid \<Rightarrow> Some (mid, True)
      | BBelowAll \<Rightarrow> Some (0, False)
      | BFell lo hi \<Rightarrow>
          if lo = hi + 1 \<and> 0 \<le> lo \<and> lo \<le> len \<and> 0 \<le> hi \<and> hi \<le> len
             \<and> (if lo < len then cmp (sl ! nat lo) < 0 else cmp (sl ! nat (len - 1)) > 0)
          then Some (lo, False) else None)"

definition smartlist_bsearch :: "'a list \<Rightarrow> ('a \<Rightarrow> int) \<Rightarrow> 'a option option" where
  "smartlist_bsearch sl cmp =
     (case smartlist_bsearch_idx sl cmp of
        None \<Rightarrow> None
      | Some (idx, found) \<Rightarrow> Some (if found then Some (sl ! nat idx) else None))"

subsection \<open>Removal\<close>

lemma swap_with_end_append:
  "swap_with_end (a @ x # r) (length a) = a @ (if r = [] then [] else last r # butlast r)"
  by (auto simp: swap_with_end_def butlast_append list_update_append)

lemma mset_last_butlast: "r \<noteq> [] \<Longrightarrow> add_mset (last r) (mset (butlast r)) = mset r"
  by (metis append_butlast_last_id mset.simps(2) mset_append union_code add.commute mset_single_iff_right
      add_mset_add_single mset.simps(1))

lemma remove_swap_loop_steps:
  "length sl \<le> i \<Longrightarrow> remove_swap_loop hit sl i = sl"
  "i < length sl \<Longrightarrow> hit (sl ! i) \<Longrightarrow>
     remove_swap_loop hit sl i = remove_swap_loop hit (swap_with_end sl i) i"
  "i < length sl \<Longrightarrow> \<not> hit (sl ! i) \<Longrightarrow>
     remove_swap_loop hit sl i = remove_swap_loop hit sl (Suc i)"
  by (subst remove_swap_loop.simps, simp)+

text \<open>The loop keeps exactly the elements that are not hits, as a multiset.\<close>

lemma mset_remove_swap_loop:
  "i \<le> length sl \<Longrightarrow>
     mset (remove_swap_loop hit sl i) = mset (take i sl) + filter_mset (\<lambda>x. \<not> hit x) (mset (drop i sl))"
proof (induction hit sl i rule: remove_swap_loop.induct)
  case (1 hit sl i)
  show ?case
  proof (cases "i < length sl")
    case False
    with "1.prems" show ?thesis by (simp add: remove_swap_loop_steps)
  next
    case True
    then obtain a x r where sl: "sl = a @ x # r" and a: "length a = i"
      using id_take_nth_drop [of i sl] by (metis length_take min.absorb2 less_imp_le_nat)
    then have x: "sl ! i = x" by (simp add: nth_append)
    show ?thesis
    proof (cases "hit x")
      case hit: True
      let ?sl' = "swap_with_end sl i"
      have sl': "?sl' = a @ (if r = [] then [] else last r # butlast r)"
        using swap_with_end_append [of a x r] by (simp add: sl a)
      have "i \<le> length ?sl'" using sl' a by simp
      then have "mset (remove_swap_loop hit ?sl' i)
              = mset (take i ?sl') + filter_mset (\<lambda>x. \<not> hit x) (mset (drop i ?sl'))"
        using "1.IH"(1) True hit x by blast
      moreover have "mset (drop i ?sl') = mset r" and "take i ?sl' = a"
        using mset_last_butlast [of r] by (simp_all add: sl' a)
      ultimately show ?thesis
        using hit x remove_swap_loop_steps(2) [OF True, of hit] by (simp add: sl a)
    next
      case nohit: False
      with True "1.IH"(2) x have "mset (remove_swap_loop hit sl (Suc i))
          = mset (take (Suc i) sl) + filter_mset (\<lambda>x. \<not> hit x) (mset (drop (Suc i) sl))"
        by simp
      then show ?thesis
        using nohit x remove_swap_loop_steps(3) [OF True, of hit] by (simp add: sl flip: a)
    qed
  qed
qed

text \<open>What comes before the first hit stays where it is.\<close>

lemma prefix_remove_swap_loop:
  "i \<le> length sl \<Longrightarrow>
     prefix (take i sl @ takeWhile (\<lambda>x. \<not> hit x) (drop i sl)) (remove_swap_loop hit sl i)"
proof (induction hit sl i rule: remove_swap_loop.induct)
  case (1 hit sl i)
  show ?case
  proof (cases "i < length sl")
    case False
    with "1.prems" show ?thesis by (simp add: remove_swap_loop_steps)
  next
    case True
    then obtain a x r where sl: "sl = a @ x # r" and a: "length a = i"
      using id_take_nth_drop [of i sl] by (metis length_take min.absorb2 less_imp_le_nat)
    then have x: "sl ! i = x" by (simp add: nth_append)
    show ?thesis
    proof (cases "hit x")
      case hit: True
      have sl': "swap_with_end sl i = a @ (if r = [] then [] else last r # butlast r)"
        using swap_with_end_append [of a x r] by (simp add: sl a)
      then have "i \<le> length (swap_with_end sl i)" and "take i (swap_with_end sl i) = a"
        using a by simp_all
      with "1.IH"(1) True hit x have "prefix a (remove_swap_loop hit (swap_with_end sl i) i)"
        by (metis append_prefixD)
      then show ?thesis
        using hit x remove_swap_loop_steps(2) [OF True, of hit] by (simp add: sl a)
    next
      case nohit: False
      with True "1.IH"(2) x
      have "prefix (take (Suc i) sl @ takeWhile (\<lambda>x. \<not> hit x) (drop (Suc i) sl)) (remove_swap_loop hit sl (Suc i))"
        by simp
      then show ?thesis
        using nohit x remove_swap_loop_steps(3) [OF True, of hit] by (simp add: sl flip: a)
    qed
  qed
qed

lemma smartlist_contains_iff [simp]: "smartlist_contains sl x \<longleftrightarrow> x \<in> set sl"
  by (induction sl) auto

lemma mset_smartlist_remove:
  "mset (smartlist_remove sl (Some e)) = filter_mset (\<lambda>x. x \<noteq> e) (mset sl)"
  by (simp add: smartlist_remove_def mset_remove_swap_loop)

lemma mset_smartlist_intersect:
  "mset (smartlist_intersect sl1 sl2) = filter_mset (\<lambda>x. x \<in> set sl2) (mset sl1)"
  by (simp add: smartlist_intersect_def mset_remove_swap_loop)

lemma mset_smartlist_subtract:
  "mset (smartlist_subtract sl1 sl2) = filter_mset (\<lambda>x. x \<notin> set sl2) (mset sl1)"
  unfolding smartlist_subtract_def
  by (induction sl2 arbitrary: sl1)
     (auto simp: mset_smartlist_remove filter_filter_mset intro!: filter_mset_cong)

lemma remove_keeporder_loop_eq:
  "i \<le> j \<Longrightarrow> j \<le> length sl \<Longrightarrow>
     remove_keeporder_loop e sl i j = take i sl @ filter (\<lambda>x. x \<noteq> e) (drop j sl)"
proof (induction e sl i j rule: remove_keeporder_loop.induct)
  case (1 e sl i j)
  show ?case
  proof (cases "j < length sl")
    case False
    with "1.prems" show ?thesis by (subst remove_keeporder_loop.simps) simp
  next
    case True
    then have d: "drop j sl = sl ! j # drop (Suc j) sl" by (simp add: Cons_nth_drop_Suc)
    show ?thesis
    proof (cases "sl ! j = e")
      case hit: True
      with True "1.IH"(1) "1.prems" show ?thesis
        by (simp add: remove_keeporder_loop.simps [of e sl i j] d)
    next
      case nohit: False
      have "take (Suc i) (sl[i := sl ! j]) = take i sl @ [sl ! j]"
        using True "1.prems" by (simp add: take_Suc_conv_app_nth)
      moreover have "drop (Suc j) (sl[i := sl ! j]) = drop (Suc j) sl"
        using "1.prems" by simp
      ultimately show ?thesis
        using True nohit "1.IH"(2) "1.prems"
        by (simp add: remove_keeporder_loop.simps [of e sl i j] d)
    qed
  qed
qed

lemma smartlist_remove_keeporder_filter:
  "smartlist_remove_keeporder sl (Some e) = filter (\<lambda>x. x \<noteq> e) sl"
  by (simp add: smartlist_remove_keeporder_def remove_keeporder_loop_eq)

subsection \<open>Reversal, search, joining\<close>

lemma reverse_loop_length [simp]: "length (reverse_loop sl i j) = length sl"
  by (induction sl i j rule: reverse_loop.induct) (subst reverse_loop.simps, simp)

text \<open>The loop mirrors the positions from \<open>i\<close> to \<open>j\<close> and leaves the others.\<close>

lemma reverse_loop_nth:
  "0 \<le> i \<Longrightarrow> j < int (length sl) \<Longrightarrow> k < length sl \<Longrightarrow>
     reverse_loop sl i j ! k = (if i \<le> int k \<and> int k \<le> j then sl ! nat (i + j - int k) else sl ! k)"
proof (induction sl i j rule: reverse_loop.induct)
  case (1 sl i j)
  show ?case
  proof (cases "i < j")
    case False
    have "sl ! k = sl ! nat (i + j - int k)" if "i \<le> int k" "int k \<le> j"
      using False that by (intro arg_cong [where f = "(!) sl"]) auto
    with False "1.prems" show ?thesis by (subst reverse_loop.simps) auto
  next
    case True
    let ?sl' = "sl[nat i := sl ! nat j, nat j := sl ! nat i]"
    have "reverse_loop sl i j ! k = reverse_loop ?sl' (i + 1) (j - 1) ! k"
      using True by (subst reverse_loop.simps) simp
    also have "\<dots> = (if i + 1 \<le> int k \<and> int k \<le> j - 1 then ?sl' ! nat (i + j - int k) else ?sl' ! k)"
      using True "1.IH" "1.prems" by simp
    also have "\<dots> = (if i \<le> int k \<and> int k \<le> j then sl ! nat (i + j - int k) else sl ! k)"
      using True "1.prems" by (auto simp: nth_list_update nat_eq_iff)
    finally show ?thesis .
  qed
qed

lemma smartlist_reverse_rev: "smartlist_reverse sl = rev sl"
  by (rule nth_equalityI)
     (auto simp: smartlist_reverse_def reverse_loop_nth rev_nth intro!: arg_cong [where f = "(!) sl"])

lemma pos_loop_spec:
  "pos_loop hit sl i =
     (if \<exists>x \<in> set sl. hit x then i + int (length (takeWhile (\<lambda>x. \<not> hit x) sl)) else - 1)"
  by (induction sl arbitrary: i) auto

lemma join_size_loop_length: "join_size_loop sl (length join) = length (join_loop sl join)"
  by (induction sl) auto

text \<open>The allocated size is exactly what is written, with its NUL.\<close>

lemma join_alloc_size_exact:
  "join_alloc_size sl join terminate = length (smartlist_join_strings2 sl join terminate) + 1"
  by (simp add: join_alloc_size_def smartlist_join_strings2_def join_size_loop_length)

lemma strstr_single:
  "strstr s [c] = memchr s c"
  by (induction s) (auto simp: strstr.simps prefix_def)

text \<open>Splitting on a character undoes joining with it.\<close>

lemma split_loop_join:
  assumes "sl \<noteq> []" and "\<forall>x \<in> set sl. c \<notin> set x"
    and "\<not> SPLIT_SKIP_SPACE flags" and "\<not> SPLIT_IGNORE_BLANK flags" and "\<not> SPLIT_STRIP_SPACE flags"
    and "max_n \<le> 0 \<or> int (n + length sl) \<le> max_n"
  shows "split_loop (Some [c]) flags max_n (join_loop sl [c]) n = Some sl"
  using assms
proof (induction sl arbitrary: n)
  case Nil
  then show ?case by simp
next
  case (Cons x xs)
  show ?case
  proof (cases "xs = []")
    case True
    with Cons.prems have "split_end (Some [c]) max_n x n = length x"
      by (auto simp: split_end_def strstr_single memchr_None split: option.splits dest: memchr_Some)
    with True Cons.prems show ?thesis
      by (simp add: split_loop.simps [of "Some [c]"] Let_def split_next_def split_piece_def)
  next
    case False
    let ?s = "x @ c # join_loop xs [c]"
    have e: "split_end (Some [c]) max_n ?s n = length x"
      using Cons.prems False by (cases xs) (auto simp: split_end_def strstr_single memchr_append)
    have "split_loop (Some [c]) flags max_n (join_loop xs [c]) (n + 1) = Some xs"
      using Cons.IH [of "n + 1"] Cons.prems False by auto
    with e False Cons.prems show ?thesis
      by (simp add: split_loop.simps [of "Some [c]" flags max_n ?s] Let_def split_next_def split_piece_def)
  qed
qed

text \<open>With a nonempty separator, or none, splitting returns.\<close>

lemma split_end_bound: "split_end sep max_n cp n \<le> length cp"
proof -
  have "strstr s p = Some i \<Longrightarrow> i \<le> length s" for s p i
    by (induction s p arbitrary: i rule: strstr.induct)
       (subst (asm) (2) strstr.simps, auto split: if_splits list.splits)
  then show ?thesis
    by (auto simp: split_end_def length_takeWhile_le split: option.splits)
qed

lemma split_next_shorter:
  assumes "sep \<noteq> Some []" and "split_next sep cp e = Some cp'"
  shows "length cp' < length cp"
proof (cases sep)
  case None
  with assms length_dropWhile_le [of is_hspace "drop (e + 1) cp"] show ?thesis
    by (auto simp: split_next_def split: if_splits)
next
  case (Some p)
  with assms show ?thesis by (cases p) (auto simp: split_next_def split: if_splits)
qed

lemma split_loop_returns:
  assumes "sep \<noteq> Some []"
  shows "\<exists>r. split_loop sep flags max_n cp n = Some r"
proof (induction cp arbitrary: n rule: length_induct)
  case (1 cp)
  let ?cp = "if SPLIT_SKIP_SPACE flags then dropWhile TOR_ISSPACE cp else cp"
  have le: "length ?cp \<le> length cp" by (simp add: length_dropWhile_le)
  show ?case
  proof (cases "split_next sep ?cp (split_end sep max_n ?cp n)")
    case None
    then show ?thesis by (simp add: split_loop.simps [of sep flags max_n cp n] Let_def)
  next
    case (Some cp')
    with assms le have "length cp' < length cp"
      using split_next_shorter by (metis order_less_le_trans)
    with "1.IH" have "\<exists>r. split_loop sep flags max_n cp' m = Some r" for m by blast
    with Some show ?thesis
      by (metis (no_types, lifting) bind.bind_lunit option.simps(5) split_loop.simps)
  qed
qed

subsection \<open>Sorted lists: removal of duplicates, binary search, the most frequent element\<close>

text \<open>What \<open>smartlist_uniq\<close> leaves, for any comparison: the first of each run of equals.\<close>

fun uniq_adj :: "('a \<Rightarrow> 'a \<Rightarrow> int) \<Rightarrow> 'a list \<Rightarrow> 'a list" where
  "uniq_adj cmp [] = []"
| "uniq_adj cmp [x] = [x]"
| "uniq_adj cmp (x # y # ys) = (if cmp x y = 0 then uniq_adj cmp (x # ys) else x # uniq_adj cmp (y # ys))"

lemma uniq_loop_adj:
  "Suc i \<le> length sl \<Longrightarrow> uniq_loop cmp sl (Suc i) = take i sl @ uniq_adj cmp (drop i sl)"
proof (induction "length sl - i" arbitrary: sl i rule: less_induct)
  case less
  show ?case
  proof (cases "Suc i < length sl")
    case False
    with less.prems have "drop i sl = [sl ! i]"
      by (metis Cons_nth_drop_Suc Suc_le_lessD drop_all not_less)
    then have "take i sl @ uniq_adj cmp (drop i sl) = sl"
      by (metis append_take_drop_id uniq_adj.simps(2))
    with False show ?thesis by (subst uniq_loop.simps) simp
  next
    case True
    then have d: "drop i sl = sl ! i # sl ! Suc i # drop (Suc (Suc i)) sl"
      by (simp add: Cons_nth_drop_Suc)
    show ?thesis
    proof (cases "cmp (sl ! i) (sl ! Suc i) = 0")
      case eq: True
      let ?sl' = "take (Suc i) sl @ drop (Suc (Suc i)) sl"
      have "uniq_loop cmp ?sl' (Suc i) = take i ?sl' @ uniq_adj cmp (drop i ?sl')"
        using True by (intro less.hyps) auto
      moreover have "drop i ?sl' = sl ! i # drop (Suc (Suc i)) sl"
        using True by (simp add: take_Suc_conv_app_nth)
      ultimately show ?thesis
        using True eq by (subst uniq_loop.simps) (simp add: d)
    next
      case neq: False
      have "uniq_loop cmp sl (Suc (Suc i)) = take (Suc i) sl @ uniq_adj cmp (drop (Suc i) sl)"
        using True by (intro less.hyps) auto
      moreover have "drop (Suc i) sl = sl ! Suc i # drop (Suc (Suc i)) sl"
        using True by (simp add: Cons_nth_drop_Suc)
      ultimately show ?thesis
        using True neq by (subst uniq_loop.simps) (simp add: d take_Suc_conv_app_nth)
    qed
  qed
qed

lemma smartlist_uniq_adj: "smartlist_uniq cmp sl = uniq_adj cmp sl"
proof (cases sl)
  case Nil
  then show ?thesis by (simp add: smartlist_uniq_def uniq_loop.simps)
next
  case (Cons x xs)
  then show ?thesis
    using uniq_loop_adj [of 0 sl cmp] by (simp add: smartlist_uniq_def)
qed

lemma smartlist_uniq_remdups_adj:
  assumes "\<And>a b. cmp a b = 0 \<longleftrightarrow> a = b"
  shows "smartlist_uniq cmp sl = remdups_adj sl"
  unfolding smartlist_uniq_adj using assms by (induction sl rule: remdups_adj.induct) auto

text \<open>
  The order \<open>smartlist_bsearch_idx\<close> asks for: first the members below the key, then the
  matches, then the members above.
\<close>

definition key_ordered :: "('a \<Rightarrow> int) \<Rightarrow> 'a list \<Rightarrow> bool" where
  "key_ordered cmp sl \<longleftrightarrow>
     sorted_wrt (\<lambda>a b. (cmp b > 0 \<longrightarrow> cmp a > 0) \<and> (cmp a < 0 \<longrightarrow> cmp b < 0)) sl"

lemma key_orderedD:
  assumes "key_ordered cmp sl" and "i \<le> j" and "j < length sl"
  shows "(cmp (sl ! j) > 0 \<longrightarrow> cmp (sl ! i) > 0) \<and> (cmp (sl ! i) < 0 \<longrightarrow> cmp (sl ! j) < 0)"
proof (cases "i = j")
  case True
  then show ?thesis by simp
next
  case False
  with assms have "i < j" by simp
  from sorted_wrt_nth_less [OF assms(1) [unfolded key_ordered_def] this assms(3)]
  show ?thesis by blast
qed

lemmas key_ordered_below = key_orderedD [THEN conjunct1, rule_format]
lemmas key_ordered_above = key_orderedD [THEN conjunct2, rule_format]

definition below_key :: "('a \<Rightarrow> int) \<Rightarrow> 'a list \<Rightarrow> int \<Rightarrow> bool" where
  "below_key cmp sl n \<longleftrightarrow> (\<forall>k. int k < n \<longrightarrow> k < length sl \<longrightarrow> cmp (sl ! k) > 0)"

definition above_key :: "('a \<Rightarrow> int) \<Rightarrow> 'a list \<Rightarrow> int \<Rightarrow> bool" where
  "above_key cmp sl n \<longleftrightarrow> (\<forall>k. n \<le> int k \<longrightarrow> k < length sl \<longrightarrow> cmp (sl ! k) < 0)"

lemma bsearch_loop_spec:
  "key_ordered cmp sl \<Longrightarrow> 0 \<le> lo \<Longrightarrow> 0 \<le> hi \<Longrightarrow> lo \<le> hi + 1 \<Longrightarrow> hi < int (length sl) \<Longrightarrow>
     below_key cmp sl lo \<Longrightarrow> above_key cmp sl (hi + 1) \<Longrightarrow>
     (case bsearch_loop cmp sl lo hi of
        BFound mid \<Rightarrow> 0 \<le> mid \<and> mid < int (length sl) \<and> cmp (sl ! nat mid) = 0
      | BBelowAll \<Rightarrow> above_key cmp sl 0
      | BFell lo' hi' \<Rightarrow> lo' = hi' + 1 \<and> 0 \<le> hi' \<and> hi' < int (length sl)
                        \<and> below_key cmp sl lo' \<and> above_key cmp sl lo')"
proof (induction cmp sl lo hi rule: bsearch_loop.induct)
  case (1 cmp sl lo hi)
  show ?case
  proof (cases "lo \<le> hi")
    case False
    with "1.prems" have "lo = hi + 1" by simp
    with "1.prems" show ?thesis by (subst bsearch_loop.simps) simp
  next
    case True
    define mid where "mid = lo + (hi - lo) div 2"
    have mid: "lo \<le> mid" "mid \<le> hi" "nat mid < length sl"
      using True "1.prems" by (auto simp: mid_def)
    consider "cmp (sl ! nat mid) = 0" | "cmp (sl ! nat mid) > 0"
      | "cmp (sl ! nat mid) < 0" "mid > 0" | "cmp (sl ! nat mid) < 0" "mid = 0"
      using mid "1.prems"(2) by linarith
    then show ?thesis
    proof cases
      case 1
      with True mid "1.prems" show ?thesis
        by (subst bsearch_loop.simps) (simp add: mid_def [symmetric] Let_def)
    next
      case 2
      have "below_key cmp sl (mid + 1)"
        unfolding below_key_def
        using key_ordered_below [OF "1.prems"(1) _ mid(3) 2(1)] mid "1.prems"(2) by (simp add: le_nat_iff)
      with 2 True mid "1.prems" "1.IH"(1) [OF True mid_def refl] show ?thesis
        by (subst bsearch_loop.simps) (simp add: mid_def [symmetric] Let_def)
    next
      case 3
      have "above_key cmp sl mid"
        unfolding above_key_def
        using key_ordered_above [OF "1.prems"(1) _ _ 3(1)] by (simp add: nat_le_iff)
      with 3 True mid "1.prems" "1.IH"(2) [OF True mid_def refl] show ?thesis
        by (subst bsearch_loop.simps) (simp add: mid_def [symmetric] Let_def)
    next
      case 4
      have "above_key cmp sl 0"
        unfolding above_key_def
        using key_ordered_above [OF "1.prems"(1) _ _ 4(1)] 4(2) by simp
      with 4 True show ?thesis
        by (subst bsearch_loop.simps) (simp add: mid_def [symmetric] Let_def)
    qed
  qed
qed

text \<open>On an ordered list the search never fails an assertion and returns the right index.\<close>

lemma smartlist_bsearch_idx_spec:
  assumes "key_ordered cmp sl"
  shows "case smartlist_bsearch_idx sl cmp of
           None \<Rightarrow> False
         | Some (idx, found) \<Rightarrow> 0 \<le> idx \<and> idx \<le> int (length sl)
             \<and> (if found then idx < int (length sl) \<and> cmp (sl ! nat idx) = 0
                else below_key cmp sl idx \<and> above_key cmp sl idx)"
proof (cases "sl = []")
  case True
  then show ?thesis
    by (simp add: smartlist_bsearch_idx_def below_key_def above_key_def)
next
  case False
  then have len: "0 < length sl" by simp
  have "below_key cmp sl 0" and "above_key cmp sl (int (length sl) - 1 + 1)"
    by (simp_all add: below_key_def above_key_def)
  with len have spec: "case bsearch_loop cmp sl 0 (int (length sl) - 1) of
        BFound mid \<Rightarrow> 0 \<le> mid \<and> mid < int (length sl) \<and> cmp (sl ! nat mid) = 0
      | BBelowAll \<Rightarrow> above_key cmp sl 0
      | BFell lo' hi' \<Rightarrow> lo' = hi' + 1 \<and> 0 \<le> hi' \<and> hi' < int (length sl)
                        \<and> below_key cmp sl lo' \<and> above_key cmp sl lo'"
    by (intro bsearch_loop_spec [OF assms]) auto
  show ?thesis
  proof (cases "bsearch_loop cmp sl 0 (int (length sl) - 1)")
    case (BFound mid)
    with False spec show ?thesis by (simp add: smartlist_bsearch_idx_def)
  next
    case BBelowAll
    with False spec show ?thesis by (simp add: smartlist_bsearch_idx_def below_key_def)
  next
    case (BFell lo hi)
    then have s: "lo = hi + 1" "0 \<le> hi" "hi < int (length sl)" "below_key cmp sl lo" "above_key cmp sl lo"
      using spec [unfolded BFell bsearch_exit.case] by blast+
    have "if lo < int (length sl) then cmp (sl ! nat lo) < 0 else cmp (sl ! nat (int (length sl) - 1)) > 0"
    proof (cases "lo < int (length sl)")
      case True
      with s show ?thesis by (simp add: above_key_def)
    next
      case False
      have "int (nat (int (length sl) - 1)) < lo" "nat (int (length sl) - 1) < length sl"
        using False len s by simp_all
      with False s(4) show ?thesis unfolding below_key_def by presburger
    qed
    with False BFell s show ?thesis
      unfolding smartlist_bsearch_idx_def Let_def by (simp split: if_splits)
  qed
qed

text \<open>
  The most frequent element of a sorted list.  \<open>is_mode p m n\<close>: among the processed
  elements \<open>p\<close>, \<open>m\<close> occurs \<open>n\<close> times, none occurs more often, and none after
  it as often.
\<close>

definition is_mode :: "'a::linorder list \<Rightarrow> 'a \<Rightarrow> nat \<Rightarrow> bool" where
  "is_mode p m n \<longleftrightarrow> m \<in> set p \<and> count_list p m = n
     \<and> (\<forall>x. count_list p x \<le> n) \<and> (\<forall>x \<in> set p. m < x \<longrightarrow> count_list p x < n)"

definition mode_state :: "'a::linorder list \<Rightarrow> 'a option \<Rightarrow> nat \<Rightarrow> bool" where
  "mode_state p best n \<longleftrightarrow>
     (case best of None \<Rightarrow> p = [] \<and> n = 0 | Some m \<Rightarrow> is_mode p m n)"

text \<open>A finished run of \<open>k\<close> copies of \<open>c\<close>, above everything before it, joins the processed part.\<close>

lemma mode_state_run:
  assumes "mode_state p best n" and "\<forall>x \<in> set p. x < c" and "0 < k"
  shows "mode_state (p @ replicate k c) (if k \<ge> n then Some c else best) (if k \<ge> n then k else n)"
proof -
  have rep: "count_list (replicate k c) x = (if x = c then k else 0)" for x
    by (induction k) auto
  have c: "count_list p c = 0" using assms(2) by (auto simp: count_list_0_iff)
  show ?thesis
  proof (cases best)
    case None
    with assms rep show ?thesis by (auto simp: mode_state_def is_mode_def)
  next
    case (Some m)
    with assms(1) have m: "is_mode p m n" by (simp add: mode_state_def)
    then have "m < c" using assms(2) by (simp add: is_mode_def)
    have le: "count_list p x \<le> n" for x using m by (simp add: is_mode_def)
    show ?thesis
    proof (cases "k \<ge> n")
      case True
      have "count_list p x \<le> k" for x using le [of x] True by simp
      moreover have "\<not> c < x" if "x \<in> set p" for x using assms(2) that by (meson not_less_iff_gr_or_eq)
      ultimately show ?thesis
        using True assms(3) c by (auto simp: mode_state_def is_mode_def rep)
    next
      case False
      then show ?thesis
        using m Some c \<open>m < c\<close> assms(2) by (auto simp: mode_state_def is_mode_def rep)
    qed
  qed
qed

lemma most_frequent_loop_spec:
  assumes "\<And>a b. cmp a b = 0 \<longleftrightarrow> a = b"
  shows "mode_state p best n \<Longrightarrow> \<forall>x \<in> set p. x < c \<Longrightarrow> 0 < k \<Longrightarrow> sorted (c # xs) \<Longrightarrow>
     (case most_frequent_loop cmp xs best n (Some c) k of
        (best', n') \<Rightarrow> mode_state (p @ replicate k c @ xs) best' n')"
proof (induction xs arbitrary: p best n c k)
  case Nil
  then show ?case using mode_state_run [of p best n c k] by (auto split: if_splits)
next
  case (Cons y xs)
  show ?case
  proof (cases "c = y")
    case True
    with Cons.IH [OF Cons.prems(1,2), of "Suc k"] Cons.prems assms show ?thesis
      by (simp add: replicate_append_same [symmetric] split: prod.splits)
  next
    case False
    have p': "mode_state (p @ replicate k c) (if k \<ge> n then Some c else best) (if k \<ge> n then k else n)"
      using Cons.prems by (intro mode_state_run)
    have lt: "\<forall>x \<in> set (p @ replicate k c). x < y"
      using Cons.prems False by (auto simp: order_le_less)
    have "sorted (y # xs)" using Cons.prems(4) by simp
    from Cons.IH [OF p' lt _ this, of 1] False assms show ?thesis
      by (auto split: prod.splits if_splits)
  qed
qed

lemma smartlist_get_most_frequent_spec:
  assumes "\<And>a b. cmp a b = 0 \<longleftrightarrow> a = b" and "sorted sl"
  shows "case smartlist_get_most_frequent cmp sl of (best, n) \<Rightarrow> mode_state sl best n"
proof (cases sl)
  case Nil
  then show ?thesis by (simp add: smartlist_get_most_frequent_def mode_state_def)
next
  case (Cons x xs)
  have "mode_state [] None (0::nat)" by (simp add: mode_state_def)
  from most_frequent_loop_spec [where cmp = cmp, OF assms(1) this, of x 1 xs] assms(2) Cons
  show ?thesis by (simp add: smartlist_get_most_frequent_def)
qed

subsection \<open>Properties\<close>

text \<open>On a list ordered for the key, smartlist_bsearch_idx always passes its assertions; it
  reports a match by its position, and otherwise the position where the key belongs: every member
  before it is below the key and every member from it on is above.  smartlist_bsearch returns the
  member at that position, or NULL exactly when no member matches.\<close>

theorem smartlist_bsearch_correct:
  assumes "key_ordered cmp sl"
  shows "\<exists>idx found. smartlist_bsearch_idx sl cmp = Some (int idx, found) \<and> idx \<le> length sl
    \<and> smartlist_bsearch sl cmp = Some (if found then Some (sl ! idx) else None)
    \<and> (if found then idx < length sl \<and> cmp (sl ! idx) = 0
       else (\<forall>x \<in> set (take idx sl). cmp x > 0) \<and> (\<forall>x \<in> set (drop idx sl). cmp x < 0))"
proof -
  obtain i found where r: "smartlist_bsearch_idx sl cmp = Some (i, found)" "0 \<le> i" "i \<le> int (length sl)"
    "if found then i < int (length sl) \<and> cmp (sl ! nat i) = 0 else below_key cmp sl i \<and> above_key cmp sl i"
    using smartlist_bsearch_idx_spec [OF assms] by (auto split: option.splits)
  obtain idx where i: "i = int idx" using r(2) nonneg_int_cases by blast
  have "cmp x > 0" if "below_key cmp sl i" "x \<in> set (take idx sl)" for x
    using that i by (auto simp: below_key_def in_set_conv_nth)
  moreover have "cmp x < 0" if "above_key cmp sl i" "x \<in> set (drop idx sl)" for x
    using that i by (auto simp: above_key_def in_set_conv_nth)
  ultimately show ?thesis
    using r i by (intro exI [of _ idx] exI [of _ found]) (auto simp: smartlist_bsearch_def split: if_splits)
qed

theorem smartlist_bsearch_correct_witness:
  "\<exists>idx found. smartlist_bsearch_idx [1, 3, 7] (\<lambda>x. 5 - x) = Some (int idx, found) \<and> idx \<le> 3
    \<and> smartlist_bsearch [1, 3, 7] (\<lambda>x. 5 - x) = Some (if found then Some ([1, 3, 7] ! idx) else None)"
  using smartlist_bsearch_correct [of "\<lambda>x. 5 - x" "[1, 3, 7]"] by (fastforce simp: key_ordered_def)

text \<open>Splitting at a one-character separator undoes joining with it, when no string contains
  the separator: the same strings come back in order, with their count as the return value, and
  the buffer that smartlist_join_strings2 allocates is exactly the joined string and its NUL.\<close>

theorem smartlist_join_split:
  assumes "sl \<noteq> []" and "\<forall>x \<in> set sl. c \<notin> set x"
  shows "smartlist_split_string sl0 (smartlist_join_strings sl [c] False) (Some [c])
           \<lparr>SPLIT_SKIP_SPACE = False, SPLIT_IGNORE_BLANK = False, SPLIT_STRIP_SPACE = False\<rparr> 0
         = Some (sl0 @ sl, length sl)
    \<and> join_alloc_size sl [c] False = length (smartlist_join_strings sl [c] False) + 1"
  using split_loop_join [OF assms, of
      "\<lparr>SPLIT_SKIP_SPACE = False, SPLIT_IGNORE_BLANK = False, SPLIT_STRIP_SPACE = False\<rparr>" 0 0]
  by (simp add: smartlist_split_string_def smartlist_join_strings_def join_alloc_size_exact
      smartlist_join_strings2_def)

theorem smartlist_join_split_witness:
  "smartlist_split_string [] ''a,,bc'' (Some '','')
     \<lparr>SPLIT_SKIP_SPACE = False, SPLIT_IGNORE_BLANK = False, SPLIT_STRIP_SPACE = False\<rparr> 0
   = Some ([''a'', [], ''bc''], 3)"
  using smartlist_join_split [of "[''a'', [], ''bc'']" "CHR '',''" "[]"]
  by (simp add: smartlist_join_strings_def smartlist_join_strings2_def)

text \<open>The set operations, which delete by swapping in the last member and so reorder, keep
  exactly the right members with their multiplicities: smartlist_remove drops every occurrence of
  the element, smartlist_intersect keeps the members of the second list, smartlist_subtract drops
  them; smartlist_remove_keeporder also keeps the order.\<close>

theorem smartlist_set_operations:
  "mset (smartlist_remove sl (Some e)) = filter_mset (\<lambda>x. x \<noteq> e) (mset sl)
   \<and> mset (smartlist_intersect sl sl2) = filter_mset (\<lambda>x. x \<in> set sl2) (mset sl)
   \<and> mset (smartlist_subtract sl sl2) = filter_mset (\<lambda>x. x \<notin> set sl2) (mset sl)
   \<and> smartlist_remove_keeporder sl (Some e) = filter (\<lambda>x. x \<noteq> e) sl"
  by (simp add: mset_smartlist_remove mset_smartlist_intersect mset_smartlist_subtract
      smartlist_remove_keeporder_filter)

text \<open>On a sorted list smartlist_get_most_frequent returns a member of maximal multiplicity
  and that multiplicity, and among the members that reach it the greatest (the tie-break that
  consensus voting relies on); on an empty list it returns NULL and 0.\<close>

theorem smartlist_most_frequent_is_mode:
  assumes "\<And>a b. cmp a b = 0 \<longleftrightarrow> a = b" and "sorted sl"
  shows "case smartlist_get_most_frequent cmp sl of
      (None, n) \<Rightarrow> sl = [] \<and> n = 0
    | (Some m, n) \<Rightarrow> m \<in> set sl \<and> n = count_list sl m
        \<and> (\<forall>x \<in> set sl. count_list sl x < n \<or> count_list sl x = n \<and> x \<le> m)"
proof -
  obtain best n where r: "smartlist_get_most_frequent cmp sl = (best, n)" by fastforce
  have "mode_state sl best n"
    using smartlist_get_most_frequent_spec [where cmp = cmp, OF assms] r by simp
  then show ?thesis
    by (auto simp: r mode_state_def is_mode_def split: option.splits) (metis leI le_neq_implies_less)
qed

theorem smartlist_most_frequent_is_mode_witness:
  "case smartlist_get_most_frequent (\<lambda>a b. a - b) [1, 2, 2, 5, 5 :: int] of
      (None, n) \<Rightarrow> False
    | (Some m, n) \<Rightarrow> n = count_list [1, 2, 2, 5, 5] m"
  using smartlist_most_frequent_is_mode [of "\<lambda>a b. a - b" "[1, 2, 2, 5, 5 :: int]"]
  by (auto split: prod.splits option.splits)

end
