(* ===== verification/Pqueue.thy ===== *)
theory Pqueue
  imports Smartlist
begin

text \<open>
  Heap-structured smartlists (lib/container/smartlist.c, \<open>smartlist_pqueue_*\<close>).  Each
  item carries its own index in the heap; the model keeps that field as a function
  \<open>pq_idx\<close> from items to \<open>int\<close>.  The locale \<open>pqueue_order\<close> is what the code asks of
  the \<open>compare\<close> callback, and holds the correctness lemmas; the priority queues of the
  relay (the circuit multiplexer's, the scheduler's) are its clients.
\<close>

record 'a pqueue =
  pq_list :: "'a list"
  pq_idx :: "'a \<Rightarrow> int"

definition INT_MAX :: nat where "INT_MAX = 2147483647"

definition MAX_PARENT_IDX :: nat where "MAX_PARENT_IDX = (INT_MAX - 2) div 2"

definition IDX_MAY_HAVE_CHILDREN :: "nat \<Rightarrow> bool" where
  "IDX_MAY_HAVE_CHILDREN i \<longleftrightarrow> i \<le> MAX_PARENT_IDX"

definition LEFT_CHILD :: "nat \<Rightarrow> nat" where "LEFT_CHILD i = 2 * i + 1"
definition PARENT :: "nat \<Rightarrow> nat" where "PARENT i = (i - 1) div 2"

definition UPDATE_IDX :: "nat \<Rightarrow> 'a pqueue \<Rightarrow> 'a pqueue" where
  "UPDATE_IDX i q = q\<lparr>pq_idx := (pq_idx q)(pq_list q ! i := int i)\<rparr>"

text \<open>Exchange two elements and set both their index fields, \<open>i\<close> first.\<close>

definition heap_swap :: "nat \<Rightarrow> nat \<Rightarrow> 'a pqueue \<Rightarrow> 'a pqueue" where
  "heap_swap i j q =
     UPDATE_IDX j (UPDATE_IDX i
       (q\<lparr>pq_list := (pq_list q)[i := pq_list q ! j, j := pq_list q ! i]\<rparr>))"

text \<open>Which of a node and its children goes on top.\<close>

definition heap_best :: "('a \<Rightarrow> 'a \<Rightarrow> int) \<Rightarrow> 'a list \<Rightarrow> nat \<Rightarrow> nat" where
  "heap_best compare sl idx =
     (let left_idx = LEFT_CHILD idx;
          best_idx = (if compare (sl ! idx) (sl ! left_idx) < 0 then idx else left_idx)
      in if left_idx + 1 < length sl \<and> compare (sl ! (left_idx + 1)) (sl ! best_idx) < 0
         then left_idx + 1 else best_idx)"

lemma length_heap_swap [simp]: "length (pq_list (heap_swap i j q)) = length (pq_list q)"
  by (simp add: heap_swap_def UPDATE_IDX_def)

lemma heap_best_ge: "heap_best compare sl idx \<noteq> idx \<Longrightarrow> idx < heap_best compare sl idx"
  by (auto simp: heap_best_def LEFT_CHILD_def Let_def split: if_splits)

lemma heap_best_less: "LEFT_CHILD idx < length sl \<Longrightarrow> heap_best compare sl idx < length sl"
  by (auto simp: heap_best_def LEFT_CHILD_def Let_def)

function smartlist_heapify :: "('a \<Rightarrow> 'a \<Rightarrow> int) \<Rightarrow> 'a pqueue \<Rightarrow> nat \<Rightarrow> 'a pqueue" where
  "smartlist_heapify compare q idx =
     (if \<not> IDX_MAY_HAVE_CHILDREN idx then q
      else if LEFT_CHILD idx \<ge> length (pq_list q) then q
      else let best_idx = heap_best compare (pq_list q) idx
           in if best_idx = idx then q
              else smartlist_heapify compare (heap_swap idx best_idx q) best_idx)"
  by pat_completeness auto
termination
  by (relation "measure (\<lambda>(compare, q, idx). length (pq_list q) - idx)")
     (auto dest!: heap_best_ge simp: LEFT_CHILD_def)

declare smartlist_heapify.simps [simp del]

function sift_up :: "('a \<Rightarrow> 'a \<Rightarrow> int) \<Rightarrow> 'a pqueue \<Rightarrow> nat \<Rightarrow> 'a pqueue" where
  "sift_up compare q idx =
     (if idx = 0 then q
      else let parent = PARENT idx
           in if compare (pq_list q ! idx) (pq_list q ! parent) < 0
              then sift_up compare (heap_swap parent idx q) parent
              else q)"
  by pat_completeness auto
termination
  by (relation "measure (\<lambda>(compare, q, idx). idx)") (auto simp: PARENT_def)

declare sift_up.simps [simp del]

definition smartlist_pqueue_add :: "('a \<Rightarrow> 'a \<Rightarrow> int) \<Rightarrow> 'a pqueue \<Rightarrow> 'a \<Rightarrow> 'a pqueue" where
  "smartlist_pqueue_add compare q item =
     (let q = q\<lparr>pq_list := smartlist_add (pq_list q) item\<rparr>;
          last_idx = length (pq_list q) - 1
      in sift_up compare (UPDATE_IDX last_idx q) last_idx)"

definition smartlist_pqueue_pop :: "('a \<Rightarrow> 'a \<Rightarrow> int) \<Rightarrow> 'a pqueue \<Rightarrow> ('a \<times> 'a pqueue) option" where
  "smartlist_pqueue_pop compare q =
     (if pq_list q = [] then None
      else let top = pq_list q ! 0;
               rest = butlast (pq_list q);
               q = q\<lparr>pq_idx := (pq_idx q)(top := - 1)\<rparr>
           in if rest \<noteq> [] then
                Some (top, smartlist_heapify compare
                  (UPDATE_IDX 0 (q\<lparr>pq_list := rest[0 := last (pq_list q)]\<rparr>)) 0)
              else Some (top, q\<lparr>pq_list := rest\<rparr>))"

definition smartlist_pqueue_remove ::
  "('a \<Rightarrow> 'a \<Rightarrow> int) \<Rightarrow> 'a pqueue \<Rightarrow> 'a \<Rightarrow> 'a pqueue option" where
  "smartlist_pqueue_remove compare q item =
     (let idx = pq_idx q item in
      if \<not> (idx \<ge> 0 \<and> nat idx < length (pq_list q) \<and> pq_list q ! nat idx = item) then None
      else let rest = butlast (pq_list q);
               q = q\<lparr>pq_idx := (pq_idx q)(item := - 1)\<rparr>
           in if nat idx = length rest then Some (q\<lparr>pq_list := rest\<rparr>)
              else Some (smartlist_heapify compare
                (UPDATE_IDX (nat idx) (q\<lparr>pq_list := rest[nat idx := last (pq_list q)]\<rparr>)) (nat idx)))"

text \<open>\<open>smartlist_pqueue_assert_ok\<close>: the two conditions it asserts at every index.\<close>

definition smartlist_pqueue_assert_ok :: "('a \<Rightarrow> 'a \<Rightarrow> int) \<Rightarrow> 'a pqueue \<Rightarrow> bool" where
  "smartlist_pqueue_assert_ok compare q =
     list_all (\<lambda>i. (i > 0 \<longrightarrow> compare (pq_list q ! PARENT i) (pq_list q ! i) \<le> 0)
                  \<and> pq_idx q (pq_list q ! i) = int i) [0..<length (pq_list q)]"

lemma pqueue_update_swap:
  "q\<lparr>pq_idx := i, pq_list := l\<rparr> = q\<lparr>pq_list := l, pq_idx := i\<rparr>"
  by (cases q) simp

subsection \<open>The index field\<close>

definition idx_ok :: "'a pqueue \<Rightarrow> bool" where
  "idx_ok q \<longleftrightarrow> (\<forall>i < length (pq_list q). pq_idx q (pq_list q ! i) = int i)"

lemma idx_ok_distinct: "idx_ok q \<Longrightarrow> distinct (pq_list q)"
  unfolding idx_ok_def distinct_conv_nth by (metis of_nat_eq_iff)

lemma idx_ok_heap_swap:
  assumes "idx_ok q" and "i < length (pq_list q)" and "j < length (pq_list q)"
  shows "idx_ok (heap_swap i j q)"
proof -
  have "distinct (pq_list q)" using assms(1) by (rule idx_ok_distinct)
  then show ?thesis
    using assms by (auto simp: idx_ok_def heap_swap_def UPDATE_IDX_def nth_list_update nth_eq_iff_index_eq)
qed

lemma heap_swap_list:
  "pq_list (heap_swap i j q) = (pq_list q)[i := pq_list q ! j, j := pq_list q ! i]"
  by (simp add: heap_swap_def UPDATE_IDX_def)

lemma mset_heap_swap:
  "i < length (pq_list q) \<Longrightarrow> j < length (pq_list q) \<Longrightarrow>
     mset (pq_list (heap_swap i j q)) = mset (pq_list q)"
  by (simp add: heap_swap_list mset_swap)

lemma heap_swap_idx_outside:
  "i < length (pq_list q) \<Longrightarrow> j < length (pq_list q) \<Longrightarrow> x \<notin> set (pq_list q) \<Longrightarrow>
     pq_idx (heap_swap i j q) x = pq_idx q x"
  by (auto simp: heap_swap_def UPDATE_IDX_def nth_list_update)

text \<open>What sifting keeps, whatever the order: the elements, the index fields, the other items' fields.\<close>

lemma heapify_frame:
  "idx_ok q \<Longrightarrow> idx < length (pq_list q) \<Longrightarrow>
     mset (pq_list (smartlist_heapify compare q idx)) = mset (pq_list q)
     \<and> idx_ok (smartlist_heapify compare q idx)
     \<and> (\<forall>x. x \<notin> set (pq_list q) \<longrightarrow> pq_idx (smartlist_heapify compare q idx) x = pq_idx q x)"
proof (induction compare q idx rule: smartlist_heapify.induct)
  case (1 compare q idx)
  let ?b = "heap_best compare (pq_list q) idx"
  show ?case
  proof (cases "IDX_MAY_HAVE_CHILDREN idx \<and> LEFT_CHILD idx < length (pq_list q) \<and> ?b \<noteq> idx")
    case False
    then have "smartlist_heapify compare q idx = q"
      by (subst smartlist_heapify.simps) (auto simp: Let_def)
    with "1.prems" show ?thesis by simp
  next
    case True
    then have b: "?b < length (pq_list q)" by (simp add: heap_best_less)
    let ?q' = "heap_swap idx ?b q"
    have step: "smartlist_heapify compare q idx = smartlist_heapify compare ?q' ?b"
      using True by (subst smartlist_heapify.simps) (simp add: Let_def)
    have m: "mset (pq_list ?q') = mset (pq_list q)" and ok: "idx_ok ?q'"
      using "1.prems" b by (simp_all add: mset_heap_swap idx_ok_heap_swap)
    then have "set (pq_list ?q') = set (pq_list q)" by (metis set_mset_mset)
    with "1.IH" [of ?b] True ok b m "1.prems" heap_swap_idx_outside [of idx q ?b] show ?thesis
      by (simp add: step)
  qed
qed

lemma sift_up_frame:
  "idx_ok q \<Longrightarrow> idx < length (pq_list q) \<Longrightarrow>
     mset (pq_list (sift_up compare q idx)) = mset (pq_list q)
     \<and> idx_ok (sift_up compare q idx)
     \<and> (\<forall>x. x \<notin> set (pq_list q) \<longrightarrow> pq_idx (sift_up compare q idx) x = pq_idx q x)"
proof (induction compare q idx rule: sift_up.induct)
  case (1 compare q idx)
  let ?p = "PARENT idx"
  show ?case
  proof (cases "idx \<noteq> 0 \<and> compare (pq_list q ! idx) (pq_list q ! ?p) < 0")
    case False
    then have "sift_up compare q idx = q" by (subst sift_up.simps) (auto simp: Let_def)
    with "1.prems" show ?thesis by simp
  next
    case True
    then have p: "?p < length (pq_list q)" using "1.prems" by (simp add: PARENT_def)
    let ?q' = "heap_swap ?p idx q"
    have step: "sift_up compare q idx = sift_up compare ?q' ?p"
      using True by (subst sift_up.simps) (simp add: Let_def)
    have m: "mset (pq_list ?q') = mset (pq_list q)" and ok: "idx_ok ?q'"
      using "1.prems" p by (simp_all add: mset_heap_swap idx_ok_heap_swap)
    then have "set (pq_list ?q') = set (pq_list q)" by (metis set_mset_mset)
    with "1.IH" [of ?p] True ok p m "1.prems" heap_swap_idx_outside [of ?p q idx] show ?thesis
      by (simp add: step)
  qed
qed

text \<open>Replacing the node \<open>k\<close> by the last element, before it is sifted.\<close>

lemma replace_last_frame:
  assumes "idx_ok q" and "k < length (pq_list q) - 1"
    and q1: "q1 = UPDATE_IDX k (q\<lparr>pq_list := (butlast (pq_list q))[k := last (pq_list q)], pq_idx := ix\<rparr>)"
    and ix: "\<forall>x \<in> set (pq_list q). x \<noteq> pq_list q ! k \<longrightarrow> ix x = pq_idx q x"
  shows "idx_ok q1" and "add_mset (pq_list q ! k) (mset (pq_list q1)) = mset (pq_list q)"
    and "pq_list q ! k \<notin> set (pq_list q1)" and "pq_idx q1 (pq_list q ! k) = ix (pq_list q ! k)"
    and "x \<notin> set (pq_list q) \<Longrightarrow> pq_idx q1 x = ix x"
proof -
  let ?sl = "pq_list q" let ?n = "length ?sl"
  have l1: "pq_list q1 = (butlast ?sl)[k := last ?sl]" by (simp add: q1 UPDATE_IDX_def)
  have dist: "distinct ?sl" using assms(1) by (rule idx_ok_distinct)
  have ne: "?sl \<noteq> []" using assms(2) by auto
  have nth: "pq_list q1 ! i = (if i = k then ?sl ! (?n - 1) else ?sl ! i)" if "i < ?n - 1" for i
    using that ne by (simp add: l1 nth_list_update nth_butlast last_conv_nth)
  have len: "length (pq_list q1) = ?n - 1" by (simp add: l1)
  have okq: "pq_idx q (?sl ! i) = int i" if "i < ?n" for i
    using assms(1) that by (simp add: idx_ok_def)
  have pidx: "pq_idx q1 = ix (?sl ! (?n - 1) := int k)"
    using nth [of k] assms(2) l1 by (simp add: q1 UPDATE_IDX_def)
  show "idx_ok q1"
    unfolding idx_ok_def
  proof (intro allI impI)
    fix i assume "i < length (pq_list q1)"
    then have i: "i < ?n - 1" using len by simp
    show "pq_idx q1 (pq_list q1 ! i) = int i"
    proof (cases "i = k")
      case True
      then show ?thesis using assms(2) by (simp add: q1 UPDATE_IDX_def)
    next
      case False
      have "?sl ! i \<noteq> ?sl ! (?n - 1)" "?sl ! i \<noteq> ?sl ! k"
        using dist i assms(2) False by (simp_all add: nth_eq_iff_index_eq)
      then show ?thesis
        using nth [OF i] False okq [of i] ix i pidx by simp
    qed
  qed
  show mem: "add_mset (?sl ! k) (mset (pq_list q1)) = mset ?sl"
  proof -
    have "mset (pq_list q1) = add_mset (last ?sl) (mset (butlast ?sl) - {#?sl ! k#})"
      using assms(2) by (simp add: l1 mset_update nth_butlast)
    moreover have "?sl ! k \<in># mset (butlast ?sl)"
      using assms(2) by (metis length_butlast nth_butlast nth_mem set_mset_mset)
    moreover have "mset ?sl = add_mset (last ?sl) (mset (butlast ?sl))"
      using mset_last_butlast [OF ne] by simp
    ultimately show ?thesis by simp
  qed
  show "?sl ! k \<notin> set (pq_list q1)"
  proof -
    have "count (add_mset (?sl ! k) (mset (pq_list q1))) (?sl ! k) \<le> 1"
      using dist by (simp add: mem distinct_count_atmost_1)
    then show ?thesis by (simp add: count_list_0_iff)
  qed
  show "pq_idx q1 (?sl ! k) = ix (?sl ! k)"
    using assms(2) dist pidx by (simp add: nth_eq_iff_index_eq)
  have "?sl ! (?n - 1) \<in> set ?sl" using ne by simp
  then show "x \<notin> set ?sl \<Longrightarrow> pq_idx q1 x = ix x" using pidx by auto
qed

text \<open>The three operations, whatever the order.\<close>

lemma pqueue_add_frame:
  assumes "idx_ok q" and "item \<notin> set (pq_list q)"
  shows "idx_ok (smartlist_pqueue_add compare q item)"
    and "mset (pq_list (smartlist_pqueue_add compare q item)) = add_mset item (mset (pq_list q))"
    and "x \<notin> set (pq_list q) \<Longrightarrow> x \<noteq> item \<Longrightarrow> pq_idx (smartlist_pqueue_add compare q item) x = pq_idx q x"
proof -
  let ?n = "length (pq_list q)"
  let ?q1 = "UPDATE_IDX ?n (q\<lparr>pq_list := pq_list q @ [item]\<rparr>)"
  have add: "smartlist_pqueue_add compare q item = sift_up compare ?q1 ?n"
    by (simp add: smartlist_pqueue_add_def smartlist_add_def Let_def)
  have l1: "pq_list ?q1 = pq_list q @ [item]" by (simp add: UPDATE_IDX_def)
  have ok: "idx_ok ?q1"
    using assms by (auto simp: idx_ok_def UPDATE_IDX_def nth_append less_Suc_eq)
  show "idx_ok (smartlist_pqueue_add compare q item)"
    and "mset (pq_list (smartlist_pqueue_add compare q item)) = add_mset item (mset (pq_list q))"
    using sift_up_frame [OF ok, of ?n compare] by (simp_all add: add l1)
  assume "x \<notin> set (pq_list q)" "x \<noteq> item"
  then show "pq_idx (smartlist_pqueue_add compare q item) x = pq_idx q x"
    using sift_up_frame [OF ok, of ?n compare] by (simp add: add l1) (simp add: UPDATE_IDX_def)
qed

lemma pqueue_remove_frame:
  assumes "idx_ok q" and "item \<in> set (pq_list q)"
  shows "\<exists>q'. smartlist_pqueue_remove compare q item = Some q' \<and> idx_ok q'
     \<and> add_mset item (mset (pq_list q')) = mset (pq_list q) \<and> pq_idx q' item = - 1
     \<and> (\<forall>x. x \<notin> set (pq_list q) \<longrightarrow> pq_idx q' x = pq_idx q x)"
proof -
  let ?n = "length (pq_list q)"
  obtain k where k: "k < ?n" "pq_list q ! k = item" using assms(2) by (metis in_set_conv_nth)
  have ne: "pq_list q \<noteq> []" using k by auto
  have idx: "pq_idx q item = int k" using assms(1) k by (auto simp: idx_ok_def)
  let ?ix = "(pq_idx q)(item := - 1)"
  show ?thesis
  proof (cases "k = ?n - 1")
    case True
    then have lb: "length (butlast (pq_list q)) = k" by simp
    let ?q' = "q\<lparr>pq_idx := ?ix, pq_list := butlast (pq_list q)\<rparr>"
    have "smartlist_pqueue_remove compare q item = Some ?q'"
      by (simp add: smartlist_pqueue_remove_def Let_def idx k lb del: length_butlast)
    moreover have "idx_ok ?q'"
      using assms(1) True k idx_ok_distinct [OF assms(1)]
      by (auto simp: idx_ok_def nth_butlast nth_eq_iff_index_eq)
    moreover have "add_mset item (mset (butlast (pq_list q))) = mset (pq_list q)"
      using True k mset_last_butlast [OF ne] last_conv_nth [OF ne] by simp
    ultimately show ?thesis using assms(2) by auto
  next
    case False
    then have k': "k < ?n - 1" using k by simp
    define q1 where "q1 = UPDATE_IDX k (q\<lparr>pq_list := (butlast (pq_list q))[k := last (pq_list q)], pq_idx := ?ix\<rparr>)"
    have run: "smartlist_pqueue_remove compare q item = Some (smartlist_heapify compare q1 k)"
      using k' k idx by (simp add: smartlist_pqueue_remove_def Let_def pqueue_update_swap q1_def)
    have "\<forall>x \<in> set (pq_list q). x \<noteq> pq_list q ! k \<longrightarrow> ?ix x = pq_idx q x" using k by simp
    note f = replace_last_frame [OF assms(1) k' q1_def this]
    have "k < length (pq_list q1)" using k' by (simp add: q1_def UPDATE_IDX_def)
    note h = heapify_frame [OF f(1) this, of compare]
    have "set (pq_list q) = insert item (set (pq_list q1))"
      using arg_cong [OF f(2), of set_mset] k(2) by simp
    then have "\<forall>x. x \<notin> set (pq_list q) \<longrightarrow> pq_idx (smartlist_heapify compare q1 k) x = pq_idx q x"
      using h f(5) assms(2) by auto
    then show ?thesis using run h f(2-4) k(2) by simp
  qed
qed

lemma pqueue_pop_frame:
  assumes "idx_ok q" and "pq_list q \<noteq> []"
  shows "\<exists>q'. smartlist_pqueue_pop compare q = Some (pq_list q ! 0, q') \<and> idx_ok q'
     \<and> add_mset (pq_list q ! 0) (mset (pq_list q')) = mset (pq_list q) \<and> pq_idx q' (pq_list q ! 0) = - 1
     \<and> (\<forall>x. x \<notin> set (pq_list q) \<longrightarrow> pq_idx q' x = pq_idx q x)"
proof (cases "butlast (pq_list q) = []")
  case True
  then obtain x where "pq_list q = [x]" using assms(2) by (metis append_butlast_last_id append_Nil)
  then show ?thesis by (simp add: smartlist_pqueue_pop_def Let_def idx_ok_def)
next
  case False
  then have k: "0 < length (pq_list q) - 1" by (metis length_butlast length_greater_0_conv)
  have "smartlist_pqueue_pop compare q =
      map_option (Pair (pq_list q ! 0)) (smartlist_pqueue_remove compare q (pq_list q ! 0))"
    using False assms k by (simp add: smartlist_pqueue_pop_def smartlist_pqueue_remove_def Let_def idx_ok_def pqueue_update_swap)
  then show ?thesis
    using pqueue_remove_frame [OF assms(1), of "pq_list q ! 0" compare] assms(2) by auto
qed

subsection \<open>The heap property\<close>

definition heap_ok :: "('a \<Rightarrow> 'a \<Rightarrow> int) \<Rightarrow> 'a list \<Rightarrow> bool" where
  "heap_ok compare sl \<longleftrightarrow>
     (\<forall>i. 0 < i \<longrightarrow> i < length sl \<longrightarrow> compare (sl ! PARENT i) (sl ! i) \<le> 0)"

definition pqueue_ok :: "('a \<Rightarrow> 'a \<Rightarrow> int) \<Rightarrow> 'a pqueue \<Rightarrow> bool" where
  "pqueue_ok compare q \<longleftrightarrow> heap_ok compare (pq_list q) \<and> idx_ok q"

lemma pqueue_ok_assert: "pqueue_ok compare q \<longleftrightarrow> smartlist_pqueue_assert_ok compare q"
  by (auto simp: pqueue_ok_def heap_ok_def idx_ok_def smartlist_pqueue_assert_ok_def list_all_iff)

text \<open>
  A heap but for the node \<open>k\<close>, which may be too big for its children (sifting down), or
  too small for its parent (sifting up); the nodes around it are in order with each other.
\<close>

definition around_ok :: "('a \<Rightarrow> 'a \<Rightarrow> int) \<Rightarrow> 'a list \<Rightarrow> nat \<Rightarrow> bool" where
  "around_ok compare sl k \<longleftrightarrow>
     (\<forall>i. 0 < i \<longrightarrow> i < length sl \<longrightarrow> PARENT i = k \<longrightarrow> 0 < k \<longrightarrow> compare (sl ! PARENT k) (sl ! i) \<le> 0)"

definition down_ok :: "('a \<Rightarrow> 'a \<Rightarrow> int) \<Rightarrow> 'a list \<Rightarrow> nat \<Rightarrow> bool" where
  "down_ok compare sl k \<longleftrightarrow> around_ok compare sl k \<and>
     (\<forall>i. 0 < i \<longrightarrow> i < length sl \<longrightarrow> PARENT i \<noteq> k \<longrightarrow> compare (sl ! PARENT i) (sl ! i) \<le> 0)"

definition up_ok :: "('a \<Rightarrow> 'a \<Rightarrow> int) \<Rightarrow> 'a list \<Rightarrow> nat \<Rightarrow> bool" where
  "up_ok compare sl k \<longleftrightarrow> around_ok compare sl k \<and>
     (\<forall>i. 0 < i \<longrightarrow> i < length sl \<longrightarrow> i \<noteq> k \<longrightarrow> compare (sl ! PARENT i) (sl ! i) \<le> 0)"

lemma PARENT_less: "0 < i \<Longrightarrow> PARENT i < i"
  by (simp add: PARENT_def)

lemma PARENT_eq_iff: "0 < i \<Longrightarrow> PARENT i = k \<longleftrightarrow> i = LEFT_CHILD k \<or> i = LEFT_CHILD k + 1"
  by (auto simp: PARENT_def LEFT_CHILD_def)

locale pqueue_order =
  fixes compare :: "'a \<Rightarrow> 'a \<Rightarrow> int"
  assumes cmp_flip: "compare a b < 0 \<longleftrightarrow> compare b a > 0"
    and cmp_trans: "compare a b \<le> 0 \<Longrightarrow> compare b c \<le> 0 \<Longrightarrow> compare a c \<le> 0"
begin

lemma cmp_refl: "compare a a = 0"
  using cmp_flip [of a a] by linarith

lemma cmp_total: "\<not> compare a b < 0 \<Longrightarrow> compare b a \<le> 0"
  using cmp_flip [of a b] by linarith

lemma cmp_total_le: "\<not> compare a b \<le> 0 \<Longrightarrow> compare b a \<le> 0"
  using cmp_flip [of b a] by linarith

lemma heap_best_le:
  assumes "LEFT_CHILD k < length sl" and "i = k \<or> (0 < i \<and> i < length sl \<and> PARENT i = k)"
  shows "compare (sl ! heap_best compare sl k) (sl ! i) \<le> 0"
proof -
  let ?l = "LEFT_CHILD k"
  let ?m = "if compare (sl ! k) (sl ! ?l) < 0 then k else ?l"
  have m: "compare (sl ! ?m) (sl ! k) \<le> 0" "compare (sl ! ?m) (sl ! ?l) \<le> 0"
    using cmp_refl cmp_total [of "sl ! k" "sl ! ?l"] by simp_all
  have i: "i = k \<or> i = ?l \<or> i = ?l + 1 \<and> ?l + 1 < length sl"
    using assms(2) PARENT_eq_iff [of i k] by auto
  show ?thesis
  proof (cases "?l + 1 < length sl \<and> compare (sl ! (?l + 1)) (sl ! ?m) < 0")
    case True
    then have "compare (sl ! (?l + 1)) (sl ! ?m) \<le> 0" by simp
    with m have "compare (sl ! (?l + 1)) (sl ! k) \<le> 0" "compare (sl ! (?l + 1)) (sl ! ?l) \<le> 0"
      using cmp_trans by blast+
    then show ?thesis
      using True i cmp_refl by (auto simp: heap_best_def Let_def)
  next
    case False
    then have "?l + 1 < length sl \<Longrightarrow> compare (sl ! ?m) (sl ! (?l + 1)) \<le> 0"
      using cmp_total by blast
    moreover have "heap_best compare sl k = ?m"
      by (simp only: heap_best_def Let_def if_not_P [OF False])
    ultimately show ?thesis using i m by auto
  qed
qed

text \<open>Swapping the node with its best child moves the defect down.\<close>

lemma down_ok_swap:
  assumes "down_ok compare sl k" and "LEFT_CHILD k < length sl"
    and b: "b = heap_best compare sl k" "b \<noteq> k"
  shows "down_ok compare (sl[k := sl ! b, b := sl ! k]) b"
proof -
  have kb: "k < b" "b < length sl" using b assms(2) heap_best_ge heap_best_less by metis+
  have pb: "PARENT b = k"
    using b kb assms(2) by (auto simp: heap_best_def Let_def PARENT_def LEFT_CHILD_def split: if_splits)
  note best = heap_best_le [OF assms(2), folded b(1)]
  let ?sl = "sl[k := sl ! b, b := sl ! k]"
  have sib: "0 < i \<Longrightarrow> i < length sl \<Longrightarrow> PARENT i \<noteq> b \<Longrightarrow> compare (?sl ! PARENT i) (?sl ! i) \<le> 0" for i
    using assms(1) best [of i] best [of k] kb pb PARENT_less [of i] PARENT_less [of k]
    by (cases "i = b"; cases "i = k"; cases "PARENT i = k")
       (auto simp: down_ok_def around_ok_def nth_list_update)
  moreover have "around_ok compare ?sl b"
    unfolding around_ok_def
  proof (intro allI impI)
    fix i assume i: "0 < i" "i < length ?sl" "PARENT i = b" "0 < b"
    then have "b < i" using PARENT_less by metis
    then show "compare (?sl ! PARENT b) (?sl ! i) \<le> 0"
      using assms(1) i kb pb by (auto simp: down_ok_def nth_list_update)
  qed
  ultimately show ?thesis by (simp add: down_ok_def)
qed

lemma heapify_heap_ok:
  "down_ok compare (pq_list q) idx \<Longrightarrow> length (pq_list q) \<le> INT_MAX \<Longrightarrow>
     heap_ok compare (pq_list (smartlist_heapify compare q idx))"
proof (induction "length (pq_list q) - idx" arbitrary: q idx rule: less_induct)
  case less
  let ?b = "heap_best compare (pq_list q) idx"
  show ?case
  proof (cases "LEFT_CHILD idx < length (pq_list q)")
    case False
    then have "\<not> (0 < i \<and> i < length (pq_list q) \<and> PARENT i = idx)" for i
      using PARENT_eq_iff [of i idx] by auto
    then have "heap_ok compare (pq_list q)"
      using less.prems by (auto simp: heap_ok_def down_ok_def)
    moreover have "smartlist_heapify compare q idx = q"
      using False by (subst smartlist_heapify.simps) simp
    ultimately show ?thesis by simp
  next
    case True
    have may: "IDX_MAY_HAVE_CHILDREN idx"
      using True less.prems by (simp add: IDX_MAY_HAVE_CHILDREN_def MAX_PARENT_IDX_def LEFT_CHILD_def INT_MAX_def)
    show ?thesis
    proof (cases "?b = idx")
      case stop: True
      have "compare (pq_list q ! idx) (pq_list q ! i) \<le> 0"
        if "0 < i" "i < length (pq_list q)" "PARENT i = idx" for i
        using heap_best_le [OF True, of i] stop that by simp
      then have "heap_ok compare (pq_list q)"
        using less.prems by (auto simp: heap_ok_def down_ok_def)
      moreover have "smartlist_heapify compare q idx = q"
        using stop by (subst smartlist_heapify.simps) (simp add: Let_def)
      ultimately show ?thesis by simp
    next
      case go: False
      let ?q' = "heap_swap idx ?b q"
      have "down_ok compare (pq_list ?q') ?b"
        using down_ok_swap [OF less.prems(1) True refl go] by (simp add: heap_swap_list)
      moreover have "length (pq_list ?q') - ?b < length (pq_list q) - idx"
        using heap_best_ge [OF go] True by (simp add: LEFT_CHILD_def)
      ultimately have "heap_ok compare (pq_list (smartlist_heapify compare ?q' ?b))"
        using less.hyps less.prems by simp
      moreover have "smartlist_heapify compare q idx = smartlist_heapify compare ?q' ?b"
        using go True may by (subst smartlist_heapify.simps) (simp add: Let_def)
      ultimately show ?thesis by simp
    qed
  qed
qed

lemma up_ok_swap:
  assumes "up_ok compare sl k" and "0 < k" "k < length sl"
    and p: "p = PARENT k" and lt: "compare (sl ! k) (sl ! p) < 0"
  shows "up_ok compare (sl[p := sl ! k, k := sl ! p]) p"
proof -
  let ?sl = "sl[p := sl ! k, k := sl ! p]"
  have pk: "p < k" using assms(2) p PARENT_less by simp
  have le: "compare (sl ! k) (sl ! p) \<le> 0" using lt by simp
  have ord: "0 < i \<Longrightarrow> i < length sl \<Longrightarrow> i \<noteq> k \<Longrightarrow> compare (sl ! PARENT i) (sl ! i) \<le> 0" for i
    using assms(1) by (simp add: up_ok_def)
  have ard: "0 < i \<Longrightarrow> i < length sl \<Longrightarrow> PARENT i = k \<Longrightarrow> compare (sl ! p) (sl ! i) \<le> 0" for i
    using assms(1,2) p by (simp add: up_ok_def around_ok_def)
  have "compare (?sl ! PARENT i) (?sl ! i) \<le> 0" if i: "0 < i" "i < length sl" "i \<noteq> p" for i
  proof (cases "i = k")
    case True
    with pk assms(3) le p show ?thesis by (simp add: nth_list_update)
  next
    case False
    note o = ord [OF i(1,2) False]
    show ?thesis
    proof (cases "PARENT i = p")
      case True
      then have "compare (sl ! k) (sl ! i) \<le> 0" using cmp_trans [OF le] o by simp
      with True False i pk assms(3) show ?thesis by (simp add: nth_list_update)
    next
      case np: False
      with False i pk ard [of i] o assms(3) show ?thesis by (auto simp: nth_list_update)
    qed
  qed
  moreover have "around_ok compare ?sl p"
    unfolding around_ok_def
  proof (intro allI impI)
    fix i assume i: "0 < i" "i < length ?sl" "PARENT i = p" "0 < p"
    have pp: "PARENT p < p" "compare (sl ! PARENT p) (sl ! p) \<le> 0"
      using i(4) PARENT_less ord [of p] pk assms(3) by simp_all
    then have "compare (sl ! PARENT p) (?sl ! i) \<le> 0"
      using i cmp_trans [OF pp(2)] ord [of i] pk assms(3) PARENT_less [of i]
      by (cases "i = k") (simp_all add: nth_list_update)
    then show "compare (?sl ! PARENT p) (?sl ! i) \<le> 0"
      using pp pk by simp
  qed
  ultimately show ?thesis by (simp add: up_ok_def)
qed

lemma sift_up_heap_ok:
  "up_ok compare (pq_list q) idx \<Longrightarrow> idx < length (pq_list q) \<Longrightarrow>
     heap_ok compare (pq_list (sift_up compare q idx))"
proof (induction idx arbitrary: q rule: less_induct)
  case (less idx)
  show ?case
  proof (cases "idx \<noteq> 0 \<and> compare (pq_list q ! idx) (pq_list q ! PARENT idx) < 0")
    case False
    then have "sift_up compare q idx = q" by (subst sift_up.simps) (auto simp: Let_def)
    moreover have "compare (pq_list q ! PARENT idx) (pq_list q ! idx) \<le> 0" if "0 < idx"
      using False that cmp_total by simp
    then have "heap_ok compare (pq_list q)"
      using less.prems by (metis heap_ok_def up_ok_def)
    ultimately show ?thesis by simp
  next
    case True
    let ?q' = "heap_swap (PARENT idx) idx q"
    have "up_ok compare (pq_list ?q') (PARENT idx)"
      using up_ok_swap [OF less.prems(1) _ less.prems(2) HOL.refl] True by (simp add: heap_swap_list)
    moreover have "PARENT idx < idx" using True PARENT_less by simp
    ultimately have "heap_ok compare (pq_list (sift_up compare ?q' (PARENT idx)))"
      using less by simp
    moreover have "sift_up compare q idx = sift_up compare ?q' (PARENT idx)"
      using True by (subst sift_up.simps) (simp add: Let_def)
    ultimately show ?thesis by simp
  qed
qed

lemma heap_root_min:
  assumes "heap_ok compare sl"
  shows "i < length sl \<Longrightarrow> compare (sl ! 0) (sl ! i) \<le> 0"
proof (induction i rule: less_induct)
  case (less i)
  show ?case
  proof (cases "i = 0")
    case True
    then show ?thesis by (simp add: cmp_refl)
  next
    case False
    then have p: "PARENT i < i" using PARENT_less by simp
    then have "compare (sl ! 0) (sl ! PARENT i) \<le> 0" using less by simp
    moreover have "compare (sl ! PARENT i) (sl ! i) \<le> 0"
      using assms False less.prems by (simp add: heap_ok_def)
    ultimately show ?thesis by (rule cmp_trans)
  qed
qed

text \<open>Adding a new item.\<close>

lemma add_ok:
  assumes "pqueue_ok compare q" and "item \<notin> set (pq_list q)"
  shows "pqueue_ok compare (smartlist_pqueue_add compare q item)
     \<and> mset (pq_list (smartlist_pqueue_add compare q item)) = add_mset item (mset (pq_list q))"
proof -
  let ?n = "length (pq_list q)"
  let ?q1 = "UPDATE_IDX ?n (q\<lparr>pq_list := pq_list q @ [item]\<rparr>)"
  have add: "smartlist_pqueue_add compare q item = sift_up compare ?q1 ?n"
    by (simp add: smartlist_pqueue_add_def smartlist_add_def Let_def)
  have l1: "pq_list ?q1 = pq_list q @ [item]" by (simp add: UPDATE_IDX_def)
  have "up_ok compare (pq_list ?q1) ?n"
  proof -
    have "compare ((pq_list q @ [item]) ! PARENT i) ((pq_list q @ [item]) ! i) \<le> 0"
      if "0 < i" "i < ?n" for i
      using that assms(1) PARENT_less [of i] by (simp add: pqueue_ok_def heap_ok_def nth_append)
    moreover have "\<not> (0 < i \<and> i < Suc ?n \<and> PARENT i = ?n)" for i
      using PARENT_less [of i] by auto
    ultimately show ?thesis
      unfolding l1 up_ok_def around_ok_def by (metis length_append_singleton less_antisym)
  qed
  then show ?thesis
    using sift_up_heap_ok [of ?q1 ?n] pqueue_add_frame(1,2) [of q item compare] assms
    by (simp add: add pqueue_ok_def l1)
qed

text \<open>Replacing the node \<open>k\<close> by the last element and sifting it down.\<close>

lemma replace_last_ok:
  assumes "pqueue_ok compare q" and "k < length (pq_list q) - 1" and "length (pq_list q) \<le> INT_MAX"
    and parent: "0 < k \<Longrightarrow> compare (pq_list q ! PARENT k) (last (pq_list q)) \<le> 0"
    and q1: "q1 = UPDATE_IDX k (q\<lparr>pq_list := (butlast (pq_list q))[k := last (pq_list q)], pq_idx := ix\<rparr>)"
    and ix: "\<forall>x \<in> set (pq_list q). x \<noteq> pq_list q ! k \<longrightarrow> ix x = pq_idx q x"
  shows "pqueue_ok compare (smartlist_heapify compare q1 k)
     \<and> add_mset (pq_list q ! k) (mset (pq_list (smartlist_heapify compare q1 k))) = mset (pq_list q)
     \<and> pq_idx (smartlist_heapify compare q1 k) (pq_list q ! k) = ix (pq_list q ! k)"
proof -
  let ?sl = "pq_list q" let ?n = "length ?sl"
  have l1: "pq_list q1 = (butlast ?sl)[k := last ?sl]" by (simp add: q1 UPDATE_IDX_def)
  have dist: "distinct ?sl" using assms(1) by (simp add: pqueue_ok_def idx_ok_distinct)
  have ne: "?sl \<noteq> []" using assms(2) by auto
  have nth: "pq_list q1 ! i = (if i = k then ?sl ! (?n - 1) else ?sl ! i)" if "i < ?n - 1" for i
    using that ne by (simp add: l1 nth_list_update nth_butlast last_conv_nth)
  have len: "length (pq_list q1) = ?n - 1" by (simp add: l1)
  have okq: "pq_idx q (?sl ! i) = int i" if "i < ?n" for i
    using assms(1) that by (simp add: pqueue_ok_def idx_ok_def)
  have idx: "idx_ok q" using assms(1) by (simp add: pqueue_ok_def)
  note frame = replace_last_frame [OF idx assms(2) q1 ix]
  have "down_ok compare (pq_list q1) k"
  proof -
    have h: "compare (?sl ! PARENT i) (?sl ! i) \<le> 0" if "0 < i" "i < ?n" for i
      using assms(1) that by (simp add: pqueue_ok_def heap_ok_def)
    have "compare (pq_list q1 ! PARENT i) (pq_list q1 ! i) \<le> 0"
      if i: "0 < i" "i < ?n - 1" "PARENT i \<noteq> k" for i
      using i h [of i] PARENT_less [of i] nth [of i] nth [of "PARENT i"] parent ne
      by (simp add: last_conv_nth)
    moreover have "compare (pq_list q1 ! PARENT k) (pq_list q1 ! i) \<le> 0"
      if i: "0 < i" "i < ?n - 1" "PARENT i = k" "0 < k" for i
    proof -
      have "k < i" "PARENT k < k" using i PARENT_less by metis+
      then show ?thesis
        using i cmp_trans [OF h [of k] ] h [of i] nth [of i] nth [of "PARENT k"] assms(2) by simp
    qed
    ultimately show ?thesis by (simp add: down_ok_def around_ok_def len)
  qed
  moreover have "k < length (pq_list q1)" "length (pq_list q1) \<le> INT_MAX"
    using assms(2,3) len by simp_all
  ultimately show ?thesis
    using heapify_heap_ok [of q1 k] heapify_frame [of q1 k compare] frame by (simp add: pqueue_ok_def)
qed

text \<open>Taking the top item, and removing any item whose place the last one may take.\<close>

lemma pop_ok:
  assumes "pqueue_ok compare q" and "pq_list q \<noteq> []" and "length (pq_list q) \<le> INT_MAX"
  shows "\<exists>q'. smartlist_pqueue_pop compare q = Some (pq_list q ! 0, q')
     \<and> pqueue_ok compare q' \<and> add_mset (pq_list q ! 0) (mset (pq_list q')) = mset (pq_list q)
     \<and> pq_idx q' (pq_list q ! 0) = - 1"
proof (cases "butlast (pq_list q) = []")
  case True
  then obtain x where "pq_list q = [x]" using assms(2) by (metis append_butlast_last_id append_Nil)
  then show ?thesis
    by (simp add: smartlist_pqueue_pop_def Let_def pqueue_ok_def heap_ok_def idx_ok_def)
next
  case False
  then have k: "0 < length (pq_list q) - 1" by (metis length_butlast length_greater_0_conv)
  let ?ix = "(pq_idx q)(pq_list q ! 0 := - 1)"
  let ?q1 = "UPDATE_IDX 0 (q\<lparr>pq_list := (butlast (pq_list q))[0 := last (pq_list q)], pq_idx := ?ix\<rparr>)"
  have "smartlist_pqueue_pop compare q = Some (pq_list q ! 0, smartlist_heapify compare ?q1 0)"
    using False assms(2) by (simp add: smartlist_pqueue_pop_def Let_def pqueue_update_swap)
  then show ?thesis
    using replace_last_ok [OF assms(1) k assms(3) _ HOL.refl, of ?ix] by simp
qed

lemma remove_ok:
  assumes "pqueue_ok compare q" and "k < length (pq_list q)" and "length (pq_list q) \<le> INT_MAX"
    and "0 < k \<Longrightarrow> k < length (pq_list q) - 1 \<Longrightarrow> compare (pq_list q ! PARENT k) (last (pq_list q)) \<le> 0"
  shows "\<exists>q'. smartlist_pqueue_remove compare q (pq_list q ! k) = Some q'
     \<and> pqueue_ok compare q' \<and> add_mset (pq_list q ! k) (mset (pq_list q')) = mset (pq_list q)
     \<and> pq_idx q' (pq_list q ! k) = - 1"
proof -
  let ?n = "length (pq_list q)"
  have idx: "pq_idx q (pq_list q ! k) = int k"
    using assms(1,2) by (simp add: pqueue_ok_def idx_ok_def)
  have ne: "pq_list q \<noteq> []" using assms(2) by auto
  let ?ix = "(pq_idx q)(pq_list q ! k := - 1)"
  show ?thesis
  proof (cases "k = ?n - 1")
    case True
    then have lb: "length (butlast (pq_list q)) = k" by simp
    let ?q' = "q\<lparr>pq_idx := ?ix, pq_list := butlast (pq_list q)\<rparr>"
    have "smartlist_pqueue_remove compare q (pq_list q ! k) = Some ?q'"
      by (simp add: smartlist_pqueue_remove_def Let_def idx assms(2) lb del: length_butlast)
    moreover have "heap_ok compare (butlast (pq_list q))"
      unfolding heap_ok_def
    proof (intro allI impI)
      fix i assume i: "0 < i" "i < length (butlast (pq_list q))"
      then have "compare (pq_list q ! PARENT i) (pq_list q ! i) \<le> 0"
        using assms(1) by (simp add: pqueue_ok_def heap_ok_def)
      then show "compare (butlast (pq_list q) ! PARENT i) (butlast (pq_list q) ! i) \<le> 0"
        using i PARENT_less [of i] by (simp add: nth_butlast)
    qed
    moreover have "idx_ok ?q'"
    proof -
      have "distinct (pq_list q)" using assms(1) by (simp add: pqueue_ok_def idx_ok_distinct)
      then show ?thesis
        using assms(1) True by (auto simp: pqueue_ok_def idx_ok_def nth_butlast nth_eq_iff_index_eq)
    qed
    moreover have "add_mset (pq_list q ! k) (mset (butlast (pq_list q))) = mset (pq_list q)"
      using True mset_last_butlast [OF ne] last_conv_nth [OF ne] by simp
    ultimately show ?thesis by (simp add: pqueue_ok_def)
  next
    case False
    then have k: "k < ?n - 1" using assms(2) by simp
    let ?q1 = "UPDATE_IDX k (q\<lparr>pq_list := (butlast (pq_list q))[k := last (pq_list q)], pq_idx := ?ix\<rparr>)"
    have "smartlist_pqueue_remove compare q (pq_list q ! k) = Some (smartlist_heapify compare ?q1 k)"
      using k assms(2) idx by (simp add: smartlist_pqueue_remove_def Let_def pqueue_update_swap)
    then show ?thesis
      using replace_last_ok [OF assms(1) k assms(3) _ HOL.refl, of ?ix] assms(4) k by simp
  qed
qed

end

subsection \<open>The queue as its users see it\<close>

text \<open>
  The queue of plain numbers, ordered by value, is the order the closed examples below run
  on.
\<close>

definition compare_nat :: "nat \<Rightarrow> nat \<Rightarrow> int" where
  "compare_nat a b = int a - int b"

interpretation nat_pq: pqueue_order compare_nat
  by unfold_locales (auto simp: compare_nat_def)

definition empty_pqueue :: "'a pqueue" where
  "empty_pqueue = \<lparr>pq_list = [], pq_idx = (\<lambda>_. - 1)\<rparr>"

definition pqueue_add_all :: "('a \<Rightarrow> 'a \<Rightarrow> int) \<Rightarrow> 'a pqueue \<Rightarrow> 'a list \<Rightarrow> 'a pqueue" where
  "pqueue_add_all compare q xs = foldl (smartlist_pqueue_add compare) q xs"

lemma pqueue_add_all_ok:
  assumes "pqueue_order compare"
  shows "pqueue_ok compare q \<Longrightarrow> distinct (pq_list q @ xs) \<Longrightarrow>
     pqueue_ok compare (pqueue_add_all compare q xs)
     \<and> mset (pq_list (pqueue_add_all compare q xs)) = mset (pq_list q) + mset xs"
proof (induction xs arbitrary: q)
  case Nil
  then show ?case by (simp add: pqueue_add_all_def)
next
  case (Cons x xs)
  let ?q' = "smartlist_pqueue_add compare q x"
  have q': "pqueue_ok compare ?q'" "mset (pq_list ?q') = add_mset x (mset (pq_list q))"
    using pqueue_order.add_ok [OF assms Cons.prems(1)] Cons.prems(2) by auto
  then have "set (pq_list ?q') = insert x (set (pq_list q))"
    by (metis set_mset_add_mset_insert set_mset_mset)
  moreover have "distinct (pq_list ?q')"
    using q'(1) by (simp add: pqueue_ok_def idx_ok_distinct)
  ultimately show ?case
    using Cons.IH [of ?q'] Cons.prems(2) q' by (simp add: pqueue_add_all_def)
qed

lemma empty_pqueue_ok: "pqueue_ok compare empty_pqueue"
  by (simp add: empty_pqueue_def pqueue_ok_def heap_ok_def idx_ok_def)

text \<open>Popping \<open>n\<close> items one after the other.\<close>

fun pop_many :: "('a \<Rightarrow> 'a \<Rightarrow> int) \<Rightarrow> nat \<Rightarrow> 'a pqueue \<Rightarrow> 'a list" where
  "pop_many compare 0 q = []"
| "pop_many compare (Suc n) q =
     (case smartlist_pqueue_pop compare q of
        None \<Rightarrow> [] | Some (x, q') \<Rightarrow> x # pop_many compare n q')"

lemma pop_many_sorted:
  assumes "pqueue_order compare"
  shows "pqueue_ok compare q \<Longrightarrow> length (pq_list q) \<le> INT_MAX \<Longrightarrow> n = length (pq_list q) \<Longrightarrow>
     mset (pop_many compare n q) = mset (pq_list q)
     \<and> sorted_wrt (\<lambda>a b. compare a b \<le> 0) (pop_many compare n q)"
proof (induction n arbitrary: q)
  case 0
  then show ?case by simp
next
  case (Suc n)
  let ?x = "pq_list q ! 0"
  from Suc.prems have ne: "pq_list q \<noteq> []" by auto
  obtain q' where q': "smartlist_pqueue_pop compare q = Some (?x, q')" "pqueue_ok compare q'"
      "add_mset ?x (mset (pq_list q')) = mset (pq_list q)"
    using pqueue_order.pop_ok [OF assms Suc.prems(1) ne Suc.prems(2)] by blast
  then have "Suc (length (pq_list q')) = length (pq_list q)" by (metis size_add_mset size_mset)
  then have n: "n = length (pq_list q')" using Suc.prems by simp
  with Suc.IH [OF q'(2)] Suc.prems have IH: "mset (pop_many compare n q') = mset (pq_list q')"
      "sorted_wrt (\<lambda>a b. compare a b \<le> 0) (pop_many compare n q')" by auto
  have "compare ?x y \<le> 0" if "y \<in> set (pq_list q)" for y
    using that pqueue_order.heap_root_min [OF assms, of "pq_list q"] Suc.prems(1)
    by (auto simp: pqueue_ok_def in_set_conv_nth)
  moreover have "set (pq_list q') \<subseteq> set (pq_list q)"
    using q'(3) by (metis set_mset_mset set_mset_add_mset_insert subset_insertI)
  moreover have "set (pop_many compare n q') = set (pq_list q')"
    using IH(1) by (metis set_mset_mset)
  ultimately show ?case using IH q' by auto
qed

lemma pop_many_numeral:
  "pop_many compare (numeral k) q =
     (case smartlist_pqueue_pop compare q of
        None \<Rightarrow> [] | Some (x, q') \<Rightarrow> x # pop_many compare (pred_numeral k) q')"
  by (simp add: numeral_eq_Suc)

lemmas pqueue_eval = pqueue_add_all_def empty_pqueue_def smartlist_pqueue_add_def smartlist_add_def
  smartlist_pqueue_remove_def smartlist_pqueue_pop_def smartlist_heapify.simps heap_best_def
  IDX_MAY_HAVE_CHILDREN_def MAX_PARENT_IDX_def INT_MAX_def LEFT_CHILD_def PARENT_def
  UPDATE_IDX_def sift_up.simps heap_swap_def compare_nat_def Let_def pop_many_numeral

subsection \<open>Properties\<close>

text \<open>
  C30: The heap operations form a priority queue: whatever distinct items are added, in
  whatever order, popping them all yields exactly those items in the order of
  \<open>compare\<close> (any total preorder), and no pop ever hits the empty-queue assertion.
\<close>

theorem pqueue_pops_in_order:
  assumes "pqueue_order compare" and "distinct xs" and "length xs \<le> INT_MAX"
  defines "q \<equiv> pqueue_add_all compare empty_pqueue xs"
  shows "mset (pop_many compare (length xs) q) = mset xs
    \<and> sorted_wrt (\<lambda>a b. compare a b \<le> 0) (pop_many compare (length xs) q)"
proof -
  have "pqueue_ok compare q \<and> mset (pq_list q) = mset (pq_list (empty_pqueue :: 'a pqueue)) + mset xs"
    unfolding q_def
    by (rule pqueue_add_all_ok [OF assms(1) empty_pqueue_ok]) (simp add: empty_pqueue_def assms(2))
  then have q: "pqueue_ok compare q" "mset (pq_list q) = mset xs" by (simp_all add: empty_pqueue_def)
  then have "length (pq_list q) = length xs" by (metis size_mset)
  with pop_many_sorted [OF assms(1) q(1)] q(2) assms(3) show ?thesis by simp
qed

theorem pqueue_pops_in_order_witness:
  "let q = pqueue_add_all compare_nat empty_pqueue [3, 1, 2] in
   mset (pop_many compare_nat (length [3, 1, 2 :: nat]) q) = mset [3, 1, 2]
   \<and> sorted_wrt (\<lambda>a b. compare_nat a b \<le> 0) (pop_many compare_nat (length [3, 1, 2 :: nat]) q)"
  unfolding Let_def
  by (rule pqueue_pops_in_order [OF nat_pq.pqueue_order_axioms]) (simp_all add: INT_MAX_def)

text \<open>
  Removing the item at index \<open>k\<close> keeps the queue well formed, removes just that item
  and marks it as not queued, provided the last item of the array (which takes its place)
  is not smaller than the parent of \<open>k\<close>.
\<close>

theorem pqueue_remove_at:
  assumes "pqueue_order compare" and "smartlist_pqueue_assert_ok compare q"
    and "k < length (pq_list q)" and "length (pq_list q) \<le> INT_MAX"
    and "k = 0 \<or> k = length (pq_list q) - 1 \<or> compare (pq_list q ! PARENT k) (last (pq_list q)) \<le> 0"
  shows "case smartlist_pqueue_remove compare q (pq_list q ! k) of
           None \<Rightarrow> False
         | Some q' \<Rightarrow> smartlist_pqueue_assert_ok compare q'
             \<and> add_mset (pq_list q ! k) (mset (pq_list q')) = mset (pq_list q)
             \<and> pq_idx q' (pq_list q ! k) = - 1"
proof -
  have "pqueue_ok compare q" using assms(2) by (simp add: pqueue_ok_assert)
  moreover have "0 < k \<Longrightarrow> k < length (pq_list q) - 1 \<Longrightarrow>
      compare (pq_list q ! PARENT k) (last (pq_list q)) \<le> 0"
    using assms(5) by auto
  ultimately show ?thesis
    using pqueue_order.remove_ok [OF assms(1) _ assms(3,4)] by (auto simp: pqueue_ok_assert)
qed

theorem pqueue_remove_at_witness:
  "case smartlist_pqueue_remove compare_nat (pqueue_add_all compare_nat empty_pqueue [2, 3, 4]) 2 of
     None \<Rightarrow> False
   | Some q' \<Rightarrow> smartlist_pqueue_assert_ok compare_nat q' \<and> add_mset 2 (mset (pq_list q')) = mset [2, 3, 4]
       \<and> pq_idx q' 2 = - 1"
proof -
  let ?q = "pqueue_add_all compare_nat empty_pqueue [2, 3, 4]"
  have l: "pq_list ?q = [2, 3, 4]" by (simp add: pqueue_eval)
  have "smartlist_pqueue_assert_ok compare_nat ?q"
    using pqueue_add_all_ok [OF nat_pq.pqueue_order_axioms empty_pqueue_ok, of "[2, 3, 4]"]
    by (simp add: empty_pqueue_def pqueue_ok_assert)
  from pqueue_remove_at [OF nat_pq.pqueue_order_axioms this, of 0, unfolded l nth_Cons_0]
  show ?thesis by (simp add: INT_MAX_def)
qed

text \<open>
  C36: That condition is needed, and the code does not establish it: the item moved into
  the hole is only ever sifted down.  In the queue built by adding 1, 5, 6, 4, 3, 2, 0,
  removing 5 puts 2 below 3; \<open>smartlist_pqueue_assert_ok\<close> would fail, and popping then
  yields 3 before 2.
\<close>

theorem pqueue_remove_breaks_heap:
  "let q = pqueue_add_all compare_nat empty_pqueue [1, 5, 6, 4, 3, 2, 0] in
     smartlist_pqueue_assert_ok compare_nat q
     \<and> (case smartlist_pqueue_remove compare_nat q 5 of
          None \<Rightarrow> False
        | Some q' \<Rightarrow> \<not> smartlist_pqueue_assert_ok compare_nat q'
            \<and> pop_many compare_nat 4 q' = [0, 1, 3, 2])"
proof -
  let ?q = "pqueue_add_all compare_nat empty_pqueue [1, 5, 6, 4, 3, 2, 0]"
  have l: "pq_list ?q = [0, 3, 1, 5, 4, 6, 2]" and i: "pq_idx ?q 5 = 3"
    by (simp_all add: pqueue_eval)
  have ok: "smartlist_pqueue_assert_ok compare_nat ?q"
    using pqueue_add_all_ok [OF nat_pq.pqueue_order_axioms empty_pqueue_ok, of "[1, 5, 6, 4, 3, 2, 0]"]
    by (simp add: empty_pqueue_def pqueue_ok_assert)
  obtain q' where q': "smartlist_pqueue_remove compare_nat ?q 5 = Some q'"
      and l': "pq_list q' = [0, 3, 1, 2, 4, 6]"
    by (simp add: smartlist_pqueue_remove_def l i Let_def) (simp add: pqueue_eval)
  have "\<not> smartlist_pqueue_assert_ok compare_nat q'"
    by (auto simp: smartlist_pqueue_assert_ok_def l' list_all_iff PARENT_def compare_nat_def
        intro!: bexI [of _ 3])
  moreover have "pop_many compare_nat 4 q' = [0, 1, 3, 2]"
    by (simp add: pop_many_numeral smartlist_pqueue_pop_def l') (simp add: pqueue_eval)
  ultimately show ?thesis using ok q' by (simp add: Let_def)
qed

end
