(* ===== verification/Binascii.thy ===== *)
theory Binascii
  imports Ctype
begin

text \<open>
  Base 16, 32 and 64 (lib/encoding/binascii.c).  Source bytes are words, encoded text is a
  HOL string; a destination buffer is the list of its \<open>destlen\<close> bytes, zero-filled by
  the initial \<open>memset\<close>.  \<open>None\<close> is a failed assertion, \<open>Some (-1, [])\<close> the error
  return.  The \<open>unsigned int\<close> accumulators stay below \<open>2 ^ 24\<close>, so shifts and ors on
  them are multiplications, divisions and sums on \<open>nat\<close>.
\<close>

definition SIZE_T_CEILING :: nat where "SIZE_T_CEILING = 9223372036854775807 - 16"
definition C_INT_MAX :: nat where "C_INT_MAX = 2147483647"

definition CEIL_DIV :: "nat \<Rightarrow> nat \<Rightarrow> nat" where "CEIL_DIV a b = (a + (b - 1)) div b"

text \<open>A buffer of \<open>destlen\<close> bytes that starts with \<open>s\<close> and is zero after it.\<close>

definition fill_buf :: "nat \<Rightarrow> string \<Rightarrow> string" where
  "fill_buf destlen s = s @ replicate (destlen - length s) NUL"

definition byte_nat :: "byte \<Rightarrow> nat" where "byte_nat b = unat b"

lemma byte_nat_less [simp]: "byte_nat b < 256"
proof -
  have "unat b < 2 ^ LENGTH(8)" by (rule unsigned_less)
  then show ?thesis by (simp add: byte_nat_def)
qed

lemma word_byte_nat [simp]: "word_of_nat (byte_nat b) = b"
  by (simp add: byte_nat_def)

subsection \<open>Base 16\<close>

definition hex_digit :: "nat \<Rightarrow> char" where
  "hex_digit v = ''0123456789ABCDEF'' ! v"

fun base16_encode_loop :: "bytes \<Rightarrow> string" where
  "base16_encode_loop [] = []"
| "base16_encode_loop (b # src) =
     hex_digit (byte_nat b div 16) # hex_digit (byte_nat b mod 16) # base16_encode_loop src"

definition base16_encode :: "nat \<Rightarrow> bytes \<Rightarrow> string option" where
  "base16_encode destlen src =
     (if length src < SIZE_T_CEILING div 2 - 1 \<and> destlen \<ge> 2 * length src + 1
         \<and> destlen < SIZE_T_CEILING
      then Some (fill_buf destlen (base16_encode_loop src)) else None)"

fun base16_decode_loop :: "string \<Rightarrow> bytes option" where
  "base16_decode_loop (c1 # c2 # src) =
     (let v1 = hex_decode_digit c1; v2 = hex_decode_digit c2
      in if v1 < 0 \<or> v2 < 0 then None
         else map_option (\<lambda>r. word_of_int (v1 * 16 + v2) # r) (base16_decode_loop src))"
| "base16_decode_loop _ = Some []"

text \<open>The number of bytes decoded and the buffer; \<open>(-1, [])\<close> on failure.\<close>

definition base16_decode :: "nat \<Rightarrow> string \<Rightarrow> int \<times> bytes" where
  "base16_decode destlen src =
     (if length src mod 2 \<noteq> 0 then (- 1, [])
      else if destlen < length src div 2 \<or> destlen > C_INT_MAX then (- 1, [])
      else case base16_decode_loop src of
        None \<Rightarrow> (- 1, [])
      | Some d \<Rightarrow> (int (length d), d @ replicate (destlen - length d) 0))"

text \<open>\<open>hex_str\<close>: its static buffer has room for 32 bytes of input.\<close>

definition hex_str :: "bytes \<Rightarrow> nat \<Rightarrow> cstring option" where
  "hex_str from fromlen =
     (let fromlen = (if fromlen > (65 - 1) div 2 then (65 - 1) div 2 else fromlen)
      in map_option cstr (base16_encode 65 (take fromlen from)))"

subsection \<open>Base 32\<close>

definition BASE32_CHARS :: cstring where "BASE32_CHARS = ''abcdefghijklmnopqrstuvwxyz234567''"

definition base32_encoded_size :: "nat \<Rightarrow> nat option" where
  "base32_encoded_size srclen =
     (let enclen = CEIL_DIV (srclen * 8) 5 + 1
      in if srclen < SIZE_T_CEILING div 8 \<and> enclen < C_INT_MAX \<and> enclen > srclen
         then Some enclen else None)"

text \<open>The 16-bit window at a bit position, and the five bits the loop takes from it.\<close>

definition base32_window :: "bytes \<Rightarrow> nat \<Rightarrow> nat" where
  "base32_window src idx =
     byte_nat (src ! idx) * 256 + (if idx + 1 < length src then byte_nat (src ! (idx + 1)) else 0)"

definition base32_quintet :: "bytes \<Rightarrow> nat \<Rightarrow> nat" where
  "base32_quintet src pos = base32_window src (pos div 8) div 2 ^ (11 - pos mod 8) mod 32"

function base32_encode_loop :: "bytes \<Rightarrow> nat \<Rightarrow> string" where
  "base32_encode_loop src pos =
     (if pos < length src * 8
      then BASE32_CHARS ! base32_quintet src pos # base32_encode_loop src (pos + 5) else [])"
  by pat_completeness auto
termination
  by (relation "measure (\<lambda>(src, pos). length src * 8 - pos)") auto

declare base32_encode_loop.simps [simp del]

definition base32_encode :: "nat \<Rightarrow> bytes \<Rightarrow> string option" where
  "base32_encode destlen src =
     (case base32_encoded_size (length src) of
        None \<Rightarrow> None
      | Some enclen \<Rightarrow>
          if enclen \<le> destlen \<and> destlen < SIZE_T_CEILING
          then Some (fill_buf destlen (base32_encode_loop src 0)) else None)"

definition base32_decode_char :: "char \<Rightarrow> nat option" where
  "base32_decode_char c =
     (let u = of_char c :: nat
      in if u > 0x60 \<and> u < 0x7B then Some (u - 0x61)
         else if u > 0x31 \<and> u < 0x38 then Some (u - 0x18)
         else if u > 0x40 \<and> u < 0x5B then Some (u - 0x41)
         else None)"

fun base32_decode_chars :: "string \<Rightarrow> nat list option" where
  "base32_decode_chars [] = Some []"
| "base32_decode_chars (c # src) =
     (case base32_decode_char c of
        None \<Rightarrow> None
      | Some v \<Rightarrow> map_option (Cons v) (base32_decode_chars src))"

text \<open>The five cases that assemble the byte at pos position \<open>pos\<close>.\<close>

definition base32_decode_byte :: "nat list \<Rightarrow> nat \<Rightarrow> nat" where
  "base32_decode_byte tmp pos =
     (let i = pos div 5 in
      if pos mod 40 = 0 then tmp ! i * 8 + tmp ! (i + 1) div 4
      else if pos mod 40 = 8 then tmp ! i * 64 + tmp ! (i + 1) * 2 + tmp ! (i + 2) div 16
      else if pos mod 40 = 16 then tmp ! i * 16 + tmp ! (i + 1) div 2
      else if pos mod 40 = 24 then tmp ! i * 128 + tmp ! (i + 1) * 4 + tmp ! (i + 2) div 8
      else tmp ! i * 32 + tmp ! (i + 1)) mod 256"

definition base32_decode :: "nat \<Rightarrow> string \<Rightarrow> (int \<times> bytes) option" where
  "base32_decode destlen src =
     (let nbytes = length src * 5 div 8
      in if length src < SIZE_T_CEILING div 5 \<and> nbytes \<le> destlen \<and> destlen < SIZE_T_CEILING
         then (case base32_decode_chars src of
                 None \<Rightarrow> Some (- 1, [])
               | Some tmp \<Rightarrow>
                   let d = map (\<lambda>i. word_of_nat (base32_decode_byte tmp (8 * i))) [0..<nbytes]
                   in Some (int nbytes, d @ replicate (destlen - nbytes) 0))
         else None)"

subsection \<open>Base 64\<close>

definition base64_encode_table :: string where
  "base64_encode_table = ''ABCDEFGHIJKLMNOPQRSTUVWXYZabcdefghijklmnopqrstuvwxyz0123456789+/''"

text \<open>\<open>ml\<close> is the flag BASE64_ENCODE_MULTILINE.\<close>

definition base64_encode_size :: "nat \<Rightarrow> bool \<Rightarrow> nat option" where
  "base64_encode_size srclen ml =
     (if srclen < C_INT_MAX \<and> CEIL_DIV srclen 3 < C_INT_MAX div 4
      then let enclen = CEIL_DIV srclen 3 * 4;
               enclen = (if ml then enclen + CEIL_DIV enclen 64 else enclen)
           in if enclen < C_INT_MAX \<and> (enclen = 0 \<or> enclen > srclen) then Some enclen else None
      else None)"

definition base64_decode_maxsize :: "nat \<Rightarrow> nat option" where
  "base64_decode_maxsize srclen =
     (if srclen < C_INT_MAX div 3 then Some (CEIL_DIV (srclen * 3) 4) else None)"

text \<open>The macros ENCODE_CHAR, ENCODE_N and ENCODE_PAD, on the output and \<open>linelen\<close>.\<close>

definition ENCODE_CHAR :: "bool \<Rightarrow> char \<Rightarrow> string \<times> nat \<Rightarrow> string \<times> nat" where
  "ENCODE_CHAR ml ch = (\<lambda>(d, linelen).
     if ml then
       (if (linelen + 1) mod 64 = 0 then (d @ [ch, CHR 0x0A], 0) else (d @ [ch], linelen + 1))
     else (d @ [ch], linelen))"

definition ENCODE_N :: "bool \<Rightarrow> nat \<Rightarrow> nat \<Rightarrow> string \<times> nat \<Rightarrow> string \<times> nat" where
  "ENCODE_N ml n idx = ENCODE_CHAR ml (base64_encode_table ! (n div 2 ^ ((3 - idx) * 6) mod 64))"

definition ENCODE_PAD :: "bool \<Rightarrow> string \<times> nat \<Rightarrow> string \<times> nat" where
  "ENCODE_PAD ml = ENCODE_CHAR ml (CHR ''='')"

fun base64_encode_loop :: "bool \<Rightarrow> bytes \<Rightarrow> nat \<Rightarrow> nat \<Rightarrow> string \<times> nat \<Rightarrow> nat \<times> nat \<times> string \<times> nat" where
  "base64_encode_loop ml [] n n_idx out = (n, n_idx, out)"
| "base64_encode_loop ml (b # usrc) n n_idx out =
     (let n = n * 256 + byte_nat b; n_idx = n_idx + 1
      in if n_idx = 3
         then base64_encode_loop ml usrc 0 0
           (ENCODE_N ml n 3 (ENCODE_N ml n 2 (ENCODE_N ml n 1 (ENCODE_N ml n 0 out))))
         else base64_encode_loop ml usrc n n_idx out)"

text \<open>The leftover 0, 8 or 16 bits, and the final newline of multiline output.\<close>

definition base64_encode_final :: "bool \<Rightarrow> nat \<times> nat \<times> string \<times> nat \<Rightarrow> string \<times> nat" where
  "base64_encode_final ml = (\<lambda>(n, n_idx, out).
     if n_idx = 1 then
       (let n = n * 16 in ENCODE_PAD ml (ENCODE_PAD ml (ENCODE_N ml n 3 (ENCODE_N ml n 2 out))))
     else if n_idx = 2 then
       (let n = n * 4 in ENCODE_PAD ml (ENCODE_N ml n 3 (ENCODE_N ml n 2 (ENCODE_N ml n 1 out))))
     else out)"

definition base64_encode_text :: "bool \<Rightarrow> bytes \<Rightarrow> string" where
  "base64_encode_text ml src =
     (let (d, linelen) = base64_encode_final ml (base64_encode_loop ml src 0 0 ([], 0))
      in if ml \<and> linelen \<noteq> 0 then d @ [CHR 0x0A] else d)"

definition base64_encode :: "nat \<Rightarrow> bytes \<Rightarrow> bool \<Rightarrow> (int \<times> string) option" where
  "base64_encode destlen src ml =
     (case base64_encode_size (length src) ml of
        None \<Rightarrow> None
      | Some enclen \<Rightarrow>
          if destlen < enclen + 1 then Some (- 1, [])
          else if destlen > SIZE_T_CEILING then Some (- 1, [])
          else if enclen > C_INT_MAX then Some (- 1, [])
          else let d = base64_encode_text ml src
               in if length d = enclen then Some (int enclen, fill_buf destlen d) else None)"

text \<open>\<open>base64_encode_nopad\<close>: the padding is squeezed out of the NUL-terminated output.\<close>

definition base64_encode_nopad :: "nat \<Rightarrow> bytes \<Rightarrow> (int \<times> string) option" where
  "base64_encode_nopad destlen src =
     (case base64_encode destlen src False of
        None \<Rightarrow> None
      | Some (n, dest) \<Rightarrow>
          if n \<le> 0 then Some (n, dest)
          else if nat n < destlen \<and> dest ! nat n = NUL
          then let out = filter (\<lambda>c. c \<noteq> CHR ''='' \<and> c \<noteq> CHR 0x0A) (cstr dest)
               in Some (int (length out), out)
          else None)"

text \<open>X is 255, SP 64 and PAD 65.\<close>

definition base64_decode_table :: "nat list" where
  "base64_decode_table = [
    255, 255, 255, 255, 255, 255, 255, 255, 255, 64, 64, 64, 255, 64, 255, 255,
    255, 255, 255, 255, 255, 255, 255, 255, 255, 255, 255, 255, 255, 255, 255, 255,
    64, 255, 255, 255, 255, 255, 255, 255, 255, 255, 255, 62, 255, 255, 255, 63,
    52, 53, 54, 55, 56, 57, 58, 59, 60, 61, 255, 255, 255, 65, 255, 255,
    255, 0, 1, 2, 3, 4, 5, 6, 7, 8, 9, 10, 11, 12, 13, 14,
    15, 16, 17, 18, 19, 20, 21, 22, 23, 24, 25, 255, 255, 255, 255, 255,
    255, 26, 27, 28, 29, 30, 31, 32, 33, 34, 35, 36, 37, 38, 39, 40,
    41, 42, 43, 44, 45, 46, 47, 48, 49, 50, 51, 255, 255, 255, 255, 255,
    255, 255, 255, 255, 255, 255, 255, 255, 255, 255, 255, 255, 255, 255, 255, 255,
    255, 255, 255, 255, 255, 255, 255, 255, 255, 255, 255, 255, 255, 255, 255, 255,
    255, 255, 255, 255, 255, 255, 255, 255, 255, 255, 255, 255, 255, 255, 255, 255,
    255, 255, 255, 255, 255, 255, 255, 255, 255, 255, 255, 255, 255, 255, 255, 255,
    255, 255, 255, 255, 255, 255, 255, 255, 255, 255, 255, 255, 255, 255, 255, 255,
    255, 255, 255, 255, 255, 255, 255, 255, 255, 255, 255, 255, 255, 255, 255, 255,
    255, 255, 255, 255, 255, 255, 255, 255, 255, 255, 255, 255, 255, 255, 255, 255,
    255, 255, 255, 255, 255, 255, 255, 255, 255, 255, 255, 255, 255, 255, 255, 255]"

text \<open>The decoding loop; \<open>None\<close> is the return of -1.\<close>

fun base64_decode_loop :: "nat \<Rightarrow> string \<Rightarrow> nat \<Rightarrow> nat \<Rightarrow> bytes \<Rightarrow> (nat \<times> nat \<times> bytes) option" where
  "base64_decode_loop destlen [] n n_idx dest = Some (n, n_idx, dest)"
| "base64_decode_loop destlen (c # src) n n_idx dest =
     (let v = base64_decode_table ! of_char c in
      if v = 255 then None
      else if v = 64 then base64_decode_loop destlen src n n_idx dest
      else if v = 65 then Some (n, n_idx, dest)
      else
        let n = n * 64 + v; n_idx = n_idx + 1 in
        if n_idx = 4 then
          (if destlen < 3 \<or> length dest > destlen - 3 then None
           else base64_decode_loop destlen src 0 0
             (dest @ [word_of_nat (n div 2 ^ 16), word_of_nat (n div 2 ^ 8 mod 256), word_of_nat (n mod 256)]))
        else base64_decode_loop destlen src n n_idx dest)"

definition base64_decode_final :: "nat \<Rightarrow> nat \<times> nat \<times> bytes \<Rightarrow> bytes option" where
  "base64_decode_final destlen = (\<lambda>(n, n_idx, dest).
     if n_idx = 1 then None
     else if n_idx = 2 then
       (if destlen < 1 \<or> length dest > destlen - 1 then None
        else Some (dest @ [word_of_nat (n div 2 ^ 4)]))
     else if n_idx = 3 then
       (if destlen < 2 \<or> length dest > destlen - 2 then None
        else Some (dest @ [word_of_nat (n div 2 ^ 10), word_of_nat (n div 2 ^ 2)]))
     else Some dest)"

definition base64_decode :: "nat \<Rightarrow> string \<Rightarrow> int \<times> bytes" where
  "base64_decode destlen src =
     (if destlen > C_INT_MAX then (- 1, [])
      else case Option.bind (base64_decode_loop destlen src 0 0 []) (base64_decode_final destlen) of
        None \<Rightarrow> (- 1, [])
      | Some d \<Rightarrow> (int (length d), d @ replicate (destlen - length d) 0))"


subsection \<open>Base 16: round trip\<close>

lemma hex_decode_table: "map hex_decode_digit ''0123456789ABCDEF'' = map int [0..<16]"
  by (simp add: hex_decode_digit_def hex_digit_cases_def upt_conv_Cons)

lemma hex_decode_hex_digit [simp]: "v < 16 \<Longrightarrow> hex_decode_digit (hex_digit v) = int v"
  using arg_cong [OF hex_decode_table, of "\<lambda>xs. xs ! v"]
  by (simp del: list.map add: hex_digit_def nth_map)

lemma length_base16_encode_loop [simp]: "length (base16_encode_loop src) = 2 * length src"
  by (induction src) auto

lemma base16_decode_encode_loop: "base16_decode_loop (base16_encode_loop src) = Some src"
proof (induction src)
  case (Cons b src)
  have "int (byte_nat b div 16) * 16 + int (byte_nat b mod 16) = int (byte_nat b)"
    by (metis div_mult_mod_eq of_nat_add of_nat_mult of_nat_numeral)
  moreover have "byte_nat b div 16 < 16" using byte_nat_less [of b] by linarith
  ultimately show ?case using Cons.IH
    by (simp add: Let_def)
qed simp

subsection \<open>Base 32: round trip\<close>

lemma base32_decode_table: "map base32_decode_char BASE32_CHARS = map Some [0..<32]"
  by (simp add: base32_decode_char_def BASE32_CHARS_def upt_conv_Cons)

lemma base32_decode_char_BASE32_CHARS [simp]:
  "v < 32 \<Longrightarrow> base32_decode_char (BASE32_CHARS ! v) = Some v"
  using arg_cong [OF base32_decode_table, of "\<lambda>xs. xs ! v"]
  by (simp add: nth_map BASE32_CHARS_def del: list.map)

lemma base32_quintet_less [simp]: "base32_quintet src pos < 32"
  by (simp add: base32_quintet_def)

text \<open>The loop is a map over the bit positions 0, 5, 10, ...\<close>

definition base32_count :: "nat \<Rightarrow> nat" where "base32_count n = (8 * n + 4) div 5"

lemma base32_encode_loop_map:
  "5 * k \<le> 8 * length src + 4 \<Longrightarrow>
     base32_encode_loop src (5 * k) =
     map (\<lambda>j. BASE32_CHARS ! base32_quintet src (5 * j)) [k..<base32_count (length src)]"
proof (induction src "5 * k" arbitrary: k rule: base32_encode_loop.induct)
  case (1 src)
  show ?case
  proof (cases "5 * k < length src * 8")
    case True
    then have k: "k < base32_count (length src)" by (simp add: base32_count_def)
    have "base32_encode_loop src (5 * Suc k) =
        map (\<lambda>j. BASE32_CHARS ! base32_quintet src (5 * j)) [Suc k..<base32_count (length src)]"
      using True by (intro "1.hyps") auto
    then show ?thesis using True k
      by (subst base32_encode_loop.simps) (simp add: upt_conv_Cons add.commute)
  next
    case False
    then have "base32_count (length src) \<le> k" by (simp add: base32_count_def)
    with False show ?thesis by (subst base32_encode_loop.simps) simp
  qed
qed

lemma base32_encode_loop_eq:
  "base32_encode_loop src 0 =
     map (\<lambda>j. BASE32_CHARS ! base32_quintet src (5 * j)) [0..<base32_count (length src)]"
  using base32_encode_loop_map [of 0 src] by simp

lemma base32_decode_chars_map:
  "(\<And>j. j \<in> set js \<Longrightarrow> f j < 32) \<Longrightarrow>
     base32_decode_chars (map (\<lambda>j. BASE32_CHARS ! f j) js) = Some (map f js)"
  by (induction js) auto

definition byte_at :: "bytes \<Rightarrow> nat \<Rightarrow> nat" where
  "byte_at src i = (if i < length src then byte_nat (src ! i) else 0)"

lemma byte_at_less [simp]: "byte_at src i < 256"
  by (simp add: byte_at_def)

lemma base32_quintet_at:
  "i < length src \<Longrightarrow> r < 8 \<Longrightarrow> base32_quintet src (8 * i + r) =
     (byte_at src i * 256 + byte_at src (Suc i)) div 2 ^ (11 - r) mod 32"
  by (auto simp: base32_quintet_def base32_window_def byte_at_def)

lemma mod_mult_shift: "(q::nat) < m \<Longrightarrow> (a * m + q) mod (m * k) = (a mod k) * m + q"
  by (simp add: mod_mult2_eq)

lemma nat_split3: "(b::nat) div (m * k) * (m * k) + (b div m mod k) * m + b mod m = b"
proof -
  have "b mod (m * k) = m * (b div m mod k) + b mod m" by (simp add: mod_mult2_eq)
  then have "b div (m * k) * (m * k) + b mod (m * k) =
      b div (m * k) * (m * k) + (b div m mod k) * m + b mod m" by (simp add: mult.commute)
  then show ?thesis using div_mult_mod_eq [of b "m * k"] by linarith
qed

lemma base32_pieces:
  assumes "b < (256::nat)"
  shows "(a * 256 + b) div 2048 = a div 8"
    and "(a * 256 + b) div 64 mod 32 = a mod 8 * 4 + b div 64"
    and "(a * 256 + b) div 512 = a div 2"
    and "(a * 256 + b) div 16 mod 32 = a mod 2 * 16 + b div 16"
    and "(a * 256 + b) div 128 mod 32 = a mod 16 * 2 + b div 128"
    and "(a * 256 + b) div 1024 = a div 4"
    and "(a * 256 + b) div 32 mod 32 = a mod 4 * 8 + b div 32"
    and "(a * 256 + b) div 256 = a"
proof -
  have "(a * 256 + b) div 64 = a * 4 + b div 64" "b div 64 < 4" using assms by linarith+
  then show "(a * 256 + b) div 64 mod 32 = a mod 8 * 4 + b div 64"
    using mod_mult_shift [of "b div 64" 4 a 8] by simp
  have "(a * 256 + b) div 16 = a * 16 + b div 16" "b div 16 < 16" using assms by linarith+
  then show "(a * 256 + b) div 16 mod 32 = a mod 2 * 16 + b div 16"
    using mod_mult_shift [of "b div 16" 16 a 2] by simp
  have "(a * 256 + b) div 128 = a * 2 + b div 128" "b div 128 < 2" using assms by linarith+
  then show "(a * 256 + b) div 128 mod 32 = a mod 16 * 2 + b div 128"
    using mod_mult_shift [of "b div 128" 2 a 16] by simp
  have "(a * 256 + b) div 32 = a * 8 + b div 32" "b div 32 < 8" using assms by linarith+
  then show "(a * 256 + b) div 32 mod 32 = a mod 4 * 8 + b div 32"
    using mod_mult_shift [of "b div 32" 8 a 4] by simp
qed (use assms in linarith)+

lemma mod_256: "x = 256 * q + b \<Longrightarrow> b < (256::nat) \<Longrightarrow> x mod 256 = b"
  by simp

lemma base32_joins:
  assumes "b < (256::nat)" "c < 256"
  shows "(b div 8 * 8 + (b mod 8 * 4 + c div 64) div 4) mod 256 = b"
    and "((a mod 8 * 4 + b div 64) * 64 + (b div 2 mod 32) * 2 + (b mod 2 * 16 + c div 16) div 16) mod 256 = b"
    and "((a mod 2 * 16 + b div 16) * 16 + (b mod 16 * 2 + c div 128) div 2) mod 256 = b"
    and "((a mod 16 * 2 + b div 128) * 128 + (b div 4 mod 32) * 4 + (b mod 4 * 8 + c div 32) div 8) mod 256 = b"
    and "((a mod 4 * 8 + b div 32) * 32 + b mod 32) mod 256 = b"
proof -
  have "c div 64 < 4" using assms by linarith
  then have "(b mod 8 * 4 + c div 64) div 4 = b mod 8" by linarith
  then have "b div 8 * 8 + (b mod 8 * 4 + c div 64) div 4 = b" by simp
  then show "(b div 8 * 8 + (b mod 8 * 4 + c div 64) div 4) mod 256 = b" using assms by simp
  have "(a mod 8 * 4 + b div 64) * 64 + (b div 2 mod 32) * 2 + (b mod 2 * 16 + c div 16) div 16
      = 256 * (a mod 8) + b"
    using assms nat_split3 [of b 2 32] by simp
  then show "((a mod 8 * 4 + b div 64) * 64 + (b div 2 mod 32) * 2 + (b mod 2 * 16 + c div 16) div 16) mod 256 = b"
    using assms(1) by (rule mod_256)
  have "c div 128 < 2" using assms by linarith
  then have "(b mod 16 * 2 + c div 128) div 2 = b mod 16" by linarith
  then have "(a mod 2 * 16 + b div 16) * 16 + (b mod 16 * 2 + c div 128) div 2 = 256 * (a mod 2) + b"
    by simp
  then show "((a mod 2 * 16 + b div 16) * 16 + (b mod 16 * 2 + c div 128) div 2) mod 256 = b"
    using assms(1) by (rule mod_256)
  have "(a mod 16 * 2 + b div 128) * 128 + (b div 4 mod 32) * 4 + (b mod 4 * 8 + c div 32) div 8
      = 256 * (a mod 16) + b"
    using assms nat_split3 [of b 4 32] by simp
  then show "((a mod 16 * 2 + b div 128) * 128 + (b div 4 mod 32) * 4 + (b mod 4 * 8 + c div 32) div 8) mod 256 = b"
    using assms(1) by (rule mod_256)
  have "(a mod 4 * 8 + b div 32) * 32 + b mod 32 = 256 * (a mod 4) + b" by simp
  then show "((a mod 4 * 8 + b div 32) * 32 + b mod 32) mod 256 = b"
    using assms(1) by (rule mod_256)
qed

lemma base32_decode_byte_cases:
  "pos mod 40 = 0 \<Longrightarrow> pos div 5 = j \<Longrightarrow>
     base32_decode_byte tmp pos = (tmp ! j * 8 + tmp ! (j + 1) div 4) mod 256"
  "pos mod 40 = 8 \<Longrightarrow> pos div 5 = j \<Longrightarrow>
     base32_decode_byte tmp pos = (tmp ! j * 64 + tmp ! (j + 1) * 2 + tmp ! (j + 2) div 16) mod 256"
  "pos mod 40 = 16 \<Longrightarrow> pos div 5 = j \<Longrightarrow>
     base32_decode_byte tmp pos = (tmp ! j * 16 + tmp ! (j + 1) div 2) mod 256"
  "pos mod 40 = 24 \<Longrightarrow> pos div 5 = j \<Longrightarrow>
     base32_decode_byte tmp pos = (tmp ! j * 128 + tmp ! (j + 1) * 4 + tmp ! (j + 2) div 8) mod 256"
  "pos mod 40 = 32 \<Longrightarrow> pos div 5 = j \<Longrightarrow>
     base32_decode_byte tmp pos = (tmp ! j * 32 + tmp ! (j + 1)) mod 256"
  by (simp_all add: base32_decode_byte_def Let_def)

text \<open>Byte \<open>i\<close> of the decoded output is byte \<open>i\<close> of the source.\<close>

lemma base32_decode_byte_quintets:
  assumes i: "i < length src"
  shows "base32_decode_byte (map (\<lambda>j. base32_quintet src (5 * j)) [0..<base32_count (length src)]) (8 * i)
    = byte_nat (src ! i)"
proof -
  define tmp where "tmp = map (\<lambda>j. base32_quintet src (5 * j)) [0..<base32_count (length src)]"
  have tmp: "tmp ! j = base32_quintet src (5 * j)" if "5 * j < 8 * length src" for j
  proof -
    have "j < base32_count (length src)" using that unfolding base32_count_def by linarith
    then show ?thesis by (simp add: tmp_def)
  qed
  have q: "tmp ! j = (byte_at src n * 256 + byte_at src (Suc n)) div 2 ^ (11 - r) mod 32"
    if "5 * j = 8 * n + r" "r < 8" "n < length src" for j n r
    using that tmp [of j] by (simp add: base32_quintet_at)
  have qp: "tmp ! j = (byte_at src (i - 1) * 256 + byte_at src i) div 2 ^ (11 - r) mod 32"
    if "5 * j + 8 = 8 * i + r" "r < 8" "0 < i" for j r
    using that i q [of j "i - 1" r] by (cases i) auto
  define k where "k = i div 5"
  have b: "byte_nat (src ! i) = byte_at src i" using i by (simp add: byte_at_def)
  note joins = base32_joins [of "byte_at src i" "byte_at src (Suc i)"]
  have "i mod 5 < 5" by simp
  then consider "i = 5 * k" | "i = 5 * k + 1" | "i = 5 * k + 2" | "i = 5 * k + 3" | "i = 5 * k + 4"
    unfolding k_def by linarith
  then show ?thesis
    unfolding tmp_def [symmetric] b
  proof cases
    case 1
    have "base32_decode_byte tmp (8 * i) = (tmp ! (8 * k) * 8 + tmp ! (8 * k + 1) div 4) mod 256"
      using 1 by (simp add: base32_decode_byte_def Let_def)
    moreover have "tmp ! (8 * k) = byte_at src i div 8"
    proof -
      have "byte_at src i div 8 < 32" using byte_at_less [of src i] by linarith
      then show ?thesis using 1 i q [of "8 * k" i 0] by (simp add: base32_pieces)
    qed
    moreover have "tmp ! (8 * k + 1) = byte_at src i mod 8 * 4 + byte_at src (Suc i) div 64"
      using 1 i q [of "8 * k + 1" i 5] by (simp add: base32_pieces)
    ultimately show "base32_decode_byte tmp (8 * i) = byte_at src i" using joins(1) by simp
  next
    case 2
    have "base32_decode_byte tmp (8 * i) =
        (tmp ! (8 * k + 1) * 64 + tmp ! (8 * k + 2) * 2 + tmp ! (8 * k + 3) div 16) mod 256"
      using 2 base32_decode_byte_cases(2) [of "8 * i" "8 * k + 1"] by (simp add: add.assoc numeral_3_eq_3)
    moreover have "tmp ! (8 * k + 1) = byte_at src (i - 1) mod 8 * 4 + byte_at src i div 64"
      using 2 qp [of "8 * k + 1" 5] by (simp add: base32_pieces)
    moreover have "tmp ! (8 * k + 2) = byte_at src i div 2 mod 32"
      using 2 i q [of "8 * k + 2" i 2] by (simp add: base32_pieces)
    moreover have "tmp ! (8 * k + 3) = byte_at src i mod 2 * 16 + byte_at src (Suc i) div 16"
      using 2 i q [of "8 * k + 3" i 7] by (simp add: base32_pieces)
    ultimately show "base32_decode_byte tmp (8 * i) = byte_at src i" using joins(2) by simp
  next
    case 3
    have "base32_decode_byte tmp (8 * i) =
        (tmp ! (8 * k + 3) * 16 + tmp ! (8 * k + 4) div 2) mod 256"
      using 3 base32_decode_byte_cases(3) [of "8 * i" "8 * k + 3"] by (simp add: ac_simps)
    moreover have "tmp ! (8 * k + 3) = byte_at src (i - 1) mod 2 * 16 + byte_at src i div 16"
      using 3 qp [of "8 * k + 3" 7] by (simp add: base32_pieces)
    moreover have "tmp ! (8 * k + 4) = byte_at src i mod 16 * 2 + byte_at src (Suc i) div 128"
      using 3 i q [of "8 * k + 4" i 4] by (simp add: base32_pieces)
    ultimately show "base32_decode_byte tmp (8 * i) = byte_at src i" using joins(3) by simp
  next
    case 4
    have "base32_decode_byte tmp (8 * i) =
        (tmp ! (8 * k + 4) * 128 + tmp ! (8 * k + 5) * 4 + tmp ! (8 * k + 6) div 8) mod 256"
      using 4 base32_decode_byte_cases(4) [of "8 * i" "8 * k + 4"] by (simp add: ac_simps)
    moreover have "tmp ! (8 * k + 4) = byte_at src (i - 1) mod 16 * 2 + byte_at src i div 128"
      using 4 qp [of "8 * k + 4" 4] by (simp add: base32_pieces)
    moreover have "tmp ! (8 * k + 5) = byte_at src i div 4 mod 32"
      using 4 i q [of "8 * k + 5" i 1] by (simp add: base32_pieces)
    moreover have "tmp ! (8 * k + 6) = byte_at src i mod 4 * 8 + byte_at src (Suc i) div 32"
      using 4 i q [of "8 * k + 6" i 6] by (simp add: base32_pieces)
    ultimately show "base32_decode_byte tmp (8 * i) = byte_at src i" using joins(4) by simp
  next
    case 5
    have "base32_decode_byte tmp (8 * i) =
        (tmp ! (8 * k + 6) * 32 + tmp ! (8 * k + 7)) mod 256"
      using 5 base32_decode_byte_cases(5) [of "8 * i" "8 * k + 6"] by (simp add: ac_simps)
    moreover have "tmp ! (8 * k + 6) = byte_at src (i - 1) mod 4 * 8 + byte_at src i div 32"
      using 5 qp [of "8 * k + 6" 6] by (simp add: base32_pieces)
    moreover have "tmp ! (8 * k + 7) = byte_at src i mod 32"
      using 5 i q [of "8 * k + 7" i 3] by (simp add: base32_pieces)
    ultimately show "base32_decode_byte tmp (8 * i) = byte_at src i" using joins(5) by simp
  qed
qed

lemma base32_encoded_size_Some:
  "base32_encoded_size n = Some e \<Longrightarrow> e = base32_count n + 1 \<and> base32_count n < C_INT_MAX"
  by (auto simp: base32_encoded_size_def CEIL_DIV_def base32_count_def Let_def mult.commute
      split: if_splits)

lemma base32_bytes: "base32_count n * 5 div 8 = n"
  unfolding base32_count_def by linarith

subsection \<open>Base 64: the encoder on groups of three bytes\<close>

definition b64 :: "nat \<Rightarrow> char" where
  "b64 v = base64_encode_table ! v"

fun base64_groups :: "bytes \<Rightarrow> string" where
  "base64_groups [] = []"
| "base64_groups [a] =
     (let n = byte_nat a * 16 in [b64 (n div 64 mod 64), b64 (n mod 64), CHR ''='', CHR ''=''])"
| "base64_groups [a, b] =
     (let n = (byte_nat a * 256 + byte_nat b) * 4
      in [b64 (n div 4096 mod 64), b64 (n div 64 mod 64), b64 (n mod 64), CHR ''=''])"
| "base64_groups (a # b # c # src) =
     (let n = (byte_nat a * 256 + byte_nat b) * 256 + byte_nat c
      in [b64 (n div 262144 mod 64), b64 (n div 4096 mod 64), b64 (n div 64 mod 64), b64 (n mod 64)]
         @ base64_groups src)"

lemma base64_encode_groups:
  "base64_encode_final ml (base64_encode_loop ml src 0 0 out) =
     fold (ENCODE_CHAR ml) (base64_groups src) out"
  by (induction src arbitrary: out rule: base64_groups.induct)
    (simp_all add: base64_encode_final_def ENCODE_N_def ENCODE_PAD_def b64_def Let_def)

lemma CEIL_DIV_3: "CEIL_DIV (Suc (Suc (Suc n))) 3 = Suc (CEIL_DIV n 3)"
  by (simp add: CEIL_DIV_def)

lemma CEIL_DIV_3_base [simp]: "CEIL_DIV 0 3 = 0" "CEIL_DIV (Suc 0) 3 = 1" "CEIL_DIV (Suc (Suc 0)) 3 = 1"
  by (simp_all add: CEIL_DIV_def)

lemma length_base64_groups: "length (base64_groups src) = CEIL_DIV (length src) 3 * 4"
  by (induction src rule: base64_groups.induct) (simp_all add: CEIL_DIV_3 Let_def)

lemma fold_ENCODE_CHAR_single:
  "fold (ENCODE_CHAR False) cs (d, l) = (d @ cs, l)"
  by (induction cs arbitrary: d) (simp_all add: ENCODE_CHAR_def)

lemma fold_ENCODE_CHAR_lines:
  "l < 64 \<Longrightarrow> fold (ENCODE_CHAR True) cs (d, l) = (d', l') \<Longrightarrow>
     l' = (l + length cs) mod 64 \<and> length d' = length d + length cs + (l + length cs) div 64 \<and>
     filter (\<lambda>c. c \<noteq> CHR 0x0A) d' = filter (\<lambda>c. c \<noteq> CHR 0x0A) d @ filter (\<lambda>c. c \<noteq> CHR 0x0A) cs"
proof (induction cs arbitrary: d l)
  case (Cons c cs)
  show ?case
  proof (cases "l + 1 = 64")
    case True
    then have l: "l = 63" by simp
    have "(64 + length cs) div 64 = Suc (length cs div 64)" by (simp add: div_add_self1)
    then show ?thesis using Cons.prems Cons.IH [of 0 "d @ [c, CHR 0x0A]"]
      by (simp add: l ENCODE_CHAR_def)
  next
    case False
    with Cons.prems(1) have "l + 1 < 64" by simp
    then show ?thesis using Cons.prems Cons.IH [of "l + 1" "d @ [c]"]
      by (simp add: ENCODE_CHAR_def)
  qed
qed auto

lemma length_base64_encode_text:
  "length (base64_encode_text ml src) =
     (let k = CEIL_DIV (length src) 3 * 4 in if ml then k + CEIL_DIV k 64 else k)"
proof (cases ml)
  case True
  obtain d l where f: "fold (ENCODE_CHAR True) (base64_groups src) ([], 0) = (d, l)" by fastforce
  have "l = length (base64_groups src) mod 64 \<and>
      length d = length (base64_groups src) + length (base64_groups src) div 64"
    using fold_ENCODE_CHAR_lines [OF _ f] by simp
  moreover have "CEIL_DIV k 64 = k div 64 + (if k mod 64 = 0 then 0 else 1)" for k
  proof (cases "k mod 64 = 0")
    case True
    then obtain m where "k = 64 * m" by auto
    then show ?thesis by (simp add: CEIL_DIV_def)
  next
    case False
    define m r where "m = k div 64" and "r = k mod 64"
    have "k = 64 * m + r" "r < 64" "0 < r" using False by (simp_all add: m_def r_def)
    then have "(k + 63) div 64 = m + 1" by linarith
    with False show ?thesis by (simp add: CEIL_DIV_def m_def)
  qed
  ultimately show ?thesis using True
    by (simp add: base64_encode_text_def base64_encode_groups f length_base64_groups Let_def
        split: if_splits)
next
  case False
  then show ?thesis
    by (simp add: base64_encode_text_def base64_encode_groups fold_ENCODE_CHAR_single
        length_base64_groups Let_def)
qed

subsection \<open>Base 64: the decoder\<close>

definition b64_index :: "char \<Rightarrow> nat" where
  "b64_index c = base64_decode_table ! of_char c"

lemma b64_index_table: "map b64_index base64_encode_table = [0..<64]"
  by (simp add: upt_rec_numeral upt_conv_Cons b64_index_def base64_encode_table_def base64_decode_table_def)

lemma length_base64_encode_table: "length base64_encode_table = 64"
  by (simp add: base64_encode_table_def)

lemma b64_index_b64: "v < 64 \<Longrightarrow> b64_index (b64 v) = v"
  using arg_cong [OF b64_index_table, of "\<lambda>xs. xs ! v"] length_base64_encode_table
  by (simp add: b64_def)

lemma b64_index_special:
  "b64_index (CHR 0x0A) = 64" "b64_index (CHR ''='') = 65"
  by (simp_all add: base64_decode_table_def b64_index_def)

text \<open>One step of the loop on a character of each class.\<close>

lemma base64_decode_loop_skip:
  "base64_decode_loop destlen (CHR 0x0A # s) n k dest = base64_decode_loop destlen s n k dest"
  using b64_index_special(1) by (simp add: b64_index_def Let_def)

lemma base64_decode_loop_pad:
  "base64_decode_loop destlen (CHR ''='' # s) n k dest = Some (n, k, dest)"
  using b64_index_special(2) by (simp add: b64_index_def Let_def)

lemma base64_decode_loop_b64:
  "v < 64 \<Longrightarrow> k < 3 \<Longrightarrow>
     base64_decode_loop destlen (b64 v # s) n k dest =
     base64_decode_loop destlen s (n * 64 + v) (Suc k) dest"
  using b64_index_b64 [of v] by (simp add: b64_index_def Let_def)

lemma base64_decode_loop_b64_last:
  "v < 64 \<Longrightarrow> length dest + 3 \<le> destlen \<Longrightarrow>
     base64_decode_loop destlen (b64 v # s) n 3 dest =
     base64_decode_loop destlen s 0 0
       (dest @ [word_of_nat ((n * 64 + v) div 2 ^ 16), word_of_nat ((n * 64 + v) div 2 ^ 8 mod 256),
                word_of_nat ((n * 64 + v) mod 256)])"
proof -
  assume "v < 64" and room: "length dest + 3 \<le> destlen"
  moreover have "\<not> (destlen < 3 \<or> destlen - 3 < length dest)" using room by linarith
  ultimately show ?thesis using b64_index_b64 [of v] by (simp add: b64_index_def Let_def)
qed

declare base64_decode_loop.simps(2) [simp del]

lemma base64_decode_loop_newlines:
  "base64_decode_loop destlen (filter (\<lambda>c. c \<noteq> CHR 0x0A) s) n k dest =
     base64_decode_loop destlen s n k dest"
proof (induction s arbitrary: n k dest)
  case (Cons c s)
  show ?case
  proof (cases "c = CHR 0x0A")
    case True
    then show ?thesis using Cons.IH by (simp add: base64_decode_loop_skip)
  next
    case False
    then show ?thesis using Cons.IH by (simp add: base64_decode_loop.simps(2) Let_def)
  qed
qed simp

text \<open>A group of four characters that carry \<open>m < 2 ^ 24\<close>.\<close>

lemma base64_join4:
  assumes "m < (16777216::nat)"
  shows "((m div 262144 mod 64 * 64 + m div 4096 mod 64) * 64 + m div 64 mod 64) * 64 + m mod 64 = m"
proof -
  have "m div 262144 < 64" using assms by (simp add: less_mult_imp_div_less)
  then have 1: "m div 262144 mod 64 = m div 262144" by simp
  have 2: "m div 262144 * 64 + m div 4096 mod 64 = m div 4096"
    using div_mult_mod_eq [of "m div 4096" 64] by (simp add: div_mult2_eq [symmetric])
  have 3: "m div 4096 * 64 + m div 64 mod 64 = m div 64"
    using div_mult_mod_eq [of "m div 64" 64] by (simp add: div_mult2_eq [symmetric])
  show ?thesis unfolding 1 2 3 by simp
qed

lemma base64_decode_4:
  assumes "a < 64" "b < 64" "c < 64" "d < 64" "length dest + 3 \<le> destlen"
    and m: "((a * 64 + b) * 64 + c) * 64 + d = m"
  shows "base64_decode_loop destlen (b64 a # b64 b # b64 c # b64 d # s) 0 0 dest =
    base64_decode_loop destlen s 0 0
      (dest @ [word_of_nat (m div 2 ^ 16), word_of_nat (m div 2 ^ 8 mod 256), word_of_nat (m mod 256)])"
proof -
  have "base64_decode_loop destlen (b64 a # b64 b # b64 c # b64 d # s) 0 0 dest =
      base64_decode_loop destlen (b64 d # s) ((a * 64 + b) * 64 + c) 3 dest"
    using assms by (simp add: base64_decode_loop_b64 numeral_3_eq_3)
  then show ?thesis using base64_decode_loop_b64_last [OF assms(4,5)] m by simp
qed

lemma base64_decode_3:
  "a < 64 \<Longrightarrow> b < 64 \<Longrightarrow> c < 64 \<Longrightarrow> (a * 64 + b) * 64 + c = m \<Longrightarrow>
     base64_decode_loop destlen (b64 a # b64 b # b64 c # CHR ''='' # s) 0 0 dest = Some (m, 3, dest)"
  by (simp add: base64_decode_loop_b64 base64_decode_loop_pad numeral_3_eq_3)

lemmas base64_decode_group = base64_decode_4 [OF _ _ _ _ _ base64_join4, simplified]

lemma base64_join3:
  assumes "n < (262144::nat)"
  shows "(n div 4096 mod 64 * 64 + n div 64 mod 64) * 64 + n mod 64 = n"
proof -
  have "n div 4096 < 64" using assms by (simp add: less_mult_imp_div_less)
  then have 1: "n div 4096 mod 64 = n div 4096" by simp
  have 2: "n div 4096 * 64 + n div 64 mod 64 = n div 64"
    using div_mult_mod_eq [of "n div 64" 64] by (simp add: div_mult2_eq [symmetric])
  show ?thesis unfolding 1 2 by simp
qed

lemma base64_join2:
  assumes "n < (4096::nat)"
  shows "n div 64 mod 64 * 64 + n mod 64 = n"
proof -
  have "n div 64 < 64" using assms by (simp add: less_mult_imp_div_less)
  then show ?thesis by simp
qed

lemma word_byte_low [simp]: "(word_of_nat (x * 256 + byte_nat b) :: byte) = b"
proof -
  have "(256 :: byte) = 0" by simp
  then have "word_of_nat x * (256 :: byte) = 0" by (metis mult_zero_right)
  then show ?thesis by simp
qed

text \<open>Decoding the groups gives back the bytes, for every buffer that has room for them.\<close>

lemma base64_decode_groups:
  "length dest + length src \<le> destlen \<Longrightarrow>
     Option.bind (base64_decode_loop destlen (base64_groups src) 0 0 dest) (base64_decode_final destlen)
     = Some (dest @ src)"
proof (induction src arbitrary: dest rule: base64_groups.induct)
  case 1
  then show ?case by (simp add: base64_decode_final_def)
next
  case (2 a)
  define n where "n = byte_nat a * 16"
  have n: "n div 64 mod 64 * 64 + n mod 64 = n" "n div 2 ^ 4 = byte_nat a"
    using byte_nat_less [of a] by (simp_all only: n_def base64_join2) simp_all
  have "base64_decode_loop destlen (base64_groups [a]) 0 0 dest = Some (n, 2, dest)"
    using n(1) by (simp add: base64_decode_loop_b64 base64_decode_loop_pad Let_def n_def [symmetric]
        numeral_2_eq_2)
  then show ?case using 2 n(2) by (simp add: base64_decode_final_def)
next
  case (3 a b)
  define n where "n = (byte_nat a * 256 + byte_nat b) * 4"
  have "byte_nat a \<le> 255" "byte_nat b \<le> 255"
    using byte_nat_less [of a] byte_nat_less [of b] by linarith+
  then have "byte_nat a * 256 + byte_nat b < 65536" by linarith
  then have "n < 262144" unfolding n_def by simp
  then have n: "(n div 4096 mod 64 * 64 + n div 64 mod 64) * 64 + n mod 64 = n"
    by (rule base64_join3)
  have d: "n div 2 ^ 10 = byte_nat a" "n div 2 ^ 2 = byte_nat a * 256 + byte_nat b"
    using byte_nat_less [of b] unfolding n_def by simp_all
  have "base64_decode_loop destlen (base64_groups [a, b]) 0 0 dest = Some (n, 3, dest)"
    unfolding base64_groups.simps Let_def n_def [symmetric] by (rule base64_decode_3 [OF _ _ _ n]) simp_all
  moreover have "base64_decode_final destlen (n, 3, dest) = Some (dest @ [a, b])"
  proof -
    have "\<not> (destlen < 2 \<or> destlen - 2 < length dest)" using 3 by auto
    moreover have "word_of_nat (n div 2 ^ 2) = b" unfolding d by (rule word_byte_low)
    moreover have "word_of_nat (n div 2 ^ 10) = a" unfolding d by simp
    ultimately show ?thesis by (simp add: base64_decode_final_def)
  qed
  ultimately show ?case by simp
next
  case (4 a b c src)
  define m where "m = (byte_nat a * 256 + byte_nat b) * 256 + byte_nat c"
  have "byte_nat a \<le> 255" "byte_nat b \<le> 255" "byte_nat c \<le> 255"
    using byte_nat_less [of a] byte_nat_less [of b] byte_nat_less [of c] by linarith+
  then have "byte_nat a * 256 + byte_nat b \<le> 65535" "byte_nat c \<le> 255" by linarith+
  then have "m < 16777216" unfolding m_def by simp
  moreover have "m div 65536 = byte_nat a" "m div 256 mod 256 = byte_nat b" "m mod 256 = byte_nat c"
  proof -
    have "m div 256 = byte_nat a * 256 + byte_nat b"
      using div_mult_self3 [of 256 "byte_nat a * 256 + byte_nat b" "byte_nat c"] byte_nat_less [of c]
      by (simp add: m_def)
    then show "m div 256 mod 256 = byte_nat b" by simp
    have "m div 65536 = m div 256 div 256" by (simp add: div_mult2_eq [symmetric])
    also have "\<dots> = byte_nat a" unfolding \<open>m div 256 = _\<close> by simp
    finally show "m div 65536 = byte_nat a" .
    show "m mod 256 = byte_nat c" unfolding m_def
      using mod_mult_shift [of "byte_nat c" 256 "byte_nat a * 256 + byte_nat b" 1] by simp
  qed
  ultimately have "base64_decode_loop destlen (base64_groups (a # b # c # src)) 0 0 dest =
      base64_decode_loop destlen (base64_groups src) 0 0 (dest @ [a, b, c])"
    using 4(2) base64_decode_group [where m = m and dest = dest and destlen = destlen]
    unfolding base64_groups.simps Let_def m_def [symmetric] by simp
  then show ?case using 4(1) [OF HOL.refl, of "dest @ [a, b, c]"] 4(2) by simp
qed

subsection \<open>Properties\<close>

text \<open>Base16_decode inverts base16_encode: the text of the encoded bytes, of any length that
  the encoder accepts, decodes to those bytes in every buffer with room for them.\<close>

theorem base16_roundtrip:
  assumes "base16_encode destlen src = Some enc" "length src \<le> n" "n \<le> C_INT_MAX"
  shows "base16_decode n (take (2 * length src) enc) = (int (length src), src @ replicate (n - length src) 0)"
proof -
  have "take (2 * length src) enc = base16_encode_loop src"
    using assms(1) by (auto simp: base16_encode_def fill_buf_def split: if_splits)
  then show ?thesis using assms(2,3)
    by (simp add: base16_decode_def base16_decode_encode_loop)
qed

theorem base16_roundtrip_witness:
  "base16_decode 3 (take 4 ''01FF'') = (2, [1, 255, 0])"
  using base16_roundtrip [of 5 "[1, 255]" "''01FF'' @ [NUL]" 3]
  by (simp add: base16_encode_def fill_buf_def SIZE_T_CEILING_def C_INT_MAX_def byte_nat_def
      hex_digit_def)

text \<open>Base32_decode inverts base32_encode.  The encoder writes exactly
  \<open>base32_encoded_size - 1\<close> characters, and decoding them returns the source bytes (the
  last quintet's spare bits do not produce an extra byte).\<close>

theorem base32_roundtrip:
  assumes "base32_encode destlen src = Some enc" "length src \<le> n" "n < SIZE_T_CEILING"
  shows "\<exists>e. base32_encoded_size (length src) = Some (e + 1) \<and>
    base32_decode n (take e enc) = Some (int (length src), src @ replicate (n - length src) 0)"
proof -
  let ?e = "base32_count (length src)"
  from assms(1) obtain sz where sz: "base32_encoded_size (length src) = Some sz"
      and enc: "enc = fill_buf destlen (base32_encode_loop src 0)"
    by (auto simp: base32_encode_def split: option.splits if_splits)
  from base32_encoded_size_Some [OF sz] have e: "sz = ?e + 1" and small: "?e < C_INT_MAX" by simp_all
  have len: "length (base32_encode_loop src 0) = ?e" by (simp add: base32_encode_loop_eq)
  then have take: "take ?e enc = map (\<lambda>j. BASE32_CHARS ! base32_quintet src (5 * j)) [0..<?e]"
    by (simp add: enc fill_buf_def base32_encode_loop_eq)
  have "map (\<lambda>i. word_of_nat (base32_decode_byte
      (map (\<lambda>j. base32_quintet src (5 * j)) [0..<?e]) (8 * i))) [0..<length src] = src"
    by (rule nth_equalityI) (simp_all add: base32_decode_byte_quintets)
  moreover have "?e < SIZE_T_CEILING div 5"
    using small by (simp add: C_INT_MAX_def SIZE_T_CEILING_def)
  ultimately have "base32_decode n (take ?e enc) = Some (int (length src), src @ replicate (n - length src) 0)"
    unfolding take using assms(2,3)
    by (simp add: base32_decode_def base32_decode_chars_map base32_bytes Let_def)
  then show ?thesis using sz e by blast
qed

theorem base32_roundtrip_witness:
  "\<exists>e. base32_encoded_size 2 = Some (e + 1) \<and> base32_decode 2 (take e (''aehq'' @ [NUL])) = Some (2, [1, 15])"
  using base32_roundtrip [of 5 "[1, 15]" "''aehq'' @ [NUL]" 2]
  by (simp add: base32_encode_def base32_encoded_size_def fill_buf_def SIZE_T_CEILING_def
      C_INT_MAX_def byte_nat_def base32_encode_loop.simps base32_quintet_def base32_window_def
      BASE32_CHARS_def CEIL_DIV_def Let_def)

text \<open>Base64_encode writes exactly the number of bytes base64_encode_size announces, for
  both settings of BASE64_ENCODE_MULTILINE, so its final assertion never fails: whenever the
  destination has room for them and the NUL it succeeds, and otherwise it returns -1.\<close>

theorem base64_encode_exact:
  assumes "base64_encode_size (length src) ml = Some enclen" "destlen \<le> SIZE_T_CEILING"
  shows "base64_encode destlen src ml =
    Some (if enclen < destlen then (int enclen, fill_buf destlen (base64_encode_text ml src)) else (- 1, []))
    \<and> length (base64_encode_text ml src) = enclen"
proof -
  have "enclen = length (base64_encode_text ml src)" "enclen \<le> C_INT_MAX"
    using assms(1) by (auto simp: base64_encode_size_def length_base64_encode_text Let_def split: if_splits)
  then show ?thesis using assms by (auto simp: base64_encode_def Let_def)
qed

theorem base64_encode_exact_witness:
  "base64_encode 9 [1, 2, 3, 4] False = Some (8, fill_buf 9 (base64_encode_text False [1, 2, 3, 4]))"
  using base64_encode_exact [of "[1, 2, 3, 4]" False 8 9]
  by (simp add: base64_encode_size_def CEIL_DIV_def C_INT_MAX_def SIZE_T_CEILING_def Let_def)

text \<open>C33: base64_decode inverts base64_encode, single-line or multiline: whatever line breaks
  and padding the encoder adds, decoding its output returns the source bytes, in every buffer with
  room for exactly those bytes.\<close>

theorem base64_roundtrip:
  assumes "base64_encode destlen src ml = Some (int e, enc)" "length src \<le> n" "n \<le> C_INT_MAX"
  shows "base64_decode n (take e enc) = (int (length src), src @ replicate (n - length src) 0)"
proof -
  have enc: "take e enc = base64_encode_text ml src"
    using assms(1) by (auto simp: base64_encode_def fill_buf_def Let_def split: option.splits if_splits)
  obtain d l where f: "fold (ENCODE_CHAR ml) (base64_groups src) ([], 0) = (d, l)" by fastforce
  have "filter (\<lambda>c. c \<noteq> CHR 0x0A) (base64_encode_text ml src) =
      filter (\<lambda>c. c \<noteq> CHR 0x0A) (base64_groups src)"
  proof (cases ml)
    case True
    with f fold_ENCODE_CHAR_lines [of 0 "base64_groups src" "[]" d l] show ?thesis
      by (auto simp: base64_encode_text_def base64_encode_groups)
  next
    case False
    with f show ?thesis
      by (auto simp: base64_encode_text_def base64_encode_groups fold_ENCODE_CHAR_single)
  qed
  then have "base64_decode_loop n (take e enc) 0 0 [] = base64_decode_loop n (base64_groups src) 0 0 []"
    unfolding enc by (metis base64_decode_loop_newlines)
  then show ?thesis using assms(2,3) base64_decode_groups [of "[]" src n]
    by (simp add: base64_decode_def)
qed

theorem base64_roundtrip_witness:
  "base64_decode 2 ''AQI='' = (2, [1, 2])"
  using base64_roundtrip [of 5 "[1, 2]" False 4 "''AQI='' @ [NUL]" 2]
  by (simp add: base64_encode_def base64_encode_size_def CEIL_DIV_def C_INT_MAX_def SIZE_T_CEILING_def
      base64_encode_text_def base64_encode_final_def ENCODE_N_def ENCODE_PAD_def ENCODE_CHAR_def
      byte_nat_def base64_encode_table_def fill_buf_def Let_def)

end
