(* ===== verification/Consdiff_Lines.thy ===== *)
theory Consdiff_Lines
  imports Smartlist
begin

text \<open>
  Consensus diffs, first part (feature/dircommon/consdiff.c): lines, slices of a list of lines,
  and \<open>calc_changes\<close>, which finds a longest common subsequence of two slices by divide
  and conquer and marks the lines outside it in two bit arrays.  A \<open>cdline_t\<close> is the string
  of its \<open>len\<close> characters, a \<open>bitarray_t\<close> a list of booleans; an operation of this file
  returns \<open>None\<close> where one of its assertions fails.  The lemmas show that the assertions
  hold, that \<open>calc_changes\<close> touches only the bits of its two slices, and that the lines it
  leaves unmarked are the same sequence on both sides.
\<close>

type_synonym cdline = string

definition lines_eq :: "cdline \<Rightarrow> cdline \<Rightarrow> bool" where
  "lines_eq a b \<longleftrightarrow> length a = length b \<and> memeq a b (length a)"

definition line_str_eq :: "cdline \<Rightarrow> cstring \<Rightarrow> bool" where
  "line_str_eq a b \<longleftrightarrow> lines_eq a b"

definition line_starts_with_str :: "cdline \<Rightarrow> cstring \<Rightarrow> bool" where
  "line_starts_with_str a b \<longleftrightarrow> length a \<ge> length b \<and> memeq a b (length b)"

text \<open>\<open>bitarray_init_zero\<close>, \<open>bitarray_set\<close> and \<open>bitarray_is_set\<close> of lib/container/bitarray.h.\<close>

definition bitarray_init_zero :: "nat \<Rightarrow> bool list" where
  "bitarray_init_zero n_bits = replicate n_bits False"

definition bitarray_set :: "bool list \<Rightarrow> nat \<Rightarrow> bool list" where
  "bitarray_set b idx = b[idx := True]"

definition bitarray_is_set :: "bool list \<Rightarrow> nat \<Rightarrow> bool" where
  "bitarray_is_set b idx = b ! idx"

subsection \<open>Slices\<close>

record slice =
  sl_list :: "cdline list"
  sl_offset :: nat
  sl_len :: nat

definition smartlist_slice :: "cdline list \<Rightarrow> int \<Rightarrow> int \<Rightarrow> slice option" where
  "smartlist_slice list start end =
     (let list_len = int (length list) in
      if start \<ge> 0 \<and> start \<le> list_len then
        let end = (if end = - 1 then list_len else end)
        in if start \<le> end
           then Some \<lparr>sl_list = list, sl_offset = nat start, sl_len = nat (end - start)\<rparr>
           else None
      else None)"

text \<open>The index that position \<open>i\<close> of a walk in direction 1 or -1 reads.\<close>

definition walk_index :: "slice \<Rightarrow> int \<Rightarrow> nat \<Rightarrow> nat" where
  "walk_index s direction i =
     (if direction = - 1 then sl_offset s + (sl_len s - 1) - i else sl_offset s + i)"

text \<open>One pass of the inner loop of \<open>lcs_lengths\<close>: it updates \<open>result\<close> from left to right.\<close>

definition lcs_step :: "cdline \<Rightarrow> slice \<Rightarrow> int \<Rightarrow> nat list \<Rightarrow> nat \<Rightarrow> nat list \<Rightarrow> nat list" where
  "lcs_step line1 sl2 direction prev j result =
     (let line2 = sl_list sl2 ! walk_index sl2 direction j in
      if lines_eq line1 line2 then result[j + 1 := prev ! j + 1]
      else result[j + 1 := max (result ! j) (prev ! (j + 1))])"

definition lcs_row :: "cdline \<Rightarrow> slice \<Rightarrow> int \<Rightarrow> nat list \<Rightarrow> nat list" where
  "lcs_row line1 sl2 direction prev =
     fold (lcs_step line1 sl2 direction prev) [0..<sl_len sl2] prev"

definition lcs_lengths :: "slice \<Rightarrow> slice \<Rightarrow> int \<Rightarrow> nat list option" where
  "lcs_lengths sl1 sl2 direction =
     (if direction = 1 \<or> direction = - 1
      then Some (fold (\<lambda>i result. lcs_row (sl_list sl1 ! walk_index sl1 direction i) sl2 direction result)
                   [0..<sl_len sl1] (replicate (sl_len sl2 + 1) 0))
      else None)"

text \<open>The two loops of \<open>trim_slices\<close>.\<close>

fun trim_front :: "cdline list \<Rightarrow> cdline list \<Rightarrow> nat \<Rightarrow> nat \<Rightarrow> nat \<Rightarrow> nat \<Rightarrow> nat \<times> nat \<times> nat \<times> nat" where
  "trim_front l1 l2 off1 (Suc len1) off2 (Suc len2) =
     (if lines_eq (l1 ! off1) (l2 ! off2) then trim_front l1 l2 (off1 + 1) len1 (off2 + 1) len2
      else (off1, Suc len1, off2, Suc len2))"
| "trim_front l1 l2 off1 len1 off2 len2 = (off1, len1, off2, len2)"

fun trim_back :: "cdline list \<Rightarrow> cdline list \<Rightarrow> nat \<Rightarrow> nat \<Rightarrow> nat \<Rightarrow> nat \<Rightarrow> nat \<times> nat" where
  "trim_back l1 l2 off1 (Suc len1) off2 (Suc len2) =
     (if lines_eq (l1 ! (off1 + len1)) (l2 ! (off2 + len2)) then trim_back l1 l2 off1 len1 off2 len2
      else (Suc len1, Suc len2))"
| "trim_back l1 l2 off1 len1 off2 len2 = (len1, len2)"

definition trim_slices :: "slice \<Rightarrow> slice \<Rightarrow> slice \<times> slice" where
  "trim_slices sl1 sl2 =
     (let (off1, len1, off2, len2) =
            trim_front (sl_list sl1) (sl_list sl2)
              (sl_offset sl1) (sl_len sl1) (sl_offset sl2) (sl_len sl2);
          (len1, len2) = trim_back (sl_list sl1) (sl_list sl2) off1 len1 off2 len2
      in (sl1\<lparr>sl_offset := off1, sl_len := len1\<rparr>, sl2\<lparr>sl_offset := off2, sl_len := len2\<rparr>))"

text \<open>The position in the list, or -1.\<close>

definition smartlist_slice_string_pos :: "slice \<Rightarrow> cdline \<Rightarrow> int" where
  "smartlist_slice_string_pos sl str =
     (case find (\<lambda>i. lines_eq (sl_list sl ! i) str) [sl_offset sl..<sl_offset sl + sl_len sl] of
        None \<Rightarrow> - 1
      | Some i \<Rightarrow> int i)"

definition set_changed :: "bool list \<Rightarrow> bool list \<Rightarrow> slice \<Rightarrow> slice \<Rightarrow> (bool list \<times> bool list) option" where
  "set_changed changed1 changed2 sl1 sl2 =
     (if sl_len sl1 = 0 \<or> sl_len sl1 = 1 then
        let toskip = (if sl_len sl1 = 1
                      then smartlist_slice_string_pos sl2 (sl_list sl1 ! sl_offset sl1) else - 1);
            changed1 = (if sl_len sl1 = 1 \<and> toskip = - 1
                        then bitarray_set changed1 (sl_offset sl1) else changed1);
            changed2 = fold (\<lambda>i ch. if int i \<noteq> toskip then bitarray_set ch i else ch)
                         [sl_offset sl2..<sl_offset sl2 + sl_len sl2] changed2
        in Some (changed1, changed2)
      else None)"

text \<open>The loop looks for the first column of the greatest sum, starting from -1.\<close>

definition column_step :: "nat list \<Rightarrow> nat list \<Rightarrow> nat \<Rightarrow> nat \<Rightarrow> nat \<times> int \<Rightarrow> nat \<times> int" where
  "column_step lens_top lens_bot len2 i = (\<lambda>(column, max_sum).
     let sum = int (lens_top ! i + lens_bot ! (len2 - i)) in
     if sum > max_sum then (i, sum) else (column, max_sum))"

definition optimal_column_to_split :: "slice \<Rightarrow> slice \<Rightarrow> slice \<Rightarrow> nat option" where
  "optimal_column_to_split top1 bot1 sl2 =
     (case (lcs_lengths top1 sl2 1, lcs_lengths bot1 sl2 (- 1)) of
        (Some lens_top, Some lens_bot) \<Rightarrow>
          Some (fst (fold (column_step lens_top lens_bot (sl_len sl2)) [0..<sl_len sl2 + 1] (0, - 1)))
      | _ \<Rightarrow> None)"

lemma trim_front_lens:
  "trim_front l1 l2 o1 n1 o2 n2 = (o1', n1', o2', n2') \<Longrightarrow>
     \<exists>k. o1' = o1 + k \<and> o2' = o2 + k \<and> n1 = n1' + k \<and> n2 = n2' + k
       \<and> (\<forall>i<k. l1 ! (o1 + i) = l2 ! (o2 + i))"
proof (induction l1 l2 o1 n1 o2 n2 rule: trim_front.induct)
  case (1 l1 l2 o1 n1 o2 n2)
  show ?case
  proof (cases "lines_eq (l1 ! o1) (l2 ! o2)")
    case True
    with 1 obtain k where k: "o1' = o1 + 1 + k" "o2' = o2 + 1 + k" "n1 = n1' + k" "n2 = n2' + k"
        "\<forall>i<k. l1 ! (o1 + 1 + i) = l2 ! (o2 + 1 + i)"
      by auto
    have "l1 ! o1 = l2 ! o2" using True by (auto simp: lines_eq_def memeq_def)
    with k(5) have "\<forall>i<Suc k. l1 ! (o1 + i) = l2 ! (o2 + i)" by (auto simp: less_Suc_eq_0_disj)
    with k show ?thesis by (intro exI [of _ "Suc k"]) simp
  next
    case False
    with 1 show ?thesis by (intro exI [of _ 0]) simp
  qed
qed auto

lemma trim_back_lens:
  "trim_back l1 l2 o1 n1 o2 n2 = (n1', n2') \<Longrightarrow>
     \<exists>k. n1 = n1' + k \<and> n2 = n2' + k \<and> (\<forall>i<k. l1 ! (o1 + n1' + i) = l2 ! (o2 + n2' + i))"
proof (induction l1 l2 o1 n1 o2 n2 rule: trim_back.induct)
  case (1 l1 l2 o1 n1 o2 n2)
  show ?case
  proof (cases "lines_eq (l1 ! (o1 + n1)) (l2 ! (o2 + n2))")
    case True
    with 1 obtain k where k: "n1 = n1' + k" "n2 = n2' + k"
        "\<forall>i<k. l1 ! (o1 + n1' + i) = l2 ! (o2 + n2' + i)"
      by auto
    have "l1 ! (o1 + n1) = l2 ! (o2 + n2)" using True by (auto simp: lines_eq_def memeq_def)
    with k have "\<forall>i<Suc k. l1 ! (o1 + n1' + i) = l2 ! (o2 + n2' + i)"
      by (auto simp: less_Suc_eq add.assoc)
    with k show ?thesis by (intro exI [of _ "Suc k"]) simp
  next
    case False
    with 1 show ?thesis by (intro exI [of _ 0]) simp
  qed
qed auto

lemma trim_slices_spec:
  assumes "trim_slices s1 s2 = (t1, t2)"
  shows "\<exists>k m. sl_list t1 = sl_list s1 \<and> sl_list t2 = sl_list s2
    \<and> sl_offset t1 = sl_offset s1 + k \<and> sl_offset t2 = sl_offset s2 + k
    \<and> sl_len s1 = k + sl_len t1 + m \<and> sl_len s2 = k + sl_len t2 + m
    \<and> (\<forall>i<k. sl_list s1 ! (sl_offset s1 + i) = sl_list s2 ! (sl_offset s2 + i))
    \<and> (\<forall>i<m. sl_list s1 ! (sl_offset t1 + sl_len t1 + i) = sl_list s2 ! (sl_offset t2 + sl_len t2 + i))"
proof -
  obtain o1 n1 o2 n2 where f: "trim_front (sl_list s1) (sl_list s2) (sl_offset s1) (sl_len s1)
      (sl_offset s2) (sl_len s2) = (o1, n1, o2, n2)" by (metis prod_cases4)
  obtain m1 m2 where b: "trim_back (sl_list s1) (sl_list s2) o1 n1 o2 n2 = (m1, m2)" by fastforce
  from trim_front_lens [OF f] trim_back_lens [OF b] show ?thesis
    using assms by (auto simp: trim_slices_def f b Let_def)
qed

lemma trim_slices_len:
  "trim_slices s1 s2 = (t1, t2) \<Longrightarrow> sl_len t1 \<le> sl_len s1 \<and> sl_len t2 \<le> sl_len s2"
  using trim_slices_spec by fastforce

lemma smartlist_slice_nat:
  "smartlist_slice l (int a) (int b) =
     (if a \<le> length l \<and> a \<le> b then Some \<lparr>sl_list = l, sl_offset = a, sl_len = b - a\<rparr> else None)"
  by (simp add: smartlist_slice_def Let_def nat_diff_distrib)

lemma smartlist_slice_len:
  "smartlist_slice l (int a) (int a + int b) = Some s \<Longrightarrow> sl_len s = b \<and> sl_offset s = a \<and> sl_list s = l"
  using smartlist_slice_nat [of l a "a + b"] by (auto split: if_splits)

lemma smartlist_slice_len':
  "smartlist_slice l (int a + int k) (int a + int b) = Some s \<Longrightarrow>
     sl_len s = b - k \<and> sl_offset s = a + k \<and> sl_list s = l"
  using smartlist_slice_nat [of l "a + k" "a + b"] by (auto split: if_splits)

text \<open>The divide and conquer of \<open>calc_changes\<close>, on the pair of bit arrays.\<close>

function calc_changes :: "slice \<Rightarrow> slice \<Rightarrow> bool list \<times> bool list \<Rightarrow> (bool list \<times> bool list) option" where
  "calc_changes sl1 sl2 changed =
     (case trim_slices sl1 sl2 of (sl1, sl2) \<Rightarrow>
      if sl_len sl1 \<le> 1 then set_changed (fst changed) (snd changed) sl1 sl2
      else if sl_len sl2 \<le> 1 then
        map_option (\<lambda>(ch2, ch1). (ch1, ch2)) (set_changed (snd changed) (fst changed) sl2 sl1)
      else
        let mid = sl_len sl1 div 2; off1 = int (sl_offset sl1); off2 = int (sl_offset sl2) in
        case (smartlist_slice (sl_list sl1) off1 (off1 + int mid),
              smartlist_slice (sl_list sl1) (off1 + int mid) (off1 + int (sl_len sl1))) of
          (Some top1, Some bot1) \<Rightarrow>
            (case optimal_column_to_split top1 bot1 sl2 of
               None \<Rightarrow> None
             | Some mid2 \<Rightarrow>
                 (case (smartlist_slice (sl_list sl2) off2 (off2 + int mid2),
                        smartlist_slice (sl_list sl2) (off2 + int mid2) (off2 + int (sl_len sl2))) of
                    (Some left, Some right) \<Rightarrow>
                      (case calc_changes top1 left changed of
                         None \<Rightarrow> None
                       | Some changed' \<Rightarrow> calc_changes bot1 right changed')
                  | _ \<Rightarrow> None))
        | _ \<Rightarrow> None)"
  by pat_completeness auto
termination
proof (relation "measure (\<lambda>(sl1, sl2, ch). sl_len sl1)", goal_cases)
  case 1
  show ?case by simp
next
  case prems: (2 s1 s2 ch t1 t2 mid off1 off2 xd ya top1)
  have "smartlist_slice (sl_list t1) (int (sl_offset t1)) (int (sl_offset t1) + int mid) = Some top1"
    using prems(5,7,8) by simp
  then have "sl_len top1 = mid" by (blast dest: smartlist_slice_len)
  moreover have "sl_len t1 \<le> sl_len s1" using trim_slices_len [OF prems(1) [symmetric]] by simp
  ultimately show ?case using prems(2,4) by simp
next
  case prems: (3 s1 s2 ch t1 t2 mid off1 off2 xd ya top1 bot1)
  have "smartlist_slice (sl_list t1) (int (sl_offset t1) + int mid) (int (sl_offset t1) + int (sl_len t1))
      = Some bot1"
    using prems(5,7,9) by simp
  then have "sl_len bot1 = sl_len t1 - mid" by (blast dest: smartlist_slice_len')
  moreover have "sl_len t1 \<le> sl_len s1" using trim_slices_len [OF prems(1) [symmetric]] by simp
  ultimately show ?case using prems(2,4) by simp
qed

declare calc_changes.simps [simp del]

subsection \<open>What \<open>calc_changes\<close> computes\<close>

text \<open>The lines of the range \<open>[a..<b]\<close> that a bit array leaves unmarked.\<close>

definition kept :: "cdline list \<Rightarrow> bool list \<Rightarrow> nat \<Rightarrow> nat \<Rightarrow> cdline list" where
  "kept l ch a b = map ((!) l) (filter (\<lambda>i. \<not> ch ! i) [a..<b])"

text \<open>\<open>same_outside ch ch' a b\<close>: only bits of \<open>[a..<b]\<close> may have changed.\<close>

definition same_outside :: "bool list \<Rightarrow> bool list \<Rightarrow> nat \<Rightarrow> nat \<Rightarrow> bool" where
  "same_outside ch ch' a b \<longleftrightarrow> length ch' = length ch \<and> (\<forall>i. i < a \<or> b \<le> i \<longrightarrow> ch' ! i = ch ! i)"

definition clear :: "bool list \<Rightarrow> nat \<Rightarrow> nat \<Rightarrow> bool" where
  "clear ch a b \<longleftrightarrow> (\<forall>i. a \<le> i \<longrightarrow> i < b \<longrightarrow> \<not> ch ! i)"

lemma kept_split: "a \<le> b \<Longrightarrow> b \<le> c \<Longrightarrow> kept l ch a c = kept l ch a b @ kept l ch b c"
  using upt_add_eq_append [of a b "c - b"] by (simp add: kept_def)

lemma kept_empty [simp]: "kept l ch a a = []"
  by (simp add: kept_def)

lemma kept_cong: "(\<And>i. a \<le> i \<Longrightarrow> i < b \<Longrightarrow> ch ! i = ch' ! i) \<Longrightarrow> kept l ch a b = kept l ch' a b"
  unfolding kept_def by (rule arg_cong [where f = "map ((!) l)"], rule filter_cong) auto

lemma kept_clear: "clear ch a b \<Longrightarrow> kept l ch a b = map ((!) l) [a..<b]"
  by (simp add: kept_def clear_def)

lemma kept_marked: "(\<And>i. a \<le> i \<Longrightarrow> i < b \<Longrightarrow> ch ! i) \<Longrightarrow> kept l ch a b = []"
  by (simp add: kept_def filter_False)

lemma kept_equal_lines:
  "(\<forall>i<k. l1 ! (a + i) = l2 ! (b + i)) \<Longrightarrow> clear ch1 a (a + k) \<Longrightarrow> clear ch2 b (b + k) \<Longrightarrow>
     kept l1 ch1 a (a + k) = kept l2 ch2 b (b + k)"
  by (auto simp: kept_clear intro: nth_equalityI)

text \<open>The contract of a marking step on two ranges.\<close>

definition marks :: "slice \<Rightarrow> slice \<Rightarrow> bool list \<times> bool list \<Rightarrow> bool list \<times> bool list \<Rightarrow> bool" where
  "marks s1 s2 ch ch' \<longleftrightarrow>
     same_outside (fst ch) (fst ch') (sl_offset s1) (sl_offset s1 + sl_len s1)
   \<and> same_outside (snd ch) (snd ch') (sl_offset s2) (sl_offset s2 + sl_len s2)
   \<and> kept (sl_list s1) (fst ch') (sl_offset s1) (sl_offset s1 + sl_len s1)
     = kept (sl_list s2) (snd ch') (sl_offset s2) (sl_offset s2 + sl_len s2)"

text \<open>The bits and the list of a slice cover it, and its bits are still clear.\<close>

definition ready :: "slice \<Rightarrow> bool list \<Rightarrow> bool" where
  "ready s ch \<longleftrightarrow> sl_offset s + sl_len s \<le> length ch \<and> sl_offset s + sl_len s \<le> length (sl_list s)
     \<and> clear ch (sl_offset s) (sl_offset s + sl_len s)"

lemma fold_bitarray_set:
  "b \<le> length ch \<Longrightarrow>
     length (fold (\<lambda>i ch. if P i then bitarray_set ch i else ch) [a..<b] ch) = length ch
     \<and> (\<forall>i. fold (\<lambda>i ch. if P i then bitarray_set ch i else ch) [a..<b] ch ! i
              = (if a \<le> i \<and> i < b \<and> P i then True else ch ! i))"
proof (induction b)
  case (Suc b)
  let ?f = "fold (\<lambda>i ch. if P i then bitarray_set ch i else ch) [a..<b] ch"
  have ih: "length ?f = length ch" "?f ! i = (if a \<le> i \<and> i < b \<and> P i then True else ch ! i)" for i
    using Suc by simp_all
  show ?case
  proof (cases "a \<le> b")
    case True
    then have "fold (\<lambda>i ch. if P i then bitarray_set ch i else ch) [a..<Suc b] ch = (if P b then ?f[b := True] else ?f)"
      by (simp add: bitarray_set_def)
    then show ?thesis using ih Suc.prems True by (simp add: nth_list_update less_Suc_eq)
  next
    case False
    then show ?thesis by auto
  qed
qed simp

lemma slice_pos_spec:
  "case smartlist_slice_string_pos sl str of r \<Rightarrow>
     (r = - 1 \<and> (\<forall>i. sl_offset sl \<le> i \<longrightarrow> i < sl_offset sl + sl_len sl \<longrightarrow> sl_list sl ! i \<noteq> str))
     \<or> (\<exists>i. r = int i \<and> sl_offset sl \<le> i \<and> i < sl_offset sl + sl_len sl \<and> sl_list sl ! i = str)"
proof -
  have eq: "lines_eq a str \<longleftrightarrow> a = str" for a
    by (auto simp: lines_eq_def memeq_def)
  show ?thesis
    by (auto simp: smartlist_slice_string_pos_def eq find_None_iff find_Some_iff split: option.splits)
qed

lemma set_changed_marks:
  assumes "sl_len s1 \<le> 1" "ready s1 ch1" "ready s2 ch2"
  shows "\<exists>ch1' ch2'. set_changed ch1 ch2 s1 s2 = Some (ch1', ch2') \<and> marks s1 s2 (ch1, ch2) (ch1', ch2')"
proof -
  define skip where "skip = (if sl_len s1 = 1
    then smartlist_slice_string_pos s2 (sl_list s1 ! sl_offset s1) else - 1)"
  define ch1' where "ch1' = (if sl_len s1 = 1 \<and> skip = - 1 then bitarray_set ch1 (sl_offset s1) else ch1)"
  define ch2' where "ch2' = fold (\<lambda>i ch. if int i \<noteq> skip then bitarray_set ch i else ch)
    [sl_offset s2..<sl_offset s2 + sl_len s2] ch2"
  have set: "set_changed ch1 ch2 s1 s2 = Some (ch1', ch2')"
    using assms(1) by (auto simp: set_changed_def ch1'_def ch2'_def skip_def Let_def)
  have ch2': "length ch2' = length ch2"
      "\<And>i. ch2' ! i = (if sl_offset s2 \<le> i \<and> i < sl_offset s2 + sl_len s2 \<and> int i \<noteq> skip then True else ch2 ! i)"
    using fold_bitarray_set [of "sl_offset s2 + sl_len s2" ch2 "\<lambda>i. int i \<noteq> skip" "sl_offset s2"] assms(3)
    by (simp_all add: ch2'_def ready_def)
  have out2: "same_outside ch2 ch2' (sl_offset s2) (sl_offset s2 + sl_len s2)"
    by (auto simp: same_outside_def ch2')
  have out1: "same_outside ch1 ch1' (sl_offset s1) (sl_offset s1 + sl_len s1)"
    by (auto simp: same_outside_def ch1'_def bitarray_set_def)
  have "kept (sl_list s1) ch1' (sl_offset s1) (sl_offset s1 + sl_len s1)
      = kept (sl_list s2) ch2' (sl_offset s2) (sl_offset s2 + sl_len s2)"
  proof (cases "skip = - 1")
    case True
    then have k2: "kept (sl_list s2) ch2' (sl_offset s2) (sl_offset s2 + sl_len s2) = []"
      by (intro kept_marked) (simp add: ch2')
    have "kept (sl_list s1) ch1' (sl_offset s1) (sl_offset s1 + sl_len s1) = []"
      using assms(1,2) True
      by (cases "sl_len s1 = 1") (auto simp: kept_def ch1'_def bitarray_set_def ready_def le_Suc_eq)
    with k2 show ?thesis by simp
  next
    case False
    with slice_pos_spec [of s2 "sl_list s1 ! sl_offset s1"]
    obtain i where i: "skip = int i" "sl_len s1 = 1" "sl_offset s2 \<le> i" "i < sl_offset s2 + sl_len s2"
        "sl_list s2 ! i = sl_list s1 ! sl_offset s1"
      by (auto simp: skip_def split: if_splits)
    let ?o = "sl_offset s2" and ?e = "sl_offset s2 + sl_len s2"
    have "kept (sl_list s2) ch2' ?o ?e =
        kept (sl_list s2) ch2' ?o i @ kept (sl_list s2) ch2' i (Suc i) @ kept (sl_list s2) ch2' (Suc i) ?e"
      using i by (simp add: kept_split [of ?o i ?e] kept_split [of i "Suc i" ?e])
    also have "kept (sl_list s2) ch2' ?o i = []"
      using i by (intro kept_marked) (simp add: ch2')
    also have "kept (sl_list s2) ch2' (Suc i) ?e = []"
      using i by (intro kept_marked) (simp add: ch2')
    also have "kept (sl_list s2) ch2' i (Suc i) = [sl_list s2 ! i]"
      using i assms(3) by (simp add: kept_def ch2' ready_def clear_def)
    finally show ?thesis
      using i assms(2) False by (simp add: kept_def ch1'_def ready_def clear_def)
  qed
  with set out1 out2 show ?thesis by (auto simp: marks_def)
qed

lemma optimal_column_le:
  "\<exists>c. optimal_column_to_split s1 s1' s2 = Some c \<and> c \<le> sl_len s2"
proof -
  have "fst (fold (column_step xs ys n) [0..<m] (0, - 1)) \<le> m - 1" for xs ys n m
  proof (induction m)
    case (Suc m)
    then show ?case by (auto simp: column_step_def Let_def split: prod.splits)
  qed simp
  from this [of _ _ _ "Suc (sl_len s2)"] show ?thesis
    by (simp add: optimal_column_to_split_def lcs_lengths_def)
qed

lemma marks_extend:
  assumes t: "marks t1 t2 ch ch'"
    and "sl_list t1 = sl_list s1" "sl_list t2 = sl_list s2"
    and o: "sl_offset t1 = sl_offset s1 + k" "sl_offset t2 = sl_offset s2 + k"
    and n: "sl_len s1 = k + sl_len t1 + m" "sl_len s2 = k + sl_len t2 + m"
    and pre: "\<forall>i<k. sl_list s1 ! (sl_offset s1 + i) = sl_list s2 ! (sl_offset s2 + i)"
    and suf: "\<forall>i<m. sl_list s1 ! (sl_offset t1 + sl_len t1 + i) = sl_list s2 ! (sl_offset t2 + sl_len t2 + i)"
    and r: "ready s1 (fst ch)" "ready s2 (snd ch)"
  shows "marks s1 s2 ch ch'"
proof -
  have out: "fst ch' ! i = fst ch ! i" if "i < sl_offset t1 \<or> sl_offset t1 + sl_len t1 \<le> i" for i
    using that t by (auto simp: marks_def same_outside_def)
  have out': "snd ch' ! i = snd ch ! i" if "i < sl_offset t2 \<or> sl_offset t2 + sl_len t2 \<le> i" for i
    using that t by (auto simp: marks_def same_outside_def)
  have c1: "clear (fst ch') (sl_offset s1) (sl_offset s1 + k)"
      "clear (fst ch') (sl_offset t1 + sl_len t1) (sl_offset t1 + sl_len t1 + m)"
    using r(1) out o n by (auto simp: ready_def clear_def)
  have c2: "clear (snd ch') (sl_offset s2) (sl_offset s2 + k)"
      "clear (snd ch') (sl_offset t2 + sl_len t2) (sl_offset t2 + sl_len t2 + m)"
    using r(2) out' o n by (auto simp: ready_def clear_def)
  have f: "kept (sl_list s1) (fst ch') (sl_offset s1) (sl_offset s1 + k) =
      kept (sl_list s2) (snd ch') (sl_offset s2) (sl_offset s2 + k)"
    by (rule kept_equal_lines [OF pre c1(1) c2(1)])
  have b: "kept (sl_list s1) (fst ch') (sl_offset t1 + sl_len t1) (sl_offset t1 + sl_len t1 + m) =
      kept (sl_list s2) (snd ch') (sl_offset t2 + sl_len t2) (sl_offset t2 + sl_len t2 + m)"
    by (rule kept_equal_lines [OF suf c1(2) c2(2)])
  have split: "kept (sl_list s) c (sl_offset s) (sl_offset s + (k + len + m)) =
      kept (sl_list s) c (sl_offset s) (sl_offset s + k)
      @ kept (sl_list s) c (sl_offset s + k) (sl_offset s + k + len)
      @ kept (sl_list s) c (sl_offset s + k + len) (sl_offset s + k + len + m)" for s :: slice and c len
    using kept_split [of "sl_offset s" "sl_offset s + k" "sl_offset s + (k + len + m)" "sl_list s" c]
      kept_split [of "sl_offset s + k" "sl_offset s + k + len" "sl_offset s + (k + len + m)" "sl_list s" c]
    by (simp add: add.assoc)
  show ?thesis
    using t f b assms(2,3) o unfolding marks_def n split
    by (auto simp: same_outside_def)
qed

lemma ready_sub:
  "ready s ch \<Longrightarrow> sl_list t = sl_list s \<Longrightarrow> sl_offset s \<le> sl_offset t \<Longrightarrow>
     sl_offset t + sl_len t \<le> sl_offset s + sl_len s \<Longrightarrow> ready t ch"
  by (auto simp: ready_def clear_def)

lemma ready_outside:
  "ready t ch \<Longrightarrow> same_outside ch ch' a b \<Longrightarrow> b \<le> sl_offset t \<Longrightarrow> ready t ch'"
  by (auto simp: ready_def clear_def same_outside_def)

text \<open>Marking two adjacent pairs of slices one after the other marks their union.\<close>

lemma marks_join:
  assumes m: "marks a1 a2 ch ch'" "marks b1 b2 ch' ch''"
    and l: "sl_list a1 = sl_list s1" "sl_list b1 = sl_list s1" "sl_list a2 = sl_list s2" "sl_list b2 = sl_list s2"
    and o: "sl_offset a1 = sl_offset s1" "sl_offset b1 = sl_offset s1 + sl_len a1"
      "sl_offset a2 = sl_offset s2" "sl_offset b2 = sl_offset s2 + sl_len a2"
    and n: "sl_len s1 = sl_len a1 + sl_len b1" "sl_len s2 = sl_len a2 + sl_len b2"
  shows "marks s1 s2 ch ch''"
proof -
  have k1: "kept (sl_list s1) (fst ch'') (sl_offset s1) (sl_offset s1 + sl_len a1) =
      kept (sl_list s1) (fst ch') (sl_offset s1) (sl_offset s1 + sl_len a1)"
    using m(2) o by (intro kept_cong) (auto simp: marks_def same_outside_def)
  have k2: "kept (sl_list s2) (snd ch'') (sl_offset s2) (sl_offset s2 + sl_len a2) =
      kept (sl_list s2) (snd ch') (sl_offset s2) (sl_offset s2 + sl_len a2)"
    using m(2) o by (intro kept_cong) (auto simp: marks_def same_outside_def)
  have split: "kept l c x (x + (p + q)) = kept l c x (x + p) @ kept l c (x + p) (x + p + q)" for l c x p q
    by (simp add: kept_split [of x "x + p" "x + (p + q)"] add.assoc)
  have "kept (sl_list s1) (fst ch'') (sl_offset s1) (sl_offset s1 + sl_len s1) =
      kept (sl_list s2) (snd ch'') (sl_offset s2) (sl_offset s2 + sl_len s2)"
    using m l o unfolding n split k1 k2 by (simp add: marks_def)
  with m o n show ?thesis by (auto simp: marks_def same_outside_def)
qed

theorem calc_changes_marks:
  "ready s1 (fst ch) \<Longrightarrow> ready s2 (snd ch) \<Longrightarrow>
     \<exists>ch'. calc_changes s1 s2 ch = Some ch' \<and> marks s1 s2 ch ch'"
proof (induction s1 s2 ch rule: calc_changes.induct)
  case (1 s1 s2 ch)
  obtain t1 t2 where t: "trim_slices s1 s2 = (t1, t2)" by fastforce
  from trim_slices_spec [OF t] obtain k m where km: "sl_list t1 = sl_list s1" "sl_list t2 = sl_list s2"
      "sl_offset t1 = sl_offset s1 + k" "sl_offset t2 = sl_offset s2 + k"
      "sl_len s1 = k + sl_len t1 + m" "sl_len s2 = k + sl_len t2 + m"
      "\<forall>i<k. sl_list s1 ! (sl_offset s1 + i) = sl_list s2 ! (sl_offset s2 + i)"
      "\<forall>i<m. sl_list s1 ! (sl_offset t1 + sl_len t1 + i) = sl_list s2 ! (sl_offset t2 + sl_len t2 + i)"
    by blast
  note extend = marks_extend [OF _ km "1.prems"]
  have r1: "ready t1 (fst ch)" using "1.prems"(1) km by (auto intro: ready_sub)
  have r2: "ready t2 (snd ch)" using "1.prems"(2) km by (auto intro: ready_sub)
  consider "sl_len t1 \<le> 1" | "\<not> sl_len t1 \<le> 1" "sl_len t2 \<le> 1" | "\<not> sl_len t1 \<le> 1" "\<not> sl_len t2 \<le> 1"
    by blast
  then show ?case
  proof cases
    case 1
    from set_changed_marks [OF 1 r1 r2] obtain c1 c2
      where c: "set_changed (fst ch) (snd ch) t1 t2 = Some (c1, c2)" "marks t1 t2 ch (c1, c2)"
      by auto
    moreover have "calc_changes s1 s2 ch = Some (c1, c2)"
      using 1 c(1) by (subst calc_changes.simps) (simp add: t)
    ultimately show ?thesis using extend by blast
  next
    case 2
    from set_changed_marks [OF 2(2) r2 r1] obtain c1 c2
      where c: "set_changed (snd ch) (fst ch) t2 t1 = Some (c2, c1)" "marks t2 t1 (snd ch, fst ch) (c2, c1)"
      by blast
    from c(2) have "marks t1 t2 ch (c1, c2)" by (auto simp: marks_def)
    moreover have "calc_changes s1 s2 ch = Some (c1, c2)"
      using 2 c(1) by (subst calc_changes.simps) (simp add: t)
    ultimately show ?thesis using extend by blast
  next
    case 3
    define mid where "mid = sl_len t1 div 2"
    define off1 where "off1 = int (sl_offset t1)"
    define off2 where "off2 = int (sl_offset t2)"
    have mid: "mid \<le> sl_len t1" by (simp add: mid_def)
    have in1: "sl_offset t1 + sl_len t1 \<le> length (sl_list t1)" using r1 by (simp add: ready_def)
    have in2: "sl_offset t2 + sl_len t2 \<le> length (sl_list t2)" using r2 by (simp add: ready_def)
    define top1 where "top1 = \<lparr>sl_list = sl_list t1, sl_offset = sl_offset t1, sl_len = mid\<rparr>"
    define bot1 where "bot1 = \<lparr>sl_list = sl_list t1, sl_offset = sl_offset t1 + mid, sl_len = sl_len t1 - mid\<rparr>"
    have top1: "smartlist_slice (sl_list t1) off1 (off1 + int mid) = Some top1"
      using smartlist_slice_nat [of "sl_list t1" "sl_offset t1" "sl_offset t1 + mid"] in1 mid
      by (simp add: top1_def off1_def)
    have bot1: "smartlist_slice (sl_list t1) (off1 + int mid) (off1 + int (sl_len t1)) = Some bot1"
      using smartlist_slice_nat [of "sl_list t1" "sl_offset t1 + mid" "sl_offset t1 + sl_len t1"] in1 mid
      by (simp add: bot1_def off1_def)
    obtain c where c: "optimal_column_to_split top1 bot1 t2 = Some c" "c \<le> sl_len t2"
      using optimal_column_le by blast
    define lft where "lft = \<lparr>sl_list = sl_list t2, sl_offset = sl_offset t2, sl_len = c\<rparr>"
    define rgt where "rgt = \<lparr>sl_list = sl_list t2, sl_offset = sl_offset t2 + c, sl_len = sl_len t2 - c\<rparr>"
    have lft: "smartlist_slice (sl_list t2) off2 (off2 + int c) = Some lft"
      using smartlist_slice_nat [of "sl_list t2" "sl_offset t2" "sl_offset t2 + c"] in2 c
      by (simp add: lft_def off2_def)
    have rgt: "smartlist_slice (sl_list t2) (off2 + int c) (off2 + int (sl_len t2)) = Some rgt"
      using smartlist_slice_nat [of "sl_list t2" "sl_offset t2 + c" "sl_offset t2 + sl_len t2"] in2 c
      by (simp add: rgt_def off2_def)
    have rt: "ready top1 (fst ch)" "ready bot1 (fst ch)"
      using r1 mid by (auto intro!: ready_sub [OF r1] simp: top1_def bot1_def)
    have rl: "ready lft (snd ch)" "ready rgt (snd ch)"
      using r2 c by (auto intro!: ready_sub [OF r2] simp: lft_def rgt_def)
    obtain ch' where ch': "calc_changes top1 lft ch = Some ch'" "marks top1 lft ch ch'"
      using "1.IH"(1) [OF t [symmetric] 3 mid_def off1_def off2_def HOL.refl top1 bot1 c(1)
          HOL.refl lft rgt rt(1) rl(1)] by blast
    have rb: "ready bot1 (fst ch')" "ready rgt (snd ch')"
      using ch'(2) ready_outside [OF rt(2), of "fst ch'" "sl_offset top1" "sl_offset top1 + sl_len top1"]
        ready_outside [OF rl(2), of "snd ch'" "sl_offset lft" "sl_offset lft + sl_len lft"]
      by (auto simp: marks_def top1_def bot1_def lft_def rgt_def)
    obtain ch'' where ch'': "calc_changes bot1 rgt ch' = Some ch''" "marks bot1 rgt ch' ch''"
      using "1.IH"(2) [OF t [symmetric] 3 mid_def off1_def off2_def HOL.refl top1 bot1 c(1)
          HOL.refl lft rgt ch'(1) rb] by blast
    have "marks t1 t2 ch ch''"
      by (rule marks_join [OF ch'(2) ch''(2)])
        (use mid c(2) in \<open>simp_all add: top1_def bot1_def lft_def rgt_def\<close>)
    moreover have "calc_changes s1 s2 ch = Some ch''"
      using 3 top1 bot1 c(1) lft rgt ch'(1) ch''(1)
      by (subst calc_changes.simps) (simp add: t mid_def [symmetric] off1_def [symmetric] off2_def [symmetric])
    ultimately show ?thesis using extend by blast
  qed
qed

end
