(* ===== verification/Consdiff_Gen.thy ===== *)
theory Consdiff_Gen
  imports Consdiff_Lines Ctype
begin

text \<open>
  Consensus diffs, second part (feature/dircommon/consdiff.c): router identities, the walk over
  two consensuses by identity, and \<open>gen_ed_diff\<close>, which writes the ed script.  A generator
  returns \<open>Inl\<close> with the branch that gave up, or \<open>Inr\<close> with its result; \<open>GenAssert\<close> is a
  failed assertion.  A hash pointer is \<open>None\<close> when it is NULL.  The loops that count down
  from \<open>i = len - 1\<close> to -1 are recursions on \<open>n = i + 1\<close>.
\<close>

datatype gen_error =
  GenAssert
| GenUnsorted
| GenTooFewCommon
| GenDot
| GenNotApplicable
| GenMismatch

definition NOT_VALID_BASE64 :: nat where "NOT_VALID_BASE64 = 255"

definition base64_compare_table :: "nat list" where
  "base64_compare_table = [
    255, 255, 255, 255, 255, 255, 255, 255, 255, 255, 255, 255, 255, 255, 255, 255,
    255, 255, 255, 255, 255, 255, 255, 255, 255, 255, 255, 255, 255, 255, 255, 255,
    255, 255, 255, 255, 255, 255, 255, 255, 255, 255, 255, 62, 255, 255, 255, 63,
    52, 53, 54, 55, 56, 57, 58, 59, 60, 61, 255, 255, 255, 255, 255, 255,
    255, 0, 1, 2, 3, 4, 5, 6, 7, 8, 9, 10, 11, 12, 13, 14,
    15, 16, 17, 18, 19, 20, 21, 22, 23, 24, 25, 255, 255, 255, 255, 255,
    255, 26, 27, 28, 29, 30, 31, 32, 33, 34, 35, 36, 37, 38, 39, 40,
    41, 42, 43, 44, 45, 46, 47, 48, 49, 50, 51, 255, 255, 255, 255, 255,
    255, 255, 255, 255, 255, 255, 255, 255, 255, 255, 255, 255, 255, 255, 255, 255,
    255, 255, 255, 255, 255, 255, 255, 255, 255, 255, 255, 255, 255, 255, 255, 255,
    255, 255, 255, 255, 255, 255, 255, 255, 255, 255, 255, 255, 255, 255, 255, 255,
    255, 255, 255, 255, 255, 255, 255, 255, 255, 255, 255, 255, 255, 255, 255, 255,
    255, 255, 255, 255, 255, 255, 255, 255, 255, 255, 255, 255, 255, 255, 255, 255,
    255, 255, 255, 255, 255, 255, 255, 255, 255, 255, 255, 255, 255, 255, 255, 255,
    255, 255, 255, 255, 255, 255, 255, 255, 255, 255, 255, 255, 255, 255, 255, 255,
    255, 255, 255, 255, 255, 255, 255, 255, 255, 255, 255, 255, 255, 255, 255, 255]"

definition base64_rank :: "char \<Rightarrow> nat" where
  "base64_rank c = base64_compare_table ! of_char c"

definition get_id_hash :: "cdline \<Rightarrow> cdline option" where
  "get_id_hash line =
     (if length line < 2 then None
      else case memchr (drop 2 line) (CHR '' '') of
        None \<Rightarrow> None
      | Some k \<Rightarrow>
          let hash = takeWhile (\<lambda>c. base64_rank c \<noteq> NOT_VALID_BASE64) (drop (2 + k + 1) line)
          in if hash = [] then None else Some hash)"

definition is_valid_router_entry :: "cdline \<Rightarrow> bool" where
  "is_valid_router_entry line =
     (if length line < 2 \<or> \<not> memeq line ''r '' 2 then False else get_id_hash line \<noteq> None)"

function next_router_loop :: "cdline list \<Rightarrow> nat \<Rightarrow> nat" where
  "next_router_loop cons pos =
     (if pos \<ge> length cons then length cons
      else if \<not> is_valid_router_entry (cons ! pos) then next_router_loop cons (pos + 1)
      else pos)"
  by pat_completeness auto
termination
  by (relation "measure (\<lambda>(cons, pos). length cons - pos)") auto

declare next_router_loop.simps [simp del]

definition next_router :: "cdline list \<Rightarrow> int \<Rightarrow> int option" where
  "next_router cons pos =
     (if pos \<ge> - 1 \<and> pos < int (length cons) then Some (int (next_router_loop cons (nat (pos + 1))))
      else None)"

text \<open>
  Reading a hash of length 0 reads the byte after it, taken here as a NUL; \<open>get_id_hash\<close>
  never stores one.
\<close>

function base64cmp_loop :: "cdline \<Rightarrow> cdline \<Rightarrow> int" where
  "base64cmp_loop a b =
     (let av = base64_rank (cur a); bv = base64_rank (cur b) in
      if av = NOT_VALID_BASE64 then (if bv = NOT_VALID_BASE64 then 0 else - 1)
      else if bv = NOT_VALID_BASE64 then 1
      else if av < bv then - 1
      else if av > bv then 1
      else if tl a = [] then (if tl b = [] then 0 else - 1)
      else if tl b = [] then 1
      else base64cmp_loop (tl a) (tl b))"
  by pat_completeness auto
termination
  by (relation "measure (\<lambda>(a, b). length a)") (auto simp: tl_Nil neq_Nil_conv)

declare base64cmp_loop.simps [simp del]

definition base64cmp :: "cdline option \<Rightarrow> cdline option \<Rightarrow> int" where
  "base64cmp hash1 hash2 =
     (case (hash1, hash2) of
        (None, None) \<Rightarrow> 0
      | (None, Some b) \<Rightarrow> - 1
      | (Some a, None) \<Rightarrow> 1
      | (Some a, Some b) \<Rightarrow> base64cmp_loop a b)"

record router_id_iterator =
  last_hash :: "cdline option"
  hash :: "cdline option"

definition ROUTER_ID_ITERATOR_INIT :: router_id_iterator where
  "ROUTER_ID_ITERATOR_INIT = \<lparr>last_hash = None, hash = None\<rparr>"

definition find_next_router_line ::
  "cdline list \<Rightarrow> int \<Rightarrow> router_id_iterator \<Rightarrow> gen_error + (int \<times> router_id_iterator)" where
  "find_next_router_line cons idx iter =
     (case next_router cons idx of
        None \<Rightarrow> Inl GenAssert
      | Some idx \<Rightarrow>
          if idx < int (length cons) then
            let iter = iter\<lparr>last_hash := hash iter\<rparr>
            in case get_id_hash (cons ! nat idx) of
                 None \<Rightarrow> Inl GenUnsorted
               | Some h \<Rightarrow>
                   let iter = iter\<lparr>hash := Some h\<rparr>
                   in if base64cmp (hash iter) (last_hash iter) \<le> 0 then Inl GenUnsorted
                      else Inr (idx, iter)
          else Inr (idx, iter))"

definition START_OF_SIGNATURES_SECTION :: cstring where
  "START_OF_SIGNATURES_SECTION = ''directory-signature ''"

text \<open>What a \<open>tor_snprintf\<close> into a buffer of \<open>sz\<close> bytes leaves in it.\<close>

definition tor_snprintf :: "nat \<Rightarrow> cstring \<Rightarrow> cstring" where
  "tor_snprintf sz s = take (sz - 1) s"

function del_from :: "cdline list \<Rightarrow> nat \<Rightarrow> cdline list option" where
  "del_from cons idx =
     (if length cons > idx
      then (case smartlist_del cons idx of None \<Rightarrow> None | Some cons' \<Rightarrow> del_from cons' idx)
      else Some cons)"
  by pat_completeness auto
termination
  by (relation "measure (\<lambda>(cons, idx). length cons)") (auto simp: smartlist_del_def swap_with_end_def split: if_splits)

declare del_from.simps [simp del]

text \<open>The remaining lines and the delete command, if a signature section was removed.\<close>

definition preprocess_consensus :: "cdline list \<Rightarrow> (cdline list \<times> cdline option) option" where
  "preprocess_consensus cons =
     (case find (\<lambda>i. line_starts_with_str (cons ! i) START_OF_SIGNATURES_SECTION) [0..<length cons] of
        None \<Rightarrow> Some (cons, None)
      | Some dirsig_idx \<Rightarrow>
          map_option (\<lambda>cons. (cons, Some (tor_snprintf 64 (decimal (dirsig_idx + 1) @ '',$d''))))
            (del_from cons dirsig_idx))"

lemma next_router_loop_bounds: "pos \<le> length cons \<Longrightarrow> pos \<le> next_router_loop cons pos \<and> next_router_loop cons pos \<le> length cons"
proof (induction cons pos rule: next_router_loop.induct)
  case (1 cons pos)
  then show ?case by (subst (1 2) next_router_loop.simps) (auto simp: Suc_le_eq)
qed

lemma next_router_bounds:
  assumes "next_router cons idx = Some r"
  shows "- 1 \<le> idx \<and> idx < r \<and> r \<le> int (length cons)"
proof -
  have i: "- 1 \<le> idx" "idx < int (length cons)" and r: "r = int (next_router_loop cons (nat (idx + 1)))"
    using assms by (auto simp: next_router_def split: if_splits)
  have "nat (idx + 1) \<le> length cons" using i by linarith
  from next_router_loop_bounds [OF this] i r show ?thesis by linarith
qed

lemma find_next_advances:
  "find_next_router_line cons idx it = Inr (idx', it') \<Longrightarrow> idx < idx' \<and> idx' \<le> int (length cons)"
  by (auto simp: find_next_router_line_def Let_def dest: next_router_bounds split: option.splits if_splits)

text \<open>The inner loop of \<open>gen_ed_diff\<close>, which advances the lower of the two positions.\<close>

function align_loop ::
  "cdline list \<Rightarrow> cdline list \<Rightarrow> int \<Rightarrow> router_id_iterator \<Rightarrow> int \<Rightarrow> router_id_iterator \<Rightarrow>
     gen_error + (int \<times> router_id_iterator \<times> int \<times> router_id_iterator)" where
  "align_loop cons1 cons2 i1 iter1 i2 iter2 =
     (let len1 = int (length cons1); len2 = int (length cons2);
          cmp = base64cmp (hash iter1) (hash iter2) in
      if cmp = 0 then Inr (i1, iter1, i2, iter2)
      else if i1 < len1 \<and> cmp < 0 then
        (case find_next_router_line cons1 i1 iter1 of
           Inl e \<Rightarrow> Inl e
         | Inr (i1', iter1') \<Rightarrow>
             if i1' = len1 then Inr (i1', iter1', len2, iter2)
             else align_loop cons1 cons2 i1' iter1' i2 iter2)
      else if i2 < len2 \<and> cmp > 0 then
        (case find_next_router_line cons2 i2 iter2 of
           Inl e \<Rightarrow> Inl e
         | Inr (i2', iter2') \<Rightarrow>
             if i2' = len2 then Inr (len1, iter1, i2', iter2')
             else align_loop cons1 cons2 i1 iter1 i2' iter2')
      else Inr (len1, iter1, len2, iter2))"
  by pat_completeness auto
termination
  by (relation "measure (\<lambda>(c1, c2, i1, it1, i2, it2). nat (int (length c1) - i1) + nat (int (length c2) - i2))")
    (auto dest: find_next_advances)

declare align_loop.simps [simp del]

lemma align_loop_advances:
  "align_loop c1 c2 i1 it1 i2 it2 = Inr (i1', it1', i2', it2') \<Longrightarrow>
     min i1 (int (length c1)) \<le> i1' \<and> (i1 \<le> int (length c1) \<longrightarrow> i1' \<le> int (length c1))
     \<and> min i2 (int (length c2)) \<le> i2' \<and> (i2 \<le> int (length c2) \<longrightarrow> i2' \<le> int (length c2))"
proof (induction c1 c2 i1 it1 i2 it2 rule: align_loop.induct)
  case (1 c1 c2 i1 it1 i2 it2)
  let ?cmp = "base64cmp (hash it1) (hash it2)"
  consider "?cmp = 0" | "?cmp \<noteq> 0" "i1 < int (length c1) \<and> ?cmp < 0"
    | "?cmp \<noteq> 0" "\<not> (i1 < int (length c1) \<and> ?cmp < 0)" "i2 < int (length c2) \<and> ?cmp > 0"
    | "?cmp \<noteq> 0" "\<not> (i1 < int (length c1) \<and> ?cmp < 0)" "\<not> (i2 < int (length c2) \<and> ?cmp > 0)"
    by blast
  then show ?case
  proof cases
    case 1
    with "1.prems" show ?thesis by (subst (asm) align_loop.simps) simp
  next
    case 2
    obtain j jt where f: "find_next_router_line c1 i1 it1 = Inr (j, jt)"
      using "1.prems"(1) 2 by (subst (asm) align_loop.simps) (auto split: sum.splits)
    from find_next_advances [OF f] have j: "i1 < j" "j \<le> int (length c1)" by simp_all
    show ?thesis
    proof (cases "j = int (length c1)")
      case True
      with "1.prems" 2 f j show ?thesis by (subst (asm) align_loop.simps) auto
    next
      case False
      have "align_loop c1 c2 j jt i2 it2 = Inr (i1', it1', i2', it2')"
        using "1.prems"(1) 2 f False by (subst (asm) align_loop.simps) simp
      with "1.IH"(1) [OF HOL.refl HOL.refl HOL.refl 2 f HOL.refl False] j show ?thesis by force
    qed
  next
    case 3
    obtain j jt where f: "find_next_router_line c2 i2 it2 = Inr (j, jt)"
      using "1.prems"(1) 3 by (subst (asm) align_loop.simps) (auto split: sum.splits)
    from find_next_advances [OF f] have j: "i2 < j" "j \<le> int (length c2)" by simp_all
    show ?thesis
    proof (cases "j = int (length c2)")
      case True
      with "1.prems" 3 f j show ?thesis by (subst (asm) align_loop.simps) auto
    next
      case False
      have "align_loop c1 c2 i1 it1 j jt = Inr (i1', it1', i2', it2')"
        using "1.prems"(1) 3 f False by (subst (asm) align_loop.simps) simp
      with "1.IH"(2) [OF HOL.refl HOL.refl HOL.refl 3 f HOL.refl False] j show ?thesis by force
    qed
  next
    case 4
    with "1.prems" show ?thesis by (subst (asm) align_loop.simps) auto
  qed
qed

text \<open>
  One iteration of the outer loop up to the slices: both positions advance by one router, then
  the lower one catches up.
\<close>

definition next_chunk ::
  "cdline list \<Rightarrow> cdline list \<Rightarrow> int \<Rightarrow> router_id_iterator \<Rightarrow> int \<Rightarrow> router_id_iterator \<Rightarrow>
     gen_error + (int \<times> router_id_iterator \<times> int \<times> router_id_iterator)" where
  "next_chunk cons1 cons2 i1 iter1 i2 iter2 =
     (let len1 = int (length cons1); len2 = int (length cons2) in
      case (if i1 < len1 then find_next_router_line cons1 i1 iter1 else Inr (i1, iter1)) of
        Inl e \<Rightarrow> Inl e
      | Inr (i1, iter1) \<Rightarrow>
          (case (if i2 < len2 then find_next_router_line cons2 i2 iter2 else Inr (i2, iter2)) of
             Inl e \<Rightarrow> Inl e
           | Inr (i2, iter2) \<Rightarrow>
               if i1 < len1 \<or> i2 < len2 then align_loop cons1 cons2 i1 iter1 i2 iter2
               else Inr (i1, iter1, i2, iter2)))"

definition MAX_LINE_COUNT :: int where "MAX_LINE_COUNT = 10000"

lemma next_chunk_advances:
  assumes "next_chunk c1 c2 i1 it1 i2 it2 = Inr (i1', it1', i2', it2')"
  shows "min i1 (int (length c1)) \<le> i1' \<and> (i1 \<le> int (length c1) \<longrightarrow> i1' \<le> int (length c1))
    \<and> min i2 (int (length c2)) \<le> i2' \<and> (i2 \<le> int (length c2) \<longrightarrow> i2' \<le> int (length c2))
    \<and> (i1 < int (length c1) \<longrightarrow> i1 < i1') \<and> (i2 < int (length c2) \<longrightarrow> i2 < i2')"
proof -
  obtain a at where a: "(if i1 < int (length c1) then find_next_router_line c1 i1 it1 else Inr (i1, it1)) = Inr (a, at)"
    using assms(1) by (auto simp: next_chunk_def Let_def split: sum.splits if_splits)
  obtain b bt where b: "(if i2 < int (length c2) then find_next_router_line c2 i2 it2 else Inr (i2, it2)) = Inr (b, bt)"
    using assms(1) a by (auto simp: next_chunk_def Let_def split: sum.splits if_splits)
  have a': "i1 \<le> a" "i1 \<le> int (length c1) \<longrightarrow> a \<le> int (length c1)" "i1 < int (length c1) \<longrightarrow> i1 < a"
    using a find_next_advances [of c1 i1 it1 a at] by (auto split: if_splits)
  have b': "i2 \<le> b" "i2 \<le> int (length c2) \<longrightarrow> b \<le> int (length c2)" "i2 < int (length c2) \<longrightarrow> i2 < b"
    using b find_next_advances [of c2 i2 it2 b bt] by (auto split: if_splits)
  have r: "(if a < int (length c1) \<or> b < int (length c2) then align_loop c1 c2 a at b bt
      else Inr (a, at, b, bt)) = Inr (i1', it1', i2', it2')"
    using assms(1) a b by (simp add: next_chunk_def Let_def)
  show ?thesis
    using r a' b' align_loop_advances [of c1 c2 a at b bt i1' it1' i2' it2'] by (auto split: if_splits)
qed

function gen_slices ::
  "cdline list \<Rightarrow> cdline list \<Rightarrow> int \<Rightarrow> router_id_iterator \<Rightarrow> int \<Rightarrow> router_id_iterator \<Rightarrow> int \<Rightarrow> int \<Rightarrow>
     bool list \<times> bool list \<Rightarrow> gen_error + (bool list \<times> bool list)" where
  "gen_slices cons1 cons2 i1 iter1 i2 iter2 start1 start2 changed =
     (if i1 < int (length cons1) \<or> i2 < int (length cons2) then
        (case next_chunk cons1 cons2 i1 iter1 i2 iter2 of
           Inl e \<Rightarrow> Inl e
         | Inr (i1', iter1', i2', iter2') \<Rightarrow>
             if i1' - start1 > MAX_LINE_COUNT \<or> i2' - start2 > MAX_LINE_COUNT then Inl GenTooFewCommon
             else (case (smartlist_slice cons1 start1 i1', smartlist_slice cons2 start2 i2') of
                 (Some cons1_sl, Some cons2_sl) \<Rightarrow>
                   (case calc_changes cons1_sl cons2_sl changed of
                      None \<Rightarrow> Inl GenAssert
                    | Some changed' \<Rightarrow> gen_slices cons1 cons2 i1' iter1' i2' iter2' i1' i2' changed')
               | _ \<Rightarrow> Inl GenAssert))
      else Inr changed)"
  by pat_completeness auto
termination
proof (relation "measure (\<lambda>(c1, c2, i1, it1, i2, it2, s1, s2, ch).
    nat (int (length c1) - i1) + nat (int (length c2) - i2))", goal_cases)
  case 1
  show ?case by simp
next
  case prems: (2 c1 c2 i1 it1 i2 it2 s1 s2 ch y i1' y' it1' y'' i2')
  then have "\<exists>it1' it2'. next_chunk c1 c2 i1 it1 i2 it2 = Inr (i1', it1', i2', it2')" by auto
  then obtain it1' it2' where "next_chunk c1 c2 i1 it1 i2 it2 = Inr (i1', it1', i2', it2')" by blast
  from next_chunk_advances [OF this] prems(1) show ?case by auto
qed

declare gen_slices.simps [simp del]

text \<open>
  The second half of \<open>gen_ed_diff\<close> walks the changes backwards; \<open>n1 = i1 + 1\<close>,
  \<open>n2 = i2 + 1\<close>, and \<open>start1x = m1\<close>, \<open>start2x = m2\<close>.
\<close>

fun skip_changed :: "bool list \<Rightarrow> nat \<Rightarrow> nat" where
  "skip_changed changed 0 = 0"
| "skip_changed changed (Suc n) =
     (if bitarray_is_set changed n then skip_changed changed n else Suc n)"

definition ed_command :: "nat \<Rightarrow> nat \<Rightarrow> nat \<Rightarrow> cstring" where
  "ed_command start1x deleted added =
     tor_snprintf 128
       (if added = 0 then
          (if deleted = 1 then decimal (start1x + 1) @ ''d''
           else decimal (start1x + 1) @ '','' @ decimal (start1x + deleted) @ ''d'')
        else if deleted = 0 then decimal start1x @ ''a''
        else if deleted = 1 then decimal (start1x + 1) @ ''c''
        else decimal (start1x + 1) @ '','' @ decimal (start1x + deleted) @ ''c'')"

definition last_changed :: "bool list \<Rightarrow> nat \<Rightarrow> bool" where
  "last_changed changed n \<longleftrightarrow> n > 0 \<and> bitarray_is_set changed (n - 1)"

lemma skip_changed_le: "skip_changed ch n \<le> n"
  by (induction n) auto

lemma skip_changed_less: "last_changed ch n \<Longrightarrow> skip_changed ch n < n"
  using skip_changed_le [of ch "n - 1"] by (cases n) (auto simp: last_changed_def)

function gen_commands ::
  "cdline list \<Rightarrow> bool list \<Rightarrow> bool list \<Rightarrow> nat \<Rightarrow> nat \<Rightarrow> cdline list \<Rightarrow> gen_error + cdline list" where
  "gen_commands cons2 changed1 changed2 n1 n2 result =
     (if n1 > 0 \<or> n2 > 0 then
        (if \<not> last_changed changed1 n1 \<and> \<not> last_changed changed2 n2
         then gen_commands cons2 changed1 changed2 (n1 - 1) (n2 - 1) result
         else
           let m1 = skip_changed changed1 n1; m2 = skip_changed changed2 n2;
               added = n2 - m2; deleted = n1 - m1; cmd = ed_command m1 deleted added;
               lines = map ((!) cons2) [m2..<n2]
           in if added = 0 then gen_commands cons2 changed1 changed2 m1 m2 (smartlist_add result cmd)
              else if list_ex (\<lambda>line. line_str_eq line ''.'') lines then Inl GenDot
              else gen_commands cons2 changed1 changed2 m1 m2
                     (smartlist_add (foldl smartlist_add (smartlist_add result cmd) lines) ''.''))
      else Inr result)"
  by pat_completeness auto
termination
proof (relation "measure (\<lambda>(c2, ch1, ch2, n1, n2, r). n1 + n2)", goal_cases)
  case (3 c2 ch1 ch2 n1 n2 r m1 m2)
  then show ?case
    using skip_changed_le [of ch1 n1] skip_changed_le [of ch2 n2]
      skip_changed_less [of ch1 n1] skip_changed_less [of ch2 n2] by auto
next
  case (4 c2 ch1 ch2 n1 n2 r m1 m2)
  then show ?case
    using skip_changed_le [of ch1 n1] skip_changed_le [of ch2 n2]
      skip_changed_less [of ch1 n1] skip_changed_less [of ch2 n2] by auto
qed auto

declare gen_commands.simps [simp del]

lemma gen_commands_step:
  assumes "n1 > 0 \<or> n2 > 0" "\<not> (\<not> last_changed ch1 n1 \<and> \<not> last_changed ch2 n2)"
  shows "gen_commands cons2 ch1 ch2 n1 n2 r =
    (let m1 = skip_changed ch1 n1; m2 = skip_changed ch2 n2;
         lines = map ((!) cons2) [m2..<n2];
         r' = smartlist_add r (ed_command m1 (n1 - m1) (n2 - m2)) in
     if n2 - m2 = 0 then gen_commands cons2 ch1 ch2 m1 m2 r'
     else if list_ex (\<lambda>line. line_str_eq line ''.'') lines then Inl GenDot
     else gen_commands cons2 ch1 ch2 m1 m2 (smartlist_add (foldl smartlist_add r' lines) ''.''))"
  unfolding gen_commands.simps [of cons2 ch1 ch2 n1 n2 r] if_P [OF assms(1)] if_not_P [OF assms(2)] Let_def ..

definition gen_ed_diff :: "cdline list \<Rightarrow> cdline list \<Rightarrow> gen_error + cdline list" where
  "gen_ed_diff cons1_orig cons2 =
     (case preprocess_consensus (smartlist_add_all [] cons1_orig) of
        None \<Rightarrow> Inl GenAssert
      | Some (cons1, remove_trailer) \<Rightarrow>
          let result = (case remove_trailer of None \<Rightarrow> [] | Some cmd \<Rightarrow> smartlist_add [] cmd);
              changed = (bitarray_init_zero (length cons1), bitarray_init_zero (length cons2))
          in case gen_slices cons1 cons2 (- 1) ROUTER_ID_ITERATOR_INIT (- 1) ROUTER_ID_ITERATOR_INIT 0 0 changed of
               Inl e \<Rightarrow> Inl e
             | Inr (changed1, changed2) \<Rightarrow>
                 gen_commands cons2 changed1 changed2 (length cons1) (length cons2) result)"

subsection \<open>The assertions hold and the unmarked lines agree\<close>

text \<open>The errors \<open>gen_ed_diff\<close> reports on purpose.\<close>

definition proper :: "gen_error \<Rightarrow> bool" where
  "proper e \<longleftrightarrow> e = GenUnsorted \<or> e = GenTooFewCommon \<or> e = GenDot"

lemma proper_simps [simp]:
  "proper GenUnsorted" "proper GenTooFewCommon" "proper GenDot"
  "\<not> proper GenAssert" "\<not> proper GenNotApplicable" "\<not> proper GenMismatch"
  by (simp_all add: proper_def)

lemma find_next_proper:
  "- 1 \<le> idx \<Longrightarrow> idx < int (length cons) \<Longrightarrow> find_next_router_line cons idx it = Inl e \<Longrightarrow> proper e"
  by (auto simp: find_next_router_line_def next_router_def Let_def split: option.splits if_splits)

lemma align_loop_proper:
  "- 1 \<le> i1 \<Longrightarrow> - 1 \<le> i2 \<Longrightarrow> align_loop c1 c2 i1 it1 i2 it2 = Inl e \<Longrightarrow> proper e"
proof (induction c1 c2 i1 it1 i2 it2 rule: align_loop.induct)
  case (1 c1 c2 i1 it1 i2 it2)
  let ?cmp = "base64cmp (hash it1) (hash it2)"
  consider "?cmp = 0" | "?cmp \<noteq> 0" "i1 < int (length c1) \<and> ?cmp < 0"
    | "?cmp \<noteq> 0" "\<not> (i1 < int (length c1) \<and> ?cmp < 0)" "i2 < int (length c2) \<and> ?cmp > 0"
    | "?cmp \<noteq> 0" "\<not> (i1 < int (length c1) \<and> ?cmp < 0)" "\<not> (i2 < int (length c2) \<and> ?cmp > 0)"
    by blast
  then show ?case
  proof cases
    case 1
    with "1.prems"(3) show ?thesis by (subst (asm) align_loop.simps) simp
  next
    case 2
    show ?thesis
    proof (cases "find_next_router_line c1 i1 it1")
      case (Inl e')
      with 2 "1.prems"(3) have "e' = e" by (subst (asm) align_loop.simps) auto
      with 2 find_next_proper [OF "1.prems"(1) _ Inl] show ?thesis by simp
    next
      case (Inr p)
      obtain j jt where p: "p = (j, jt)" by fastforce
      have j: "- 1 \<le> j" using find_next_advances [of c1 i1 it1 j jt] Inr p "1.prems" by simp
      have ne: "j \<noteq> int (length c1)" using 2 "1.prems"(3) Inr p by (subst (asm) align_loop.simps) auto
      have "align_loop c1 c2 j jt i2 it2 = Inl e"
        using 2 "1.prems"(3) Inr p ne by (subst (asm) align_loop.simps) auto
      then show ?thesis
        by (rule "1.IH"(1) [OF HOL.refl HOL.refl HOL.refl 2 Inr p [symmetric] ne j "1.prems"(2)])
    qed
  next
    case 3
    show ?thesis
    proof (cases "find_next_router_line c2 i2 it2")
      case (Inl e')
      with 3 "1.prems"(3) have "e' = e" by (subst (asm) align_loop.simps) auto
      with 3 find_next_proper [OF "1.prems"(2) _ Inl] show ?thesis by simp
    next
      case (Inr p)
      obtain j jt where p: "p = (j, jt)" by fastforce
      have j: "- 1 \<le> j" using find_next_advances [of c2 i2 it2 j jt] Inr p "1.prems" by simp
      have ne: "j \<noteq> int (length c2)" using 3 "1.prems"(3) Inr p by (subst (asm) align_loop.simps) auto
      have "align_loop c1 c2 i1 it1 j jt = Inl e"
        using 3 "1.prems"(3) Inr p ne by (subst (asm) align_loop.simps) auto
      then show ?thesis
        by (rule "1.IH"(2) [OF HOL.refl HOL.refl HOL.refl 3 Inr p [symmetric] ne "1.prems"(1) j])
    qed
  next
    case 4
    with "1.prems"(3) show ?thesis by (subst (asm) align_loop.simps) auto
  qed
qed

lemma next_chunk_proper:
  assumes "- 1 \<le> i1" "- 1 \<le> i2" "next_chunk c1 c2 i1 it1 i2 it2 = Inl e"
  shows "proper e"
proof -
  let ?f1 = "if i1 < int (length c1) then find_next_router_line c1 i1 it1 else Inr (i1, it1)"
  let ?f2 = "if i2 < int (length c2) then find_next_router_line c2 i2 it2 else Inr (i2, it2)"
  consider e1 where "?f1 = Inl e1" | a at e2 where "?f1 = Inr (a, at)" "?f2 = Inl e2"
    | a at b bt where "?f1 = Inr (a, at)" "?f2 = Inr (b, bt)"
    by (cases ?f1; cases ?f2) auto
  then show ?thesis
  proof cases
    case 1
    with assms(3) have "e1 = e" by (simp add: next_chunk_def Let_def)
    with 1 find_next_proper [OF assms(1), of c1 it1 e] show ?thesis by (simp split: if_splits)
  next
    case 2
    with assms(3) have "e2 = e" by (simp add: next_chunk_def Let_def)
    with 2 find_next_proper [OF assms(2), of c2 it2 e] show ?thesis by (simp split: if_splits)
  next
    case 3
    have "- 1 \<le> a" using 3(1) assms(1) find_next_advances [of c1 i1 it1 a at] by (auto split: if_splits)
    moreover have "- 1 \<le> b" using 3(2) assms(2) find_next_advances [of c2 i2 it2 b bt] by (auto split: if_splits)
    moreover have "align_loop c1 c2 a at b bt = Inl e"
      using assms(3) 3 by (simp add: next_chunk_def Let_def split: if_splits)
    ultimately show ?thesis by (rule align_loop_proper)
  qed
qed

text \<open>\<open>walk_at i a\<close>: the walk is at index \<open>i\<close> and everything before \<open>a\<close> is done.\<close>

definition walk_at :: "int \<Rightarrow> nat \<Rightarrow> bool" where
  "walk_at i a \<longleftrightarrow> i = int a \<or> i = - 1 \<and> a = 0"

lemma gen_slices_spec:
  assumes "walk_at i1 a" "walk_at i2 b" "a \<le> length c1" "b \<le> length c2"
    and "length (fst ch) = length c1" "length (snd ch) = length c2"
    and "clear (fst ch) a (length c1)" "clear (snd ch) b (length c2)"
    and "kept c1 (fst ch) 0 a = kept c2 (snd ch) 0 b"
  shows "case gen_slices c1 c2 i1 it1 i2 it2 (int a) (int b) ch of
      Inl e \<Rightarrow> proper e
    | Inr (ch1, ch2) \<Rightarrow> length ch1 = length c1 \<and> length ch2 = length c2
        \<and> kept c1 ch1 0 (length c1) = kept c2 ch2 0 (length c2)"
  using assms
proof (induction c1 c2 i1 it1 i2 it2 "int a" "int b" ch arbitrary: a b rule: gen_slices.induct)
  case (1 c1 c2 i1 it1 i2 it2 ch)
  show ?case
  proof (cases "i1 < int (length c1) \<or> i2 < int (length c2)")
    case False
    then have "a = length c1" "b = length c2" using "1.prems"(1-4) by (auto simp: walk_at_def)
    with False "1.prems" show ?thesis by (subst gen_slices.simps) (auto split: prod.splits)
  next
    case True
    show ?thesis
    proof (cases "next_chunk c1 c2 i1 it1 i2 it2")
      case (Inl e)
      have "- 1 \<le> i1" "- 1 \<le> i2" using "1.prems"(1,2) by (auto simp: walk_at_def)
      then have "proper e" using Inl by (rule next_chunk_proper)
      with Inl True show ?thesis by (subst gen_slices.simps) simp
    next
      case (Inr p)
      obtain i1' it1' i2' it2' where p: "p = (i1', it1', i2', it2')" by (metis prod_cases4)
      from next_chunk_advances [OF Inr [unfolded p]] "1.prems"(1-4)
      have adv: "0 \<le> i1'" "int a \<le> i1'" "i1' \<le> int (length c1)" "0 \<le> i2'" "int b \<le> i2'" "i2' \<le> int (length c2)"
        by (auto simp: walk_at_def)
      then obtain a' b' where ab: "i1' = int a'" "i2' = int b'" by (metis nonneg_int_cases)
      show ?thesis
      proof (cases "i1' - int a > MAX_LINE_COUNT \<or> i2' - int b > MAX_LINE_COUNT")
        case big: True
        from True Inr p big show ?thesis by (subst gen_slices.simps) simp
      next
        case small: False
        define s1 where "s1 = \<lparr>sl_list = c1, sl_offset = a, sl_len = a' - a\<rparr>"
        define s2 where "s2 = \<lparr>sl_list = c2, sl_offset = b, sl_len = b' - b\<rparr>"
        have s1: "smartlist_slice c1 (int a) i1' = Some s1" using smartlist_slice_nat [of c1 a a'] adv ab
          by (simp add: s1_def)
        have s2: "smartlist_slice c2 (int b) i2' = Some s2" using smartlist_slice_nat [of c2 b b'] adv ab
          by (simp add: s2_def)
        have r: "ready s1 (fst ch)" "ready s2 (snd ch)"
          using "1.prems" adv ab by (auto simp: ready_def s1_def s2_def clear_def)
        obtain ch' where ch': "calc_changes s1 s2 ch = Some ch'" "marks s1 s2 ch ch'"
          using calc_changes_marks [OF r] by blast
        have o: "same_outside (fst ch) (fst ch') a a'" "same_outside (snd ch) (snd ch') b b'"
          and k: "kept c1 (fst ch') a a' = kept c2 (snd ch') b b'"
          using ch'(2) adv ab by (auto simp: marks_def s1_def s2_def)
        have len: "length (fst ch') = length c1" "length (snd ch') = length c2"
          using o "1.prems"(5,6) by (simp_all add: same_outside_def)
        have cl: "clear (fst ch') a' (length c1)" "clear (snd ch') b' (length c2)"
          using o "1.prems"(7,8) adv ab by (auto simp: clear_def same_outside_def)
        have "kept c1 (fst ch') 0 a = kept c1 (fst ch) 0 a" "kept c2 (snd ch') 0 b = kept c2 (snd ch) 0 b"
          using o by (auto intro!: kept_cong simp: same_outside_def)
        with k "1.prems"(9) have k': "kept c1 (fst ch') 0 a' = kept c2 (snd ch') 0 b'"
          using adv ab kept_split [of 0 a a' c1 "fst ch'"] kept_split [of 0 b b' c2 "snd ch'"] by simp
        have w: "walk_at i1' a'" "walk_at i2' b'" "a' \<le> length c1" "b' \<le> length c2"
          using ab adv by (simp_all add: walk_at_def)
        have sl: "(Some s1, Some s2) = (smartlist_slice c1 (int a) (int a'), smartlist_slice c2 (int b) (int b'))"
          using s1 s2 ab by simp
        have rec: "case gen_slices c1 c2 (int a') it1' (int b') it2' (int a') (int b') ch' of
            Inl e \<Rightarrow> proper e
          | Inr (ch1, ch2) \<Rightarrow> length ch1 = length c1 \<and> length ch2 = length c2
              \<and> kept c1 ch1 0 (length c1) = kept c2 ch2 0 (length c2)"
          by (rule "1.hyps" [OF True Inr p [symmetric, unfolded ab] HOL.refl HOL.refl small [unfolded ab]
                sl HOL.refl HOL.refl ch'(1) w [unfolded ab] len cl k'])
        have "gen_slices c1 c2 i1 it1 i2 it2 (int a) (int b) ch =
            gen_slices c1 c2 (int a') it1' (int b') it2' (int a') (int b') ch'"
          using True Inr p small s1 s2 ch'(1) ab by (subst gen_slices.simps) simp
        with rec show ?thesis by simp
      qed
    qed
  qed
qed

lemma del_from_take: "idx \<le> length cons \<Longrightarrow> del_from cons idx = Some (take idx cons)"
proof (induction cons idx rule: del_from.induct)
  case (1 cons idx)
  show ?case
  proof (cases "idx < length cons")
    case True
    define c where "c = swap_with_end cons idx"
    have del: "smartlist_del cons idx = Some c" using True by (simp add: smartlist_del_def c_def)
    have "idx \<le> length c" "take idx c = take idx cons"
      using True by (auto simp: c_def swap_with_end_def butlast_conv_take take_update_cancel)
    with "1.IH" [OF True del] True del show ?thesis by (subst del_from.simps) simp
  next
    case False
    with "1.prems" show ?thesis by (subst del_from.simps) simp
  qed
qed

text \<open>The index of the first signature line, if there is one.\<close>

definition signatures_at :: "cdline list \<Rightarrow> nat option" where
  "signatures_at cons =
     find (\<lambda>i. line_starts_with_str (cons ! i) START_OF_SIGNATURES_SECTION) [0..<length cons]"

lemma signatures_at_less: "signatures_at cons = Some k \<Longrightarrow> k < length cons"
  by (auto simp: signatures_at_def find_Some_iff)

lemma preprocess_eq:
  "preprocess_consensus cons =
     Some (case signatures_at cons of
             None \<Rightarrow> (cons, None)
           | Some k \<Rightarrow> (take k cons, Some (tor_snprintf 64 (decimal (k + 1) @ '',$d''))))"
  by (auto simp: preprocess_consensus_def signatures_at_def [symmetric] del_from_take less_imp_le
      dest: signatures_at_less split: option.splits)

definition unsigned_part :: "cdline list \<Rightarrow> cdline list" where
  "unsigned_part cons = (case signatures_at cons of None \<Rightarrow> cons | Some k \<Rightarrow> take k cons)"

lemma clear_init: "clear (bitarray_init_zero n) a n"
  by (simp add: clear_def bitarray_init_zero_def)

lemma gen_slices_init:
  "case gen_slices c1 c2 (- 1) it1 (- 1) it2 0 0 (bitarray_init_zero (length c1), bitarray_init_zero (length c2)) of
      Inl e \<Rightarrow> proper e
    | Inr (ch1, ch2) \<Rightarrow> length ch1 = length c1 \<and> length ch2 = length c2
        \<and> kept c1 ch1 0 (length c1) = kept c2 ch2 0 (length c2)"
  using gen_slices_spec [of "- 1" 0 "- 1" 0 c1 c2 "(bitarray_init_zero (length c1), bitarray_init_zero (length c2))" it1 it2]
  by (simp add: walk_at_def clear_init) (simp add: bitarray_init_zero_def)

lemma gen_commands_proper: "gen_commands c2 ch1 ch2 n1 n2 r = Inl e \<Longrightarrow> proper e"
proof (induction c2 ch1 ch2 n1 n2 r rule: gen_commands.induct)
  case (1 c2 ch1 ch2 n1 n2 r)
  consider "\<not> (n1 > 0 \<or> n2 > 0)" | "n1 > 0 \<or> n2 > 0" "\<not> last_changed ch1 n1 \<and> \<not> last_changed ch2 n2"
    | "n1 > 0 \<or> n2 > 0" "\<not> (\<not> last_changed ch1 n1 \<and> \<not> last_changed ch2 n2)" by blast
  then show ?case
  proof cases
    case 1
    with "1.prems" show ?thesis by (subst (asm) gen_commands.simps) simp
  next
    case 2
    with "1.prems" "1.IH"(1) [OF 2] show ?thesis by (subst (asm) gen_commands.simps) simp
  next
    case 3
    note ih = "1.IH"(2,3) [OF 3 HOL.refl HOL.refl HOL.refl HOL.refl HOL.refl HOL.refl]
    let ?m1 = "skip_changed ch1 n1" and ?m2 = "skip_changed ch2 n2"
    let ?lines = "map ((!) c2) [?m2..<n2]"
    let ?r = "smartlist_add r (ed_command ?m1 (n1 - ?m1) (n2 - ?m2))"
    have "(if n2 - ?m2 = 0 then gen_commands c2 ch1 ch2 ?m1 ?m2 ?r
        else if list_ex (\<lambda>line. line_str_eq line ''.'') ?lines then Inl GenDot
        else gen_commands c2 ch1 ch2 ?m1 ?m2 (smartlist_add (foldl smartlist_add ?r ?lines) ''.'')) = Inl e"
      using "1.prems" by (simp only: gen_commands_step [OF 3] Let_def)
    with ih show ?thesis by (simp split: if_splits)
  qed
qed

lemma gen_ed_diff_proper: "gen_ed_diff c1 c2 = Inl e \<Longrightarrow> proper e"
  using gen_slices_init [of "unsigned_part c1" c2 ROUTER_ID_ITERATOR_INIT ROUTER_ID_ITERATOR_INIT]
  by (auto simp: gen_ed_diff_def preprocess_eq smartlist_add_all_def unsigned_part_def
      dest: gen_commands_proper split: option.splits sum.splits prod.splits)

subsection \<open>An example\<close>

lemma next_router_example: "next_router [[c]] (- 1) = Some 1"
  by (simp add: next_router_def next_router_loop.simps is_valid_router_entry_def)

lemma calc_changes_example:
  "calc_changes \<lparr>sl_list = [''a''], sl_offset = 0, sl_len = 1\<rparr> \<lparr>sl_list = [''b''], sl_offset = 0, sl_len = 1\<rparr>
     ([False], [False]) = Some ([True], [True])"
  by (subst calc_changes.simps)
    (simp add: trim_slices_def numeral_eq_Suc lines_eq_def memeq_def set_changed_def
      smartlist_slice_string_pos_def bitarray_set_def Let_def)

lemma gen_slices_example:
  "gen_slices [''a''] [''b''] (- 1) it1 (- 1) it2 0 0 ([False], [False]) = Inr ([True], [True])"
proof -
  have chunk: "next_chunk [''a''] [''b''] (- 1) it1 (- 1) it2 = Inr (1, it1, 1, it2)"
    by (simp add: next_chunk_def find_next_router_line_def next_router_example)
  have sl: "smartlist_slice [x] 0 1 = Some \<lparr>sl_list = [x], sl_offset = 0, sl_len = 1\<rparr>" for x
    by (simp add: smartlist_slice_def)
  have fin: "gen_slices [''a''] [''b''] 1 it1 1 it2 1 1 ([True], [True]) = Inr ([True], [True])"
    by (subst gen_slices.simps) simp
  show ?thesis
    by (subst gen_slices.simps)
      (simp only: chunk sl calc_changes_example fin sum.case prod.case option.case MAX_LINE_COUNT_def, simp)
qed

lemma gen_commands_example:
  "gen_commands [''b''] [True] [True] (Suc 0) (Suc 0) [] = Inr [''1c'', ''b'', ''.'']"
proof -
  have cmd: "ed_command 0 (Suc 0) (Suc 0) = ''1c''"
    by (simp add: ed_command_def tor_snprintf_def decimal.simps [of "Suc 0"] digit_char_def char_of_def
        bit_iff_odd)
  have fin: "gen_commands c [True] [True] 0 0 r = Inr r" for c r
    by (simp add: gen_commands.simps)
  show ?thesis
    by (subst gen_commands.simps)
      (simp add: last_changed_def bitarray_is_set_def Let_def smartlist_add_def line_str_eq_def lines_eq_def
        memeq_def cmd fin)
qed

lemma gen_ed_diff_example: "gen_ed_diff [''a''] [''b''] = Inr [''1c'', ''b'', ''.'']"
proof -
  have "signatures_at [''a''] = None"
    by (simp add: signatures_at_def line_starts_with_str_def START_OF_SIGNATURES_SECTION_def)
  then show ?thesis
    by (simp add: gen_ed_diff_def preprocess_eq smartlist_add_all_def bitarray_init_zero_def
        gen_slices_example gen_commands_example)
qed

end
