(* ===== verification/Consdiff_Apply.thy ===== *)
theory Consdiff_Apply
  imports Consdiff_Gen Parse_Int
begin

text \<open>
  Consensus diffs, third part (feature/dircommon/consdiff.c): \<open>apply_ed_diff\<close>, with one error
  per branch that rejects a script, and the proof that a script written by \<open>gen_ed_diff\<close>
  turns the base lines into the target lines.  \<open>j\<close> counts the base lines not yet passed and
  can become -1, so it is an integer; \<open>cons2\<close> grows in reverse, as in the code.
\<close>

datatype apply_error =
  LineTooLong
| MissingLineNumber
| MissingRangeEnd
| BadRange
| NotReverseSorted
| NoCommand
| CommandTooLong
| UnknownCommand
| EofNotDelete
| AddAfterRange
| NoTerminator
| ZeroLines

definition INT32_MAX :: int where "INT32_MAX = 2147483647"

text \<open>The number and the rest of the string, or \<open>None\<close> for -1.\<close>

definition get_linenum :: "cstring \<Rightarrow> (int \<times> cstring) option" where
  "get_linenum s =
     (if \<not> TOR_ISDIGIT (cur s) then None
      else let r = tor_parse_long s 10 0 INT32_MAX True
           in if pr_ok r then (case pr_next r of None \<Rightarrow> None | Some next \<Rightarrow> Some (pr_val r, next))
              else None)"

text \<open>
  The range of a command: its end, whether that was \<open>$\<close>, whether there was a range, and
  the rest of the line.
\<close>

definition parse_ed_range ::
  "int \<Rightarrow> int \<Rightarrow> cstring \<Rightarrow> apply_error + (int \<times> bool \<times> bool \<times> cstring)" where
  "parse_ed_range len1 start ptr =
     (if cur ptr = CHR '','' then
        let ptr = tl ptr in
        (case (if cur ptr = CHR ''$'' then Some (len1, True, tl ptr)
               else map_option (\<lambda>(n, p). (n, False, p)) (get_linenum ptr)) of
           None \<Rightarrow> Inl MissingRangeEnd
         | Some (fin, end_was_eof, ptr) \<Rightarrow>
             if fin \<le> start then Inl BadRange else Inr (fin, end_was_eof, True, ptr))
      else Inr (start, False, False, ptr))"

text \<open>The checks on one command line, in the order of the code: start, end and action.\<close>

definition parse_ed_command :: "int \<Rightarrow> int \<Rightarrow> cdline \<Rightarrow> apply_error + (int \<times> int \<times> char)" where
  "parse_ed_command len1 j diff_cdline =
     (if length diff_cdline > 127 then Inl LineTooLong
      else case get_linenum (cstr diff_cdline) of
        None \<Rightarrow> Inl MissingLineNumber
      | Some (start, ptr) \<Rightarrow>
          (case parse_ed_range len1 start ptr of
             Inl e \<Rightarrow> Inl e
           | Inr (fin, end_was_eof, had_range, ptr) \<Rightarrow>
               if fin > j then Inl NotReverseSorted
               else if cur ptr = NUL then Inl NoCommand
               else if cur (tl ptr) \<noteq> NUL then Inl CommandTooLong
               else let action = cur ptr in
                 if action \<noteq> CHR ''a'' \<and> action \<noteq> CHR ''c'' \<and> action \<noteq> CHR ''d'' then Inl UnknownCommand
                 else if end_was_eof \<and> action \<noteq> CHR ''d'' then Inl EofNotDelete
                 else if had_range \<and> action = CHR ''a'' then Inl AddAfterRange
                 else Inr (start, fin, action)))"

function add_unchanged :: "cdline list \<Rightarrow> int \<Rightarrow> int \<Rightarrow> cdline list \<Rightarrow> int \<times> cdline list" where
  "add_unchanged cons1 j fin cons2 =
     (if j \<noteq> 0 \<and> j > fin then add_unchanged cons1 (j - 1) fin (smartlist_add cons2 (cons1 ! nat (j - 1)))
      else (j, cons2))"
  by pat_completeness auto
termination
  by (relation "measure (\<lambda>(cons1, j, fin, cons2). nat (j - fin))") auto

function skip_removed :: "int \<Rightarrow> int \<Rightarrow> int" where
  "skip_removed j start = (if j - 1 \<ge> start then skip_removed (j - 1) start else j - 1)"
  by pat_completeness auto
termination
  by (relation "measure (\<lambda>(j, start). nat (j - start))") auto

declare add_unchanged.simps [simp del] skip_removed.simps [simp del]

text \<open>The number of lines before the first line that is a single dot.\<close>

fun find_dot :: "cdline list \<Rightarrow> nat option" where
  "find_dot [] = None"
| "find_dot (line # diff) = (if line_str_eq line ''.'' then Some 0 else map_option Suc (find_dot diff))"

lemma find_dot_less: "find_dot diff = Some k \<Longrightarrow> k < length diff"
  by (induction diff arbitrary: k) (auto split: if_splits)

function apply_loop :: "cdline list \<Rightarrow> cdline list \<Rightarrow> int \<Rightarrow> cdline list \<Rightarrow> apply_error + (int \<times> cdline list)" where
  "apply_loop cons1 [] j cons2 = Inr (j, cons2)"
| "apply_loop cons1 (line # diff) j cons2 =
     (case parse_ed_command (int (length cons1)) j line of
        Inl e \<Rightarrow> Inl e
      | Inr (start, fin, action) \<Rightarrow>
          (case add_unchanged cons1 j fin cons2 of
             (j, cons2) \<Rightarrow>
               let j = (if action = CHR ''c'' \<or> action = CHR ''d'' then skip_removed j start else j)
               in if action = CHR ''a'' \<or> action = CHR ''c'' then
                    (if diff = [] then Inl ZeroLines
                     else case find_dot diff of
                       None \<Rightarrow> Inl NoTerminator
                     | Some k \<Rightarrow>
                         if k = 0 then Inl ZeroLines
                         else apply_loop cons1 (drop (k + 1) diff) j
                                (foldl smartlist_add cons2 (rev (take k diff))))
                  else apply_loop cons1 diff j cons2))"
  by pat_completeness auto
termination
  by (relation "measure (\<lambda>(cons1, diff, j, cons2). length diff)") auto

text \<open>The final loop \<open>j > 0\<close> is the same loop with end 0.\<close>

definition apply_ed_diff :: "cdline list \<Rightarrow> cdline list \<Rightarrow> nat \<Rightarrow> apply_error + cdline list" where
  "apply_ed_diff cons1 diff diff_starting_line =
     (case apply_loop cons1 (drop diff_starting_line diff) (int (length cons1)) [] of
        Inl e \<Rightarrow> Inl e
      | Inr (j, cons2) \<Rightarrow> Inr (smartlist_reverse (snd (add_unchanged cons1 j 0 cons2))))"

subsection \<open>The loops\<close>

lemma add_unchanged_nat:
  "f \<le> j \<Longrightarrow> j \<le> length cons1 \<Longrightarrow>
     add_unchanged cons1 (int j) (int f) acc = (int f, acc @ rev (drop f (take j cons1)))"
proof (induction j arbitrary: acc)
  case 0
  then show ?case by (subst add_unchanged.simps) simp
next
  case (Suc j)
  show ?case
  proof (cases "f = Suc j")
    case True
    with Suc.prems show ?thesis by (subst add_unchanged.simps) simp
  next
    case False
    with Suc.prems have "f \<le> j" "take (Suc j) cons1 = take j cons1 @ [cons1 ! j]"
      by (auto simp: take_Suc_conv_app_nth)
    with Suc show ?thesis
      by (subst add_unchanged.simps) (simp add: smartlist_add_def)
  qed
qed

lemma skip_removed_eq: "start \<le> j \<Longrightarrow> skip_removed j start = start - 1"
proof (induction j start rule: skip_removed.induct)
  case (1 j start)
  then show ?case by (subst skip_removed.simps) auto
qed

lemma foldl_smartlist_add: "foldl smartlist_add acc xs = acc @ xs"
  by (induction xs arbitrary: acc) (simp_all add: smartlist_add_def)

lemma find_dot_lines:
  "(\<And>x. x \<in> set lines \<Longrightarrow> \<not> line_str_eq x ''.'') \<Longrightarrow> find_dot (lines @ ''.'' # rest) = Some (length lines)"
  by (induction lines) (auto simp: line_str_eq_def lines_eq_def memeq_def)

subsection \<open>Commands are read back as they were written\<close>

lemma get_linenum_decimal:
  assumes "rest = [] \<or> \<not> TOR_ISDIGIT (hd rest)" "int n \<le> INT32_MAX"
  shows "get_linenum (decimal n @ rest) = Some (int n, rest)"
proof -
  have "tor_parse_long (decimal n @ rest) 10 0 INT32_MAX True
      = \<lparr>pr_ok = True, pr_val = int n, pr_next = Some rest\<rparr>"
    using assms by (intro tor_parse_long_decimal) (simp_all add: INT32_MAX_def LONG_MAX_def)
  then show ?thesis by (simp add: get_linenum_def cur_decimal)
qed

lemma decimal_no_NUL: "NUL \<notin> set (decimal n)"
  using TOR_ISDIGIT_decimal [of NUL n] by auto

lemma decimal_short: "int n \<le> INT32_MAX \<Longrightarrow> length (decimal n) \<le> 10"
  by (rule decimal_length) (simp_all add: INT32_MAX_def)

lemma not_digit [simp]:
  "\<not> TOR_ISDIGIT (CHR ''a'')" "\<not> TOR_ISDIGIT (CHR ''c'')" "\<not> TOR_ISDIGIT (CHR ''d'')"
  "\<not> TOR_ISDIGIT (CHR '','')"
  by (simp_all add: TOR_ISDIGIT_iff byte_between_def)

lemma parse_single:
  assumes "act \<in> {CHR ''a'', CHR ''c'', CHR ''d''}" "int n \<le> INT32_MAX" "int n \<le> j"
  shows "parse_ed_command len1 j (decimal n @ [act]) = Inr (int n, int n, act)"
proof -
  have "cstr (decimal n @ [act]) = decimal n @ [act]"
    using assms(1) decimal_no_NUL [of n] by (intro cstr_id) (auto simp: NUL_def)
  moreover have "get_linenum (decimal n @ [act]) = Some (int n, [act])"
    using assms by (intro get_linenum_decimal) auto
  ultimately show ?thesis
    using assms decimal_short [OF assms(2)]
    by (auto simp: parse_ed_command_def parse_ed_range_def NUL_def)
qed

lemma parse_range:
  assumes "act \<in> {CHR ''c'', CHR ''d''}" "n < m" "int m \<le> INT32_MAX" "int m \<le> j"
  shows "parse_ed_command len1 j (decimal n @ '','' @ decimal m @ [act]) = Inr (int n, int m, act)"
proof -
  have n: "int n \<le> INT32_MAX" using assms by simp
  have "cstr (decimal n @ '','' @ decimal m @ [act]) = decimal n @ '','' @ decimal m @ [act]"
    using assms(1) decimal_no_NUL [of n] decimal_no_NUL [of m] by (intro cstr_id) (auto simp: NUL_def)
  moreover have "get_linenum (decimal n @ '','' @ decimal m @ [act]) = Some (int n, '','' @ decimal m @ [act])"
    using n by (intro get_linenum_decimal) auto
  moreover have g: "get_linenum (decimal m @ [act]) = Some (int m, [act])"
    using assms by (intro get_linenum_decimal) auto
  have "parse_ed_range len1 (int n) ('','' @ decimal m @ [act]) = Inr (int m, False, True, [act])"
  proof -
    have "TOR_ISDIGIT (cur (decimal m @ [act]))" by (rule cur_decimal)
    then have "cur (decimal m @ [act]) \<noteq> CHR ''$''" by (auto simp: TOR_ISDIGIT_iff byte_between_def)
    with g assms(2) show ?thesis by (simp add: parse_ed_range_def)
  qed
  ultimately show ?thesis
    using assms decimal_short [OF n] decimal_short [OF assms(3)]
    by (auto simp: parse_ed_command_def NUL_def)
qed

lemma parse_eof:
  assumes "int n < len1" "int n \<le> INT32_MAX" "len1 \<le> j"
  shows "parse_ed_command len1 j (decimal n @ '',$d'') = Inr (int n, len1, CHR ''d'')"
proof -
  have "cstr (decimal n @ '',$d'') = decimal n @ '',$d''"
    using decimal_no_NUL [of n] by (intro cstr_id) (auto simp: NUL_def)
  moreover have "get_linenum (decimal n @ '',$d'') = Some (int n, '',$d'')"
    using assms by (intro get_linenum_decimal) auto
  ultimately show ?thesis
    using assms decimal_short [OF assms(2)]
    by (auto simp: parse_ed_command_def parse_ed_range_def NUL_def)
qed

text \<open>A generated command: its range, and the action as the numbers of lines say.\<close>

lemma parse_ed_command_generated:
  assumes "0 < deleted + added" "int (m + deleted) \<le> INT32_MAX" "int (m + deleted) \<le> j"
  shows "parse_ed_command len1 j (ed_command m deleted added) =
    Inr (if deleted = 0 then int m else int m + 1, int (m + deleted),
         if added = 0 then CHR ''d'' else if deleted = 0 then CHR ''a'' else CHR ''c'')"
proof -
  have short: "length (decimal k) \<le> 10" if "k \<le> m + deleted" for k
    using assms(2) that by (intro decimal_short) simp
  consider "deleted = 0" | "deleted = 1" | "2 \<le> deleted" by linarith
  then show ?thesis
  proof cases
    case 1
    with assms short [of m] parse_single [of "CHR ''a''" m j len1] show ?thesis
      by (simp add: ed_command_def tor_snprintf_def)
  next
    case 2
    with assms short [of "m + 1"] parse_single [of "CHR ''c''" "m + 1" j len1]
      parse_single [of "CHR ''d''" "m + 1" j len1] show ?thesis
      by (simp add: ed_command_def tor_snprintf_def add.commute)
  next
    case 3
    with assms short [of "m + 1"] short [of "m + deleted"]
      parse_range [of "CHR ''c''" "m + 1" "m + deleted" j len1]
      parse_range [of "CHR ''d''" "m + 1" "m + deleted" j len1] show ?thesis
      by (simp add: ed_command_def tor_snprintf_def add.commute)
  qed
qed

subsection \<open>Applying a generated script\<close>

lemma skip_changed_marked: "skip_changed ch n \<le> i \<Longrightarrow> i < n \<Longrightarrow> ch ! i"
  by (induction n) (auto simp: bitarray_is_set_def less_Suc_eq split: if_splits)

lemma kept_skip_changed: "kept l ch 0 n = kept l ch 0 (skip_changed ch n)"
  using kept_split [of 0 "skip_changed ch n" n l ch] skip_changed_le [of ch n]
    kept_marked [of "skip_changed ch n" n ch l] skip_changed_marked [of ch n] by simp

lemma kept_Suc: "kept l ch 0 (Suc n) = kept l ch 0 n @ (if ch ! n then [] else [l ! n])"
  by (simp add: kept_def)

lemma map_nth_drop: "m \<le> n \<Longrightarrow> n \<le> length xs \<Longrightarrow> map ((!) xs) [m..<n] @ drop n xs = drop m xs"
  by (rule nth_equalityI) (auto simp: nth_append add.commute)

text \<open>One command of a script, with the lines it adds.\<close>

definition ed_chunk :: "cdline list \<Rightarrow> nat \<Rightarrow> nat \<Rightarrow> nat \<Rightarrow> nat \<Rightarrow> cdline list" where
  "ed_chunk cons2 m1 n1 m2 n2 =
     ed_command m1 (n1 - m1) (n2 - m2) #
     (if n2 = m2 then [] else map ((!) cons2) [m2..<n2] @ [''.''])"

lemma apply_chunk:
  assumes m: "m1 \<le> n1" "m2 \<le> n2" "m1 < n1 \<or> m2 < n2"
    and j: "n1 \<le> j" "j \<le> length cons1" "int (length cons1) \<le> INT32_MAX"
    and n2: "n2 \<le> length cons2"
    and dot: "\<not> list_ex (\<lambda>line. line_str_eq line ''.'') (map ((!) cons2) [m2..<n2])"
  shows "apply_loop cons1 (ed_chunk cons2 m1 n1 m2 n2 @ script) (int j) acc =
    apply_loop cons1 script (int m1)
      (acc @ rev (drop n1 (take j cons1)) @ rev (map ((!) cons2) [m2..<n2]))"
proof -
  let ?lines = "map ((!) cons2) [m2..<n2]"
  define start act where "start = (if n1 - m1 = 0 then int m1 else int m1 + 1)"
    and "act = (if n2 - m2 = 0 then CHR ''d'' else if n1 - m1 = 0 then CHR ''a'' else CHR ''c'')"
  have cmd: "parse_ed_command (int (length cons1)) (int j) (ed_command m1 (n1 - m1) (n2 - m2)) =
      Inr (start, int n1, act)"
    using parse_ed_command_generated [of "n1 - m1" "n2 - m2" m1 "int j" "int (length cons1)"] m j
    by (auto simp: start_def act_def)
  have flush: "add_unchanged cons1 (int j) (int n1) acc = (int n1, acc @ rev (drop n1 (take j cons1)))"
    using j by (intro add_unchanged_nat) auto
  have skip: "(if act = CHR ''c'' \<or> act = CHR ''d'' then skip_removed (int n1) start else int n1) = int m1"
    using m skip_removed_eq [of start "int n1"] by (auto simp: act_def start_def)
  show ?thesis
  proof (cases "n2 = m2")
    case True
    then have "act = CHR ''d''" by (simp add: act_def)
    with True cmd flush skip show ?thesis by (simp add: ed_chunk_def)
  next
    case False
    then have act: "act = CHR ''a'' \<or> act = CHR ''c''" using m by (simp add: act_def)
    have find: "find_dot (?lines @ ''.'' # script) = Some (length ?lines)"
      using dot by (intro find_dot_lines) (auto simp: list_ex_iff)
    have ne: "length ?lines \<noteq> 0" using False m by simp
    have "apply_loop cons1 (ed_chunk cons2 m1 n1 m2 n2 @ script) (int j) acc =
        apply_loop cons1 (drop (length ?lines + 1) (?lines @ ''.'' # script)) (int m1)
          (foldl smartlist_add (acc @ rev (drop n1 (take j cons1)))
            (rev (take (length ?lines) (?lines @ ''.'' # script))))"
      using False cmd flush skip act find ne
      by (simp del: length_map length_upt add: ed_chunk_def Let_def)
    then show ?thesis by (simp add: foldl_smartlist_add)
  qed
qed

lemma apply_gen_commands:
  assumes "gen_commands cons2 ch1 ch2 n1 n2 result = Inr out"
    and "kept cons1 ch1 0 n1 = kept cons2 ch2 0 n2"
    and "n1 \<le> j" "j \<le> length cons1" "n2 \<le> length cons2" "int (length cons1) \<le> INT32_MAX"
    and "drop n1 (take j cons1) @ rev acc = drop n2 cons2"
  shows "\<exists>script j' acc'. out = result @ script
    \<and> apply_loop cons1 script (int j) acc = Inr (int j', acc') \<and> j' \<le> length cons1
    \<and> take j' cons1 @ rev acc' = cons2"
  using assms
proof (induction cons2 ch1 ch2 n1 n2 result arbitrary: j acc rule: gen_commands.induct)
  case (1 cons2 ch1 ch2 n1 n2 result)
  show ?case
  proof (cases "n1 > 0 \<or> n2 > 0")
    case False
    with "1.prems" show ?thesis by (subst (asm) gen_commands.simps) auto
  next
    case True
    show ?thesis
    proof (cases "\<not> last_changed ch1 n1 \<and> \<not> last_changed ch2 n2")
      case same: True
      have "n1 > 0 \<and> n2 > 0"
        using "1.prems"(2) True same
        by (cases n1; cases n2) (auto simp: last_changed_def bitarray_is_set_def kept_Suc)
      then obtain k1 k2 where k: "n1 = Suc k1" "n2 = Suc k2" by (auto simp: gr0_conv_Suc)
      with same have u: "\<not> ch1 ! k1" "\<not> ch2 ! k2" by (simp_all add: last_changed_def bitarray_is_set_def)
      with "1.prems"(2) k have eq: "kept cons1 ch1 0 k1 = kept cons2 ch2 0 k2" "cons1 ! k1 = cons2 ! k2"
        by (simp_all add: kept_Suc)
      have "drop k1 (take j cons1) = cons1 ! k1 # drop (Suc k1) (take j cons1)"
        using "1.prems"(3,4) k by (intro drop_take_Cons) auto
      moreover have "drop k2 cons2 = cons2 ! k2 # drop (Suc k2) cons2"
        using "1.prems"(5) k by (simp add: Cons_nth_drop_Suc)
      ultimately have d: "drop k1 (take j cons1) @ rev acc = drop k2 cons2"
        using "1.prems"(7) k eq(2) by simp
      have g: "gen_commands cons2 ch1 ch2 (n1 - 1) (n2 - 1) result = Inr out"
        using "1.prems"(1) True same by (subst (asm) gen_commands.simps) simp
      show ?thesis
        using "1.IH"(1) [OF True same g, of j acc] "1.prems" eq(1) d k by simp
    next
      case changed: False
      define m1 m2 where "m1 = skip_changed ch1 n1" and "m2 = skip_changed ch2 n2"
      have m: "m1 \<le> n1" "m2 \<le> n2" "m1 < n1 \<or> m2 < n2"
        using changed skip_changed_le skip_changed_less by (auto simp: m1_def m2_def)
      let ?lines = "map ((!) cons2) [m2..<n2]"
      have dot: "\<not> list_ex (\<lambda>line. line_str_eq line ''.'') ?lines"
        using "1.prems"(1) True changed m
        by (subst (asm) gen_commands.simps)
          (auto simp: Let_def m1_def [symmetric] m2_def [symmetric] split: if_splits)
      have g: "gen_commands cons2 ch1 ch2 m1 m2 (result @ ed_chunk cons2 m1 n1 m2 n2) = Inr out"
        using "1.prems"(1) True changed m dot
        by (subst (asm) gen_commands.simps)
          (auto simp: Let_def m1_def [symmetric] m2_def [symmetric] ed_chunk_def foldl_smartlist_add
            smartlist_add_def split: if_splits)
      let ?acc = "acc @ rev (drop n1 (take j cons1)) @ rev ?lines"
      have kept: "kept cons1 ch1 0 m1 = kept cons2 ch2 0 m2"
        using "1.prems"(2) kept_skip_changed [of cons1 ch1 n1] kept_skip_changed [of cons2 ch2 n2]
        by (simp add: m1_def m2_def)
      have "drop m1 (take m1 cons1) @ rev ?acc = drop m2 cons2"
        using "1.prems"(5,7) m(2) map_nth_drop [of m2 n2 cons2] by simp
      note prems = kept order.refl _ _ "1.prems"(6) this
      have le: "m1 \<le> length cons1" "m2 \<le> length cons2" using m "1.prems"(3,4,5) by simp_all
      have res: "\<exists>script j' acc'. out = (result @ ed_chunk cons2 m1 n1 m2 n2) @ script
          \<and> apply_loop cons1 script (int m1) ?acc = Inr (int j', acc') \<and> j' \<le> length cons1
          \<and> take j' cons1 @ rev acc' = cons2"
      proof (cases "n2 - m2 = 0")
        case True
        have g': "gen_commands cons2 ch1 ch2 m1 m2 (smartlist_add result (ed_command m1 (n1 - m1) (n2 - m2))) = Inr out"
          using g True m(2) by (simp add: ed_chunk_def smartlist_add_def)
        show ?thesis
          using "1.IH"(2) [OF \<open>n1 > 0 \<or> n2 > 0\<close> changed m1_def m2_def HOL.refl HOL.refl HOL.refl HOL.refl True g' prems(1,2) le prems(5,6)]
          True m(2) by (simp add: ed_chunk_def smartlist_add_def)
      next
        case False
        have g': "gen_commands cons2 ch1 ch2 m1 m2 (smartlist_add (foldl smartlist_add
            (smartlist_add result (ed_command m1 (n1 - m1) (n2 - m2))) ?lines) ''.'') = Inr out"
          using g False m(2) by (simp add: ed_chunk_def smartlist_add_def foldl_smartlist_add)
        show ?thesis
          using "1.IH"(3) [OF \<open>n1 > 0 \<or> n2 > 0\<close> changed m1_def m2_def HOL.refl HOL.refl HOL.refl HOL.refl False dot g' prems(1,2) le prems(5,6)]
          False m(2) by (simp add: ed_chunk_def smartlist_add_def foldl_smartlist_add)
      qed
      then obtain script j' acc' where r: "out = (result @ ed_chunk cons2 m1 n1 m2 n2) @ script"
          "apply_loop cons1 script (int m1) ?acc = Inr (int j', acc')" "j' \<le> length cons1"
          "take j' cons1 @ rev acc' = cons2"
        by blast
      have "apply_loop cons1 (ed_chunk cons2 m1 n1 m2 n2 @ script) (int j) acc = Inr (int j', acc')"
        using apply_chunk [OF m "1.prems"(3,4,6,5) dot] r(2) by simp
      with r show ?thesis by (intro exI [of _ "ed_chunk cons2 m1 n1 m2 n2 @ script"]) auto
    qed
  qed
qed

lemma kept_take: "n \<le> k \<Longrightarrow> kept (take k l) ch 0 n = kept l ch 0 n"
  by (auto simp: kept_def)

lemma gen_ed_diff_Inr:
  assumes "gen_ed_diff cons1 cons2 = Inr script"
  defines "c1 \<equiv> unsigned_part cons1"
  shows "\<exists>ch1 ch2. kept c1 ch1 0 (length c1) = kept cons2 ch2 0 (length cons2)
    \<and> gen_commands cons2 ch1 ch2 (length c1) (length cons2)
        (case signatures_at cons1 of None \<Rightarrow> [] | Some k \<Rightarrow> [tor_snprintf 64 (decimal (k + 1) @ '',$d'')]) = Inr script"
  using assms(1) gen_slices_init [of c1 cons2 ROUTER_ID_ITERATOR_INIT ROUTER_ID_ITERATOR_INIT]
  by (auto simp: gen_ed_diff_def preprocess_eq smartlist_add_all_def smartlist_add_def c1_def unsigned_part_def
      split: option.splits sum.splits prod.splits)

text \<open>The trailer command removes the signature section, unless that is a single last line.\<close>

lemma apply_trailer:
  assumes "int (length cons1) \<le> INT32_MAX" "k + 1 < length cons1"
  shows "apply_loop cons1 (tor_snprintf 64 (decimal (k + 1) @ '',$d'') # script) (int (length cons1)) [] =
    apply_loop cons1 script (int k) []"
proof -
  have k: "int (k + 1) \<le> INT32_MAX" using assms by simp
  have "tor_snprintf 64 (decimal (k + 1) @ '',$d'') = decimal (k + 1) @ '',$d''"
    using decimal_short [OF k] by (simp add: tor_snprintf_def)
  moreover have "parse_ed_command (int (length cons1)) (int (length cons1)) (decimal (k + 1) @ '',$d'') =
      Inr (int (k + 1), int (length cons1), CHR ''d'')"
    using assms k by (intro parse_eof) auto
  moreover have "add_unchanged cons1 (int (length cons1)) (int (length cons1)) [] = (int (length cons1), [])"
    by (subst add_unchanged.simps) simp
  moreover have "skip_removed (int (length cons1)) (int (k + 1)) = int k"
    using assms(2) skip_removed_eq [of "int (k + 1)" "int (length cons1)"] by simp
  ultimately show ?thesis by simp
qed

lemma apply_trailer_last:
  assumes "int (length cons1) \<le> INT32_MAX" "k + 1 = length cons1"
  shows "apply_loop cons1 (tor_snprintf 64 (decimal (k + 1) @ '',$d'') # script) (int (length cons1)) [] =
    Inl BadRange"
proof -
  have k: "int (k + 1) \<le> INT32_MAX" using assms by simp
  have "tor_snprintf 64 (decimal (k + 1) @ '',$d'') = decimal (k + 1) @ '',$d''"
    using decimal_short [OF k] by (simp add: tor_snprintf_def)
  moreover have "cstr (decimal (k + 1) @ '',$d'') = decimal (k + 1) @ '',$d''"
    using decimal_no_NUL [of "k + 1"] by (intro cstr_id) (auto simp: NUL_def)
  moreover have "get_linenum (decimal (k + 1) @ '',$d'') = Some (int (k + 1), '',$d'')"
    using k by (intro get_linenum_decimal) auto
  ultimately show ?thesis
    using assms decimal_short [OF k]
    by (simp add: parse_ed_command_def parse_ed_range_def)
qed

lemma apply_ed_diff_generated:
  assumes gen: "gen_ed_diff cons1 cons2 = Inr script"
    and len: "int (length cons1) \<le> INT32_MAX"
    and sig: "signatures_at cons1 \<noteq> Some (length cons1 - 1)"
  shows "apply_ed_diff cons1 script 0 = Inr cons2"
proof -
  have fin: "apply_ed_diff cons1 script 0 = Inr cons2"
    if "apply_loop cons1 script (int (length cons1)) [] = Inr (int j, acc)" "j \<le> length cons1"
      "take j cons1 @ rev acc = cons2" for j acc
    using that add_unchanged_nat [of 0 j cons1 acc]
    by (auto simp: apply_ed_diff_def smartlist_reverse_rev)
  from gen_ed_diff_Inr [OF gen] obtain ch1 ch2 where
    k: "kept (unsigned_part cons1) ch1 0 (length (unsigned_part cons1)) = kept cons2 ch2 0 (length cons2)"
    and g: "gen_commands cons2 ch1 ch2 (length (unsigned_part cons1)) (length cons2)
        (case signatures_at cons1 of None \<Rightarrow> [] | Some k \<Rightarrow> [tor_snprintf 64 (decimal (k + 1) @ '',$d'')]) = Inr script"
    by blast
  show ?thesis
  proof (cases "signatures_at cons1")
    case None
    then have u: "unsigned_part cons1 = cons1" by (simp add: unsigned_part_def)
    have k': "kept cons1 ch1 0 (length (unsigned_part cons1)) = kept cons2 ch2 0 (length cons2)"
      using k by (simp add: u)
    from apply_gen_commands [OF g k', of "length cons1" "[]"] u None len obtain j acc where
      "apply_loop cons1 script (int (length cons1)) [] = Inr (int j, acc)" "j \<le> length cons1"
      "take j cons1 @ rev acc = cons2"
      by auto
    then show ?thesis by (rule fin)
  next
    case (Some i)
    have i: "i < length cons1" "i + 1 < length cons1" using signatures_at_less [OF Some] sig Some by auto
    then have u: "unsigned_part cons1 = take i cons1" "length (unsigned_part cons1) = i"
      using Some by (simp_all add: unsigned_part_def)
    have k': "kept cons1 ch1 0 (length (unsigned_part cons1)) = kept cons2 ch2 0 (length cons2)"
      using k u kept_take [of i i cons1 ch1] by simp
    from apply_gen_commands [OF g k', of i "[]"] u(2) i len obtain rest j acc where
      r: "script = [tor_snprintf 64 (decimal (i + 1) @ '',$d'')] @ rest"
        "apply_loop cons1 rest (int i) [] = Inr (int j, acc)" "j \<le> length cons1" "take j cons1 @ rev acc = cons2"
      using Some by auto
    have "apply_loop cons1 script (int (length cons1)) [] = Inr (int j, acc)"
      using apply_trailer [OF len i(2), of rest] r(1,2) by simp
    then show ?thesis using r(3,4) by (rule fin)
  qed
qed

text \<open>A script is a sequence of commands, with target lines from below \<open>n2\<close>.\<close>

definition ed_chunks :: "cdline list \<Rightarrow> (nat \<times> nat \<times> nat \<times> nat) list \<Rightarrow> cdline list" where
  "ed_chunks cons2 cs = concat (map (\<lambda>(m1, n1, m2, n2). ed_chunk cons2 m1 n1 m2 n2) cs)"

lemma chunks_below_mono:
  "\<forall>(p1, k1, p2, k2) \<in> set cs. k2 \<le> (m :: nat) \<Longrightarrow> m \<le> n \<Longrightarrow> \<forall>(p1, k1, p2, k2) \<in> set cs. k2 \<le> n"
  by (induction cs) auto

lemma gen_commands_chunks:
  "gen_commands c2 a b n1 n2 result = Inr out \<Longrightarrow>
     \<exists>cs. out = result @ ed_chunks c2 cs \<and> (\<forall>(p1, k1, p2, k2) \<in> set cs. k2 \<le> n2)"
proof (induction c2 a b n1 n2 result rule: gen_commands.induct)
  case (1 c2 a b n1 n2 result)
  define m1 m2 where "m1 = skip_changed a n1" and "m2 = skip_changed b n2"
  let ?lines = "map ((!) c2) [m2..<n2]"
  let ?r = "smartlist_add result (ed_command m1 (n1 - m1) (n2 - m2))"
  have le: "m2 \<le> n2" by (simp add: m2_def skip_changed_le)
  have add: ?case if out: "out = (result @ ed_chunk c2 m1 n1 m2 n2) @ ed_chunks c2 cs"
      and cs: "\<forall>(p1, k1, p2, k2) \<in> set cs. k2 \<le> m2" for cs
  proof -
    have "\<forall>(p1, k1, p2, k2) \<in> set cs. k2 \<le> n2" using chunks_below_mono [OF cs le] .
    with out show ?thesis
      by (intro exI [of _ "(m1, n1, m2, n2) # cs"]) (simp add: ed_chunks_def)
  qed
  consider "\<not> (n1 > 0 \<or> n2 > 0)" | "n1 > 0 \<or> n2 > 0" "\<not> last_changed a n1 \<and> \<not> last_changed b n2"
    | "n1 > 0 \<or> n2 > 0" "\<not> (\<not> last_changed a n1 \<and> \<not> last_changed b n2)" by blast
  then show ?case
  proof cases
    case 1
    with "1.prems" show ?thesis
      by (subst (asm) gen_commands.simps) (auto simp: ed_chunks_def intro!: exI [of _ "[]"])
  next
    case 2
    have "gen_commands c2 a b (n1 - 1) (n2 - 1) result = Inr out"
      using "1.prems" 2 by (subst (asm) gen_commands.simps) simp
    from "1.IH"(1) [OF 2 this] obtain cs where cs: "out = result @ ed_chunks c2 cs"
        "\<forall>(p1, k1, p2, k2) \<in> set cs. k2 \<le> n2 - 1"
      by blast
    have "\<forall>(p1, k1, p2, k2) \<in> set cs. k2 \<le> n2" by (rule chunks_below_mono [OF cs(2)]) simp
    with cs(1) show ?thesis by blast
  next
    case 3
    have g: "(if n2 - m2 = 0 then gen_commands c2 a b m1 m2 ?r
        else if list_ex (\<lambda>line. line_str_eq line ''.'') ?lines then Inl GenDot
        else gen_commands c2 a b m1 m2 (smartlist_add (foldl smartlist_add ?r ?lines) ''.'')) = Inr out"
      using "1.prems" 3 by (subst (asm) gen_commands.simps) (auto simp: Let_def m1_def m2_def split: if_splits)
    show ?thesis
    proof (cases "n2 - m2 = 0")
      case True
      with g have "gen_commands c2 a b m1 m2 ?r = Inr out" by simp
      from "1.IH"(2) [OF 3 m1_def m2_def HOL.refl HOL.refl HOL.refl HOL.refl True this] True le add
      show ?thesis by (auto simp: smartlist_add_def ed_chunk_def)
    next
      case False
      from g False have dot: "\<not> list_ex (\<lambda>line. line_str_eq line ''.'') ?lines"
        and "gen_commands c2 a b m1 m2 (smartlist_add (foldl smartlist_add ?r ?lines) ''.'') = Inr out"
        by (simp_all split: if_splits)
      from "1.IH"(3) [OF 3 m1_def m2_def HOL.refl HOL.refl HOL.refl HOL.refl False this] False add
      show ?thesis by (auto simp: smartlist_add_def foldl_smartlist_add ed_chunk_def)
    qed
  qed
qed

lemma apply_ed_diff_last_signature:
  assumes gen: "gen_ed_diff cons1 cons2 = Inr script"
    and len: "int (length cons1) \<le> INT32_MAX"
    and sig: "signatures_at cons1 = Some (length cons1 - 1)"
  shows "apply_ed_diff cons1 script 0 = Inl BadRange"
proof -
  have ne: "length cons1 - 1 + 1 = length cons1" using signatures_at_less [OF sig] by simp
  from gen_ed_diff_Inr [OF gen] sig obtain ch1 ch2 where
    "gen_commands cons2 ch1 ch2 (length (unsigned_part cons1)) (length cons2)
        [tor_snprintf 64 (decimal (length cons1 - 1 + 1) @ '',$d'')] = Inr script"
    by auto
  then obtain s where "script = [tor_snprintf 64 (decimal (length cons1 - 1 + 1) @ '',$d'')] @ s"
    using gen_commands_chunks by blast
  then show ?thesis using apply_trailer_last [OF len ne, of s] by (simp add: apply_ed_diff_def)
qed

subsection \<open>Property\<close>

text \<open>C7: Scripts written by gen_ed_diff are correct: no assertion of the generator or of the
  functions it calls can fail, and when it returns a script, apply_ed_diff accepts it on the base
  lines and returns exactly the target lines, whatever the two consensuses are (the signature
  section of the base must not be a single last line).\<close>

theorem gen_ed_diff_correct:
  assumes "int (length cons1) \<le> INT32_MAX" "signatures_at cons1 \<noteq> Some (length cons1 - 1)"
  shows "case gen_ed_diff cons1 cons2 of
      Inl e \<Rightarrow> e \<in> {GenUnsorted, GenTooFewCommon, GenDot}
    | Inr script \<Rightarrow> apply_ed_diff cons1 script 0 = Inr cons2"
proof (cases "gen_ed_diff cons1 cons2")
  case (Inl e)
  then show ?thesis
    using gen_ed_diff_proper [OF Inl] by (simp add: proper_def)
next
  case (Inr script)
  then show ?thesis using apply_ed_diff_generated assms by simp
qed

theorem gen_ed_diff_correct_witness:
  "apply_ed_diff [''a''] [''1c'', ''b'', ''.''] 0 = Inr [''b'']"
  using gen_ed_diff_correct [of "[''a'']" "[''b'']"]
  by (simp add: gen_ed_diff_example INT32_MAX_def signatures_at_def line_starts_with_str_def
      START_OF_SIGNATURES_SECTION_def)

end
