(* ===== verification/Consdiff_Doc.thy ===== *)
theory Consdiff_Doc
  imports Consdiff_Apply Binascii
begin

text \<open>
  Consensus diffs, last part (feature/dircommon/consdiff.c): the diff header with its two
  digests, whole documents as strings, and the checks \<open>consdiff_gen_diff\<close> and
  \<open>consdiff_apply_diff\<close> make around the ed script.  The two digest functions, which call the
  cryptographic library, are the parameters \<open>compute_digest\<close> and \<open>compute_digest_as_signed\<close>
  (\<open>None\<close> when they fail).  \<open>None\<close> as a result is the NULL of the code.
\<close>

definition ns_diff_version :: cstring where
  "ns_diff_version = ''network-status-diff-version 1''"

definition hash_token :: cstring where "hash_token = ''hash''"

definition DIGEST256_LEN :: nat where "DIGEST256_LEN = 32"
definition HEX_DIGEST256_LEN :: nat where "HEX_DIGEST256_LEN = 64"

definition consensus_digest_eq :: "bytes \<Rightarrow> bytes \<Rightarrow> bool" where
  "consensus_digest_eq d1 d2 = memeq d1 d2 DIGEST256_LEN"

definition consdiff_gen_diff ::
  "cdline list \<Rightarrow> cdline list \<Rightarrow> bytes \<Rightarrow> bytes \<Rightarrow> gen_error + cdline list" where
  "consdiff_gen_diff cons1 cons2 digests1 digests2 =
     (case gen_ed_diff cons1 cons2 of
        Inl e \<Rightarrow> Inl e
      | Inr ed_diff \<Rightarrow>
          (case apply_ed_diff cons1 ed_diff 0 of
             Inl e \<Rightarrow> Inl GenNotApplicable
           | Inr ed_cons2 \<Rightarrow>
               if \<not> (length cons2 = length ed_cons2 \<and> list_all2 lines_eq cons2 ed_cons2) then Inl GenMismatch
               else (case (base16_encode (HEX_DIGEST256_LEN + 1) (take DIGEST256_LEN digests1),
                           base16_encode (HEX_DIGEST256_LEN + 1) (take DIGEST256_LEN digests2)) of
                   (Some hash1, Some hash2) \<Rightarrow>
                     let result = smartlist_add [] (tor_snprintf 160 ns_diff_version);
                         result = smartlist_add result (tor_snprintf 160
                           (hash_token @ '' '' @ cstr hash1 @ '' '' @ cstr hash2))
                     in Inr (smartlist_add_all result ed_diff)
                 | _ \<Rightarrow> Inl GenAssert)))"

definition consdiff_get_digests :: "cdline list \<Rightarrow> (bytes \<times> bytes) option" where
  "consdiff_get_digests diff =
     (if length diff < 2 then None
      else if \<not> line_str_eq (diff ! 0) ns_diff_version then None
      else case smartlist_split_string [] (cstr (diff ! 1)) (Some '' '')
             \<lparr>SPLIT_SKIP_SPACE = False, SPLIT_IGNORE_BLANK = False, SPLIT_STRIP_SPACE = False\<rparr> 4 of
        None \<Rightarrow> None
      | Some (hash_words, n) \<Rightarrow>
          if length hash_words \<noteq> 3 \<or> hash_words ! 0 \<noteq> hash_token then None
          else
            let hex1 = hash_words ! 1; hex2 = hash_words ! 2 in
            if length hex1 \<noteq> HEX_DIGEST256_LEN \<or> length hex2 \<noteq> HEX_DIGEST256_LEN then None
            else if fst (base16_decode DIGEST256_LEN hex1) \<noteq> int DIGEST256_LEN
                    \<or> fst (base16_decode DIGEST256_LEN hex2) \<noteq> int DIGEST256_LEN then None
            else Some (snd (base16_decode DIGEST256_LEN hex1), snd (base16_decode DIGEST256_LEN hex2)))"

text \<open>The string without its terminating NUL.\<close>

fun consensus_join_lines :: "cdline list \<Rightarrow> cstring" where
  "consensus_join_lines [] = []"
| "consensus_join_lines (line # inp) = line @ CHR 0x0A # consensus_join_lines inp"

definition consdiff_apply_diff ::
  "(string \<Rightarrow> bytes option) \<Rightarrow> cdline list \<Rightarrow> cdline list \<Rightarrow> bytes \<Rightarrow> cstring option" where
  "consdiff_apply_diff compute_digest cons1 diff digests1 =
     (case consdiff_get_digests diff of
        None \<Rightarrow> None
      | Some (e_cons1_hash, e_cons2_hash) \<Rightarrow>
          if \<not> consensus_digest_eq digests1 e_cons1_hash then None
          else case apply_ed_diff cons1 diff 2 of
            Inl e \<Rightarrow> None
          | Inr cons2 \<Rightarrow>
              let cons2_str = consensus_join_lines cons2 in
              (case compute_digest (cstr cons2_str) of
                 None \<Rightarrow> None
               | Some cons2_digests \<Rightarrow>
                   if \<not> consensus_digest_eq cons2_digests e_cons2_hash then None
                   else Some cons2_str))"

definition CONSENSUS_LINE_MAX_LEN :: nat where "CONSENSUS_LINE_MAX_LEN = 2 ^ 20"

function consensus_split_lines :: "cdline list \<Rightarrow> string \<Rightarrow> cdline list option" where
  "consensus_split_lines out s =
     (if s = [] then Some out
      else case memchr s (CHR 0x0A) of
        None \<Rightarrow> None
      | Some eol \<Rightarrow>
          if eol > CONSENSUS_LINE_MAX_LEN then None
          else consensus_split_lines (smartlist_add out (take eol s)) (drop (eol + 1) s))"
  by pat_completeness auto
termination
  by (relation "measure (\<lambda>(out, s). length s)") auto

declare consensus_split_lines.simps [simp del]

definition consensus_diff_generate ::
  "(string \<Rightarrow> bytes option) \<Rightarrow> (string \<Rightarrow> bytes option) \<Rightarrow> string \<Rightarrow> string \<Rightarrow> cstring option" where
  "consensus_diff_generate compute_digest compute_digest_as_signed cons1 cons2 =
     (case (compute_digest_as_signed cons1, compute_digest cons2) of
        (Some d1, Some d2) \<Rightarrow>
          (case consensus_split_lines [] cons1 of
             None \<Rightarrow> None
           | Some lines1 \<Rightarrow>
               (case consensus_split_lines [] cons2 of
                  None \<Rightarrow> None
                | Some lines2 \<Rightarrow>
                    (case consdiff_gen_diff lines1 lines2 d1 d2 of
                       Inl e \<Rightarrow> None
                     | Inr result_lines \<Rightarrow> Some (consensus_join_lines result_lines))))
      | _ \<Rightarrow> None)"

definition consensus_diff_apply ::
  "(string \<Rightarrow> bytes option) \<Rightarrow> (string \<Rightarrow> bytes option) \<Rightarrow> string \<Rightarrow> string \<Rightarrow> cstring option" where
  "consensus_diff_apply compute_digest compute_digest_as_signed consensus diff =
     (case compute_digest_as_signed consensus of
        None \<Rightarrow> None
      | Some d1 \<Rightarrow>
          (case consensus_split_lines [] consensus of
             None \<Rightarrow> None
           | Some lines1 \<Rightarrow>
               (case consensus_split_lines [] diff of
                  None \<Rightarrow> None
                | Some lines2 \<Rightarrow> consdiff_apply_diff compute_digest lines1 lines2 d1)))"

definition looks_like_a_consensus_diff :: "string \<Rightarrow> bool" where
  "looks_like_a_consensus_diff document \<longleftrightarrow>
     length document \<ge> length ns_diff_version \<and> memeq document ns_diff_version (length ns_diff_version)"

subsection \<open>Splitting and joining documents\<close>

definition good_line :: "cdline \<Rightarrow> bool" where
  "good_line line \<longleftrightarrow> CHR 0x0A \<notin> set line \<and> length line \<le> CONSENSUS_LINE_MAX_LEN"

lemma split_join_lines:
  "(\<And>x. x \<in> set ls \<Longrightarrow> good_line x) \<Longrightarrow> consensus_split_lines out (consensus_join_lines ls) = Some (out @ ls)"
proof (induction ls arbitrary: out)
  case Nil
  then show ?case by (subst consensus_split_lines.simps) simp
next
  case (Cons x ls)
  then have x: "CHR 0x0A \<notin> set x" "length x \<le> CONSENSUS_LINE_MAX_LEN" by (simp_all add: good_line_def)
  have "consensus_split_lines (out @ [x]) (consensus_join_lines ls) = Some ((out @ [x]) @ ls)"
    using Cons by simp
  with x show ?case
    by (subst consensus_split_lines.simps) (simp add: memchr_append smartlist_add_def)
qed

lemma join_split_lines:
  "consensus_split_lines out s = Some ls \<Longrightarrow>
     \<exists>ls'. ls = out @ ls' \<and> consensus_join_lines ls' = s \<and> (\<forall>x \<in> set ls'. good_line x)"
proof (induction out s rule: consensus_split_lines.induct)
  case (1 out s)
  show ?case
  proof (cases "s = []")
    case True
    with "1.prems" show ?thesis by (subst (asm) consensus_split_lines.simps) simp
  next
    case False
    from "1.prems" False obtain k where k: "memchr s (CHR 0x0A) = Some k" "k \<le> CONSENSUS_LINE_MAX_LEN"
        "consensus_split_lines (smartlist_add out (take k s)) (drop (k + 1) s) = Some ls"
      by (subst (asm) consensus_split_lines.simps) (auto split: option.splits if_splits)
    then obtain ls' where ls': "ls = smartlist_add out (take k s) @ ls'"
        "consensus_join_lines ls' = drop (k + 1) s" "\<forall>x \<in> set ls'. good_line x"
      using "1.IH" [OF False k(1)] by auto
    from memchr_Some [OF k(1)] have m: "k < length s" "s ! k = CHR 0x0A" "CHR 0x0A \<notin> set (take k s)" by auto
    then have "s = take k s @ CHR 0x0A # drop (k + 1) s"
      by (metis Suc_eq_plus1 id_take_nth_drop)
    then have "consensus_join_lines (take k s # ls') = s" using ls'(2) by simp
    moreover have "good_line (take k s)" using m k(2) by (auto simp: good_line_def)
    ultimately show ?thesis using ls' by (intro exI [of _ "take k s # ls'"]) (simp add: smartlist_add_def)
  qed
qed

subsection \<open>The header\<close>

lemma hex_chars: "c \<in> set (base16_encode_loop src) \<Longrightarrow> c \<in> set ''0123456789ABCDEF''"
proof (induction src)
  case (Cons b src)
  have "hex_digit v \<in> set ''0123456789ABCDEF''" if "v < 16" for v
    using that unfolding hex_digit_def by (intro nth_mem) simp
  moreover have "byte_nat b div 16 < 16" using byte_nat_less [of b] by linarith
  ultimately have "hex_digit (byte_nat b div 16) \<in> set ''0123456789ABCDEF''"
      "hex_digit (byte_nat b mod 16) \<in> set ''0123456789ABCDEF''" by simp_all
  moreover have "c = hex_digit (byte_nat b div 16) \<or> c = hex_digit (byte_nat b mod 16)
      \<or> c \<in> set (base16_encode_loop src)" using Cons.prems by simp
  ultimately show ?case using Cons.IH by metis
qed simp

lemma hex_clean:
  "NUL \<notin> set (base16_encode_loop src)" "CHR '' '' \<notin> set (base16_encode_loop src)"
  "CHR 0x0A \<notin> set (base16_encode_loop src)"
  using hex_chars [of _ src] by (auto simp: NUL_def dest!: hex_chars)

definition hash_line :: "bytes \<Rightarrow> bytes \<Rightarrow> cdline" where
  "hash_line d1 d2 = join_loop [hash_token, base16_encode_loop d1, base16_encode_loop d2] '' ''"

lemma base16_encode_digest:
  assumes "length d = DIGEST256_LEN"
  shows "base16_encode (HEX_DIGEST256_LEN + 1) (take DIGEST256_LEN d) = Some (base16_encode_loop d @ [NUL])"
  using assms
  by (simp add: base16_encode_def DIGEST256_LEN_def HEX_DIGEST256_LEN_def SIZE_T_CEILING_def fill_buf_def)

lemma cstr_hex: "cstr (base16_encode_loop d @ [NUL]) = base16_encode_loop d"
proof -
  have "takeWhile (\<lambda>c. c \<noteq> NUL) (base16_encode_loop d @ [NUL]) = base16_encode_loop d"
    using hex_clean(1) [of d] by (intro takeWhile_all_stop) auto
  then show ?thesis by (simp add: cstr_def)
qed

lemma consdiff_gen_diff_eq:
  assumes "length d1 = DIGEST256_LEN" "length d2 = DIGEST256_LEN"
  shows "consdiff_gen_diff cons1 cons2 d1 d2 =
    (case gen_ed_diff cons1 cons2 of
       Inl e \<Rightarrow> Inl e
     | Inr ed_diff \<Rightarrow>
         (case apply_ed_diff cons1 ed_diff 0 of
            Inl e \<Rightarrow> Inl GenNotApplicable
          | Inr c \<Rightarrow> if c = cons2 then Inr ([ns_diff_version, hash_line d1 d2] @ ed_diff) else Inl GenMismatch))"
proof -
  have eq: "length xs = length ys \<and> list_all2 lines_eq xs ys \<longleftrightarrow> ys = xs" for xs ys
    using list_all2_eq [of xs ys] by (auto simp: lines_eq_def memeq_def list_all2_conv_all_nth)
  have "length (hash_line d1 d2) = 134"
    using assms by (simp add: hash_line_def hash_token_def DIGEST256_LEN_def)
  then have "tor_snprintf 160 (hash_token @ '' '' @ base16_encode_loop d1 @ '' '' @ base16_encode_loop d2)
      = hash_line d1 d2"
    by (simp add: tor_snprintf_def hash_line_def)
  moreover have "tor_snprintf 160 ns_diff_version = ns_diff_version"
    by (simp add: tor_snprintf_def ns_diff_version_def)
  ultimately show ?thesis
    by (simp add: consdiff_gen_diff_def eq base16_encode_digest [OF assms(1), simplified]
        base16_encode_digest [OF assms(2), simplified]
        cstr_hex smartlist_add_def smartlist_add_all_def Let_def split: sum.split)
qed

lemma consdiff_gen_diff_Inr:
  assumes "length d1 = DIGEST256_LEN" "length d2 = DIGEST256_LEN"
    and "consdiff_gen_diff cons1 cons2 d1 d2 = Inr result"
  shows "\<exists>ed_diff. gen_ed_diff cons1 cons2 = Inr ed_diff \<and> apply_ed_diff cons1 ed_diff 0 = Inr cons2
    \<and> result = [ns_diff_version, hash_line d1 d2] @ ed_diff"
  using assms(3) by (auto simp: consdiff_gen_diff_eq [OF assms(1,2)] split: sum.splits if_splits)

lemma base16_decode_hex:
  "length d = DIGEST256_LEN \<Longrightarrow> base16_decode DIGEST256_LEN (base16_encode_loop d) = (int DIGEST256_LEN, d)"
  by (simp add: base16_decode_def base16_decode_encode_loop DIGEST256_LEN_def C_INT_MAX_def)

lemma consdiff_get_digests_header:
  assumes "length d1 = DIGEST256_LEN" "length d2 = DIGEST256_LEN"
  shows "consdiff_get_digests ([ns_diff_version, hash_line d1 d2] @ ed_diff) = Some (d1, d2)"
proof -
  let ?ws = "[hash_token, base16_encode_loop d1, base16_encode_loop d2]"
  have "NUL \<notin> set (hash_line d1 d2)"
    using hex_clean(1) by (auto simp: hash_line_def hash_token_def NUL_def)
  then have "cstr (hash_line d1 d2) = join_loop ?ws '' ''" by (simp add: cstr_id hash_line_def)
  moreover have "split_loop (Some [CHR '' ''])
      \<lparr>SPLIT_SKIP_SPACE = False, SPLIT_IGNORE_BLANK = False, SPLIT_STRIP_SPACE = False\<rparr> 4
      (join_loop ?ws [CHR '' '']) 0 = Some ?ws"
    using hex_clean(2) by (intro split_loop_join) (auto simp: hash_token_def)
  ultimately have "smartlist_split_string [] (cstr (hash_line d1 d2)) (Some '' '')
      \<lparr>SPLIT_SKIP_SPACE = False, SPLIT_IGNORE_BLANK = False, SPLIT_STRIP_SPACE = False\<rparr> 4 = Some (?ws, 3)"
    by (simp add: smartlist_split_string_def)
  with assms show ?thesis
    by (simp add: consdiff_get_digests_def line_str_eq_def lines_eq_def memeq_def Let_def
        base16_decode_hex [unfolded DIGEST256_LEN_def] HEX_DIGEST256_LEN_def DIGEST256_LEN_def)
qed

subsection \<open>The lines of a script\<close>

lemma ed_command_good: "good_line (ed_command m deleted added)"
proof -
  have "CHR 0x0A \<notin> set (decimal n)" for n
    using TOR_ISDIGIT_decimal [of "CHR 0x0A" n] by (auto simp: TOR_ISDIGIT_iff byte_between_def)
  moreover have "length (ed_command m deleted added) \<le> 127" by (simp add: ed_command_def tor_snprintf_def)
  ultimately show ?thesis
    by (auto simp: good_line_def CONSENSUS_LINE_MAX_LEN_def ed_command_def tor_snprintf_def
        dest!: in_set_takeD split: if_splits)
qed

lemma gen_ed_diff_good:
  assumes "gen_ed_diff cons1 cons2 = Inr script" "\<And>x. x \<in> set cons2 \<Longrightarrow> good_line x" "x \<in> set script"
  shows "good_line x"
proof -
  have "CHR 0x0A \<notin> set (decimal n)" for n
    using TOR_ISDIGIT_decimal [of "CHR 0x0A" n] by (auto simp: TOR_ISDIGIT_iff byte_between_def)
  then have trailer: "good_line (tor_snprintf 64 (decimal n @ '',$d''))" for n
    by (auto simp: good_line_def tor_snprintf_def CONSENSUS_LINE_MAX_LEN_def dest!: in_set_takeD)
  obtain cs where cs: "script = (case signatures_at cons1 of None \<Rightarrow> []
        | Some k \<Rightarrow> [tor_snprintf 64 (decimal (k + 1) @ '',$d'')]) @ ed_chunks cons2 cs"
      "\<forall>(p1, k1, p2, k2) \<in> set cs. k2 \<le> length cons2"
    using gen_ed_diff_Inr [OF assms(1)] gen_commands_chunks by blast
  have "good_line y" if "y \<in> set (ed_chunk cons2 m1 n1 m2 n2)" "n2 \<le> length cons2" for y m1 n1 m2 n2
    using that ed_command_good assms(2) by (auto simp: ed_chunk_def good_line_def CONSENSUS_LINE_MAX_LEN_def split: if_splits)
  then have "good_line y" if "y \<in> set (ed_chunks cons2 cs)" for y
    using that cs(2) by (fastforce simp: ed_chunks_def)
  with assms(3) cs(1) trailer show ?thesis by (auto split: option.splits)
qed

lemma header_good:
  assumes "length d1 = DIGEST256_LEN" "length d2 = DIGEST256_LEN"
  shows "good_line ns_diff_version" "good_line (hash_line d1 d2)"
  using assms hex_clean(3)
  by (auto simp: good_line_def ns_diff_version_def hash_line_def hash_token_def CONSENSUS_LINE_MAX_LEN_def
      DIGEST256_LEN_def)

lemma consdiff_apply_generated:
  assumes "length d1 = DIGEST256_LEN" "length d2 = DIGEST256_LEN"
    and "consdiff_gen_diff lines1 lines2 d1 d2 = Inr diff"
    and "consensus_join_lines lines2 = c2" "NUL \<notin> set c2" "compute_digest c2 = Some d2"
  shows "consdiff_apply_diff compute_digest lines1 diff d1 = Some c2"
proof -
  obtain ed where ed: "apply_ed_diff lines1 ed 0 = Inr lines2" "diff = [ns_diff_version, hash_line d1 d2] @ ed"
    using consdiff_gen_diff_Inr [OF assms(1-3)] by blast
  have "apply_ed_diff lines1 diff 2 = Inr lines2"
    using ed by (simp add: apply_ed_diff_def)
  moreover have "consdiff_get_digests diff = Some (d1, d2)"
    using consdiff_get_digests_header [OF assms(1,2)] ed(2) by simp
  ultimately show ?thesis
    using assms(4-6) by (simp add: consdiff_apply_diff_def consensus_digest_eq_def memeq_def cstr_id)
qed

subsection \<open>Properties\<close>

text \<open>C5: A generated consensus diff applies: whenever consensus_diff_generate returns a diff from
  one consensus to another (one without NUL bytes), consensus_diff_apply turns the first consensus
  and that diff into exactly the second consensus, and looks_like_a_consensus_diff recognises the
  diff.  The digest functions are assumed only to return 32 bytes.\<close>

theorem consensus_diff_roundtrip:
  assumes gen: "consensus_diff_generate compute_digest compute_as_signed c1 c2 = Some diff"
    and nul: "NUL \<notin> set c2"
    and digests: "\<And>s d. compute_digest s = Some d \<Longrightarrow> length d = 32"
      "\<And>s d. compute_as_signed s = Some d \<Longrightarrow> length d = 32"
  shows "consensus_diff_apply compute_digest compute_as_signed c1 diff = Some c2
    \<and> looks_like_a_consensus_diff diff"
proof -
  from gen obtain d1 d2 lines1 lines2 out where
    d: "compute_as_signed c1 = Some d1" "compute_digest c2 = Some d2"
    and l: "consensus_split_lines [] c1 = Some lines1" "consensus_split_lines [] c2 = Some lines2"
    and out: "consdiff_gen_diff lines1 lines2 d1 d2 = Inr out" "diff = consensus_join_lines out"
    by (auto simp: consensus_diff_generate_def split: option.splits sum.splits)
  have len: "length d1 = DIGEST256_LEN" "length d2 = DIGEST256_LEN"
    using d digests by (simp_all add: DIGEST256_LEN_def)
  from join_split_lines [OF l(2)] have c2: "consensus_join_lines lines2 = c2" "\<And>x. x \<in> set lines2 \<Longrightarrow> good_line x"
    by auto
  obtain ed where ed: "gen_ed_diff lines1 lines2 = Inr ed" "out = [ns_diff_version, hash_line d1 d2] @ ed"
    using consdiff_gen_diff_Inr [OF len out(1)] by blast
  have "good_line x" if "x \<in> set out" for x
    using that ed(2) header_good [OF len] gen_ed_diff_good [OF ed(1) c2(2)] by auto
  then have split: "consensus_split_lines [] diff = Some out"
    using split_join_lines [of out "[]"] out(2) by simp
  have "consdiff_apply_diff compute_digest lines1 out d1 = Some c2"
    using consdiff_apply_generated [OF len out(1) c2(1) nul, of compute_digest] d(2) by simp
  moreover have "looks_like_a_consensus_diff diff"
    using out(2) ed(2) by (simp add: looks_like_a_consensus_diff_def memeq_def)
  ultimately show ?thesis using d(1) l(1) split by (simp add: consensus_diff_apply_def)
qed

theorem consensus_diff_roundtrip_witness:
  "let sha = (\<lambda>s. Some (replicate 32 0)); a = ''a'' @ [CHR 0x0A]; b = ''b'' @ [CHR 0x0A] in
   \<exists>diff. consensus_diff_generate sha sha a b = Some diff \<and> consensus_diff_apply sha sha a diff = Some b"
proof -
  let ?sha = "\<lambda>s. Some (replicate 32 0) :: bytes option"
  have l: "consensus_split_lines [] (x # [CHR 0x0A]) = Some [[x]]" if "x \<noteq> CHR 0x0A" for x
    using that split_join_lines [of "[[x]]" "[]"] by (simp add: good_line_def CONSENSUS_LINE_MAX_LEN_def)
  have sig: "signatures_at [''a''] = None"
    by (simp add: signatures_at_def line_starts_with_str_def START_OF_SIGNATURES_SECTION_def)
  have "apply_ed_diff [''a''] [''1c'', ''b'', ''.''] 0 = Inr [''b'']"
    using apply_ed_diff_generated [OF gen_ed_diff_example] sig by (simp add: INT32_MAX_def)
  then have "\<exists>diff. consensus_diff_generate ?sha ?sha (''a'' @ [CHR 0x0A]) (''b'' @ [CHR 0x0A]) = Some diff"
    by (simp add: consensus_diff_generate_def l consdiff_gen_diff_eq DIGEST256_LEN_def gen_ed_diff_example)
  then obtain diff where "consensus_diff_generate ?sha ?sha (''a'' @ [CHR 0x0A]) (''b'' @ [CHR 0x0A]) = Some diff" ..
  with consensus_diff_roundtrip [OF this] show ?thesis by (auto simp: NUL_def)
qed

text \<open>C6: What consensus_diff_apply accepts is what the diff's header vouches for: when it returns
  a consensus, the diff names two digests of which the first is the digest-as-signed of the base
  consensus and the second the digest of the result, so a diff for a base with another digest, or
  whose result has another digest than it promises, is always rejected.  Only equality of digests is
  claimed: that it means equality of documents rests on the hash functions, which are parameters.\<close>

theorem consensus_diff_apply_authentic:
  assumes "consensus_diff_apply compute_digest compute_as_signed c1 diff = Some c2"
  shows "\<exists>lines h1 h2 d1 d2. consensus_split_lines [] diff = Some lines
    \<and> consdiff_get_digests lines = Some (h1, h2)
    \<and> compute_as_signed c1 = Some d1 \<and> take 32 d1 = take 32 h1
    \<and> compute_digest (cstr c2) = Some d2 \<and> take 32 d2 = take 32 h2"
  using assms
  by (auto simp: consensus_diff_apply_def consdiff_apply_diff_def consensus_digest_eq_def memeq_def
      DIGEST256_LEN_def Let_def split: option.splits sum.splits if_splits)

theorem consensus_diff_apply_authentic_witness:
  "let sha = (\<lambda>s. Some (replicate 32 0)); a = ''a'' @ [CHR 0x0A];
       diff = consensus_join_lines [ns_diff_version, hash_line (replicate 32 0) (replicate 32 0)] in
   \<exists>lines h1 h2. consensus_split_lines [] diff = Some lines \<and> consdiff_get_digests lines = Some (h1, h2)"
proof -
  let ?sha = "\<lambda>s. Some (replicate 32 0) :: bytes option" and ?z = "replicate 32 0 :: bytes"
  have z: "length ?z = DIGEST256_LEN" by (simp add: DIGEST256_LEN_def)
  have l: "consensus_split_lines [] (''a'' @ [CHR 0x0A]) = Some [''a'']"
    using split_join_lines [of "[''a'']" "[]"] by (simp add: good_line_def CONSENSUS_LINE_MAX_LEN_def)
  have d: "consensus_split_lines [] (consensus_join_lines [ns_diff_version, hash_line ?z ?z])
      = Some [ns_diff_version, hash_line ?z ?z]"
    using split_join_lines [of "[ns_diff_version, hash_line ?z ?z]" "[]"] header_good [OF z z] by auto
  have "apply_ed_diff [''a''] [ns_diff_version, hash_line ?z ?z] 2 = Inr [''a'']"
    by (simp add: apply_ed_diff_def add_unchanged.simps smartlist_add_def smartlist_reverse_rev)
  then have "consensus_diff_apply ?sha ?sha (''a'' @ [CHR 0x0A])
      (consensus_join_lines [ns_diff_version, hash_line ?z ?z]) = Some (''a'' @ [CHR 0x0A])"
    using consdiff_get_digests_header [OF z z, of "[]"] l d
    by (simp add: consensus_diff_apply_def consdiff_apply_diff_def consensus_digest_eq_def memeq_def)
  from consensus_diff_apply_authentic [OF this] show ?thesis by auto
qed

text \<open>Splitting a document into lines and joining them again is the identity: joined
  lines split back into the same lines
  exactly when none contains a newline or is longer than CONSENSUS_LINE_MAX_LEN.\<close>

theorem consensus_lines_roundtrip:
  "consensus_split_lines [] (consensus_join_lines ls) = Some ls
     \<longleftrightarrow> list_all (\<lambda>x. CHR 0x0A \<notin> set x \<and> length x \<le> CONSENSUS_LINE_MAX_LEN) ls"
proof
  assume "consensus_split_lines [] (consensus_join_lines ls) = Some ls"
  from join_split_lines [OF this]
  show "list_all (\<lambda>x. CHR 0x0A \<notin> set x \<and> length x \<le> CONSENSUS_LINE_MAX_LEN) ls"
    by (auto simp: good_line_def list_all_iff)
next
  assume "list_all (\<lambda>x. CHR 0x0A \<notin> set x \<and> length x \<le> CONSENSUS_LINE_MAX_LEN) ls"
  then show "consensus_split_lines [] (consensus_join_lines ls) = Some ls"
    using split_join_lines [of ls "[]"] by (simp add: good_line_def list_all_iff)
qed

text \<open>C35: The branches of consdiff_gen_diff marked impossible.  Testing the generated script never
  yields a consensus other than the target, and no assertion fails; but the script does fail to
  apply, so that no diff can be generated at all, for a base whose first directory-signature line
  is its last line (the delete command then reads N,$d with N the number of lines, which
  apply_ed_diff rejects as an empty range).\<close>

theorem consdiff_gen_diff_impossible_branches:
  assumes "length d1 = 32" "length d2 = 32" "int (length cons1) \<le> INT32_MAX"
  shows "consdiff_gen_diff cons1 cons2 d1 d2 \<notin> {Inl GenAssert, Inl GenMismatch}
    \<and> (consdiff_gen_diff cons1 cons2 d1 d2 = Inl GenNotApplicable \<longleftrightarrow>
         signatures_at cons1 = Some (length cons1 - 1) \<and> (\<exists>script. gen_ed_diff cons1 cons2 = Inr script))
    \<and> (signatures_at cons1 = Some (length cons1 - 1) \<longrightarrow>
         (\<exists>e. consdiff_gen_diff cons1 cons2 d1 d2 = Inl e))"
proof -
  note eq = consdiff_gen_diff_eq [OF assms(1,2) [folded DIGEST256_LEN_def], of cons1 cons2]
  have own: "e \<noteq> GenAssert \<and> e \<noteq> GenMismatch \<and> e \<noteq> GenNotApplicable" if "gen_ed_diff cons1 cons2 = Inl e" for e
    using gen_ed_diff_proper [OF that] by (auto simp: proper_def)
  show ?thesis
  proof (cases "signatures_at cons1 = Some (length cons1 - 1)")
    case True
    then show ?thesis
      using eq own apply_ed_diff_last_signature [OF _ assms(3) True] by (auto split: sum.splits)
  next
    case False
    then show ?thesis
      using eq own apply_ed_diff_generated [OF _ assms(3) False] by (auto split: sum.splits)
  qed
qed

theorem consdiff_gen_diff_impossible_branches_witness:
  "\<exists>e. consdiff_gen_diff [''directory-signature x''] [''b''] (replicate 32 0) (replicate 32 0) = Inl e"
  using consdiff_gen_diff_impossible_branches [of "replicate 32 0" "replicate 32 0"
      "[''directory-signature x'']" "[''b'']"]
  by (simp add: INT32_MAX_def signatures_at_def line_starts_with_str_def memeq_def START_OF_SIGNATURES_SECTION_def)

end
