(* ===== verification/Protover.thy ===== *)
theory Protover
  imports Parse_Int Smartlist "HOL-Library.List_Lexorder" "HOL-Library.Char_ord"
begin

text \<open>
  Subprotocol versions (core/or/protover.c): parsing and encoding protocol lists, support tests
  and the authorities' vote.  A position in a C string is the rest of the string, an end pointer
  its distance from there.  A protocol entry's versions are the bits of a 64-bit word.  Operations
  that the code leaves undefined (counting the trailing zeros of 0, shifting by 64 or more) are
  \<open>None\<close>; a parser's \<open>None\<close> is its error return.
\<close>

unbundle bit_operations_syntax

datatype protocol_type =
  PRT_LINK | PRT_LINKAUTH | PRT_RELAY | PRT_DIRCACHE | PRT_HSDIR | PRT_HSINTRO | PRT_HSREND
| PRT_DESC | PRT_MICRODESC | PRT_CONS | PRT_PADDING | PRT_FLOWCTRL | PRT_CONFLUX

definition PROTOCOL_NAMES :: "(protocol_type \<times> cstring) list" where
  "PROTOCOL_NAMES =
     [(PRT_LINK, ''Link''), (PRT_LINKAUTH, ''LinkAuth''), (PRT_RELAY, ''Relay''),
      (PRT_DIRCACHE, ''DirCache''), (PRT_HSDIR, ''HSDir''), (PRT_HSINTRO, ''HSIntro''),
      (PRT_HSREND, ''HSRend''), (PRT_DESC, ''Desc''), (PRT_MICRODESC, ''Microdesc''),
      (PRT_PADDING, ''Padding''), (PRT_CONS, ''Cons''), (PRT_FLOWCTRL, ''FlowCtrl''),
      (PRT_CONFLUX, ''Conflux'')]"

definition MAX_PROTOCOL_NAME_LENGTH :: nat where "MAX_PROTOCOL_NAME_LENGTH = 100"
definition MAX_PROTOCOL_VERSION :: int where "MAX_PROTOCOL_VERSION = 63"

definition protocol_type_to_str :: "protocol_type \<Rightarrow> cstring" where
  "protocol_type_to_str pr = (case map_of PROTOCOL_NAMES pr of Some name \<Rightarrow> name | None \<Rightarrow> ''UNKNOWN'')"

record proto_entry =
  name :: cstring
  bitmask :: "64 word"

text \<open>The two numbers, each read up to its end; \<open>n\<close> is \<open>end_of_range - s\<close>.\<close>

definition parse_version_range :: "cstring \<Rightarrow> nat \<Rightarrow> (nat \<times> nat) option" where
  "parse_version_range s n =
     (if \<not> TOR_ISDIGIT (cur s) then None
      else let r = tor_parse_ulong s 10 0 MAX_PROTOCOL_VERSION True; low = nat (pr_val r) in
        if \<not> pr_ok r then None
        else case pr_next r of
          None \<Rightarrow> None
        | Some next \<Rightarrow>
            let k = length s - length next in
            if k > n then None
            else if k = n then Some (low, low)
            else if cur next \<noteq> CHR ''-'' then None
            else
              let s = tl next; n = n - k - 1 in
              if \<not> TOR_ISDIGIT (cur s) then None
              else let r = tor_parse_ulong s 10 0 MAX_PROTOCOL_VERSION True; high = nat (pr_val r) in
                if \<not> pr_ok r then None
                else case pr_next r of
                  None \<Rightarrow> None
                | Some next \<Rightarrow>
                    if length s - length next \<noteq> n then None
                    else if low > high then None
                    else Some (low, high))"

definition is_valid_keyword :: "cstring \<Rightarrow> nat \<Rightarrow> bool" where
  "is_valid_keyword s n = list_all (\<lambda>c. TOR_ISALNUM c \<or> c = CHR ''-'') (take n s)"

definition BIT :: "nat \<Rightarrow> 64 word" where
  "BIT x = push_bit x 1"

text \<open>The shifts, and when C defines them.\<close>

definition bitmask_for_range :: "nat \<Rightarrow> nat \<Rightarrow> 64 word" where
  "bitmask_for_range low high = push_bit low (drop_bit (63 - high + low) (push_bit (63 - high) (NOT 0)))"

definition bitmask_defined :: "nat \<Rightarrow> nat \<Rightarrow> bool" where
  "bitmask_defined low high \<longleftrightarrow> high \<le> 63 \<and> 63 - high + low \<le> 63"

lemma parse_version_range_digit: "parse_version_range s n = Some r \<Longrightarrow> TOR_ISDIGIT (cur s)"
  by (simp add: parse_version_range_def split: if_splits)

lemma memchr_zero: "memchr xs c = Some 0 \<Longrightarrow> \<exists>ys. xs = c # ys"
  by (cases xs) (auto split: if_splits)

text \<open>The loop over the ranges, to the end \<open>n\<close> of the entry.\<close>

function parse_ranges :: "cstring \<Rightarrow> nat \<Rightarrow> 64 word \<Rightarrow> 64 word option" where
  "parse_ranges s n msk =
     (if n = 0 then Some msk
      else
        let comma = (case memchr (take n s) (CHR '','') of Some k \<Rightarrow> k | None \<Rightarrow> n) in
        case parse_version_range s comma of
          None \<Rightarrow> None
        | Some (low, high) \<Rightarrow>
            let msk = msk OR bitmask_for_range low high; s = drop comma s; n = n - comma in
            if n > 1 then parse_ranges (tl s) (n - 1) msk else parse_ranges s n msk)"
  by pat_completeness auto
termination
proof (relation "measure (\<lambda>(s, n, msk). n)", goal_cases)
  case (3 s n msk comma low high)
  have "comma \<noteq> 0"
  proof
    assume "comma = 0"
    with 3 obtain ys where "take n s = CHR '','' # ys"
      by (auto dest!: memchr_zero split: option.splits)
    then have "cur s = CHR '',''" by (cases s; cases n) auto
    with 3 parse_version_range_digit [of s comma] show False by (auto simp: TOR_ISDIGIT_iff byte_between_def)
  qed
  with 3 show ?case by simp
qed auto

declare parse_ranges.simps [simp del]

definition parse_single_entry :: "cstring \<Rightarrow> nat \<Rightarrow> proto_entry option" where
  "parse_single_entry s n =
     (case memchr (take n s) (CHR ''='') of
        None \<Rightarrow> None
      | Some equals \<Rightarrow>
          if equals = 0 then None
          else if equals > MAX_PROTOCOL_NAME_LENGTH then None
          else if \<not> is_valid_keyword s equals then None
          else map_option (\<lambda>msk. \<lparr>name = take equals s, bitmask = msk\<rparr>)
                 (parse_ranges (drop (equals + 1) s) (n - (equals + 1)) 0))"

lemma parse_single_entry_nonempty: "parse_single_entry s n = Some ent \<Longrightarrow> 0 < n"
  by (cases n) (simp_all add: parse_single_entry_def)

function parse_entries :: "cstring \<Rightarrow> proto_entry list \<Rightarrow> proto_entry list option" where
  "parse_entries s entries =
     (if s = [] then Some entries
      else
        let end_of_entry = (case memchr s (CHR '' '') of Some k \<Rightarrow> k | None \<Rightarrow> length s) in
        case parse_single_entry s end_of_entry of
          None \<Rightarrow> None
        | Some entry \<Rightarrow>
            parse_entries (dropWhile (\<lambda>c. c = CHR '' '') (drop end_of_entry s)) (smartlist_add entries entry))"
  by pat_completeness auto
termination
proof (relation "measure (\<lambda>(s, entries). length s)", goal_cases)
  case (2 s entries e entry)
  then have "e \<noteq> 0" using parse_single_entry_nonempty [of s e entry] by simp
  have "length (dropWhile (\<lambda>c. c = CHR '' '') (drop e s)) \<le> length (drop e s)"
    by (rule length_dropWhile_le)
  also have "\<dots> < length s" using \<open>e \<noteq> 0\<close> 2(1) by simp
  finally show ?case by simp
qed auto

declare parse_entries.simps [simp del]

definition parse_protocol_list :: "cstring \<Rightarrow> proto_entry list option" where
  "parse_protocol_list s = parse_entries s []"

definition protover_list_is_invalid :: "cstring \<Rightarrow> bool" where
  "protover_list_is_invalid s = (parse_protocol_list s = None)"

definition find_entry_by_name :: "proto_entry list \<Rightarrow> cstring \<Rightarrow> proto_entry option" where
  "find_entry_by_name protos nm = find (\<lambda>ent. name ent = nm) protos"

definition protocol_list_contains :: "proto_entry list \<Rightarrow> protocol_type \<Rightarrow> nat \<Rightarrow> bool" where
  "protocol_list_contains protos pr ver =
     (if int ver > MAX_PROTOCOL_VERSION then False
      else case find_entry_by_name protos (protocol_type_to_str pr) of
        Some ent \<Rightarrow> bitmask ent AND BIT ver \<noteq> 0
      | None \<Rightarrow> False)"

definition protocol_list_supports_protocol :: "cstring \<Rightarrow> protocol_type \<Rightarrow> nat \<Rightarrow> bool" where
  "protocol_list_supports_protocol lst tp version =
     (case parse_protocol_list lst of
        None \<Rightarrow> False
      | Some protocols \<Rightarrow> protocol_list_contains protocols tp version)"

text \<open>\<open>strcasecmp\<close> is 0, in the C locale.\<close>

definition strcasecmp_eq :: "cstring \<Rightarrow> cstring \<Rightarrow> bool" where
  "strcasecmp_eq a b \<longleftrightarrow> map TOR_TOLOWER a = map TOR_TOLOWER b"

definition protocol_list_supports_protocol_or_later ::
  "cstring \<Rightarrow> protocol_type \<Rightarrow> nat \<Rightarrow> bool option" where
  "protocol_list_supports_protocol_or_later lst tp version =
     (case parse_protocol_list lst of
        None \<Rightarrow> Some False
      | Some protocols \<Rightarrow>
          if \<not> bitmask_defined version 63 then None
          else Some (list_ex (\<lambda>proto. strcasecmp_eq (name proto) (protocol_type_to_str tp)
                                \<and> bitmask proto AND bitmask_for_range version 63 \<noteq> 0) protocols))"

subsection \<open>The lists of this version\<close>

text \<open>\<open>tlssecrets\<close> is whether HAVE_WORKING_TOR_TLS_GET_TLSSECRETS is defined.\<close>

definition PR_LINKAUTH_V :: "bool \<Rightarrow> cstring" where
  "PR_LINKAUTH_V tlssecrets = (if tlssecrets then ''1,3'' else ''3'')"

fun protover_get_supported :: "bool \<Rightarrow> protocol_type \<Rightarrow> cstring" where
  "protover_get_supported tlssecrets PRT_CONFLUX = ''1''"
| "protover_get_supported tlssecrets PRT_CONS = ''1-2''"
| "protover_get_supported tlssecrets PRT_DESC = ''1-2''"
| "protover_get_supported tlssecrets PRT_DIRCACHE = ''2''"
| "protover_get_supported tlssecrets PRT_FLOWCTRL = ''1-2''"
| "protover_get_supported tlssecrets PRT_HSDIR = ''2''"
| "protover_get_supported tlssecrets PRT_HSINTRO = ''4-5''"
| "protover_get_supported tlssecrets PRT_HSREND = ''1-2''"
| "protover_get_supported tlssecrets PRT_LINK = ''1-5''"
| "protover_get_supported tlssecrets PRT_LINKAUTH = PR_LINKAUTH_V tlssecrets"
| "protover_get_supported tlssecrets PRT_MICRODESC = ''1-2''"
| "protover_get_supported tlssecrets PRT_PADDING = ''2''"
| "protover_get_supported tlssecrets PRT_RELAY = ''1-4''"

definition protover_get_supported_protocols :: "bool \<Rightarrow> cstring" where
  "protover_get_supported_protocols tlssecrets =
     ''Conflux='' @ ''1'' @ '' '' @ ''Cons='' @ ''1-2'' @ '' '' @ ''Desc='' @ ''1-2'' @ '' ''
     @ ''DirCache='' @ ''2'' @ '' '' @ ''FlowCtrl='' @ ''1-2'' @ '' '' @ ''HSDir='' @ ''2'' @ '' ''
     @ ''HSIntro='' @ ''4-5'' @ '' '' @ ''HSRend='' @ ''1-2'' @ '' '' @ ''Link='' @ ''1-5'' @ '' ''
     @ ''LinkAuth='' @ PR_LINKAUTH_V tlssecrets @ '' '' @ ''Microdesc='' @ ''1-2'' @ '' ''
     @ ''Padding='' @ ''2'' @ '' '' @ ''Relay='' @ ''1-4''"

definition protover_get_recommended_client_protocols :: cstring where
  "protover_get_recommended_client_protocols =
     ''Cons=2 Desc=2 DirCache=2 FlowCtrl=1-2 HSDir=2 HSIntro=4 HSRend=2 ''
     @ ''Link=4-5 Microdesc=2 Relay=2-4''"

definition protover_get_recommended_relay_protocols :: cstring where
  "protover_get_recommended_relay_protocols =
     ''Cons=2 Desc=2 DirCache=2 FlowCtrl=1-2 HSDir=2 HSIntro=4-5 HSRend=2 ''
     @ ''Link=4-5 LinkAuth=3 Microdesc=2 Relay=2-4''"

definition protover_get_required_client_protocols :: cstring where
  "protover_get_required_client_protocols = ''Cons=2 Desc=2 FlowCtrl=1 Link=4 Microdesc=2 Relay=2''"

definition protover_get_required_relay_protocols :: cstring where
  "protover_get_required_relay_protocols =
     ''Cons=2 Desc=2 DirCache=2 FlowCtrl=1-2 HSDir=2 HSIntro=4-5 HSRend=2 ''
     @ ''Link=4-5 LinkAuth=3 Microdesc=2 Relay=2-4''"

text \<open>The parsed list is computed once; \<open>None\<close> (a null list) when it does not parse.\<close>

definition get_supported_protocol_list :: "bool \<Rightarrow> proto_entry list option" where
  "get_supported_protocol_list tlssecrets = parse_protocol_list (protover_get_supported_protocols tlssecrets)"

definition protover_is_supported_here :: "bool \<Rightarrow> protocol_type \<Rightarrow> nat \<Rightarrow> bool" where
  "protover_is_supported_here tlssecrets pr ver =
     (case get_supported_protocol_list tlssecrets of
        None \<Rightarrow> False
      | Some ours \<Rightarrow> protocol_list_contains ours pr ver)"

subsection \<open>Encoding\<close>

definition trailing_zeros :: "64 word \<Rightarrow> nat option" where
  "trailing_zeros x = (if x = 0 then None else Some (length (takeWhile (\<lambda>i. \<not> bit x i) [0..<64])))"

lemma trailing_zeros_Some:
  assumes "trailing_zeros x = Some z"
  shows "z < 64" "bit x z" "i < z \<Longrightarrow> \<not> bit x i"
proof -
  let ?P = "\<lambda>i. \<not> bit x i" and ?w = "[0..<64] :: nat list"
  have z: "z = length (takeWhile ?P ?w)" and "x \<noteq> 0"
    using assms by (auto simp: trailing_zeros_def split: if_splits)
  then obtain k where k: "bit x k" by (auto simp: bit_eq_iff)
  then have "k < 64" using bit_imp_le_length [of x k] by simp
  have "length (takeWhile ?P ?w) \<noteq> length ?w"
  proof
    assume "length (takeWhile ?P ?w) = length ?w"
    then have "takeWhile ?P ?w = ?w" by (metis takeWhile_eq_take take_all order_refl)
    then have "\<not> bit x k" using \<open>k < 64\<close> by (metis atLeastLessThan_iff le0 set_upt takeWhile_eq_all_conv)
    with k show False by blast
  qed
  then show lt: "z < 64" using z length_takeWhile_le [of ?P ?w] by simp
  show "bit x z" using nth_length_takeWhile [of ?P ?w] lt z by simp
  show "i < z \<Longrightarrow> \<not> bit x i"
    using takeWhile_nth [of i ?P ?w] nth_mem [of i "takeWhile ?P ?w"] set_takeWhileD [of _ ?P ?w] z lt
    by fastforce
qed

lemma drop_bit_less: "0 < unat msk \<Longrightarrow> 0 < n \<Longrightarrow> unat (drop_bit n msk) < unat (msk :: 64 word)"
  unfolding unat_drop_bit_eq unfolding drop_bit_eq_div by (rule div_less_dividend) (auto intro: one_less_power [of "2::nat", simplified])

function encode_loop :: "64 word \<Rightarrow> nat \<Rightarrow> bool \<Rightarrow> cstring list \<Rightarrow> cstring list option" where
  "encode_loop msk shift first chunks =
     (if msk = 0 then Some chunks
      else
        let comma = (if first then '''' else '','') in
        case trailing_zeros msk of
          None \<Rightarrow> None
        | Some zeros \<Rightarrow>
            let msk = drop_bit zeros msk; shift = shift + zeros in
            case (if msk = 0 then Some 64 else trailing_zeros (NOT msk)) of
              None \<Rightarrow> None
            | Some ones \<Rightarrow>
                let chunks = smartlist_add chunks
                  (if ones = 1 then comma @ decimal shift
                   else comma @ decimal shift @ ''-'' @ decimal (shift + ones - 1))
                in if ones = 64 then Some chunks
                   else encode_loop (drop_bit ones msk) (shift + ones) False chunks)"
  by pat_completeness auto

termination
proof (relation "measure (\<lambda>(msk, shift, first, chunks). unat msk)", goal_cases)
  case (2 msk shift first chunks comma zeros m sh ones ch)
  have b: "bit m 0" using 2 trailing_zeros_Some(2) [of msk zeros] by (simp add: bit_drop_bit_eq)
  then have "m \<noteq> 0" by auto
  have "ones \<noteq> 0"
  proof
    assume "ones = 0"
    with 2 \<open>m \<noteq> 0\<close> trailing_zeros_Some(2) [of "NOT m" 0] have "bit (NOT m) 0" by simp
    with b show False by (simp add: bit_not_iff)
  qed
  with \<open>m \<noteq> 0\<close> have "unat (drop_bit ones m) < unat m" by (intro drop_bit_less) (simp_all add: unat_gt_0)
  also have "unat m \<le> unat msk"
    using 2 by (simp only: unat_drop_bit_eq) (simp only: drop_bit_eq_div div_le_dividend)
  finally show ?case by simp
qed auto

declare encode_loop.simps [simp del]

definition proto_entry_encode_into :: "cstring list \<Rightarrow> proto_entry \<Rightarrow> cstring list option" where
  "proto_entry_encode_into chunks ent =
     encode_loop (bitmask ent) 0 True (smartlist_add chunks (name ent @ ''=''))"

fun encode_entries :: "proto_entry list \<Rightarrow> cstring \<Rightarrow> cstring list \<Rightarrow> cstring list option" where
  "encode_entries [] separator chunks = Some chunks"
| "encode_entries (ent # sl) separator chunks =
     (case proto_entry_encode_into (smartlist_add chunks separator) ent of
        None \<Rightarrow> None
      | Some chunks \<Rightarrow> encode_entries sl '' '' chunks)"

definition encode_protocol_list :: "proto_entry list \<Rightarrow> cstring option" where
  "encode_protocol_list sl =
     map_option (\<lambda>chunks. smartlist_join_strings chunks '''' False) (encode_entries sl '''' [])"

subsection \<open>Voting and support\<close>

text \<open>The first pass: the protocol names and the lists that parse.\<close>

definition vote_names_and_lists :: "cstring list \<Rightarrow> cstring list \<times> proto_entry list list" where
  "vote_names_and_lists list_of_proto_strings =
     foldl (\<lambda>(proto_names, parsed) vote.
       case parse_protocol_list vote of
         None \<Rightarrow> (proto_names, parsed)
       | Some unexpanded \<Rightarrow>
           (foldl (\<lambda>proto_names ent.
              if \<not> smartlist_contains_string (Some proto_names) (name ent)
              then smartlist_add proto_names (name ent) else proto_names) proto_names unexpanded,
            smartlist_add parsed unexpanded)) ([], []) list_of_proto_strings"

text \<open>The 8-bit counters of one protocol, and the versions that reach the threshold.\<close>

definition vote_counts :: "proto_entry list list \<Rightarrow> cstring \<Rightarrow> byte list" where
  "vote_counts parsed nm =
     foldl (\<lambda>counts vote. case find_entry_by_name vote nm of
         None \<Rightarrow> counts
       | Some ent \<Rightarrow> map (\<lambda>i. if bitmask ent AND BIT i \<noteq> 0 then counts ! i + 1 else counts ! i) [0..<64])
       (replicate 64 0) parsed"

definition vote_bitmask :: "byte list \<Rightarrow> int \<Rightarrow> 64 word" where
  "vote_bitmask counts threshold =
     foldl (\<lambda>r i. if uint (counts ! i) \<ge> threshold then r OR BIT i else r) 0 [0..<64]"

definition vote_entries :: "proto_entry list list \<Rightarrow> int \<Rightarrow> cstring list \<Rightarrow> proto_entry list" where
  "vote_entries parsed threshold proto_names =
     foldl (\<lambda>result nm.
       let result_bitmask = vote_bitmask (vote_counts parsed nm) threshold in
       if result_bitmask \<noteq> 0 then smartlist_add result \<lparr>name = nm, bitmask = result_bitmask\<rparr>
       else result) [] proto_names"

text \<open>\<open>None\<close>: the assertion fails, or the encoder does something undefined.\<close>

definition protover_compute_vote :: "cstring list \<Rightarrow> int \<Rightarrow> cstring option" where
  "protover_compute_vote list_of_proto_strings threshold =
     (if \<not> length list_of_proto_strings < 256 then None
      else if length list_of_proto_strings = 0 then Some ''''
      else
        let (proto_names, parsed) = vote_names_and_lists list_of_proto_strings;
            proto_names = sort proto_names
        in encode_protocol_list (vote_entries parsed threshold proto_names))"

text \<open>The result and the protocols in \<open>missing\<close> (encoded into \<open>*missing_out\<close> when there are any).\<close>

definition missing_entry :: "proto_entry list option \<Rightarrow> proto_entry \<Rightarrow> proto_entry list" where
  "missing_entry supported ent =
     (case Option.bind supported (\<lambda>protos. find_entry_by_name protos (name ent)) of
        None \<Rightarrow> if bitmask ent \<noteq> 0 then [\<lparr>name = name ent, bitmask = bitmask ent\<rparr>] else []
      | Some mine \<Rightarrow>
          let missing_mask = bitmask ent AND NOT (bitmask mine) in
          if missing_mask \<noteq> 0 then [\<lparr>name = name ent, bitmask = missing_mask\<rparr>] else [])"

definition protover_missing :: "bool \<Rightarrow> proto_entry list \<Rightarrow> proto_entry list" where
  "protover_missing tlssecrets entries =
     foldl (\<lambda>missing ent. missing @ missing_entry (get_supported_protocol_list tlssecrets) ent) [] entries"

definition protover_all_supported :: "bool \<Rightarrow> cstring option \<Rightarrow> bool \<times> cstring option option" where
  "protover_all_supported tlssecrets s =
     (case s of
        None \<Rightarrow> (True, None)
      | Some s \<Rightarrow>
          (case parse_protocol_list s of
             None \<Rightarrow> (True, None)
           | Some entries \<Rightarrow>
               let missing = protover_missing tlssecrets entries; all_supported = (length missing = 0)
               in (all_supported, if all_supported then None else Some (encode_protocol_list missing))))"

end
