(* ===== verification/Protover_Props.thy ===== *)
theory Protover_Props
  imports Protover
begin

text \<open>
  The properties of the subprotocol lists: encoding then parsing, what the authorities' vote
  says, and when every listed protocol is supported.
\<close>

unbundle bit_operations_syntax

subsection \<open>Ranges and their bits\<close>

lemma bit_and_BIT: "i < 64 \<Longrightarrow> (w AND BIT i \<noteq> 0) \<longleftrightarrow> bit w i"
  by (auto simp: BIT_def push_bit_eq_mult bit_iff_and_push_bit_not_eq_0)

lemma bit_BIT: "i < 64 \<Longrightarrow> bit (BIT i) k \<longleftrightarrow> k = i"
  by (auto simp: BIT_def bit_push_bit_iff bit_1_iff bit_exp_iff)

lemma bit_bitmask_for_range:
  "low \<le> high \<Longrightarrow> high \<le> 63 \<Longrightarrow> bit (bitmask_for_range low high) i \<longleftrightarrow> low \<le> i \<and> i \<le> high"
  by (auto simp: bitmask_for_range_def bit_push_bit_iff bit_drop_bit_eq bit_not_iff bit_mask_iff)

definition range_text :: "nat \<times> nat \<Rightarrow> cstring" where
  "range_text r = (if fst r = snd r then decimal (fst r) else decimal (fst r) @ ''-'' @ decimal (snd r))"

definition range_ok :: "nat \<times> nat \<Rightarrow> bool" where
  "range_ok r \<longleftrightarrow> fst r \<le> snd r \<and> snd r \<le> 63"

fun ranges_text :: "bool \<Rightarrow> (nat \<times> nat) list \<Rightarrow> cstring" where
  "ranges_text first [] = ''''"
| "ranges_text first (r # rs) = (if first then '''' else '','') @ range_text r @ ranges_text False rs"

fun ranges_mask :: "(nat \<times> nat) list \<Rightarrow> 64 word" where
  "ranges_mask [] = 0"
| "ranges_mask (r # rs) = bitmask_for_range (fst r) (snd r) OR ranges_mask rs"

text \<open>The number a pointer is at is read up to what follows it.\<close>

definition stops :: "cstring \<Rightarrow> bool" where
  "stops rest \<longleftrightarrow> rest = [] \<or> \<not> TOR_ISDIGIT (hd rest)"

lemma tor_parse_version:
  "stops rest \<Longrightarrow> v \<le> 63 \<Longrightarrow> tor_parse_ulong (decimal v @ rest) 10 0 MAX_PROTOCOL_VERSION True =
     \<lparr>pr_ok = True, pr_val = int v, pr_next = Some rest\<rparr>"
  by (rule tor_parse_ulong_decimal) (simp_all add: stops_def MAX_PROTOCOL_VERSION_def ULONG_MAX_def)

lemma not_digit_dash [simp]: "\<not> TOR_ISDIGIT (CHR ''-'')" "\<not> TOR_ISDIGIT (CHR '','')" "\<not> TOR_ISDIGIT (CHR '' '')"
  by (simp_all add: TOR_ISDIGIT_iff byte_between_def)

lemma parse_version_range_text:
  assumes "range_ok r" "stops rest"
  shows "parse_version_range (range_text r @ rest) (length (range_text r)) = Some r"
proof (cases "fst r = snd r")
  case True
  then show ?thesis
    using assms
    by (cases r) (simp add: parse_version_range_def range_text_def cur_decimal tor_parse_version range_ok_def Let_def)
next
  case False
  have "stops (CHR ''-'' # t)" for t by (simp add: stops_def)
  with False show ?thesis
    using assms
    by (cases r) (simp add: parse_version_range_def range_text_def cur_decimal tor_parse_version range_ok_def Let_def)
qed

lemma range_text_chars: "c \<in> set (range_text r) \<Longrightarrow> TOR_ISDIGIT c \<or> c = CHR ''-''"
  by (auto simp: range_text_def TOR_ISDIGIT_decimal split: if_splits)

lemma range_text_no_comma: "CHR '','' \<notin> set (range_text r)" "CHR '' '' \<notin> set (range_text r)"
  by (auto dest: range_text_chars)

lemma range_text_nonempty [simp]: "range_text r \<noteq> []" "[] \<noteq> range_text r"
  using decimal_nonempty [THEN not_sym] by (auto simp: range_text_def)

lemma parse_ranges_step:
  assumes "n \<noteq> 0" "(case memchr (take n s) (CHR '','') of Some k \<Rightarrow> k | None \<Rightarrow> n) = c"
    "parse_version_range s c = Some r"
  shows "parse_ranges s n m =
    (if n - c > 1 then parse_ranges (tl (drop c s)) (n - c - 1) (m OR bitmask_for_range (fst r) (snd r))
     else parse_ranges (drop c s) (n - c) (m OR bitmask_for_range (fst r) (snd r)))"
  by (subst parse_ranges.simps) (simp only: assms Let_def option.case prod.case_eq_if if_False)

text \<open>The loop of \<open>parse_single_entry\<close> on the text of a list of ranges.\<close>

lemma parse_ranges_text:
  assumes "list_all range_ok rs" "rest = [] \<or> hd rest = CHR '' ''"
  shows "rs \<noteq> [] \<Longrightarrow> parse_ranges (ranges_text True rs @ rest) (length (ranges_text True rs)) m = Some (m OR ranges_mask rs)"
  using assms(1)
proof (induction rs arbitrary: m)
  case (Cons r rs)
  let ?t = "range_text r" and ?u = "ranges_text False rs"
  have ok: "range_ok r" and oks: "list_all range_ok rs" using Cons.prems by simp_all
  have stop: "stops (?u @ rest)"
    using assms(2) by (cases rs; cases rest) (auto simp: stops_def)
  let ?n = "length (ranges_text True (r # rs))" and ?s = "ranges_text True (r # rs) @ rest"
  have n: "?n = length ?t + length ?u" and s: "take ?n ?s = ?t @ ?u" by simp_all
  have comma: "(case memchr (take ?n ?s) (CHR '','') of None \<Rightarrow> ?n | Some k \<Rightarrow> k) = length ?t"
    unfolding s n
    using range_text_no_comma(1) [of r] memchr_None [of ?t "CHR '',''"]
    by (cases rs) (auto simp: memchr_append)
  have v: "parse_version_range (?t @ ?u @ rest) (length ?t) = Some r"
    using parse_version_range_text [OF ok stop] by simp
  have step: "parse_ranges (ranges_text True (r # rs) @ rest) (length (ranges_text True (r # rs))) m =
      (if 1 < length ?u then parse_ranges (tl (?u @ rest)) (length ?u - 1) (m OR bitmask_for_range (fst r) (snd r))
       else parse_ranges (?u @ rest) (length ?u) (m OR bitmask_for_range (fst r) (snd r)))"
    by (subst parse_ranges_step [OF _ comma, of r]) (simp_all add: v)
  show ?case
  proof (cases rs)
    case Nil
    then show ?thesis unfolding step by (simp add: parse_ranges.simps [of _ 0])
  next
    case (Cons r2 rs2)
    then have "rs \<noteq> []" by simp
    have "ranges_text False rs = CHR '','' # ranges_text True rs"
      "0 < length (ranges_text True rs)"
      using Cons by (auto simp: range_text_nonempty)
    then show ?thesis unfolding step using Cons.IH [OF \<open>rs \<noteq> []\<close> oks] by (simp add: ac_simps)
  qed
qed simp

subsection \<open>Encoding a bit mask\<close>

lemma trailing_zeros_None: "trailing_zeros x = None \<longleftrightarrow> x = 0"
  by (simp add: trailing_zeros_def)

lemma drop_bit_not_ones: "drop_bit n m = NOT 0 \<Longrightarrow> n = 0 \<and> m = (NOT 0 :: 64 word)"
proof -
  assume a: "drop_bit n m = NOT 0"
  have "bit (drop_bit n m) 63" unfolding a by (simp add: bit_not_iff)
  then have "bit m (63 + n)" by (simp add: bit_drop_bit_eq add.commute)
  then have "63 + n < 64" using bit_imp_le_length [of m "63 + n"] by simp
  then show ?thesis using a by simp
qed

text \<open>One round of the loop: the lowest run of ones.\<close>

lemma lowest_run:
  assumes "m \<noteq> 0" "m \<noteq> NOT 0"
  obtains z n where "trailing_zeros m = Some z" "trailing_zeros (NOT (drop_bit z m)) = Some n"
    "drop_bit z m \<noteq> 0" "0 < n" "n < 64"
    "\<And>i. bit m i \<longleftrightarrow> (z \<le> i \<and> i < z + n) \<or> (z + n \<le> i \<and> bit m i)" "bit m (z + n - 1)"
proof -
  obtain z where z: "trailing_zeros m = Some z" using assms(1) trailing_zeros_None [of m] by auto
  note zs = trailing_zeros_Some [OF z]
  have b0: "bit (drop_bit z m) 0" using zs(2) by (simp add: bit_drop_bit_eq)
  then have nz: "drop_bit z m \<noteq> 0" by auto
  have "drop_bit z m \<noteq> NOT 0" using drop_bit_not_ones assms(2) by blast
  then have "NOT (drop_bit z m) \<noteq> 0" by (metis bit.double_compl)
  then obtain n where n: "trailing_zeros (NOT (drop_bit z m)) = Some n"
    using trailing_zeros_None by auto
  note ns = trailing_zeros_Some [OF n]
  have "n \<noteq> 0" using b0 ns(2) by (auto simp: bit_not_iff intro: ccontr)
  have run: "bit m (z + i)" if "i < n" for i
    using ns(3) [OF that] ns(1) that by (simp add: bit_not_iff bit_drop_bit_eq)
  have "bit m i \<longleftrightarrow> (z \<le> i \<and> i < z + n) \<or> (z + n \<le> i \<and> bit m i)" for i
    using zs(3) [of i] run [of "i - z"] by (cases "z \<le> i") (auto simp: not_less)
  moreover have "bit m (z + n - 1)" using run [of "n - 1"] \<open>n \<noteq> 0\<close> by simp
  ultimately show thesis using z n nz \<open>n \<noteq> 0\<close> ns(1) that by blast
qed

lemma encode_loop_text:
  assumes "m \<noteq> NOT 0" "\<And>i. bit m i \<Longrightarrow> i + sh < 64"
  shows "\<exists>ch' rs. encode_loop m sh first ch = Some ch' \<and> concat ch' = concat ch @ ranges_text first rs
    \<and> list_all range_ok rs \<and> ranges_mask rs = push_bit sh m \<and> (m \<noteq> 0 \<longrightarrow> rs \<noteq> [])"
  using assms
proof (induction "unat m" arbitrary: m sh first ch rule: less_induct)
  case less
  show ?case
  proof (cases "m = 0")
    case True
    then show ?thesis by (auto simp: encode_loop.simps [of 0] intro!: exI [of _ "[]"])
  next
    case False
    obtain z n where r: "trailing_zeros m = Some z" "trailing_zeros (NOT (drop_bit z m)) = Some n"
      "drop_bit z m \<noteq> 0" "0 < n" "n < 64"
      and bits: "\<And>i. bit m i \<longleftrightarrow> (z \<le> i \<and> i < z + n) \<or> (z + n \<le> i \<and> bit m i)" and hi: "bit m (z + n - 1)"
      using lowest_run [OF False less.prems(1)] by metis
    let ?r = "(sh + z, sh + z + n - 1)" and ?m = "drop_bit n (drop_bit z m)"
    let ?ch = "smartlist_add ch ((if first then '''' else '','') @ range_text ?r)"
    have ok: "range_ok ?r" using less.prems(2) [OF hi] r(4) unfolding range_ok_def fst_conv snd_conv by linarith
    have step: "encode_loop m sh first ch = encode_loop ?m (sh + z + n) False ?ch"
      using False r by (subst encode_loop.simps) (auto simp: Let_def range_text_def)
    have m: "?m = drop_bit (z + n) m" by (simp add: drop_bit_drop_bit add.commute)
    have "unat ?m < unat m" using drop_bit_less [of m "z + n"] False r(4) m by (simp add: unat_gt_0)
    moreover have "?m \<noteq> NOT 0" unfolding m using drop_bit_not_ones [of "z + n" m] r(4) by auto
    moreover have "i + (sh + z + n) < 64" if "bit ?m i" for i
      using less.prems(2) [of "z + n + i"] that unfolding m by (simp add: bit_drop_bit_eq ac_simps)
    ultimately obtain ch' rs where rs: "encode_loop ?m (sh + z + n) False ?ch = Some ch'"
      "concat ch' = concat ?ch @ ranges_text False rs" "list_all range_ok rs"
      "ranges_mask rs = push_bit (sh + z + n) ?m"
      using less.hyps [of ?m "sh + z + n" False ?ch] by blast
    have "ranges_mask (?r # rs) = push_bit sh m"
    proof (rule bit_word_eqI)
      fix i assume "i < LENGTH(64)"
      show "bit (ranges_mask (?r # rs)) i = bit (push_bit sh m) i"
        using ok bits [of "i - sh"] r(4) \<open>i < LENGTH(64)\<close>
        by (auto simp: rs(4) m bit_or_iff bit_push_bit_iff bit_drop_bit_eq bit_bitmask_for_range range_ok_def)
    qed
    with rs ok step show ?thesis
      by (intro exI [of _ ch'] exI [of _ "?r # rs"]) (simp add: smartlist_add_def)
  qed
qed

subsection \<open>Encoding a list and parsing it\<close>

definition keyword_char :: "char \<Rightarrow> bool" where
  "keyword_char c \<longleftrightarrow> TOR_ISALNUM c \<or> c = CHR ''-''"

definition valid_name :: "cstring \<Rightarrow> bool" where
  "valid_name nm \<longleftrightarrow> nm \<noteq> [] \<and> length nm \<le> 100 \<and> list_all keyword_char nm"

definition encodable :: "proto_entry \<Rightarrow> bool" where
  "encodable ent \<longleftrightarrow> valid_name (name ent) \<and> bitmask ent \<noteq> NOT 0"

definition entry_string :: "proto_entry \<Rightarrow> cstring \<Rightarrow> bool" where
  "entry_string ent t \<longleftrightarrow> t \<noteq> [] \<and> CHR '' '' \<notin> set t \<and>
     (\<forall>rest. (rest = [] \<or> hd rest = CHR '' '') \<longrightarrow> parse_single_entry (t @ rest) (length t) = Some ent)"

lemma valid_name_chars:
  assumes "valid_name nm"
  shows "CHR '' '' \<notin> set nm" "CHR ''='' \<notin> set nm"
  using assms by (auto simp: valid_name_def list_all_iff keyword_char_def TOR_ISALNUM_iff byte_between_def)

lemma ranges_text_chars: "CHR '' '' \<notin> set (ranges_text first rs)"
  by (induction rs arbitrary: first) (auto simp: range_text_no_comma)

lemma entry_stringI:
  assumes "valid_name (name ent)" "list_all range_ok rs" "ranges_mask rs = bitmask ent"
  shows "entry_string ent (name ent @ ''='' @ ranges_text True rs)" (is "entry_string ent ?t")
  unfolding entry_string_def
proof (intro conjI allI impI)
  show "?t \<noteq> []" by simp
  show "CHR '' '' \<notin> set ?t" using valid_name_chars(1) [OF assms(1)] ranges_text_chars by simp
  fix rest :: cstring
  assume rest: "rest = [] \<or> hd rest = CHR '' ''"
  let ?n = "length (name ent)"
  have eq: "memchr (take (length ?t) (?t @ rest)) (CHR ''='') = Some ?n"
    using memchr_append [OF valid_name_chars(2) [OF assms(1)]] by simp
  have kw: "is_valid_keyword (?t @ rest) ?n" "?n \<noteq> 0" "\<not> MAX_PROTOCOL_NAME_LENGTH < ?n"
    using assms(1) by (auto simp: is_valid_keyword_def valid_name_def keyword_char_def [abs_def] MAX_PROTOCOL_NAME_LENGTH_def)
  have rs: "parse_ranges (ranges_text True rs @ rest) (length (ranges_text True rs)) 0 = Some (bitmask ent)"
    using parse_ranges_text [OF assms(2) rest, of 0] assms(3)
    by (cases rs) (simp_all add: parse_ranges.simps [of _ 0])
  show "parse_single_entry (?t @ rest) (length ?t) = Some ent"
    using kw rs unfolding parse_single_entry_def eq by simp
qed

lemma encode_into_string:
  assumes "encodable ent"
  shows "\<exists>ch' t. proto_entry_encode_into ch ent = Some ch' \<and> concat ch' = concat ch @ t \<and> entry_string ent t"
proof -
  obtain ch' rs where "proto_entry_encode_into ch ent = Some ch'"
    "concat ch' = concat ch @ name ent @ ''='' @ ranges_text True rs"
    "list_all range_ok rs" "ranges_mask rs = bitmask ent"
    using encode_loop_text [of "bitmask ent" 0 True "smartlist_add ch (name ent @ ''='')"] assms
      bit_imp_le_length [of "bitmask ent"]
    by (auto simp: proto_entry_encode_into_def encodable_def smartlist_add_def)
  then show ?thesis using entry_stringI [of ent rs] assms by (auto simp: encodable_def)
qed

lemma parse_entries_step:
  assumes "entry_string ent t"
  shows "parse_entries t acc = Some (acc @ [ent])"
    and "u \<noteq> [] \<Longrightarrow> hd u \<noteq> CHR '' '' \<Longrightarrow> parse_entries (t @ '' '' @ u) acc = parse_entries u (acc @ [ent])"
proof -
  have t: "t \<noteq> []" "CHR '' '' \<notin> set t" "parse_single_entry t (length t) = Some ent"
    using assms unfolding entry_string_def by (auto dest: spec [of _ "[]"])
  have p: "parse_single_entry (t @ '' '' @ u) (length t) = Some ent"
    using assms unfolding entry_string_def by auto
  have "memchr t (CHR '' '') = None" "memchr (t @ '' '' @ u) (CHR '' '') = Some (length t)"
    using t(2) memchr_None [of t] by (auto simp: memchr_append)
  then show "parse_entries t acc = Some (acc @ [ent])"
    and "u \<noteq> [] \<Longrightarrow> hd u \<noteq> CHR '' '' \<Longrightarrow> parse_entries (t @ '' '' @ u) acc = parse_entries u (acc @ [ent])"
    using t p by (subst parse_entries.simps, cases u,
        auto simp: smartlist_add_def parse_entries.simps [of "[]"])+
qed

lemma encode_entries_string:
  assumes "list_all encodable es"
  shows "\<exists>ch' u. encode_entries es sep ch = Some ch'
    \<and> concat ch' = concat ch @ (if es = [] then [] else sep @ u)
    \<and> (es \<noteq> [] \<longrightarrow> u \<noteq> [] \<and> hd u \<noteq> CHR '' '' \<and> (\<forall>acc. parse_entries u acc = Some (acc @ es)))"
  using assms
proof (induction es arbitrary: sep ch)
  case (Cons ent es)
  then obtain ch1 t where t: "proto_entry_encode_into (smartlist_add ch sep) ent = Some ch1"
    "concat ch1 = concat ch @ sep @ t" "entry_string ent t"
    using encode_into_string [of ent "smartlist_add ch sep"] by (auto simp: smartlist_add_def)
  obtain ch2 u where u: "encode_entries es '' '' ch1 = Some ch2"
    "concat ch2 = concat ch1 @ (if es = [] then [] else '' '' @ u)"
    "es \<noteq> [] \<longrightarrow> u \<noteq> [] \<and> hd u \<noteq> CHR '' '' \<and> (\<forall>acc. parse_entries u acc = Some (acc @ es))"
    using Cons.IH [of "'' ''" ch1] Cons.prems by auto
  have "t \<noteq> []" "CHR '' '' \<notin> set t" using t(3) by (auto simp: entry_string_def)
  moreover from this have "hd t \<noteq> CHR '' ''" using hd_in_set [of t] by metis
  ultimately show ?case
    using t u parse_entries_step [OF t(3)]
    by (intro exI [of _ ch2] exI [of _ "t @ (if es = [] then [] else '' '' @ u)"]) auto
qed simp

lemma join_loop_concat: "join_loop sl '''' = concat sl"
  by (induction sl rule: induct_list012) simp_all

lemma encode_parse:
  assumes "list_all encodable es"
  shows "\<exists>s. encode_protocol_list es = Some s \<and> parse_protocol_list s = Some es"
proof -
  obtain ch u where "encode_entries es '''' [] = Some ch"
    "concat ch = (if es = [] then [] else u)" "es \<noteq> [] \<longrightarrow> (\<forall>acc. parse_entries u acc = Some (acc @ es))"
    using encode_entries_string [OF assms, of "''''" "[]"] by auto
  then show ?thesis
    by (auto simp: encode_protocol_list_def smartlist_join_strings_def smartlist_join_strings2_def
        join_loop_concat parse_protocol_list_def parse_entries.simps [of "[]"])
qed

subsection \<open>What parses is well formed\<close>

lemma parse_single_entry_valid: "parse_single_entry s n = Some ent \<Longrightarrow> valid_name (name ent)"
proof -
  assume a: "parse_single_entry s n = Some ent"
  then obtain k where k: "memchr (take n s) (CHR ''='') = Some k" "k \<noteq> 0" "k \<le> 100" "is_valid_keyword s k"
    "name ent = take k s"
    by (auto simp: parse_single_entry_def MAX_PROTOCOL_NAME_LENGTH_def not_less split: option.splits if_splits)
  then show ?thesis
    using memchr_Some [OF k(1)]
    by (auto simp: valid_name_def is_valid_keyword_def keyword_char_def [abs_def])
qed

lemma parse_entries_valid:
  "parse_entries s acc = Some es \<Longrightarrow> list_all (\<lambda>e. valid_name (name e)) acc \<Longrightarrow> list_all (\<lambda>e. valid_name (name e)) es"
proof (induction s acc rule: parse_entries.induct)
  case (1 s acc)
  show ?case
  proof (cases "s = []")
    case True
    with 1 show ?thesis by (simp add: parse_entries.simps [of "[]"])
  next
    case False
    let ?e = "case memchr s (CHR '' '') of Some k \<Rightarrow> k | None \<Rightarrow> length s"
    obtain ent where ent: "parse_single_entry s ?e = Some ent"
      "parse_entries (dropWhile (\<lambda>c. c = CHR '' '') (drop ?e s)) (smartlist_add acc ent) = Some es"
      using 1(2) False by (subst (asm) parse_entries.simps) (auto simp: Let_def split: option.splits)
    from 1(1) [OF False HOL.refl ent] 1(3) parse_single_entry_valid [OF ent(1)] show ?thesis
      by (simp add: smartlist_add_def)
  qed
qed

lemma parse_protocol_list_valid:
  "parse_protocol_list s = Some es \<Longrightarrow> ent \<in> set es \<Longrightarrow> valid_name (name ent)"
  using parse_entries_valid [of s "[]" es] by (auto simp: parse_protocol_list_def list_all_iff)

subsection \<open>The vote\<close>

text \<open>Version \<open>v\<close> of protocol \<open>nm\<close> is in the entries; in the list that the string encodes.\<close>

definition entries_list :: "proto_entry list \<Rightarrow> cstring \<Rightarrow> nat \<Rightarrow> bool" where
  "entries_list es nm v = (case find_entry_by_name es nm of None \<Rightarrow> False | Some ent \<Rightarrow> bit (bitmask ent) v)"

definition lists :: "cstring \<Rightarrow> cstring \<Rightarrow> nat \<Rightarrow> bool" where
  "lists s nm v = (case parse_protocol_list s of None \<Rightarrow> False | Some es \<Rightarrow> entries_list es nm v)"

definition votes_for :: "cstring list \<Rightarrow> cstring \<Rightarrow> nat \<Rightarrow> nat" where
  "votes_for votes nm v = length (filter (\<lambda>s. lists s nm v) votes)"

lemma find_entry_Some:
  "find_entry_by_name es nm = Some ent \<Longrightarrow> ent \<in> set es \<and> name ent = nm"
  by (auto simp: find_entry_by_name_def find_Some_iff)

lemma find_entry_mem: "find_entry_by_name es nm \<noteq> None \<longleftrightarrow> nm \<in> name ` set es"
  by (auto simp: find_entry_by_name_def find_None_iff)

lemma find_entry_distinct:
  "distinct (map name es) \<Longrightarrow> ent \<in> set es \<Longrightarrow> find_entry_by_name es (name ent) = Some ent"
  by (induction es) (force simp: find_entry_by_name_def)+

lemma smartlist_contains_string_iff: "smartlist_contains_string (Some sl) x \<longleftrightarrow> x \<in> set sl"
  by (simp add: smartlist_contains_string_def list_ex_iff)

lemma add_names:
  "distinct ns \<Longrightarrow> distinct (foldl (\<lambda>ns ent. if \<not> smartlist_contains_string (Some ns) (name ent)
       then smartlist_add ns (name ent) else ns) ns es)
   \<and> set (foldl (\<lambda>ns ent. if \<not> smartlist_contains_string (Some ns) (name ent)
       then smartlist_add ns (name ent) else ns) ns es) = set ns \<union> name ` set es"
  by (induction es arbitrary: ns) (auto simp: smartlist_contains_string_iff smartlist_add_def)

lemma map_filter_append: "List.map_filter f (xs @ ys) = List.map_filter f xs @ List.map_filter f ys"
  by (simp add: List.map_filter_def)

lemma vote_names_and_lists_spec:
  "distinct (fst (vote_names_and_lists votes))
   \<and> snd (vote_names_and_lists votes) = List.map_filter parse_protocol_list votes
   \<and> set (fst (vote_names_and_lists votes)) = (\<Union>es \<in> set (List.map_filter parse_protocol_list votes). name ` set es)"
proof (induction votes rule: rev_induct)
  case Nil
  show ?case by (simp add: vote_names_and_lists_def)
next
  case (snoc s votes)
  obtain ns ps where v: "vote_names_and_lists votes = (ns, ps)" by fastforce
  show ?case
    using snoc add_names [of ns] unfolding v
    by (cases "parse_protocol_list s")
      (auto simp: vote_names_and_lists_def [of "votes @ [s]"] v [unfolded vote_names_and_lists_def]
        map_filter_append map_filter_simps smartlist_add_def)
qed

lemma vote_counts_spec:
  "length (vote_counts ps nm) = 64 \<and>
   (\<forall>i<64. vote_counts ps nm ! i = of_nat (length (filter (\<lambda>es. entries_list es nm i) ps)))"
proof (induction ps rule: rev_induct)
  case Nil
  show ?case by (simp add: vote_counts_def)
next
  case (snoc es ps)
  then show ?case
    by (cases "find_entry_by_name es nm")
      (auto simp: vote_counts_def entries_list_def bit_and_BIT)
qed

lemma vote_bitmask_bits:
  "i < 64 \<Longrightarrow> bit (vote_bitmask counts threshold) i \<longleftrightarrow> threshold \<le> uint (counts ! i)"
proof -
  have "bit (foldl (\<lambda>r i. if threshold \<le> uint (counts ! i) then r OR BIT i else r) m [0..<n]) i
     \<longleftrightarrow> bit m i \<or> (i < n \<and> threshold \<le> uint (counts ! i))" if "n \<le> 64" for n i m
    using that by (induction n) (auto simp: bit_or_iff bit_BIT less_Suc_eq)
  from this [of 64] show "i < 64 \<Longrightarrow> ?thesis" by (simp add: vote_bitmask_def)
qed

lemma vote_entries_map:
  "vote_entries ps threshold ns =
     map (\<lambda>nm. \<lparr>name = nm, bitmask = vote_bitmask (vote_counts ps nm) threshold\<rparr>)
       (filter (\<lambda>nm. vote_bitmask (vote_counts ps nm) threshold \<noteq> 0) ns)"
  by (induction ns rule: rev_induct) (simp_all add: vote_entries_def Let_def smartlist_add_def)

lemma votes_for_parsed:
  "votes_for votes nm v = length (filter (\<lambda>es. entries_list es nm v) (List.map_filter parse_protocol_list votes))"
  by (induction votes) (auto simp: votes_for_def lists_def map_filter_simps split: option.splits)

lemma bit64: "bit (w :: 64 word) i \<Longrightarrow> i < 64"
  using bit_imp_le_length [of w i] by simp

lemma vote_mask_bits:
  assumes "length votes < 256" "ps = List.map_filter parse_protocol_list votes"
  shows "bit (vote_bitmask (vote_counts ps nm) threshold) i \<longleftrightarrow> i < 64 \<and> threshold \<le> int (votes_for votes nm i)"
proof -
  have "votes_for votes nm i < 256"
    using assms(1) length_filter_le [of "\<lambda>s. lists s nm i" votes] unfolding votes_for_def by linarith
  then have "uint (of_nat (votes_for votes nm i) :: byte) = int (votes_for votes nm i)"
    by (simp add: uint_nat unat_of_nat)
  then show ?thesis
    using vote_bitmask_bits [of i "vote_counts ps nm" threshold] vote_counts_spec [of ps nm] bit64
    by (cases "i < 64") (auto simp: votes_for_parsed assms(2) [symmetric])
qed

lemma entries_list_bits: "entries_list es nm v \<Longrightarrow> nm \<in> name ` set es"
  using find_entry_mem [of es nm] by (auto simp: entries_list_def split: option.splits)

lemma vote_result:
  assumes "length votes < 256" "0 < threshold"
    and "vote_names_and_lists votes = (ns, ps)"
  defines "es \<equiv> vote_entries ps threshold (sort ns)"
  shows "distinct (map name es)" "sorted (map name es)"
    "entries_list es nm v \<longleftrightarrow> v < 64 \<and> threshold \<le> int (votes_for votes nm v)"
    "ent \<in> set es \<Longrightarrow> valid_name (name ent) \<and> bitmask ent \<noteq> 0
       \<and> (\<forall>i. bit (bitmask ent) i \<longleftrightarrow> i < 64 \<and> threshold \<le> int (votes_for votes (name ent) i))"
proof -
  have ns: "distinct ns" "ps = List.map_filter parse_protocol_list votes"
    "set ns = (\<Union>es \<in> set ps. name ` set es)"
    using vote_names_and_lists_spec [of votes] assms(3) by auto
  note bits = vote_mask_bits [OF assms(1) ns(2)]
  let ?m = "\<lambda>nm. vote_bitmask (vote_counts ps nm) threshold"
  have names: "map name es = filter (\<lambda>nm. ?m nm \<noteq> 0) (sort ns)"
    by (simp add: es_def vote_entries_map comp_def)
  show d: "distinct (map name es)" "sorted (map name es)"
    unfolding names using ns(1) by (simp_all add: sorted_filter [of id, simplified])
  have ent: "ent \<in> set es \<longleftrightarrow> (\<exists>nm. nm \<in> set ns \<and> ?m nm \<noteq> 0 \<and> ent = \<lparr>name = nm, bitmask = ?m nm\<rparr>)" for ent
    by (auto simp: es_def vote_entries_map)
  have "valid_name nm" if "nm \<in> set ns" for nm
    using that parse_protocol_list_valid unfolding ns by (auto simp: List.map_filter_def)
  then show "ent \<in> set es \<Longrightarrow> valid_name (name ent) \<and> bitmask ent \<noteq> 0
       \<and> (\<forall>i. bit (bitmask ent) i \<longleftrightarrow> i < 64 \<and> threshold \<le> int (votes_for votes (name ent) i))"
    using bits by (auto simp: ent)
  show "entries_list es nm v \<longleftrightarrow> v < 64 \<and> threshold \<le> int (votes_for votes nm v)"
  proof (cases "nm \<in> set ns \<and> ?m nm \<noteq> 0")
    case True
    then have "find_entry_by_name es nm = Some \<lparr>name = nm, bitmask = ?m nm\<rparr>"
      using find_entry_distinct [OF d(1), of "\<lparr>name = nm, bitmask = ?m nm\<rparr>"] ent by auto
    then show ?thesis by (simp add: entries_list_def bits)
  next
    case False
    have "votes_for votes nm v = 0" if "nm \<notin> set ns"
    proof -
      have "\<not> entries_list p nm v" if "p \<in> set ps" for p
        using that entries_list_bits [of p nm v] \<open>nm \<notin> set ns\<close> unfolding ns(3) by blast
      then show ?thesis unfolding votes_for_parsed ns(2) [symmetric] by (simp add: filter_False)
    qed
    then have "\<not> bit (?m nm) v" using False assms(2) bits [of nm threshold v] by auto
    moreover have "nm \<notin> name ` set es" using False ent by auto
    then have "\<not> entries_list es nm v" using entries_list_bits by blast
    ultimately show ?thesis using bits by simp
  qed
qed

text \<open>C16: The authorities' vote on subprotocols (protover_compute_vote).  For fewer than 256 votes and
  a positive threshold, when no protocol gets the threshold for all of its 64 versions, the function
  returns a list that parses, whose protocol names are sorted and distinct, none of them without a
  version, and which lists version v of a protocol exactly when at least threshold of the votes that
  parse list it (v at most 63); votes that do not parse count for nothing.\<close>

theorem protover_vote_threshold:
  assumes "length votes < 256" "0 < threshold"
    and "\<And>nm. \<exists>v<64. int (votes_for votes nm v) < threshold"
  shows "\<exists>out es. protover_compute_vote votes threshold = Some out \<and> parse_protocol_list out = Some es
    \<and> sorted (map name es) \<and> distinct (map name es) \<and> list_all (\<lambda>ent. bitmask ent \<noteq> 0) es
    \<and> (\<forall>nm v. lists out nm v \<longleftrightarrow> v < 64 \<and> threshold \<le> int (votes_for votes nm v))"
proof -
  obtain ns ps where v: "vote_names_and_lists votes = (ns, ps)" by fastforce
  let ?es = "vote_entries ps threshold (sort ns)"
  note r = vote_result [OF assms(1,2) v]
  have "encodable ent" if "ent \<in> set ?es" for ent
  proof -
    obtain i where "i < 64" "int (votes_for votes (name ent) i) < threshold" using assms(3) by blast
    then have "\<not> bit (bitmask ent) i" using r(4) [OF that] by auto
    then have "bitmask ent \<noteq> NOT 0" using \<open>i < 64\<close> by (auto simp: bit_not_iff)
    then show ?thesis using r(4) [OF that] by (simp add: encodable_def)
  qed
  then obtain out where out: "encode_protocol_list ?es = Some out" "parse_protocol_list out = Some ?es"
    using encode_parse [of ?es] by (auto simp: list_all_iff)
  moreover have "protover_compute_vote votes threshold = Some out"
  proof (cases votes)
    case Nil
    with v have "?es = []" by (simp add: vote_names_and_lists_def vote_entries_def)
    with out(1) Nil show ?thesis
      by (simp add: protover_compute_vote_def encode_protocol_list_def smartlist_join_strings_def smartlist_join_strings2_def)
  qed (use assms(1) out v in \<open>simp add: protover_compute_vote_def\<close>)
  ultimately show ?thesis
    using r by (intro exI [of _ out] exI [of _ ?es]) (auto simp: lists_def list_all_iff)
qed

subsection \<open>Tables of ranges\<close>

type_synonym range_table = "(cstring \<times> (nat \<times> nat) list) list"

definition table_entry_text :: "cstring \<times> (nat \<times> nat) list \<Rightarrow> cstring" where
  "table_entry_text x = fst x @ ''='' @ ranges_text True (snd x)"

fun table_text :: "range_table \<Rightarrow> cstring" where
  "table_text [] = ''''"
| "table_text (x # xs) = table_entry_text x @ (if xs = [] then '''' else '' '' @ table_text xs)"

definition table_entry :: "cstring \<times> (nat \<times> nat) list \<Rightarrow> proto_entry" where
  "table_entry x = \<lparr>name = fst x, bitmask = ranges_mask (snd x)\<rparr>"

definition table_ok :: "range_table \<Rightarrow> bool" where
  "table_ok tbl \<longleftrightarrow> list_all (\<lambda>x. valid_name (fst x) \<and> list_all range_ok (snd x)) tbl"

lemma table_entry_string:
  "valid_name (fst x) \<and> list_all range_ok (snd x) \<Longrightarrow> entry_string (table_entry x) (table_entry_text x)"
  using entry_stringI [of "\<lparr>name = fst x, bitmask = ranges_mask (snd x)\<rparr>" "snd x"]
  unfolding table_entry_def table_entry_text_def proto_entry.select_convs by blast

lemma table_text_head: "table_ok tbl \<Longrightarrow> tbl \<noteq> [] \<Longrightarrow> table_text tbl \<noteq> [] \<and> hd (table_text tbl) \<noteq> CHR '' ''"
proof (cases tbl)
  case (Cons x xs)
  assume "table_ok tbl"
  with Cons have "valid_name (fst x)" by (simp add: table_ok_def)
  then show ?thesis
    using Cons valid_name_chars(1) [of "fst x"]
    by (cases "fst x") (auto simp: table_entry_text_def valid_name_def)
qed simp

lemma parse_table: "table_ok tbl \<Longrightarrow> parse_entries (table_text tbl) acc = Some (acc @ map table_entry tbl)"
proof (induction tbl arbitrary: acc)
  case (Cons x xs)
  then have e: "entry_string (table_entry x) (table_entry_text x)" and ok: "table_ok xs"
    using table_entry_string by (simp_all add: table_ok_def)
  show ?case
    using parse_entries_step [OF e] table_text_head [OF ok] Cons.IH [OF ok] by (cases "xs = []") auto
qed (simp add: parse_entries.simps [of "[]"])

lemma bit_ranges_mask:
  "list_all range_ok rs \<Longrightarrow> bit (ranges_mask rs) v \<longleftrightarrow> list_ex (\<lambda>r. fst r \<le> v \<and> v \<le> snd r) rs"
  by (induction rs) (auto simp: bit_or_iff bit_bitmask_for_range range_ok_def)

definition supported_table :: "bool \<Rightarrow> range_table" where
  "supported_table tls =
     [(''Conflux'', [(1, 1)]), (''Cons'', [(1, 2)]), (''Desc'', [(1, 2)]), (''DirCache'', [(2, 2)]),
      (''FlowCtrl'', [(1, 2)]), (''HSDir'', [(2, 2)]), (''HSIntro'', [(4, 5)]), (''HSRend'', [(1, 2)]),
      (''Link'', [(1, 5)]), (''LinkAuth'', if tls then [(1, 1), (3, 3)] else [(3, 3)]),
      (''Microdesc'', [(1, 2)]), (''Padding'', [(2, 2)]), (''Relay'', [(1, 4)])]"

lemma decimal_digit: "n < 10 \<Longrightarrow> decimal n = [digit_char n]"
  by (simp add: decimal.simps)

lemma digit_chars:
  "digit_char 1 = CHR ''1''" "digit_char (Suc 0) = CHR ''1''" "digit_char 2 = CHR ''2''" "digit_char 3 = CHR ''3''"
  "digit_char 4 = CHR ''4''" "digit_char 5 = CHR ''5''"
  by (simp_all add: digit_char_def char_of_def bit_iff_odd)

lemmas table_eval = range_text_def decimal_digit digit_chars table_entry_text_def

lemma supported_text: "protover_get_supported_protocols tls = table_text (supported_table tls)"
  by (simp add: protover_get_supported_protocols_def supported_table_def table_eval PR_LINKAUTH_V_def)

lemma supported_ok: "table_ok (supported_table tls)"
  by (simp add: table_ok_def supported_table_def valid_name_def keyword_char_def TOR_ISALNUM_iff
      byte_between_def range_ok_def)

lemma supported_parses: "get_supported_protocol_list tls = Some (map table_entry (supported_table tls))"
  using parse_table [OF supported_ok, of tls "[]"]
  by (simp add: get_supported_protocol_list_def parse_protocol_list_def supported_text)

subsection \<open>Undefined encodings\<close>

lemma encode_all_ones: "bitmask ent = NOT 0 \<Longrightarrow> proto_entry_encode_into ch ent = None"
proof -
  have "trailing_zeros (NOT 0) = Some 0"
    by (simp add: trailing_zeros_def upt_conv_Cons bit_not_iff)
  moreover have "trailing_zeros 0 = None" by (simp add: trailing_zeros_def)
  ultimately show "bitmask ent = NOT 0 \<Longrightarrow> ?thesis"
    by (simp add: proto_entry_encode_into_def encode_loop.simps [of "- 1"] del: encode_loop.simps)
qed

lemma encode_entries_undefined:
  "ent \<in> set es \<Longrightarrow> bitmask ent = NOT 0 \<Longrightarrow> encode_entries es sep ch = None"
  by (induction es arbitrary: sep ch) (auto simp: encode_all_ones split: option.splits)

text \<open>C31: Encoding and parsing subprotocol lists (proto_entry_encode_into, encode_protocol_list,
  parse_protocol_list).  A list of entries with names the parser accepts is encoded into a string
  that parses to the same list, unless some entry has all 64 version bits: then the encoder counts
  the trailing zeros of 0, which is undefined.\<close>

theorem protover_encode_parse:
  assumes "list_all (\<lambda>ent. valid_name (name ent)) es"
  shows "if list_ex (\<lambda>ent. bitmask ent = NOT 0) es then encode_protocol_list es = None
    else \<exists>s. encode_protocol_list es = Some s \<and> parse_protocol_list s = Some es"
proof (cases "list_ex (\<lambda>ent. bitmask ent = NOT 0) es")
  case True
  then obtain ent where "ent \<in> set es" "bitmask ent = NOT 0" by (auto simp: list_ex_iff)
  then show ?thesis using True encode_entries_undefined by (simp add: encode_protocol_list_def)
next
  case False
  then have "list_all encodable es" using assms by (auto simp: list_all_iff list_ex_iff encodable_def)
  then show ?thesis using False encode_parse by simp
qed

theorem protover_encode_parse_witness:
  "\<exists>s. encode_protocol_list [\<lparr>name = ''A-1'', bitmask = 6\<rparr>] = Some s
    \<and> parse_protocol_list s = Some [\<lparr>name = ''A-1'', bitmask = 6\<rparr>]"
  using protover_encode_parse [of "[\<lparr>name = ''A-1'', bitmask = 6\<rparr>]"]
  by (simp add: valid_name_def keyword_char_def TOR_ISALNUM_iff byte_between_def)

theorem protover_vote_threshold_witness:
  "\<exists>out. protover_compute_vote [''Link=1-2'', ''Link=2 Cons=1'', '','' ] 2 = Some out
    \<and> lists out ''Link'' 2 \<and> \<not> lists out ''Link'' 1"
proof -
  have p: "parse_protocol_list ''Link=1-2'' = Some [\<lparr>name = ''Link'', bitmask = ranges_mask [(1, 2)]\<rparr>]"
    "parse_protocol_list ''Link=2 Cons=1'' =
      Some [\<lparr>name = ''Link'', bitmask = ranges_mask [(2, 2)]\<rparr>, \<lparr>name = ''Cons'', bitmask = ranges_mask [(1, 1)]\<rparr>]"
    using parse_table [of "[(''Link'', [(1, 2)])]" "[]"] parse_table [of "[(''Link'', [(2, 2)]), (''Cons'', [(1, 1)])]" "[]"]
    by (simp_all add: parse_protocol_list_def table_eval table_entry_def table_ok_def valid_name_def
        keyword_char_def TOR_ISALNUM_iff byte_between_def range_ok_def)
  have q: "parse_protocol_list '','' = None"
    by (simp add: parse_protocol_list_def parse_entries.simps [of "'',''"] parse_single_entry_def)
  let ?v = "[''Link=1-2'', ''Link=2 Cons=1'', '','' ]"
  have l: "lists ''Link=1-2'' nm v \<longleftrightarrow> nm = ''Link'' \<and> 1 \<le> v \<and> v \<le> 2"
    "lists ''Link=2 Cons=1'' nm v \<longleftrightarrow> nm = ''Link'' \<and> v = 2 \<or> nm = ''Cons'' \<and> v = 1"
    "\<not> lists '','' nm v" for nm v
    using bit_ranges_mask [of "[(1, 2)]" v] bit_ranges_mask [of "[(2, 2)]" v] bit_ranges_mask [of "[(1, 1)]" v]
    by (auto simp: lists_def p q entries_list_def find_entry_by_name_def range_ok_def)
  have "votes_for ?v nm 5 = 0" for nm by (auto simp: votes_for_def l)
  then have "\<exists>v<64. int (votes_for ?v nm v) < 2" for nm by (intro exI [of _ 5]) simp
  then obtain out where "protover_compute_vote ?v 2 = Some out"
    "\<And>nm v. lists out nm v \<longleftrightarrow> v < 64 \<and> 2 \<le> int (votes_for ?v nm v)"
    using protover_vote_threshold [of ?v 2] by auto
  then show ?thesis by (auto simp: votes_for_def l)
qed

text \<open>C37: The other case of protover_compute_vote: when some protocol gets the threshold for each of
  its 64 versions, the computation of the vote is undefined (the encoder shifts and counts past the
  word).  A single authority that lists 0-63 is enough for a threshold of one.\<close>

theorem protover_vote_undefined:
  assumes "length votes < 256" "0 < threshold" "\<And>v. v < 64 \<Longrightarrow> threshold \<le> int (votes_for votes nm v)"
  shows "protover_compute_vote votes threshold = None"
proof -
  obtain ns ps where v: "vote_names_and_lists votes = (ns, ps)" by fastforce
  let ?es = "vote_entries ps threshold (sort ns)"
  note r = vote_result [OF assms(1,2) v]
  have "entries_list ?es nm 0" using r(3) [of nm 0] assms(3) [of 0] by simp
  then obtain ent where ent: "ent \<in> set ?es" "name ent = nm"
    using entries_list_bits [of ?es nm 0] by auto
  have "bitmask ent = NOT 0"
    by (rule bit_word_eqI) (use r(4) [OF ent(1)] ent(2) assms(3) in \<open>simp add: bit_not_iff\<close>)
  then have "encode_protocol_list ?es = None"
    using encode_entries_undefined [OF ent(1)] by (simp add: encode_protocol_list_def)
  moreover have "votes \<noteq> []" using assms(3) [of 0] assms(2) by (auto simp: votes_for_def)
  ultimately show ?thesis using v by (simp add: protover_compute_vote_def)
qed

lemma digit_chars2: "digit_char 6 = CHR ''6''" "digit_char 0 = CHR ''0''"
  by (simp_all add: digit_char_def char_of_def bit_iff_odd)

theorem protover_vote_undefined_witness: "protover_compute_vote [''A=0-63''] 1 = None"
proof -
  have "parse_protocol_list ''A=0-63'' = Some [\<lparr>name = ''A'', bitmask = ranges_mask [(0, 63)]\<rparr>]"
    using parse_table [of "[(''A'', [(0, 63)])]" "[]"]
    by (simp add: parse_protocol_list_def table_eval decimal.simps [of 63] digit_chars2 table_entry_def table_ok_def valid_name_def
        keyword_char_def TOR_ISALNUM_iff byte_between_def range_ok_def)
  then have "lists ''A=0-63'' ''A'' v" if "v < 64" for v
    using that bit_ranges_mask [of "[(0, 63)]" v]
    by (auto simp: lists_def entries_list_def find_entry_by_name_def range_ok_def)
  then show ?thesis using protover_vote_undefined [of "[''A=0-63'']" 1 "''A''"] by (simp add: votes_for_def)
qed

subsection \<open>What this version supports\<close>

definition supported_ranges :: "bool \<Rightarrow> protocol_type \<Rightarrow> (nat \<times> nat) list" where
  "supported_ranges tls pr = the (map_of (supported_table tls) (protocol_type_to_str pr))"

lemma supported_entry:
  "find_entry_by_name (map table_entry (supported_table tls)) (protocol_type_to_str pr) =
     Some \<lparr>name = protocol_type_to_str pr, bitmask = ranges_mask (supported_ranges tls pr)\<rparr>"
  by (cases pr) (simp_all add: supported_ranges_def supported_table_def protocol_type_to_str_def
      PROTOCOL_NAMES_def find_entry_by_name_def table_entry_def)

lemma supported_ranges_text:
  "protover_get_supported tls pr = ranges_text True (supported_ranges tls pr) \<and> supported_ranges tls pr \<noteq> []
   \<and> list_all range_ok (supported_ranges tls pr)"
  by (cases pr) (simp_all add: supported_ranges_def supported_table_def protocol_type_to_str_def
      PROTOCOL_NAMES_def table_eval PR_LINKAUTH_V_def range_ok_def)

text \<open>The two places that say what this version speaks agree: protover_is_supported_here looks a
  protocol up in the list of protover_get_supported_protocols, and says yes exactly for the versions
  in the ranges that protover_get_supported returns for the protocol (which parse).\<close>

theorem protover_supported_here_agrees:
  "\<exists>m. parse_ranges (protover_get_supported tls pr) (length (protover_get_supported tls pr)) 0 = Some m
     \<and> (\<forall>v. protover_is_supported_here tls pr v = (v < 64 \<and> bit m v))"
proof -
  note s = supported_ranges_text [of tls pr]
  have "parse_ranges (protover_get_supported tls pr) (length (protover_get_supported tls pr)) 0
    = Some (ranges_mask (supported_ranges tls pr))"
    using parse_ranges_text [of "supported_ranges tls pr" "[]" 0] s by simp
  moreover have "protover_is_supported_here tls pr v = (v < 64 \<and> bit (ranges_mask (supported_ranges tls pr)) v)" for v
    by (auto simp: protover_is_supported_here_def supported_parses protocol_list_contains_def supported_entry
        MAX_PROTOCOL_VERSION_def bit_and_BIT)
  ultimately show ?thesis by blast
qed

lemma protover_missing_concat:
  "protover_missing tls es = concat (map (missing_entry (get_supported_protocol_list tls)) es)"
  by (induction es rule: rev_induct) (simp_all add: protover_missing_def)

definition supported :: "bool \<Rightarrow> cstring \<Rightarrow> nat \<Rightarrow> bool" where
  "supported tls nm v = lists (protover_get_supported_protocols tls) nm v"

lemma word_zero_bits: "w = 0 \<longleftrightarrow> (\<forall>v. \<not> bit (w :: 64 word) v)"
  by (metis bit_0_eq bot_apply bot_bool_def bit_eqI)

lemma missing_entry_bits:
  "m \<in> set (missing_entry (get_supported_protocol_list tls) ent) \<Longrightarrow>
     name m = name ent \<and> bitmask m \<noteq> 0 \<and> (\<forall>v. bit (bitmask m) v \<longleftrightarrow> bit (bitmask ent) v \<and> \<not> supported tls (name ent) v)"
  "missing_entry (get_supported_protocol_list tls) ent = []
     \<longleftrightarrow> (\<forall>v. bit (bitmask ent) v \<longrightarrow> supported tls (name ent) v)"
  by (auto simp: missing_entry_def supported_parses supported_def lists_def entries_list_def
      get_supported_protocol_list_def [symmetric] Let_def bit_and_iff bit_not_iff bit64 word_zero_bits
      split: option.splits if_splits)

text \<open>Version \<open>v\<close> of protocol \<open>nm\<close> is in some entry of the list.\<close>

definition some_entry :: "proto_entry list \<Rightarrow> cstring \<Rightarrow> nat \<Rightarrow> bool" where
  "some_entry es nm v \<longleftrightarrow> list_ex (\<lambda>ent. name ent = nm \<and> bit (bitmask ent) v) es"

lemma missing_bits:
  "some_entry (protover_missing tls es) nm v \<longleftrightarrow> some_entry es nm v \<and> \<not> supported tls nm v"
proof (induction es)
  case (Cons ent es)
  have "some_entry (missing_entry (get_supported_protocol_list tls) ent) nm v
    \<longleftrightarrow> name ent = nm \<and> bit (bitmask ent) v \<and> \<not> supported tls nm v"
  proof (cases "missing_entry (get_supported_protocol_list tls) ent")
    case Nil
    then show ?thesis using missing_entry_bits(2) [of tls ent] by (auto simp: some_entry_def)
  next
    case (Cons m ms)
    then have "ms = []"
      by (auto simp: missing_entry_def Let_def split: option.splits if_splits)
    with Cons missing_entry_bits(1) [of m tls ent] show ?thesis by (auto simp: some_entry_def)
  qed
  with Cons show ?case by (auto simp: some_entry_def protover_missing_concat)
qed (simp add: some_entry_def protover_missing_def)

lemma missing_valid:
  assumes "m \<in> set (protover_missing tls es)"
  shows "\<exists>ent \<in> set es. name m = name ent \<and> bitmask m \<noteq> 0 \<and> (\<forall>v. bit (bitmask m) v \<longrightarrow> bit (bitmask ent) v)"
  using assms missing_entry_bits(1) by (fastforce simp: protover_missing_concat)

lemma missing_nil:
  "protover_missing tls es = [] \<longleftrightarrow> \<not> (\<exists>nm v. some_entry es nm v \<and> \<not> supported tls nm v)"
proof -
  have "protover_missing tls es = [] \<longleftrightarrow> (\<forall>nm v. \<not> some_entry (protover_missing tls es) nm v)"
  proof (cases "protover_missing tls es")
    case (Cons m ms)
    then show ?thesis using missing_valid [of m tls es] by (auto simp: some_entry_def word_zero_bits)
  qed (simp add: some_entry_def)
  then show ?thesis by (simp add: missing_bits)
qed

text \<open>Protover_all_supported.  A null or unparseable list counts as all supported.  A list that
  parses is all supported exactly when every version in any of its entries is one that this version
  supports; otherwise, if no entry has all 64 versions, *missing_out is set to a list that parses and
  whose entries hold exactly the listed versions that are not supported.\<close>

theorem protover_all_supported_correct:
  "case Option.bind s parse_protocol_list of
     None \<Rightarrow> protover_all_supported tls s = (True, None)
   | Some es \<Rightarrow>
       (fst (protover_all_supported tls s) = (\<not> (\<exists>nm v. some_entry es nm v \<and> \<not> supported tls nm v)))
     \<and> (if fst (protover_all_supported tls s) then snd (protover_all_supported tls s) = None
        else list_ex (\<lambda>ent. bitmask ent = NOT 0) es
          \<or> (\<exists>out ms. snd (protover_all_supported tls s) = Some (Some out) \<and> parse_protocol_list out = Some ms
               \<and> (\<forall>nm v. some_entry ms nm v = (some_entry es nm v \<and> \<not> supported tls nm v))))"
proof (cases "Option.bind s parse_protocol_list")
  case None
  then show ?thesis by (cases s) (auto simp: protover_all_supported_def)
next
  case (Some es)
  then obtain str where s: "s = Some str" "parse_protocol_list str = Some es" by (cases s) auto
  let ?ms = "protover_missing tls es"
  have r: "protover_all_supported tls s = (?ms = [], if ?ms = [] then None else Some (encode_protocol_list ?ms))"
    by (simp add: protover_all_supported_def s Let_def)
  have "\<exists>out. encode_protocol_list ?ms = Some out \<and> parse_protocol_list out = Some ?ms"
    if no: "\<not> list_ex (\<lambda>ent. bitmask ent = NOT 0) es"
  proof (rule encode_parse, unfold list_all_iff, intro ballI)
    fix m assume "m \<in> set ?ms"
    then obtain ent where ent: "ent \<in> set es" "name m = name ent" "\<forall>v. bit (bitmask m) v \<longrightarrow> bit (bitmask ent) v"
      using missing_valid by blast
    have "bitmask m \<noteq> NOT 0"
    proof
      assume "bitmask m = NOT 0"
      then have "bitmask ent = NOT 0" using ent(3) by (intro bit_word_eqI) (simp add: bit_not_iff)
      with ent(1) no show False by (auto simp: list_ex_iff)
    qed
    then show "encodable m" using parse_protocol_list_valid [OF s(2) ent(1)] ent(2) by (simp add: encodable_def)
  qed
  then show ?thesis using missing_nil [of tls es] missing_bits [of tls es] by (auto simp: Some r)
qed

subsection \<open>The hardwired lists\<close>

definition recommended_client_table :: range_table where
  "recommended_client_table =
     [(''Cons'', [(2, 2)]), (''Desc'', [(2, 2)]), (''DirCache'', [(2, 2)]), (''FlowCtrl'', [(1, 2)]),
      (''HSDir'', [(2, 2)]), (''HSIntro'', [(4, 4)]), (''HSRend'', [(2, 2)]), (''Link'', [(4, 5)]),
      (''Microdesc'', [(2, 2)]), (''Relay'', [(2, 4)])]"

definition relay_table :: range_table where
  "relay_table =
     [(''Cons'', [(2, 2)]), (''Desc'', [(2, 2)]), (''DirCache'', [(2, 2)]), (''FlowCtrl'', [(1, 2)]),
      (''HSDir'', [(2, 2)]), (''HSIntro'', [(4, 5)]), (''HSRend'', [(2, 2)]), (''Link'', [(4, 5)]),
      (''LinkAuth'', [(3, 3)]), (''Microdesc'', [(2, 2)]), (''Relay'', [(2, 4)])]"

definition required_client_table :: range_table where
  "required_client_table =
     [(''Cons'', [(2, 2)]), (''Desc'', [(2, 2)]), (''FlowCtrl'', [(1, 1)]), (''Link'', [(4, 4)]),
      (''Microdesc'', [(2, 2)]), (''Relay'', [(2, 2)])]"

lemmas table_defs = recommended_client_table_def relay_table_def required_client_table_def

lemma hardwired_text:
  "protover_get_recommended_client_protocols = table_text recommended_client_table"
  "protover_get_recommended_relay_protocols = table_text relay_table"
  "protover_get_required_client_protocols = table_text required_client_table"
  "protover_get_required_relay_protocols = table_text relay_table"
  by (simp_all add: protover_get_recommended_client_protocols_def protover_get_recommended_relay_protocols_def
      protover_get_required_client_protocols_def protover_get_required_relay_protocols_def table_defs table_eval)

text \<open>A table within the supported one: each range is within a supported range.\<close>

definition within_supported :: "bool \<Rightarrow> range_table \<Rightarrow> bool" where
  "within_supported tls tbl \<longleftrightarrow> table_ok tbl \<and>
     list_all (\<lambda>(nm, rs). case map_of (supported_table tls) nm of None \<Rightarrow> False
       | Some ss \<Rightarrow> list_all (\<lambda>r. list_ex (\<lambda>s. fst s \<le> fst r \<and> snd r \<le> snd s) ss) rs) tbl"

lemma find_table_entry:
  "find_entry_by_name (map table_entry tbl) nm =
     (case map_of tbl nm of None \<Rightarrow> None | Some rs \<Rightarrow> Some (table_entry (nm, rs)))"
  by (induction tbl) (auto simp: find_entry_by_name_def table_entry_def)

lemma within_all_supported:
  assumes "within_supported tls tbl"
  shows "protover_all_supported tls (Some (table_text tbl)) = (True, None)"
proof -
  have p: "parse_protocol_list (table_text tbl) = Some (map table_entry tbl)"
    using parse_table [of tbl "[]"] assms by (simp add: within_supported_def parse_protocol_list_def)
  have "supported tls nm v" if a: "some_entry (map table_entry tbl) nm v" for nm v
  proof -
    obtain rs where rs: "(nm, rs) \<in> set tbl" "bit (ranges_mask rs) v"
      using a by (auto simp: some_entry_def list_ex_iff table_entry_def)
    then obtain ss where ss: "map_of (supported_table tls) nm = Some ss"
      "list_all (\<lambda>r. list_ex (\<lambda>s. fst s \<le> fst r \<and> snd r \<le> snd s) ss) rs" "list_all range_ok rs"
      using assms by (auto simp: within_supported_def table_ok_def list_all_iff split: option.splits)
    have "list_all range_ok ss"
      using supported_ok [of tls] map_of_SomeD [OF ss(1)] by (auto simp: table_ok_def list_all_iff)
    moreover obtain r where r: "r \<in> set rs" "fst r \<le> v" "v \<le> snd r"
      using rs(2) bit_ranges_mask [OF ss(3)] by (auto simp: list_ex_iff)
    then obtain s where "s \<in> set ss" "fst s \<le> fst r" "snd r \<le> snd s"
      using ss(2) by (auto simp: list_all_iff list_ex_iff)
    then have "list_ex (\<lambda>s. fst s \<le> v \<and> v \<le> snd s) ss"
      using r by (auto simp: list_ex_iff intro!: bexI [of _ s])
    ultimately show ?thesis
      by (simp add: supported_def lists_def get_supported_protocol_list_def [symmetric] supported_parses
          entries_list_def find_table_entry ss(1) table_entry_def bit_ranges_mask)
  qed
  then have "protover_missing tls (map table_entry tbl) = []" by (simp add: missing_nil)
  then show ?thesis by (simp add: protover_all_supported_def p Let_def)
qed

text \<open>This version supports every protocol version that it recommends or requires, for clients and
  for relays, with either build of the TLS secrets: protover_all_supported says yes to each of the
  four hardwired lists, so that voting for them does not make its own nodes warn or shut down.\<close>

theorem protover_hardwired_lists_supported:
  "list_all (\<lambda>s. protover_all_supported tls (Some s) = (True, None))
     [protover_get_recommended_client_protocols, protover_get_recommended_relay_protocols,
      protover_get_required_client_protocols, protover_get_required_relay_protocols]"
proof -
  have "within_supported tls recommended_client_table" "within_supported tls relay_table"
    "within_supported tls required_client_table"
    by (simp_all add: within_supported_def table_ok_def table_defs supported_table_def valid_name_def
        keyword_char_def TOR_ISALNUM_iff byte_between_def range_ok_def)
  then show ?thesis by (simp add: hardwired_text within_all_supported)
qed

text \<open>The two support tests.  For a version up to 63, protocol_list_supports_protocol is true
  exactly when the list parses and the first entry of that exact name has the version, and
  protocol_list_supports_protocol_or_later exactly when some entry whose name differs at most in
  case has that version or a later one; so the first implies the second.\<close>

theorem protocol_list_supports_tests:
  assumes "v \<le> 63"
  shows "protocol_list_supports_protocol s pr v = lists s (protocol_type_to_str pr) v
    \<and> protocol_list_supports_protocol_or_later s pr v =
      Some (case parse_protocol_list s of None \<Rightarrow> False
        | Some es \<Rightarrow> list_ex (\<lambda>ent. strcasecmp_eq (name ent) (protocol_type_to_str pr)
                       \<and> list_ex (\<lambda>w. bit (bitmask ent) w) [v..<64]) es)
    \<and> (protocol_list_supports_protocol s pr v \<longrightarrow> protocol_list_supports_protocol_or_later s pr v = Some True)"
    (is "?one \<and> ?two \<and> (?p \<longrightarrow> _)")
proof (intro conjI impI)
  have le: "i \<le> 63" if "bit w i" for w :: "64 word" and i using bit64 [OF that] by simp
  have later: "(w AND bitmask_for_range v 63 \<noteq> 0) = list_ex (\<lambda>i. bit w i) [v..<64]" for w :: "64 word"
    using assms by (auto simp: word_zero_bits bit_and_iff bit_bitmask_for_range list_ex_iff dest: le)
  have d: "bitmask_defined v 63" using assms by (simp add: bitmask_defined_def)
  show 1: ?one
    using assms by (auto simp: protocol_list_supports_protocol_def lists_def entries_list_def
        protocol_list_contains_def MAX_PROTOCOL_VERSION_def bit_and_BIT split: option.splits)
  show 2: ?two
    by (simp add: protocol_list_supports_protocol_or_later_def d later split: option.splits)
  assume ?p
  then obtain es ent where e: "parse_protocol_list s = Some es" "ent \<in> set es"
    "name ent = protocol_type_to_str pr" "bit (bitmask ent) v"
    using find_entry_Some unfolding 1 lists_def entries_list_def by (fastforce split: option.splits)
  then have "list_ex (\<lambda>w. bit (bitmask ent) w) [v..<64]" using assms by (auto simp: list_ex_iff)
  with e show "protocol_list_supports_protocol_or_later s pr v = Some True"
    unfolding 2 by (auto simp: list_ex_iff [of _ es] strcasecmp_eq_def intro!: bexI [of _ ent])
qed

theorem protocol_list_supports_tests_witness:
  "protocol_list_supports_protocol_or_later ''hsdir=2'' PRT_HSDIR 2 = Some True
   \<and> \<not> protocol_list_supports_protocol ''hsdir=2'' PRT_HSDIR 2"
proof -
  have p: "parse_protocol_list ''hsdir=2'' = Some [\<lparr>name = ''hsdir'', bitmask = ranges_mask [(2, 2)]\<rparr>]"
    using parse_table [of "[(''hsdir'', [(2, 2)])]" "[]"]
    by (simp add: parse_protocol_list_def table_eval table_entry_def table_ok_def valid_name_def
        keyword_char_def TOR_ISALNUM_iff byte_between_def range_ok_def)
  have b: "bit (ranges_mask [(2, 2)]) 2" by (simp add: bit_bitmask_for_range)
  have l: "map TOR_TOLOWER ''HSDir'' = map TOR_TOLOWER ''hsdir''"
    by (simp add: TOR_TOLOWER_iff TOR_ISUPPER_iff byte_between_def char_of_def bit_iff_odd)
  show ?thesis
    using protocol_list_supports_tests [of 2 "''hsdir=2''" PRT_HSDIR] b l
    by (simp add: p lists_def entries_list_def find_entry_by_name_def protocol_type_to_str_def PROTOCOL_NAMES_def
        strcasecmp_eq_def list_ex_iff del: list.map ranges_mask.simps)
qed

end
