(* ===== verification/Buffers.thy ===== *)
theory Buffers
  imports Prelude Smartlist
begin

text \<open>
  The chunked byte queue of lib/buf/buffers.c.  A buffer is its list of chunks (the head and
  tail pointers are the ends of the list) with the stored length; a chunk has its memory, whose bytes
  are \<open>None\<close> until something is written there, the offset of its data in that memory and the
  length of the data.  An operation gives \<open>None\<close> when an assertion fails, memory is accessed out of
  bounds or a loop makes no progress.  Sizes are those of an LP64 platform; the global count of
  allocated bytes is left out, and the time stamp of a new chunk is an argument.
\<close>

type_synonym memory = "byte option list"

record chunk =
  ch_datalen :: nat
  ch_memlen :: nat
  ch_data :: nat
  ch_inserted_time :: "32 word"
  ch_mem :: memory

record buf =
  b_datalen :: nat
  b_default_chunk_size :: nat
  b_chunks :: "chunk list"

definition INT_MAX :: nat where "INT_MAX = 2147483647"
definition BUF_MAX_LEN :: nat where "BUF_MAX_LEN = INT_MAX - 1"
definition SIZE_T_CEILING :: nat where "SIZE_T_CEILING = 9223372036854775807 - 16"
definition SENTINEL_LEN :: nat where "SENTINEL_LEN = 4"
definition CHUNK_HEADER_LEN :: nat where "CHUNK_HEADER_LEN = 44"
definition CHUNK_OVERHEAD :: nat where "CHUNK_OVERHEAD = CHUNK_HEADER_LEN + SENTINEL_LEN"
definition CHUNK_ALLOC_SIZE :: "nat \<Rightarrow> nat" where "CHUNK_ALLOC_SIZE memlen = CHUNK_OVERHEAD + memlen"
definition CHUNK_SIZE_WITH_ALLOC :: "nat \<Rightarrow> nat" where "CHUNK_SIZE_WITH_ALLOC memlen = memlen - CHUNK_OVERHEAD"
definition MIN_CHUNK_ALLOC :: nat where "MIN_CHUNK_ALLOC = 256"
definition MAX_CHUNK_ALLOC :: nat where "MAX_CHUNK_ALLOC = 65536"
definition PEEK_BUF_STARTSWITH_MAX :: nat where "PEEK_BUF_STARTSWITH_MAX = 16"

subsection \<open>Chunks\<close>

text \<open>The bytes stored in a chunk, and a copy into memory at an offset (\<open>None\<close> out of bounds).\<close>

definition chunk_bytes :: "chunk \<Rightarrow> memory" where
  "chunk_bytes ch = take (ch_datalen ch) (drop (ch_data ch) (ch_mem ch))"

definition memcpy_at :: "memory \<Rightarrow> nat \<Rightarrow> memory \<Rightarrow> memory option" where
  "memcpy_at m off src =
     (if off + length src \<le> length m then Some (take off m @ src @ drop (off + length src) m) else None)"

definition CHUNK_REMAINING_CAPACITY :: "chunk \<Rightarrow> nat" where
  "CHUNK_REMAINING_CAPACITY ch = ch_memlen ch - (ch_data ch + ch_datalen ch)"

definition CHUNK_WRITE_PTR :: "chunk \<Rightarrow> nat" where
  "CHUNK_WRITE_PTR ch = ch_data ch + ch_datalen ch"

text \<open>\<open>memcpy(CHUNK_WRITE_PTR(chunk), src, n); chunk->datalen += n\<close>.\<close>

definition chunk_append :: "chunk \<Rightarrow> memory \<Rightarrow> chunk option" where
  "chunk_append ch src =
     map_option (\<lambda>m. ch\<lparr>ch_mem := m, ch_datalen := ch_datalen ch + length src\<rparr>)
       (memcpy_at (ch_mem ch) (CHUNK_WRITE_PTR ch) src)"

definition chunk_repack :: "chunk \<Rightarrow> chunk option" where
  "chunk_repack ch =
     map_option (\<lambda>m. ch\<lparr>ch_mem := m, ch_data := 0\<rparr>)
       (if ch_datalen ch \<noteq> 0 \<and> ch_data ch \<noteq> 0 then memcpy_at (ch_mem ch) 0 (chunk_bytes ch)
        else Some (ch_mem ch))"

definition chunk_new_with_alloc_size :: "nat \<Rightarrow> chunk" where
  "chunk_new_with_alloc_size alloc =
     \<lparr>ch_datalen = 0, ch_memlen = CHUNK_SIZE_WITH_ALLOC alloc, ch_data = 0, ch_inserted_time = 0,
      ch_mem = replicate (CHUNK_SIZE_WITH_ALLOC alloc) None\<rparr>"

definition chunk_grow :: "chunk \<Rightarrow> nat \<Rightarrow> chunk option" where
  "chunk_grow ch sz =
     (if \<not> sz > ch_memlen ch then None
      else Some (ch\<lparr>ch_memlen := sz, ch_mem := ch_mem ch @ replicate (sz - ch_memlen ch) None\<rparr>))"

function chunk_size_loop :: "nat \<Rightarrow> nat \<Rightarrow> nat" where
  "chunk_size_loop target sz =
     (if sz \<noteq> 0 \<and> CHUNK_SIZE_WITH_ALLOC sz < target then chunk_size_loop target (2 * sz) else sz)"
  by pat_completeness auto
termination
  by (relation "measure (\<lambda>(target, sz). target + CHUNK_OVERHEAD - sz)")
    (auto simp: CHUNK_SIZE_WITH_ALLOC_def)

declare chunk_size_loop.simps [simp del]

definition buf_preferred_chunk_size :: "nat \<Rightarrow> nat option" where
  "buf_preferred_chunk_size target =
     (if \<not> target \<le> SIZE_T_CEILING - CHUNK_OVERHEAD then None
      else if CHUNK_ALLOC_SIZE target \<ge> MAX_CHUNK_ALLOC then Some (CHUNK_ALLOC_SIZE target)
      else Some (chunk_size_loop target MIN_CHUNK_ALLOC))"

definition chunk_copy :: "chunk \<Rightarrow> chunk" where
  "chunk_copy in_chunk = in_chunk"

subsection \<open>Buffers\<close>

definition buf_new :: buf where
  "buf_new = \<lparr>b_datalen = 0, b_default_chunk_size = 4096, b_chunks = []\<rparr>"

definition buf_new_with_capacity :: "nat \<Rightarrow> buf option" where
  "buf_new_with_capacity sz =
     map_option (\<lambda>n. buf_new\<lparr>b_default_chunk_size := n\<rparr>) (buf_preferred_chunk_size sz)"

definition buf_get_default_chunk_size :: "buf \<Rightarrow> nat" where
  "buf_get_default_chunk_size b = b_default_chunk_size b"

definition buf_datalen :: "buf \<Rightarrow> nat" where
  "buf_datalen b = b_datalen b"

definition buf_clear :: "buf \<Rightarrow> buf" where
  "buf_clear b = b\<lparr>b_datalen := 0, b_chunks := []\<rparr>"

definition buf_allocation :: "buf \<Rightarrow> nat" where
  "buf_allocation b = sum_list (map (\<lambda>ch. CHUNK_ALLOC_SIZE (ch_memlen ch)) (b_chunks b))"

definition buf_slack :: "buf \<Rightarrow> nat" where
  "buf_slack b = (if b_chunks b = [] then 0 else CHUNK_REMAINING_CAPACITY (last (b_chunks b)))"

definition buf_copy :: "buf \<Rightarrow> buf" where
  "buf_copy b =
     \<lparr>b_datalen = b_datalen b, b_default_chunk_size = b_default_chunk_size b,
      b_chunks = map chunk_copy (b_chunks b)\<rparr>"

definition buf_set_to_copy :: "buf option \<Rightarrow> buf \<Rightarrow> buf option" where
  "buf_set_to_copy out inp = Some (buf_copy inp)"

definition buf_get_oldest_chunk_timestamp :: "buf \<Rightarrow> 32 word \<Rightarrow> 32 word" where
  "buf_get_oldest_chunk_timestamp b now =
     (case b_chunks b of [] \<Rightarrow> 0 | ch # _ \<Rightarrow> now - ch_inserted_time ch)"

definition buf_add_chunk_with_capacity :: "32 word \<Rightarrow> buf \<Rightarrow> nat \<Rightarrow> bool \<Rightarrow> buf option" where
  "buf_add_chunk_with_capacity now b capacity capped =
     map_option (\<lambda>alloc. b\<lparr>b_chunks := b_chunks b @ [(chunk_new_with_alloc_size alloc)\<lparr>ch_inserted_time := now\<rparr>]\<rparr>)
       (if CHUNK_ALLOC_SIZE capacity < b_default_chunk_size b then Some (b_default_chunk_size b)
        else if capped \<and> CHUNK_ALLOC_SIZE capacity > MAX_CHUNK_ALLOC then Some MAX_CHUNK_ALLOC
        else buf_preferred_chunk_size capacity)"

text \<open>The loop of \<open>buf_add\<close>; a tail without room after a chunk was added would loop for ever.\<close>

definition add_room :: "32 word \<Rightarrow> buf \<Rightarrow> nat \<Rightarrow> buf option" where
  "add_room now b len =
     (if b_chunks b = [] \<or> CHUNK_REMAINING_CAPACITY (last (b_chunks b)) = 0
      then buf_add_chunk_with_capacity now b len True else Some b)"

function add_loop :: "32 word \<Rightarrow> buf \<Rightarrow> bytes \<Rightarrow> buf option" where
  "add_loop now b s =
     (if s = [] then Some b
      else case add_room now b (length s) of
        None \<Rightarrow> None
      | Some b1 \<Rightarrow>
          if b_chunks b1 = [] then None
          else
            let tail = last (b_chunks b1);
                copy = min (CHUNK_REMAINING_CAPACITY tail) (length s) in
            if copy = 0 then None
            else case chunk_append tail (map Some (take copy s)) of
              None \<Rightarrow> None
            | Some tail \<Rightarrow>
                add_loop now (b1\<lparr>b_datalen := b_datalen b1 + copy, b_chunks := butlast (b_chunks b1) @ [tail]\<rparr>)
                  (drop copy s))"
  by pat_completeness auto
termination
  by (relation "measure (\<lambda>(now, b, s). length s)") auto

declare add_loop.simps [simp del]

text \<open>The length guard subtracts in \<open>size_t\<close>.\<close>

definition buf_add :: "32 word \<Rightarrow> buf \<Rightarrow> bytes \<Rightarrow> (int \<times> buf) option" where
  "buf_add now b s =
     (if s = [] then Some (int (b_datalen b), b)
      else if b_datalen b > BUF_MAX_LEN then Some (- 1, b)
      else if int (b_datalen b) > (int BUF_MAX_LEN - int (length s)) mod 2 ^ 64 then Some (- 1, b)
      else case add_loop now b s of
        None \<Rightarrow> None
      | Some b \<Rightarrow> if \<not> b_datalen b \<le> BUF_MAX_LEN then None else Some (int (b_datalen b), b))"

definition buf_add_string :: "32 word \<Rightarrow> buf \<Rightarrow> cstring \<Rightarrow> buf option" where
  "buf_add_string now b s = map_option snd (buf_add now b (map of_char s))"

fun peek_loop :: "chunk list \<Rightarrow> nat \<Rightarrow> memory option" where
  "peek_loop chunks 0 = Some []"
| "peek_loop [] (Suc n) = None"
| "peek_loop (ch # chunks) (Suc n) =
     (let copy = min (ch_datalen ch) (Suc n) in
      map_option (\<lambda>rest. take copy (chunk_bytes ch) @ rest) (peek_loop chunks (Suc n - copy)))"

definition buf_peek :: "buf \<Rightarrow> nat \<Rightarrow> memory option" where
  "buf_peek b n = (if \<not> n \<le> b_datalen b then None else peek_loop (b_chunks b) n)"

definition buf_extract :: "buf \<Rightarrow> (memory \<times> nat) option" where
  "buf_extract b =
     (let sz = buf_datalen b in
      map_option (\<lambda>result. (result @ [Some 0], sz)) (buf_peek b sz))"

text \<open>The loop of \<open>buf_drain\<close>, on the stored length and the chunks.\<close>

fun drain_loop :: "nat \<Rightarrow> chunk list \<Rightarrow> nat \<Rightarrow> (nat \<times> chunk list) option" where
  "drain_loop dl chunks 0 = Some (dl, chunks)"
| "drain_loop dl [] (Suc n) = None"
| "drain_loop dl (ch # chunks) (Suc n) =
     (if ch_datalen ch > Suc n then
        Some (dl - Suc n, ch\<lparr>ch_datalen := ch_datalen ch - Suc n, ch_data := ch_data ch + Suc n\<rparr> # chunks)
      else drain_loop (dl - ch_datalen ch) chunks (Suc n - ch_datalen ch))"

definition buf_drain :: "buf \<Rightarrow> nat \<Rightarrow> buf option" where
  "buf_drain b n =
     (if \<not> b_datalen b \<ge> n then None
      else map_option (\<lambda>(dl, chunks). b\<lparr>b_datalen := dl, b_chunks := chunks\<rparr>)
             (drain_loop (b_datalen b) (b_chunks b) n))"

definition buf_get_bytes :: "buf \<Rightarrow> nat \<Rightarrow> (int \<times> memory \<times> buf) option" where
  "buf_get_bytes b n =
     do {
       out \<leftarrow> buf_peek b n;
       b \<leftarrow> buf_drain b n;
       if \<not> b_datalen b \<le> BUF_MAX_LEN then None else Some (int (b_datalen b), out, b)
     }"

text \<open>
  \<open>buf_move_to_buf\<close>, for two different buffers: the return value and the new \<open>*buf_flushlen\<close>.
  The bytes taken out of a buffer are initialised when the buffer is well formed; copying an
  indeterminate byte to another buffer is \<open>None\<close> here.
\<close>

fun known_bytes :: "memory \<Rightarrow> bytes option" where
  "known_bytes [] = Some []"
| "known_bytes (None # m) = None"
| "known_bytes (Some x # m) = map_option (\<lambda>xs. x # xs) (known_bytes m)"

function move_loop :: "32 word \<Rightarrow> buf \<Rightarrow> buf \<Rightarrow> nat \<Rightarrow> (buf \<times> buf) option" where
  "move_loop now buf_out buf_in len =
     (if len = 0 then Some (buf_out, buf_in)
      else let n = (if len > 4096 then 4096 else len) in
        do {
          (r, b, buf_in) \<leftarrow> buf_get_bytes buf_in n;
          b \<leftarrow> known_bytes b;
          (r, buf_out) \<leftarrow> buf_add now buf_out b;
          move_loop now buf_out buf_in (len - n)
        })"
  by pat_completeness auto
termination
  by (relation "measure (\<lambda>(now, buf_out, buf_in, len). len)") auto

declare move_loop.simps [simp del]

definition buf_move_to_buf :: "32 word \<Rightarrow> buf \<Rightarrow> buf \<Rightarrow> nat \<Rightarrow> (int \<times> nat \<times> buf \<times> buf) option" where
  "buf_move_to_buf now buf_out buf_in buf_flushlen =
     (if b_datalen buf_out > BUF_MAX_LEN \<or> buf_flushlen > BUF_MAX_LEN then Some (- 1, buf_flushlen, buf_out, buf_in)
      else if b_datalen buf_out > BUF_MAX_LEN - buf_flushlen then Some (- 1, buf_flushlen, buf_out, buf_in)
      else
        let len = min buf_flushlen (b_datalen buf_in); cp = len in
        if \<not> cp \<le> BUF_MAX_LEN then None
        else map_option (\<lambda>(buf_out, buf_in). (int cp, buf_flushlen - cp, buf_out, buf_in))
               (move_loop now buf_out buf_in len))"

text \<open>\<open>buf_move_all\<close>, for a non-null \<open>buf_in\<close>.\<close>

definition buf_move_all :: "buf \<Rightarrow> buf \<Rightarrow> nat \<times> buf \<times> buf" where
  "buf_move_all buf_out buf_in =
     (if buf_datalen buf_in = 0 then (0, buf_out, buf_in)
      else if b_datalen buf_out > BUF_MAX_LEN \<or> b_datalen buf_in > BUF_MAX_LEN then (0, buf_out, buf_in)
      else if b_datalen buf_out > BUF_MAX_LEN - b_datalen buf_in then (0, buf_out, buf_in)
      else (b_datalen buf_in,
            buf_out\<lparr>b_chunks := b_chunks buf_out @ b_chunks buf_in, b_datalen := b_datalen buf_out + b_datalen buf_in\<rparr>,
            buf_in\<lparr>b_chunks := [], b_datalen := 0\<rparr>))"

subsection \<open>Pulling up\<close>

text \<open>The loop moves data of the later chunks into the head chunk \<open>dest\<close>.\<close>

fun pullup_loop :: "chunk \<Rightarrow> chunk list \<Rightarrow> nat \<Rightarrow> (chunk \<times> chunk list) option" where
  "pullup_loop dest [] n_bytes = (if ch_datalen dest < n_bytes then None else Some (dest, []))"
| "pullup_loop dest (src # rest) n_bytes =
     (if ch_datalen dest < n_bytes then
        let n = n_bytes - ch_datalen dest in
        if n \<ge> ch_datalen src then
          (case chunk_append dest (chunk_bytes src) of
             None \<Rightarrow> None
           | Some dest \<Rightarrow> pullup_loop dest rest n_bytes)
        else
          (case chunk_append dest (take n (chunk_bytes src)) of
             None \<Rightarrow> None
           | Some dest \<Rightarrow>
               let src = src\<lparr>ch_data := ch_data src + n, ch_datalen := ch_datalen src - n\<rparr> in
               if ch_datalen dest \<noteq> n_bytes then None else Some (dest, src # rest))
      else Some (dest, src # rest))"

text \<open>Making room in the head.\<close>

definition pullup_head :: "chunk \<Rightarrow> nat \<Rightarrow> chunk option" where
  "pullup_head head capacity =
     (if ch_memlen head \<ge> capacity then
        let needed = capacity - ch_datalen head in
        do {
          head \<leftarrow> if CHUNK_REMAINING_CAPACITY head < needed then chunk_repack head else Some head;
          if \<not> CHUNK_REMAINING_CAPACITY head \<ge> needed then None else Some head
        }
      else
        do {
          head \<leftarrow> chunk_repack head;
          alloc \<leftarrow> buf_preferred_chunk_size capacity;
          newhead \<leftarrow> chunk_grow head (CHUNK_SIZE_WITH_ALLOC alloc);
          if \<not> ch_memlen newhead \<ge> capacity then None else Some newhead
        })"

text \<open>The result: the new buffer and the \<open>*len_out\<close> bytes at \<open>*head_out\<close> (\<open>None\<close> for null).\<close>

definition buf_pullup :: "buf \<Rightarrow> nat \<Rightarrow> (buf \<times> memory option) option" where
  "buf_pullup b n_bytes =
     (case b_chunks b of
        [] \<Rightarrow> Some (b, None)
      | head # rest \<Rightarrow>
          let n_bytes = (if b_datalen b < n_bytes then b_datalen b else n_bytes); capacity = n_bytes in
          if ch_datalen head \<ge> n_bytes then Some (b, Some (chunk_bytes head))
          else do {
            dest \<leftarrow> pullup_head head capacity;
            (dest, rest) \<leftarrow> pullup_loop dest rest n_bytes;
            Some (b\<lparr>b_chunks := dest # rest\<rparr>, Some (chunk_bytes dest))
          })"

subsection \<open>Searching\<close>

text \<open>A position: the chunks from the one pointed into, the offset in its data, the bytes before it.\<close>

record buf_pos =
  p_chunks :: "chunk list"
  p_pos :: nat
  p_chunk_pos :: nat

definition buf_pos_init :: "buf \<Rightarrow> buf_pos" where
  "buf_pos_init b = \<lparr>p_chunks = b_chunks b, p_pos = 0, p_chunk_pos = 0\<rparr>"

text \<open>The results: failed assertion; not found; the position.\<close>

fun find_char_loop :: "byte \<Rightarrow> chunk list \<Rightarrow> nat \<Rightarrow> nat \<Rightarrow> buf_pos option option" where
  "find_char_loop c [] pos chunk_pos = Some None"
| "find_char_loop c (ch # chunks) pos chunk_pos =
     (case memchr (drop pos (chunk_bytes ch)) (Some c) of
        Some i \<Rightarrow>
          if \<not> pos + i \<le> BUF_MAX_LEN then None
          else Some (Some \<lparr>p_chunks = ch # chunks, p_pos = pos + i, p_chunk_pos = chunk_pos\<rparr>)
      | None \<Rightarrow> find_char_loop c chunks 0 (chunk_pos + ch_datalen ch))"

definition buf_find_pos_of_char :: "byte \<Rightarrow> buf_pos \<Rightarrow> buf_pos option option" where
  "buf_find_pos_of_char c p =
     (case p_chunks p of
        [] \<Rightarrow> Some None
      | ch # _ \<Rightarrow>
          if ch_datalen ch \<noteq> 0 \<and> \<not> p_pos p < ch_datalen ch then None
          else if ch_datalen ch = 0 \<and> p_pos p \<noteq> 0 then None
          else find_char_loop c (p_chunks p) (p_pos p) (p_chunk_pos p))"

text \<open>The new position and whether the return value is 0; a null chunk is not asked for.\<close>

definition buf_pos_inc :: "buf_pos \<Rightarrow> (buf_pos \<times> bool) option" where
  "buf_pos_inc p =
     (case p_chunks p of
        [] \<Rightarrow> None
      | ch # chunks \<Rightarrow>
          if \<not> p_pos p < BUF_MAX_LEN then None
          else
            let p = p\<lparr>p_pos := p_pos p + 1\<rparr> in
            if p_pos p = ch_datalen ch then
              (if chunks = [] then Some (p, False)
               else Some (\<lparr>p_chunks = chunks, p_pos = 0, p_chunk_pos = p_chunk_pos p + ch_datalen ch\<rparr>, True))
            else Some (p, True))"

text \<open>\<open>p.chunk->data[p.pos]\<close>: \<open>None\<close> outside the chunk's memory or where nothing was ever written.\<close>

definition char_at :: "buf_pos \<Rightarrow> byte option" where
  "char_at p =
     (case p_chunks p of
        [] \<Rightarrow> None
      | ch # _ \<Rightarrow> if ch_data ch + p_pos p < length (ch_mem ch) then ch_mem ch ! (ch_data ch + p_pos p) else None)"

fun buf_matches_at_pos :: "buf_pos \<Rightarrow> bytes \<Rightarrow> bool option" where
  "buf_matches_at_pos p [] = Some True"
| "buf_matches_at_pos p (x # s) =
     (case char_at p of
        None \<Rightarrow> None
      | Some c \<Rightarrow>
          if c \<noteq> x then Some False
          else if s = [] then Some True
          else (case buf_pos_inc p of
              None \<Rightarrow> None
            | Some (p, ok) \<Rightarrow> if \<not> ok then Some False else buf_matches_at_pos p s))"

definition pos_left :: "buf_pos \<Rightarrow> nat" where
  "pos_left p = sum_list (map (\<lambda>ch. ch_datalen ch + 1) (p_chunks p)) - p_pos p"

lemma find_char_loop_left:
  "find_char_loop c chunks pos cp = Some (Some q) \<Longrightarrow> chunks = [] \<or> pos \<le> ch_datalen (hd chunks) \<Longrightarrow>
     pos_left q \<le> sum_list (map (\<lambda>ch. ch_datalen ch + 1) chunks) - pos
     \<and> (\<exists>ch chs. p_chunks q = ch # chs \<and> p_pos q < ch_datalen ch)"
proof (induction c chunks pos cp rule: find_char_loop.induct)
  case (2 c ch chunks pos cp)
  show ?case
  proof (cases "memchr (drop pos (chunk_bytes ch)) (Some c)")
    case None
    with 2 show ?thesis by auto
  next
    case (Some i)
    have "i < length (drop pos (chunk_bytes ch))" using memchr_Some [OF Some] by simp
    then have "pos + i < ch_datalen ch" by (simp add: chunk_bytes_def)
    with 2 Some show ?thesis by (auto simp: pos_left_def split: if_splits)
  qed
qed simp

lemma pos_inc_left:
  assumes "p_chunks q = ch # chs" "p_pos q < ch_datalen ch" "buf_pos_inc q = Some (r, ok)"
  shows "pos_left r < pos_left q"
  using assms by (auto simp: buf_pos_inc_def pos_left_def Let_def split: if_splits)

function find_string_loop :: "buf_pos \<Rightarrow> byte \<Rightarrow> bytes \<Rightarrow> int option" where
  "find_string_loop pos c s =
     (case buf_find_pos_of_char c pos of
        None \<Rightarrow> None
      | Some None \<Rightarrow> Some (- 1)
      | Some (Some pos) \<Rightarrow>
          (case buf_matches_at_pos pos s of
             None \<Rightarrow> None
           | Some True \<Rightarrow>
               if \<not> p_chunk_pos pos + p_pos pos \<le> BUF_MAX_LEN then None
               else Some (int (p_chunk_pos pos + p_pos pos))
           | Some False \<Rightarrow>
               (case buf_pos_inc pos of
                  None \<Rightarrow> None
                | Some (pos, ok) \<Rightarrow> if \<not> ok then Some (- 1) else find_string_loop pos c s)))"
  by pat_completeness auto
termination
proof (relation "measure (\<lambda>(pos, c, s). pos_left pos)", goal_cases)
  case (2 pos c s r q b z r2 ok)
  then have "find_char_loop c (p_chunks pos) (p_pos pos) (p_chunk_pos pos) = Some (Some q)"
    "p_chunks pos = [] \<or> p_pos pos \<le> ch_datalen (hd (p_chunks pos))"
    by (auto simp: buf_find_pos_of_char_def split: list.splits if_splits)
  from find_char_loop_left [OF this] 2 show ?case
    using pos_inc_left [of q _ _ r2 ok] by (fastforce simp: pos_left_def [of pos])
qed auto

declare find_string_loop.simps [simp del]

text \<open>\<open>*s\<close> is the byte after the argument's end (a NUL of the caller's string) when \<open>n\<close> is 0.\<close>

definition buf_find_string_offset :: "buf \<Rightarrow> bytes \<Rightarrow> int option" where
  "buf_find_string_offset b s = find_string_loop (buf_pos_init b) (if s = [] then 0 else hd s) s"

definition buf_peek_startswith :: "buf \<Rightarrow> cstring \<Rightarrow> bool option" where
  "buf_peek_startswith b cmd =
     (let clen = length cmd in
      if clen = 0 then Some True
      else if clen > PEEK_BUF_STARTSWITH_MAX then Some False
      else if b_datalen b < clen then Some False
      else map_option (\<lambda>tmp. memeq tmp (map (Some \<circ> of_char) cmd) clen) (buf_peek b clen))"

fun find_offset_loop :: "byte \<Rightarrow> chunk list \<Rightarrow> nat \<Rightarrow> int" where
  "find_offset_loop c [] offset = - 1"
| "find_offset_loop c (ch # chunks) offset =
     (case memchr (chunk_bytes ch) (Some c) of
        Some i \<Rightarrow> int (offset + i)
      | None \<Rightarrow> find_offset_loop c chunks (offset + ch_datalen ch))"

definition buf_find_offset_of_char :: "buf \<Rightarrow> byte \<Rightarrow> int option" where
  "buf_find_offset_of_char b c =
     (if \<not> b_datalen b \<le> BUF_MAX_LEN then None else Some (find_offset_loop c (b_chunks b) 0))"

text \<open>The return value, the bytes written to \<open>data_out\<close>, the new \<open>*data_len\<close> and the buffer.\<close>

definition buf_get_line :: "buf \<Rightarrow> nat \<Rightarrow> (int \<times> memory \<times> nat \<times> buf) option" where
  "buf_get_line b data_len =
     (if b_chunks b = [] then Some (0, [], data_len, b)
      else do {
        offset \<leftarrow> buf_find_offset_of_char b 10;
        if offset < 0 then Some (0, [], data_len, b)
        else
          let sz = nat offset in
          if sz + 2 > data_len then Some (- 1, [], sz + 2, b)
          else do {
            (r, out, b) \<leftarrow> buf_get_bytes b (sz + 1);
            Some (1, out @ [Some 0], sz + 1, b)
          }
      })"

text \<open>The assertions.\<close>

definition chunk_ok :: "chunk \<Rightarrow> bool" where
  "chunk_ok ch \<longleftrightarrow> ch_datalen ch \<le> ch_memlen ch \<and> ch_datalen ch \<le> BUF_MAX_LEN
     \<and> ch_data ch \<le> ch_memlen ch \<and> ch_data ch + ch_datalen ch \<le> ch_memlen ch"

definition buf_assert_ok :: "buf \<Rightarrow> bool" where
  "buf_assert_ok b \<longleftrightarrow>
     (if b_chunks b = [] then b_datalen b = 0
      else list_all chunk_ok (b_chunks b) \<and> b_datalen b = sum_list (map ch_datalen (b_chunks b)))"

end
