(* ===== verification/Buffers_Props.thy ===== *)
theory Buffers_Props
  imports Buffers
begin

text \<open>
  What the chunked buffers promise: a buffer is the byte string \<open>contents\<close>, every operation keeps
  the invariant \<open>buf_wf\<close> and acts on the contents as the corresponding list operation, without
  failing an assertion or accessing memory outside a chunk.
\<close>

named_theorems buf_specs \<open>the effect of the chunk operations on well-formed chunks\<close>

subsection \<open>Chunks\<close>

definition chunk_wf :: "chunk \<Rightarrow> bool" where
  "chunk_wf ch \<longleftrightarrow> ch_data ch + ch_datalen ch \<le> ch_memlen ch \<and> length (ch_mem ch) = ch_memlen ch
     \<and> None \<notin> set (chunk_bytes ch)"

definition chunk_data :: "chunk \<Rightarrow> bytes" where
  "chunk_data ch = map the (chunk_bytes ch)"

lemma map_Some_the: "None \<notin> set m \<Longrightarrow> map Some (map the m) = m"
  by (induction m) auto

lemma chunk_bytes_length: "chunk_wf ch \<Longrightarrow> length (chunk_bytes ch) = ch_datalen ch"
  by (auto simp: chunk_bytes_def chunk_wf_def)

lemma chunk_bytes_data: "chunk_wf ch \<Longrightarrow> chunk_bytes ch = map Some (chunk_data ch)"
  unfolding chunk_data_def chunk_wf_def by (metis map_Some_the)

lemma chunk_data_length: "chunk_wf ch \<Longrightarrow> length (chunk_data ch) = ch_datalen ch"
  by (simp add: chunk_data_def chunk_bytes_length)

lemma chunk_append_ok:
  assumes "chunk_wf ch" "length s \<le> CHUNK_REMAINING_CAPACITY ch"
  shows "\<exists>ch'. chunk_append ch (map Some s) = Some ch' \<and> chunk_wf ch' \<and> chunk_data ch' = chunk_data ch @ s
    \<and> ch_datalen ch' = ch_datalen ch + length s \<and> ch_memlen ch' = ch_memlen ch
    \<and> CHUNK_REMAINING_CAPACITY ch' = CHUNK_REMAINING_CAPACITY ch - length s"
proof -
  let ?w = "ch_data ch + ch_datalen ch"
  let ?m = "take ?w (ch_mem ch) @ map Some s @ drop (?w + length s) (ch_mem ch)"
  let ?ch = "ch\<lparr>ch_mem := ?m, ch_datalen := ch_datalen ch + length s\<rparr>"
  have fit: "?w + length s \<le> length (ch_mem ch)" "?w \<le> length (ch_mem ch)"
    using assms by (auto simp: chunk_wf_def CHUNK_REMAINING_CAPACITY_def)
  have "drop (ch_data ch) (take ?w (ch_mem ch)) = chunk_bytes ch"
    by (simp add: chunk_bytes_def drop_take)
  then have b: "chunk_bytes ?ch = chunk_bytes ch @ map Some s"
    using fit chunk_bytes_length [OF assms(1)] by (simp add: chunk_bytes_def [of ?ch])
  have "chunk_append ch (map Some s) = Some ?ch"
    using fit by (simp add: chunk_append_def memcpy_at_def CHUNK_WRITE_PTR_def)
  moreover have "chunk_wf ?ch"
    using assms fit unfolding chunk_wf_def b by auto
  ultimately show ?thesis
    using b by (auto simp: chunk_data_def CHUNK_REMAINING_CAPACITY_def comp_def)
qed

lemma chunk_repack_ok:
  assumes "chunk_wf ch"
  shows "\<exists>ch'. chunk_repack ch = Some ch' \<and> chunk_wf ch' \<and> chunk_data ch' = chunk_data ch
    \<and> ch_datalen ch' = ch_datalen ch \<and> ch_memlen ch' = ch_memlen ch \<and> ch_data ch' = 0"
proof (cases "ch_datalen ch \<noteq> 0 \<and> ch_data ch \<noteq> 0")
  case True
  let ?ch = "ch\<lparr>ch_mem := chunk_bytes ch @ drop (length (chunk_bytes ch)) (ch_mem ch), ch_data := 0\<rparr>"
  have l: "length (chunk_bytes ch) = ch_datalen ch" "length (chunk_bytes ch) \<le> length (ch_mem ch)"
    using assms by (auto simp: chunk_wf_def chunk_bytes_def)
  have "chunk_bytes (ch\<lparr>ch_mem := m @ d, ch_data := 0\<rparr>) = m" if "length m = ch_datalen ch" for m d
    using that by (simp add: chunk_bytes_def)
  note b = this [OF l(1)]
  have "chunk_wf ?ch" using assms l unfolding chunk_wf_def b by auto
  with b show ?thesis using True l by (simp add: chunk_repack_def memcpy_at_def chunk_data_def)
next
  case False
  then show ?thesis
    using assms by (auto simp: chunk_repack_def chunk_wf_def chunk_data_def chunk_bytes_def)
qed

lemma chunk_new_ok:
  "chunk_wf ((chunk_new_with_alloc_size alloc)\<lparr>ch_inserted_time := now\<rparr>)"
  "chunk_data ((chunk_new_with_alloc_size alloc)\<lparr>ch_inserted_time := now\<rparr>) = []"
  "ch_datalen ((chunk_new_with_alloc_size alloc)\<lparr>ch_inserted_time := now\<rparr>) = 0"
  "CHUNK_REMAINING_CAPACITY ((chunk_new_with_alloc_size alloc)\<lparr>ch_inserted_time := now\<rparr>) = alloc - CHUNK_OVERHEAD"
  by (simp_all add: chunk_new_with_alloc_size_def chunk_wf_def chunk_data_def chunk_bytes_def
      CHUNK_REMAINING_CAPACITY_def CHUNK_SIZE_WITH_ALLOC_def)

lemma chunk_grow_ok:
  assumes "chunk_wf ch" "ch_memlen ch < sz"
  shows "\<exists>ch'. chunk_grow ch sz = Some ch' \<and> chunk_wf ch' \<and> chunk_data ch' = chunk_data ch
    \<and> ch_datalen ch' = ch_datalen ch \<and> ch_memlen ch' = sz \<and> ch_data ch' = ch_data ch"
proof -
  let ?ch = "ch\<lparr>ch_memlen := sz, ch_mem := ch_mem ch @ replicate (sz - ch_memlen ch) None\<rparr>"
  have b: "chunk_bytes ?ch = chunk_bytes ch" using assms by (simp add: chunk_bytes_def chunk_wf_def)
  then show ?thesis using assms unfolding chunk_grow_def by (auto simp: chunk_wf_def chunk_data_def)
qed

lemma chunk_advance_ok:
  assumes "chunk_wf ch" "n \<le> ch_datalen ch"
  defines "ch' \<equiv> ch\<lparr>ch_datalen := ch_datalen ch - n, ch_data := ch_data ch + n\<rparr>"
  shows "chunk_wf ch'" "chunk_data ch' = drop n (chunk_data ch)"
proof -
  have b: "chunk_bytes ch' = drop n (chunk_bytes ch)"
    using assms(2) by (simp add: ch'_def chunk_bytes_def drop_take add.commute)
  show "chunk_data ch' = drop n (chunk_data ch)" by (simp add: chunk_data_def b drop_map)
  show "chunk_wf ch'" using assms in_set_dropD [of None n "chunk_bytes ch"] b by (auto simp: chunk_wf_def)
qed

lemma chunk_advance_order:
  "ch\<lparr>ch_data := d, ch_datalen := l\<rparr> = ch\<lparr>ch_datalen := l, ch_data := d\<rparr>"
  by simp

lemma chunk_size_loop_ge: "sz \<noteq> 0 \<Longrightarrow> target \<le> chunk_size_loop target sz - CHUNK_OVERHEAD"
proof (induction target sz rule: chunk_size_loop.induct)
  case (1 target sz)
  then show ?case
    by (subst chunk_size_loop.simps) (auto simp: CHUNK_SIZE_WITH_ALLOC_def)
qed

lemma preferred_size:
  assumes "target \<le> SIZE_T_CEILING - CHUNK_OVERHEAD"
  obtains alloc where "buf_preferred_chunk_size target = Some alloc" "target \<le> alloc - CHUNK_OVERHEAD"
proof (cases "CHUNK_ALLOC_SIZE target \<ge> MAX_CHUNK_ALLOC")
  case True
  then show ?thesis using assms that [of "CHUNK_ALLOC_SIZE target"]
    by (simp add: buf_preferred_chunk_size_def CHUNK_ALLOC_SIZE_def)
next
  case False
  then show ?thesis
    using assms that [of "chunk_size_loop target MIN_CHUNK_ALLOC"] chunk_size_loop_ge [of MIN_CHUNK_ALLOC target]
    by (simp add: buf_preferred_chunk_size_def MIN_CHUNK_ALLOC_def)
qed

subsection \<open>The invariant\<close>

definition chunks_contents :: "chunk list \<Rightarrow> bytes" where
  "chunks_contents chs = concat (map chunk_data chs)"

definition contents :: "buf \<Rightarrow> bytes" where
  "contents b = chunks_contents (b_chunks b)"

definition chunks_wf :: "chunk list \<Rightarrow> bool" where
  "chunks_wf chs \<longleftrightarrow> list_all chunk_wf chs"

definition buf_wf :: "buf \<Rightarrow> bool" where
  "buf_wf b \<longleftrightarrow> chunks_wf (b_chunks b) \<and> b_datalen b = length (contents b)
     \<and> b_datalen b \<le> BUF_MAX_LEN \<and> CHUNK_OVERHEAD < b_default_chunk_size b"

lemma chunks_simps [simp]:
  "chunks_contents [] = []" "chunks_contents (ch # chs) = chunk_data ch @ chunks_contents chs"
  "chunks_contents (chs1 @ chs2) = chunks_contents chs1 @ chunks_contents chs2"
  "chunks_wf []" "chunks_wf (ch # chs) \<longleftrightarrow> chunk_wf ch \<and> chunks_wf chs"
  "chunks_wf (chs1 @ chs2) \<longleftrightarrow> chunks_wf chs1 \<and> chunks_wf chs2"
  by (simp_all add: chunks_contents_def chunks_wf_def)

lemma chunks_length: "chunks_wf chs \<Longrightarrow> length (chunks_contents chs) = sum_list (map ch_datalen chs)"
  by (induction chs) (simp_all add: chunk_data_length)

lemma peek_loop_ok:
  "chunks_wf chs \<Longrightarrow> n \<le> length (chunks_contents chs) \<Longrightarrow>
     peek_loop chs n = Some (map Some (take n (chunks_contents chs)))"
proof (induction chs n rule: peek_loop.induct)
  case (3 ch chs n)
  let ?c = "min (ch_datalen ch) (Suc n)"
  have l: "length (chunk_data ch) = ch_datalen ch" "chunk_bytes ch = map Some (chunk_data ch)"
    using 3 by (simp_all add: chunk_data_length chunk_bytes_data)
  have "peek_loop chs (Suc n - ?c) = Some (map Some (take (Suc n - ?c) (chunks_contents chs)))"
    using 3 l(1) by (intro 3(1)) auto
  then show ?case using l by (simp add: take_map min_def)
qed auto

lemma drain_loop_ok:
  "chunks_wf chs \<Longrightarrow> n \<le> length (chunks_contents chs) \<Longrightarrow> dl = length (chunks_contents chs) \<Longrightarrow>
     \<exists>chs'. drain_loop dl chs n = Some (dl - n, chs') \<and> chunks_wf chs'
       \<and> chunks_contents chs' = drop n (chunks_contents chs)"
proof (induction dl chs n rule: drain_loop.induct)
  case (3 dl ch chs n)
  have l: "length (chunk_data ch) = ch_datalen ch" using 3 by (simp add: chunk_data_length)
  show ?case
  proof (cases "Suc n < ch_datalen ch")
    case True
    then show ?thesis using 3 l chunk_advance_ok [of ch "Suc n"] by auto
  next
    case False
    have "Suc n - ch_datalen ch \<le> length (chunks_contents chs)" using 3(3) l by simp
    with False obtain chs' where "drain_loop (dl - ch_datalen ch) chs (Suc n - ch_datalen ch) =
        Some (dl - ch_datalen ch - (Suc n - ch_datalen ch), chs')" "chunks_wf chs'"
      "chunks_contents chs' = drop (Suc n - ch_datalen ch) (chunks_contents chs)"
      using 3(1) [OF False] 3(2-) l by auto
    then show ?thesis using False l 3(2-) by auto
  qed
qed auto

lemma contents_bytes: "chunks_wf chs \<Longrightarrow> concat (map chunk_bytes chs) = map Some (chunks_contents chs)"
  by (induction chs) (simp_all add: chunk_bytes_data)

lemma buf_peek_ok:
  "buf_wf b \<Longrightarrow> n \<le> b_datalen b \<Longrightarrow> buf_peek b n = Some (map Some (take n (contents b)))"
  by (simp add: buf_peek_def buf_wf_def contents_def peek_loop_ok)

lemma buf_drain_ok:
  assumes "buf_wf b" "n \<le> b_datalen b"
  shows "\<exists>b'. buf_drain b n = Some b' \<and> buf_wf b' \<and> contents b' = drop n (contents b)
    \<and> b_default_chunk_size b' = b_default_chunk_size b"
  using assms drain_loop_ok [of "b_chunks b" n "b_datalen b"]
  by (auto simp: buf_drain_def buf_wf_def contents_def)

lemma buf_get_bytes_ok:
  assumes "buf_wf b" "n \<le> b_datalen b"
  shows "\<exists>b'. buf_get_bytes b n = Some (int (b_datalen b'), map Some (take n (contents b)), b')
    \<and> buf_wf b' \<and> contents b' = drop n (contents b) \<and> b_default_chunk_size b' = b_default_chunk_size b"
  using buf_drain_ok [OF assms] buf_peek_ok [OF assms] by (auto simp: buf_get_bytes_def buf_wf_def)

subsection \<open>Adding\<close>

lemma add_chunk_ok:
  assumes "CHUNK_OVERHEAD < b_default_chunk_size b" "0 < capacity" "capacity \<le> BUF_MAX_LEN \<or> capped"
  shows "\<exists>ch. buf_add_chunk_with_capacity now b capacity capped = Some (b\<lparr>b_chunks := b_chunks b @ [ch]\<rparr>)
    \<and> chunk_wf ch \<and> chunk_data ch = [] \<and> ch_datalen ch = 0 \<and> 0 < CHUNK_REMAINING_CAPACITY ch"
proof -
  have alloc: "\<exists>ch. map_option (\<lambda>alloc. b\<lparr>b_chunks := b_chunks b @ [(chunk_new_with_alloc_size alloc)\<lparr>ch_inserted_time := now\<rparr>]\<rparr>)
      (Some a) = Some (b\<lparr>b_chunks := b_chunks b @ [ch]\<rparr>)
    \<and> chunk_wf ch \<and> chunk_data ch = [] \<and> ch_datalen ch = 0 \<and> 0 < CHUNK_REMAINING_CAPACITY ch"
    if "0 < a - CHUNK_OVERHEAD" for a
    using that chunk_new_ok [where alloc = a and now = now] by auto
  consider "CHUNK_ALLOC_SIZE capacity < b_default_chunk_size b"
    | "\<not> CHUNK_ALLOC_SIZE capacity < b_default_chunk_size b" "capped \<and> CHUNK_ALLOC_SIZE capacity > MAX_CHUNK_ALLOC"
    | "\<not> CHUNK_ALLOC_SIZE capacity < b_default_chunk_size b" "\<not> (capped \<and> CHUNK_ALLOC_SIZE capacity > MAX_CHUNK_ALLOC)"
    by blast
  then show ?thesis
  proof cases
    case 1
    then show ?thesis using alloc [of "b_default_chunk_size b"] assms(1) by (simp add: buf_add_chunk_with_capacity_def)
  next
    case 2
    have "0 < MAX_CHUNK_ALLOC - CHUNK_OVERHEAD"
      by (simp add: MAX_CHUNK_ALLOC_def CHUNK_OVERHEAD_def CHUNK_HEADER_LEN_def SENTINEL_LEN_def)
    then show ?thesis using alloc [of MAX_CHUNK_ALLOC] 2 by (simp add: buf_add_chunk_with_capacity_def)
  next
    case 3
    have "capacity \<le> SIZE_T_CEILING - CHUNK_OVERHEAD"
      using 3 assms(3) by (auto simp: CHUNK_ALLOC_SIZE_def MAX_CHUNK_ALLOC_def SIZE_T_CEILING_def BUF_MAX_LEN_def
          INT_MAX_def CHUNK_OVERHEAD_def CHUNK_HEADER_LEN_def SENTINEL_LEN_def)
    then obtain a where "buf_preferred_chunk_size capacity = Some a" "capacity \<le> a - CHUNK_OVERHEAD"
      by (rule preferred_size)
    then show ?thesis using alloc [of a] 3 assms(2) by (auto simp: buf_add_chunk_with_capacity_def)
  qed
qed

lemma add_room_ok:
  assumes "CHUNK_OVERHEAD < b_default_chunk_size b" "chunks_wf (b_chunks b)" "0 < n"
  shows "\<exists>chs ch. add_room now b n = Some (b\<lparr>b_chunks := chs @ [ch]\<rparr>) \<and> chunks_wf (chs @ [ch])
    \<and> chunks_contents (chs @ [ch]) = contents b \<and> 0 < CHUNK_REMAINING_CAPACITY ch"
proof (cases "b_chunks b = [] \<or> CHUNK_REMAINING_CAPACITY (last (b_chunks b)) = 0")
  case True
  then show ?thesis using add_chunk_ok [OF assms(1,3), of True now] assms(2)
    by (auto simp: add_room_def contents_def)
next
  case False
  then obtain chs ch where c: "b_chunks b = chs @ [ch]" by (metis append_butlast_last_id)
  then have "b\<lparr>b_chunks := chs @ [ch]\<rparr> = b" by simp
  then show ?thesis using False c assms(2)
    by (intro exI [of _ chs] exI [of _ ch]) (simp add: add_room_def contents_def)
qed

lemma add_loop_ok:
  "CHUNK_OVERHEAD < b_default_chunk_size b \<Longrightarrow> chunks_wf (b_chunks b) \<Longrightarrow>
     \<exists>chs. add_loop now b s = Some (b\<lparr>b_chunks := chs, b_datalen := b_datalen b + length s\<rparr>)
       \<and> chunks_wf chs \<and> chunks_contents chs = contents b @ s"
proof (induction s arbitrary: b rule: length_induct)
  case (1 s)
  show ?case
  proof (cases "s = []")
    case True
    then show ?thesis using 1(3) by (intro exI [of _ "b_chunks b"]) (simp add: add_loop.simps [of _ _ "[]"] contents_def)
  next
    case False
    then obtain chs ch where r: "add_room now b (length s) = Some (b\<lparr>b_chunks := chs @ [ch]\<rparr>)"
      "chunks_wf (chs @ [ch])" "chunks_contents (chs @ [ch]) = contents b" "0 < CHUNK_REMAINING_CAPACITY ch"
      using add_room_ok [OF 1(2,3)] by blast
    let ?c = "min (CHUNK_REMAINING_CAPACITY ch) (length s)"
    have c: "?c \<noteq> 0" using False r(4) by simp
    obtain ch' where ch': "chunk_append ch (map Some (take ?c s)) = Some ch'" "chunk_wf ch'"
      "chunk_data ch' = chunk_data ch @ take ?c s"
      using chunk_append_ok [of ch "take ?c s"] r(2) by auto
    let ?b = "b\<lparr>b_datalen := b_datalen b + ?c, b_chunks := chs @ [ch']\<rparr>"
    have step: "add_loop now b s = add_loop now ?b (drop ?c s)"
      using False c ch'(1) by (subst add_loop.simps) (simp add: r(1) Let_def if_not_P [OF c])
    have cont: "contents ?b = contents b @ take ?c s"
      using r(3) ch'(3) by (simp add: contents_def)
    have "length (drop ?c s) < length s" using c False by simp
    then obtain chs' where "add_loop now ?b (drop ?c s) =
        Some (?b\<lparr>b_chunks := chs', b_datalen := b_datalen ?b + length (drop ?c s)\<rparr>)"
      "chunks_wf chs'" "chunks_contents chs' = contents ?b @ drop ?c s"
      using 1(1) [rule_format, of "drop ?c s" ?b] 1(2) r(2) ch'(2) by auto
    then show ?thesis unfolding step cont by (intro exI [of _ chs']) simp
  qed
qed

lemma buf_add_ok:
  assumes "buf_wf b" "b_datalen b + length s \<le> BUF_MAX_LEN"
  shows "\<exists>b'. buf_add now b s = Some (int (b_datalen b + length s), b') \<and> buf_wf b' \<and> contents b' = contents b @ s
       \<and> b_default_chunk_size b' = b_default_chunk_size b"
proof (cases "s = []")
  case True
  then show ?thesis using assms(1) by (auto simp: buf_add_def)
next
  case False
  have g: "(int BUF_MAX_LEN - int (length s)) mod 2 ^ 64 = int BUF_MAX_LEN - int (length s)"
    using assms(2) by (intro mod_pos_pos_trivial) (auto simp: BUF_MAX_LEN_def INT_MAX_def)
  obtain chs where "add_loop now b s = Some (b\<lparr>b_chunks := chs, b_datalen := b_datalen b + length s\<rparr>)"
    "chunks_wf chs" "chunks_contents chs = contents b @ s"
    using add_loop_ok [of b now s] assms(1) by (auto simp: buf_wf_def)
  then show ?thesis using False assms unfolding buf_add_def g by (auto simp: buf_wf_def contents_def)
qed

subsection \<open>Pulling up\<close>

lemma pullup_loop_ok:
  "chunk_wf dest \<Longrightarrow> chunks_wf srcs \<Longrightarrow> n \<le> length (chunks_contents (dest # srcs)) \<Longrightarrow>
   n - ch_datalen dest \<le> CHUNK_REMAINING_CAPACITY dest \<Longrightarrow>
     \<exists>dest' srcs'. pullup_loop dest srcs n = Some (dest', srcs') \<and> chunks_wf (dest' # srcs')
       \<and> chunks_contents (dest' # srcs') = chunks_contents (dest # srcs) \<and> n \<le> ch_datalen dest'"
proof (induction dest srcs n rule: pullup_loop.induct)
  case (1 dest n)
  then show ?case by (simp add: chunk_data_length)
next
  case (2 dest src rest n)
  let ?k = "n - ch_datalen dest"
  have l: "length (chunk_data src) = ch_datalen src" "chunk_bytes src = map Some (chunk_data src)" "chunk_wf src"
    using 2(3) by (simp_all add: chunk_data_length chunk_bytes_data)
  consider "\<not> ch_datalen dest < n" | "ch_datalen dest < n" "?k \<ge> ch_datalen src"
    | "ch_datalen dest < n" "\<not> ?k \<ge> ch_datalen src" by blast
  then show ?case
  proof cases
    case 1
    then show ?thesis using 2 by simp
  next
    case c: 2
    then obtain d where d: "chunk_append dest (map Some (chunk_data src)) = Some d" "chunk_wf d"
      "chunk_data d = chunk_data dest @ chunk_data src" "ch_datalen d = ch_datalen dest + ch_datalen src"
      "CHUNK_REMAINING_CAPACITY d = CHUNK_REMAINING_CAPACITY dest - ch_datalen src"
      using chunk_append_ok [OF 2(2), of "chunk_data src"] 2(5) l by auto
    have "\<exists>dest' srcs'. pullup_loop d rest n = Some (dest', srcs') \<and> chunks_wf (dest' # srcs')
       \<and> chunks_contents (dest' # srcs') = chunks_contents (d # rest) \<and> n \<le> ch_datalen dest'"
      by (rule 2(1) [OF c(1) HOL.refl c(2)]) (use 2(3-) d l in auto)
    then show ?thesis using c d l by simp
  next
    case c: 3
    then obtain d where d: "chunk_append dest (map Some (take ?k (chunk_data src))) = Some d" "chunk_wf d"
      "chunk_data d = chunk_data dest @ take ?k (chunk_data src)" "ch_datalen d = ch_datalen dest + ?k"
      using chunk_append_ok [OF 2(2), of "take ?k (chunk_data src)"] 2(5) l by auto
    have t: "take ?k (chunk_bytes src) = map Some (take ?k (chunk_data src))" by (simp add: l take_map)
    show ?thesis
      using c d l(1,3) 2(3) chunk_advance_ok [of src ?k]
      by (simp add: Let_def t chunk_advance_order)
  qed
qed

lemma pullup_head_ok:
  assumes "chunk_wf h" "n \<le> BUF_MAX_LEN"
  shows "\<exists>h'. pullup_head h n = Some h' \<and> chunk_wf h' \<and> chunk_data h' = chunk_data h
    \<and> ch_datalen h' = ch_datalen h \<and> n - ch_datalen h \<le> CHUNK_REMAINING_CAPACITY h'"
proof -
  obtain r where r: "chunk_repack h = Some r" "chunk_wf r" "chunk_data r = chunk_data h"
    "ch_datalen r = ch_datalen h" "ch_memlen r = ch_memlen h" "ch_data r = 0"
    using chunk_repack_ok [OF assms(1)] by blast
  show ?thesis
  proof (cases "ch_memlen h \<ge> n")
    case True
    then have "n - ch_datalen h \<le> CHUNK_REMAINING_CAPACITY r"
      using r by (simp add: CHUNK_REMAINING_CAPACITY_def)
    then show ?thesis using True r assms(1)
      by (cases "CHUNK_REMAINING_CAPACITY h < n - ch_datalen h") (simp_all add: pullup_head_def Let_def)
  next
    case False
    have "n \<le> SIZE_T_CEILING - CHUNK_OVERHEAD"
      using assms(2) by (simp add: SIZE_T_CEILING_def BUF_MAX_LEN_def INT_MAX_def CHUNK_OVERHEAD_def
          CHUNK_HEADER_LEN_def SENTINEL_LEN_def)
    then obtain a where a: "buf_preferred_chunk_size n = Some a" "n \<le> CHUNK_SIZE_WITH_ALLOC a"
      unfolding CHUNK_SIZE_WITH_ALLOC_def by (rule preferred_size)
    obtain g where g: "chunk_grow r (CHUNK_SIZE_WITH_ALLOC a) = Some g" "chunk_wf g" "chunk_data g = chunk_data h"
      "ch_datalen g = ch_datalen h" "ch_memlen g = CHUNK_SIZE_WITH_ALLOC a" "ch_data g = 0"
      using chunk_grow_ok [OF r(2), of "CHUNK_SIZE_WITH_ALLOC a"] r a(2) False by auto
    then show ?thesis using False a r(1)
      by (auto simp: pullup_head_def CHUNK_REMAINING_CAPACITY_def)
  qed
qed

text \<open>The bytes made contiguous, when there are any.\<close>

definition pulled :: "buf \<Rightarrow> nat \<Rightarrow> memory option \<Rightarrow> bool" where
  "pulled b n head = (case head of
      None \<Rightarrow> contents b = []
    | Some m \<Rightarrow> min n (b_datalen b) \<le> length m \<and> m = map Some (take (length m) (contents b)))"

lemma buf_pullup_ok:
  assumes "buf_wf b"
  shows "\<exists>b' head. buf_pullup b n = Some (b', head) \<and> buf_wf b' \<and> contents b' = contents b \<and> pulled b n head
    \<and> b_default_chunk_size b' = b_default_chunk_size b"
proof (cases "b_chunks b")
  case Nil
  then show ?thesis using assms by (simp add: buf_pullup_def pulled_def contents_def)
next
  case (Cons h rest)
  define k where "k = (if b_datalen b < n then b_datalen b else n)"
  have h: "chunk_wf h" "chunks_wf rest" "length (chunk_data h) = ch_datalen h" "chunk_bytes h = map Some (chunk_data h)"
    and len: "b_datalen b = length (chunks_contents (h # rest))" "b_datalen b \<le> BUF_MAX_LEN"
    using assms Cons by (auto simp: buf_wf_def chunk_data_length chunk_bytes_data contents_def)
  have k: "k \<le> BUF_MAX_LEN" "k \<le> b_datalen b" "k = min n (b_datalen b)" using len(2) by (auto simp: k_def)
  show ?thesis
  proof (cases "ch_datalen h \<ge> k")
    case True
    then show ?thesis using Cons assms h
      k(3)
      by (auto simp: buf_pullup_def k_def [symmetric] pulled_def contents_def Let_def)
  next
    case False
    obtain d where d: "pullup_head h k = Some d" "chunk_wf d" "chunk_data d = chunk_data h"
      "ch_datalen d = ch_datalen h" "k - ch_datalen h \<le> CHUNK_REMAINING_CAPACITY d"
      using pullup_head_ok [OF h(1) k(1)] by auto
    obtain d2 rest2 where d2: "pullup_loop d rest k = Some (d2, rest2)" "chunks_wf (d2 # rest2)"
      "chunks_contents (d2 # rest2) = chunks_contents (h # rest)" "k \<le> ch_datalen d2"
      using pullup_loop_ok [OF d(2) h(2), of k] len k(2) d by auto
    have m: "chunk_bytes d2 = map Some (chunk_data d2)" "length (chunk_data d2) = ch_datalen d2"
      using d2(2) by (simp_all add: chunk_bytes_data chunk_data_length)
    let ?b = "b\<lparr>b_chunks := d2 # rest2\<rparr>"
    have "buf_pullup b n = Some (?b, Some (chunk_bytes d2))"
      using Cons False d(1) d2(1) by (simp add: buf_pullup_def Let_def k_def [symmetric])
    moreover have "contents ?b = contents b" using d2(3) Cons by (simp add: contents_def)
    moreover have "buf_wf ?b" using assms d2(2,3) Cons by (simp add: buf_wf_def contents_def)
    moreover have "chunk_data d2 = take (ch_datalen d2) (contents b)"
      using d2(3) m(2) Cons by (metis append_eq_conv_conj chunks_simps(2) contents_def)
    then have "pulled b n (Some (chunk_bytes d2))"
      using m d2(4) k(3) by (simp add: pulled_def)
    ultimately show ?thesis by auto
  qed
qed

subsection \<open>Moving\<close>

lemma known_bytes_ok: "known_bytes (map Some xs) = Some xs"
  by (induction xs) simp_all

lemma move_loop_ok:
  "buf_wf bo \<Longrightarrow> buf_wf bi \<Longrightarrow> n \<le> b_datalen bi \<Longrightarrow> b_datalen bo + n \<le> BUF_MAX_LEN \<Longrightarrow>
     \<exists>bo' bi'. move_loop now bo bi n = Some (bo', bi') \<and> buf_wf bo' \<and> buf_wf bi'
       \<and> contents bo' = contents bo @ take n (contents bi) \<and> contents bi' = drop n (contents bi)"
proof (induction n arbitrary: bo bi rule: less_induct)
  case (less n)
  show ?case
  proof (cases "n = 0")
    case True
    then show ?thesis using less by (simp add: move_loop.simps [of _ _ _ 0])
  next
    case False
    define k where "k = (if n > 4096 then 4096 else n)"
    have k: "0 < k" "k \<le> n" using False by (auto simp: k_def)
    obtain bi1 where bi1: "buf_get_bytes bi k = Some (int (b_datalen bi1), map Some (take k (contents bi)), bi1)"
      "buf_wf bi1" "contents bi1 = drop k (contents bi)"
      using buf_get_bytes_ok [OF less.prems(2), of k] less.prems(3) k(2) by auto
    have len: "length (take k (contents bi)) = k" using less.prems(2,3) k(2) by (auto simp: buf_wf_def)
    obtain bo1 where bo1: "buf_add now bo (take k (contents bi)) = Some (int (b_datalen bo + k), bo1)"
      "buf_wf bo1" "contents bo1 = contents bo @ take k (contents bi)"
      using buf_add_ok [OF less.prems(1), of "take k (contents bi)" now] less.prems(4) k(2) unfolding len by auto
    have step: "move_loop now bo bi n = move_loop now bo1 bi1 (n - k)"
      using False by (subst move_loop.simps) (simp add: Let_def k_def [symmetric] bi1(1) bo1(1) known_bytes_ok)
    have l: "b_datalen bi1 = b_datalen bi - k" "b_datalen bo1 = b_datalen bo + k"
      using bi1 bo1 len less.prems(1,2) by (auto simp: buf_wf_def)
    have "n - k < n" using k by simp
    then obtain bo' bi' where "move_loop now bo1 bi1 (n - k) = Some (bo', bi')" "buf_wf bo'" "buf_wf bi'"
      "contents bo' = contents bo1 @ take (n - k) (contents bi1)" "contents bi' = drop (n - k) (contents bi1)"
      using less.IH [OF _ bo1(2) bi1(2), of "n - k"] less.prems(4) l k diff_le_mono [OF less.prems(3), of k] by auto
    then show ?thesis unfolding step using k bi1(3) bo1(3)
      by (intro exI [of _ bo'] exI [of _ bi']) (simp add: take_add [symmetric])
  qed
qed

subsection \<open>Searching\<close>

definition occurs_at :: "bytes \<Rightarrow> bytes \<Rightarrow> nat \<Rightarrow> bool" where
  "occurs_at s xs i \<longleftrightarrow> i \<le> length xs \<and> take (length s) (drop i xs) = s"

fun first_occ :: "bytes \<Rightarrow> bytes \<Rightarrow> nat option" where
  "first_occ s [] = (if s = [] then Some 0 else None)"
| "first_occ s (x # xs) = (if take (length s) (x # xs) = s then Some 0 else map_option Suc (first_occ s xs))"

lemma first_occ_spec:
  "case first_occ s xs of
     None \<Rightarrow> (\<forall>i. \<not> occurs_at s xs i)
   | Some i \<Rightarrow> occurs_at s xs i \<and> (\<forall>j<i. \<not> occurs_at s xs j)"
proof (induction xs)
  case Nil
  show ?case by (auto simp: occurs_at_def)
next
  case (Cons x xs)
  have suc: "occurs_at s (x # xs) (Suc i) \<longleftrightarrow> occurs_at s xs i" for i by (simp add: occurs_at_def)
  have zero: "occurs_at s (x # xs) 0 \<longleftrightarrow> take (length s) (x # xs) = s" by (simp add: occurs_at_def)
  show ?case
    using Cons suc zero
    by (auto split: option.splits simp: All_less_Suc2 less_Suc_eq_0_disj) (metis not0_implies_Suc)+
qed

definition no_empty :: "chunk list \<Rightarrow> bool" where
  "no_empty chs \<longleftrightarrow> list_all (\<lambda>ch. ch_datalen ch \<noteq> 0) chs"

definition suffix_at :: "buf_pos \<Rightarrow> bytes" where
  "suffix_at p = drop (p_pos p) (chunks_contents (p_chunks p))"

definition index_of :: "buf_pos \<Rightarrow> nat" where
  "index_of p = p_chunk_pos p + p_pos p"

definition pos_wf :: "buf_pos \<Rightarrow> bool" where
  "pos_wf p \<longleftrightarrow> chunks_wf (p_chunks p) \<and> no_empty (p_chunks p)
     \<and> (p_chunks p = [] \<or> p_pos p < ch_datalen (hd (p_chunks p)))
     \<and> index_of p + length (suffix_at p) \<le> BUF_MAX_LEN"

lemma char_at_ok:
  assumes "pos_wf p" "p_chunks p \<noteq> []"
  shows "char_at p = Some (hd (suffix_at p))" "suffix_at p \<noteq> []"
proof -
  obtain ch chs where c: "p_chunks p = ch # chs" using assms(2) by (cases "p_chunks p") auto
  have w: "chunk_wf ch" "p_pos p < ch_datalen ch" using assms(1) c by (auto simp: pos_wf_def)
  have l: "p_pos p < length (chunk_data ch)" using w by (simp add: chunk_data_length)
  have "chunk_bytes ch ! p_pos p = Some (chunk_data ch ! p_pos p)"
    using l chunk_bytes_data [OF w(1)] by simp
  moreover have "chunk_bytes ch ! p_pos p = ch_mem ch ! (ch_data ch + p_pos p)"
    "ch_data ch + p_pos p < length (ch_mem ch)"
    using w by (auto simp: chunk_bytes_def chunk_wf_def)
  ultimately show "char_at p = Some (hd (suffix_at p))" "suffix_at p \<noteq> []"
    using l by (auto simp: char_at_def suffix_at_def c hd_append hd_drop_conv_nth)
qed

lemma pos_inc_ok:
  assumes "pos_wf p" "p_chunks p \<noteq> []"
  shows "if tl (suffix_at p) = [] then \<exists>q. buf_pos_inc p = Some (q, False)
    else \<exists>q. buf_pos_inc p = Some (q, True) \<and> pos_wf q \<and> p_chunks q \<noteq> []
      \<and> suffix_at q = tl (suffix_at p) \<and> index_of q = index_of p + 1"
proof -
  obtain ch chs where c: "p_chunks p = ch # chs" using assms(2) by (cases "p_chunks p") auto
  have w: "chunk_wf ch" "p_pos p < length (chunk_data ch)" "length (chunk_data ch) = ch_datalen ch" "chunks_wf chs"
    "no_empty chs" "chs \<noteq> [] \<Longrightarrow> 0 < ch_datalen (hd chs)"
    using assms(1) c by (auto simp: pos_wf_def chunk_data_length no_empty_def list_all_iff)
  have b: "p_pos p < BUF_MAX_LEN" using assms(1) c w by (auto simp: pos_wf_def index_of_def suffix_at_def)
  have s: "tl (suffix_at p) = drop (p_pos p + 1) (chunk_data ch) @ chunks_contents chs"
    using w(2) Cons_nth_drop_Suc [OF w(2)] by (simp add: suffix_at_def c) (metis append_Cons list.sel(3))
  have ne: "chunks_contents chs \<noteq> []" if "chs \<noteq> []"
  proof -
    obtain c2 cs2 where "chs = c2 # cs2" using \<open>chs \<noteq> []\<close> by (cases chs) auto
    then show ?thesis using w(4,6) chunk_data_length [of c2] by auto
  qed
  have len: "length (suffix_at p) = Suc (length (tl (suffix_at p)))"
    using char_at_ok(2) [OF assms] by (cases "suffix_at p") auto
  show ?thesis
  proof (cases "p_pos p + 1 = ch_datalen ch")
    case True
    then show ?thesis using assms(1) b c w s ne len
      by (auto simp: buf_pos_inc_def Let_def pos_wf_def index_of_def suffix_at_def)
  next
    case False
    then have "p_pos p + 1 < ch_datalen ch" using w(2,3) by simp
    then show ?thesis using assms(1) b c w s len
      by (auto simp: buf_pos_inc_def Let_def pos_wf_def index_of_def suffix_at_def)
  qed
qed

lemma matches_ok:
  assumes "s \<noteq> []" "pos_wf p" "p_chunks p \<noteq> []"
  shows "buf_matches_at_pos p s = Some (take (length s) (suffix_at p) = s)"
  using assms
proof (induction p s rule: buf_matches_at_pos.induct)
  case (2 p x s)
  obtain h xs where c: "char_at p = Some h" "suffix_at p = h # xs"
    using char_at_ok [OF 2(3,4)] by (cases "suffix_at p") auto
  show ?case
  proof (cases "h = x \<and> s \<noteq> []")
    case True
    then have h: "h = x" and s: "s \<noteq> []" by simp_all
    show ?thesis
    proof (cases "xs = []")
      case True
      then obtain q where "buf_pos_inc p = Some (q, False)"
        using pos_inc_ok [OF 2(3,4)] c(2) by auto
      then show ?thesis using True s c h by simp
    next
      case False
      then obtain q where q: "buf_pos_inc p = Some (q, True)" "pos_wf q" "p_chunks q \<noteq> []" "suffix_at q = xs"
        using pos_inc_ok [OF 2(3,4)] c(2) by auto
      have "buf_matches_at_pos q s = Some (take (length s) (suffix_at q) = s)"
        using 2(1) [OF c(1) _ s q(1) HOL.refl _ s q(2,3)] h by simp
      then show ?thesis using c h s q by simp
    qed
  next
    case False
    then show ?thesis using c by auto
  qed
qed simp

lemma find_char_ok:
  "chunks_wf chs \<Longrightarrow> no_empty chs \<Longrightarrow> chs = [] \<or> pos < ch_datalen (hd chs) \<Longrightarrow>
   cp + length (chunks_contents chs) \<le> BUF_MAX_LEN \<Longrightarrow>
   (case memchr (drop pos (chunks_contents chs)) c of
      None \<Rightarrow> find_char_loop c chs pos cp = Some None
    | Some i \<Rightarrow> \<exists>q. find_char_loop c chs pos cp = Some (Some q) \<and> pos_wf q \<and> p_chunks q \<noteq> []
        \<and> suffix_at q = drop (pos + i) (chunks_contents chs) \<and> index_of q = cp + pos + i)"
proof (induction c chs pos cp rule: find_char_loop.induct)
  case (2 c ch chs pos cp)
  let ?rest = "chunks_contents chs"
  have w: "chunk_wf ch" "chunks_wf chs" "length (chunk_data ch) = ch_datalen ch" "pos < length (chunk_data ch)"
    "chs = [] \<or> 0 < ch_datalen (hd chs)" "no_empty chs"
    using 2(2-4) by (cases chs; auto simp: chunk_data_length no_empty_def)+
  have b: "drop pos (chunk_bytes ch) = map Some (drop pos (chunk_data ch))"
    by (simp add: chunk_bytes_data [OF w(1)] drop_map)
  have m: "memchr (map Some xs) (Some c) = memchr xs c" for xs :: bytes
    by (induction xs) simp_all
  show ?case
  proof (cases "memchr (drop pos (chunk_data ch)) c")
    case (Some i)
    have i: "i < length (chunk_data ch) - pos" using memchr_Some [OF Some] by simp
    have "memchr (drop pos (chunk_data ch) @ ?rest) c = Some i"
    proof -
      have app: "memchr xs c = Some i \<Longrightarrow> memchr (xs @ ys) c = Some i" for xs ys :: bytes and i
        by (induction xs arbitrary: i) (auto split: if_splits)
      show ?thesis by (rule app [OF Some])
    qed
    then show ?thesis
      using 2(2-) w i Some by (auto simp: b m pos_wf_def suffix_at_def index_of_def)
  next
    case None
    have app: "memchr xs c = None \<Longrightarrow> memchr (xs @ ys) c = map_option ((+) (length xs)) (memchr ys c)" for xs ys :: bytes
      by (induction xs) (cases "memchr ys c"; auto split: if_splits)+
    have "memchr (drop pos (chunks_contents (ch # chs))) c =
        map_option ((+) (length (chunk_data ch) - pos)) (memchr ?rest c)"
      using app [OF None] w(4) by simp
    moreover have "find_char_loop c (ch # chs) pos cp = find_char_loop c chs 0 (cp + ch_datalen ch)"
      by (simp add: b m None)
    moreover have "case memchr ?rest c of
        None \<Rightarrow> find_char_loop c chs 0 (cp + ch_datalen ch) = Some None
      | Some i \<Rightarrow> \<exists>q. find_char_loop c chs 0 (cp + ch_datalen ch) = Some (Some q) \<and> pos_wf q \<and> p_chunks q \<noteq> []
        \<and> suffix_at q = drop i ?rest \<and> index_of q = cp + ch_datalen ch + i"
      using 2(1) 2(5) w unfolding add_0 add_0_right by (simp add: b m None)
    ultimately show ?thesis using w(3,4) by (auto split: option.splits)
  qed
qed simp

lemma first_occ_skip:
  assumes "s \<noteq> []" "memchr xs (hd s) = r"
  shows "first_occ s xs = (case r of None \<Rightarrow> None | Some i \<Rightarrow> map_option ((+) i) (first_occ s (drop i xs)))"
  using assms(2)
proof (induction xs arbitrary: r)
  case Nil
  then show ?case using assms(1) by simp
next
  case (Cons x xs)
  show ?case
  proof (cases "x = hd s")
    case True
    then show ?thesis using Cons(2) by (auto simp: option.map_id [unfolded id_def] split: option.splits)
  next
    case False
    then have "take (length s) (x # xs) \<noteq> s" using assms(1) by (cases s) auto
    then show ?thesis
      using False Cons by (cases "memchr xs (hd s)") (auto simp: option.map_comp comp_def intro!: option.map_cong)
  qed
qed

lemma find_string_loop_ok:
  "s \<noteq> [] \<Longrightarrow> pos_wf p \<Longrightarrow>
     find_string_loop p (hd s) s =
       Some (case first_occ s (suffix_at p) of None \<Rightarrow> - 1 | Some i \<Rightarrow> int (index_of p + i))"
proof (induction "length (suffix_at p)" arbitrary: p rule: less_induct)
  case less
  note w = less.prems(2)
  have f: "case memchr (suffix_at p) (hd s) of
      None \<Rightarrow> buf_find_pos_of_char (hd s) p = Some None
    | Some i \<Rightarrow> \<exists>q. buf_find_pos_of_char (hd s) p = Some (Some q) \<and> pos_wf q \<and> p_chunks q \<noteq> []
        \<and> suffix_at q = drop i (suffix_at p) \<and> index_of q = index_of p + i"
  proof (cases "p_chunks p")
    case Nil
    then show ?thesis by (simp add: suffix_at_def buf_find_pos_of_char_def)
  next
    case (Cons ch chs)
    have l: "p_chunk_pos p + length (chunks_contents (p_chunks p)) \<le> BUF_MAX_LEN" "p_pos p < ch_datalen ch"
      "length (chunk_data ch) = ch_datalen ch"
      using w Cons by (auto simp: pos_wf_def suffix_at_def index_of_def chunk_data_length)
    have e: "buf_find_pos_of_char (hd s) p = find_char_loop (hd s) (p_chunks p) (p_pos p) (p_chunk_pos p)"
      using l(2) Cons by (auto simp: buf_find_pos_of_char_def)
    show ?thesis
      using find_char_ok [of "p_chunks p" "p_pos p" "p_chunk_pos p" "hd s"] w l(1)
      unfolding e pos_wf_def [of p] suffix_at_def [of p] index_of_def [of p]
      by (auto simp: add.commute add.assoc split: option.splits)
  qed
  show ?case
  proof (cases "memchr (suffix_at p) (hd s)")
    case None
    then show ?thesis using f first_occ_skip [OF less.prems(1) None] by (subst find_string_loop.simps) simp
  next
    case (Some i)
    then obtain q where q: "buf_find_pos_of_char (hd s) p = Some (Some q)" "pos_wf q" "p_chunks q \<noteq> []"
      "suffix_at q = drop i (suffix_at p)" "index_of q = index_of p + i"
      using f by auto
    have i: "i < length (suffix_at p)" using memchr_Some [OF Some] by simp
    have fo: "first_occ s (suffix_at p) = map_option ((+) i) (first_occ s (suffix_at q))"
      using first_occ_skip [OF less.prems(1) Some] q(4) by simp
    have m: "buf_matches_at_pos q s = Some (take (length s) (suffix_at q) = s)"
      by (rule matches_ok [OF less.prems(1) q(2,3)])
    obtain x xs where sx: "suffix_at q = x # xs" using char_at_ok(2) [OF q(2,3)] by (cases "suffix_at q") auto
    show ?thesis
    proof (cases "take (length s) (suffix_at q) = s")
      case True
      then have "first_occ s (suffix_at q) = Some 0" using sx by simp
      moreover have "p_chunk_pos q + p_pos q \<le> BUF_MAX_LEN" using q(2) by (simp add: pos_wf_def index_of_def)
      ultimately show ?thesis using q(1,5) m True fo
        by (subst find_string_loop.simps) (simp add: index_of_def [of q, symmetric])
    next
      case False
      then have fq: "first_occ s (suffix_at q) = map_option Suc (first_occ s xs)" using sx by simp
      show ?thesis
      proof (cases "xs = []")
        case True
        then obtain r where "buf_pos_inc q = Some (r, False)" using pos_inc_ok [OF q(2,3)] sx by auto
        then show ?thesis using q(1) m False fo fq True less.prems(1)
          by (subst find_string_loop.simps) simp
      next
        case xs: False
        then obtain r where r: "buf_pos_inc q = Some (r, True)" "pos_wf r" "suffix_at r = xs" "index_of r = index_of q + 1"
          using pos_inc_ok [OF q(2,3)] sx by auto
        have "length (suffix_at r) < length (suffix_at p)"
          using r(3) sx q(4) i by (metis length_Cons length_drop less_diff_conv2 linorder_not_less Suc_le_eq diff_le_self order_trans)
        from less.hyps [OF this less.prems(1) r(2)]
        have "find_string_loop p (hd s) s =
            Some (case first_occ s xs of None \<Rightarrow> - 1 | Some i \<Rightarrow> int (index_of r + i))"
          using q(1) m False r(1,3) by (subst find_string_loop.simps) simp
        then show ?thesis unfolding fo fq using r(4) q(5) by (auto split: option.splits)
      qed
    qed
  qed
qed

subsection \<open>Lines\<close>

lemma memchr_app:
  "memchr (xs @ ys) c = (case memchr xs c of Some i \<Rightarrow> Some i | None \<Rightarrow> map_option ((+) (length xs)) (memchr ys c))"
  by (induction xs) (cases "memchr ys c"; auto split: option.splits)+

lemma memchr_map_Some: "memchr (map Some xs) (Some c) = memchr xs c"
  by (induction xs) simp_all

lemma find_offset_ok:
  "chunks_wf chs \<Longrightarrow> find_offset_loop c chs off =
     (case memchr (chunks_contents chs) c of None \<Rightarrow> - 1 | Some i \<Rightarrow> int (off + i))"
  by (induction chs arbitrary: off)
    (auto simp: chunk_bytes_data memchr_map_Some memchr_app chunk_data_length split: option.splits)

text \<open>A line and its terminator at the front of the contents, if there is one.\<close>

definition first_line :: "bytes \<Rightarrow> bytes option" where
  "first_line xs = map_option (\<lambda>i. take (i + 1) xs) (memchr xs 10)"

lemma buf_get_line_ok:
  assumes "buf_wf b"
  shows "case first_line (contents b) of
      None \<Rightarrow> buf_get_line b n = Some (0, [], n, b)
    | Some l \<Rightarrow>
        if length l + 1 > n then buf_get_line b n = Some (- 1, [], length l + 1, b)
        else \<exists>b'. buf_get_line b n = Some (1, map Some l @ [Some 0], length l, b') \<and> buf_wf b'
               \<and> contents b = l @ contents b'"
proof (cases "memchr (contents b) 10")
  case None
  then show ?thesis using assms find_offset_ok [of "b_chunks b" 10 0]
    by (auto simp: first_line_def buf_get_line_def buf_find_offset_of_char_def buf_wf_def contents_def)
next
  case (Some i)
  have i: "i < length (contents b)" using memchr_Some [OF Some] by simp
  have off: "buf_find_offset_of_char b 10 = Some (int i)" "b_chunks b \<noteq> []"
    using assms Some find_offset_ok [of "b_chunks b" 10 0]
    by (auto simp: buf_find_offset_of_char_def buf_wf_def contents_def)
  have l: "length (take (i + 1) (contents b)) = i + 1" using i by simp
  obtain b' where "buf_get_bytes b (i + 1) = Some (int (b_datalen b'), map Some (take (i + 1) (contents b)), b')"
    "buf_wf b'" "contents b' = drop (i + 1) (contents b)"
    using buf_get_bytes_ok [OF assms, of "i + 1"] assms i by (auto simp: buf_wf_def)
  then show ?thesis using off l Some by (auto simp: first_line_def buf_get_line_def Let_def)
qed

subsection \<open>A stream of bytes\<close>

text \<open>What a client of a byte queue relies on: bytes put in, taken out, and made contiguous.\<close>

datatype stream_op = Put bytes | Get nat | Contiguous nat

fun legal :: "nat \<Rightarrow> nat \<Rightarrow> stream_op list \<Rightarrow> bool" where
  "legal cap n [] = True"
| "legal cap n (Put x # ops) = (n + length x \<le> cap \<and> legal cap (n + length x) ops)"
| "legal cap n (Get k # ops) = (k \<le> n \<and> legal cap (n - k) ops)"
| "legal cap n (Contiguous k # ops) = legal cap n ops"

fun bytes_put :: "stream_op list \<Rightarrow> bytes" where
  "bytes_put [] = []"
| "bytes_put (Put x # ops) = x @ bytes_put ops"
| "bytes_put (_ # ops) = bytes_put ops"

fun bytes_wanted :: "stream_op list \<Rightarrow> nat" where
  "bytes_wanted [] = 0"
| "bytes_wanted (Get k # ops) = k + bytes_wanted ops"
| "bytes_wanted (_ # ops) = bytes_wanted ops"

fun run_stream :: "(stream_op \<Rightarrow> 's \<Rightarrow> (bytes \<times> 's) option) \<Rightarrow> stream_op list \<Rightarrow> 's \<Rightarrow> (bytes \<times> 's) option" where
  "run_stream perform [] s = Some ([], s)"
| "run_stream perform (a # ops) s =
     (case perform a s of
        None \<Rightarrow> None
      | Some (out, s) \<Rightarrow> map_option (\<lambda>(outs, s). (out @ outs, s)) (run_stream perform ops s))"

locale byte_stream =
  fixes inv :: "'s \<Rightarrow> bool" and view :: "'s \<Rightarrow> bytes" and capacity :: nat
    and perform :: "stream_op \<Rightarrow> 's \<Rightarrow> (bytes \<times> 's) option"
  assumes put: "inv s \<Longrightarrow> length (view s) + length x \<le> capacity \<Longrightarrow>
      \<exists>s'. perform (Put x) s = Some ([], s') \<and> inv s' \<and> view s' = view s @ x"
    and get: "inv s \<Longrightarrow> n \<le> length (view s) \<Longrightarrow>
      \<exists>s'. perform (Get n) s = Some (take n (view s), s') \<and> inv s' \<and> view s' = drop n (view s)"
    and contiguous: "inv s \<Longrightarrow> \<exists>s'. perform (Contiguous n) s = Some ([], s') \<and> inv s' \<and> view s' = view s"
begin

lemma run_fifo:
  "inv s \<Longrightarrow> legal capacity (length (view s)) ops \<Longrightarrow>
    \<exists>out s'. run_stream perform ops s = Some (out, s') \<and> inv s'
      \<and> view s @ bytes_put ops = out @ view s' \<and> length out = bytes_wanted ops"
proof (induction ops arbitrary: s)
  case (Cons a ops)
  show ?case
  proof (cases a)
    case (Put x)
    then obtain s1 where s1: "perform a s = Some ([], s1)" "inv s1" "view s1 = view s @ x"
      using put [OF Cons.prems(1), of x] Cons.prems(2) by auto
    show ?thesis using Cons.IH [OF s1(2)] Cons.prems(2) s1 Put by auto
  next
    case (Get n)
    then obtain s1 where s1: "perform a s = Some (take n (view s), s1)" "inv s1" "view s1 = drop n (view s)"
      "n \<le> length (view s)"
      using get [OF Cons.prems(1), of n] Cons.prems(2) by auto
    obtain out s' where r: "run_stream perform ops s1 = Some (out, s')" "inv s'" "view s1 @ bytes_put ops = out @ view s'"
      "length out = bytes_wanted ops"
      using Cons.IH [OF s1(2)] Cons.prems(2) s1(3) Get by auto
    have "view s @ bytes_put ops = take n (view s) @ out @ view s'"
      unfolding r(3) [symmetric] s1(3) append_assoc [symmetric] append_take_drop_id ..
    with r s1 Get show ?thesis by simp
  next
    case (Contiguous n)
    then obtain s1 where s1: "perform a s = Some ([], s1)" "inv s1" "view s1 = view s"
      using contiguous [OF Cons.prems(1), of n] by auto
    show ?thesis using Cons.IH [OF s1(2)] Cons.prems(2) s1 Contiguous by auto
  qed
qed simp

end

text \<open>The operations of the buffer; the length that buf_get_bytes and buf_add return is not used.\<close>

fun buf_perform :: "32 word \<Rightarrow> stream_op \<Rightarrow> buf \<Rightarrow> (bytes \<times> buf) option" where
  "buf_perform now (Put x) b = map_option (\<lambda>(r, b). ([], b)) (buf_add now b x)"
| "buf_perform now (Get n) b =
     (case buf_get_bytes b n of
        None \<Rightarrow> None
      | Some (r, out, b) \<Rightarrow> map_option (\<lambda>out. (out, b)) (known_bytes out))"
| "buf_perform now (Contiguous n) b = map_option (\<lambda>(b, head). ([], b)) (buf_pullup b n)"

interpretation buffer: byte_stream buf_wf contents BUF_MAX_LEN "buf_perform now" for now
proof
  fix b :: buf and x n
  assume w: "buf_wf b"
  then have l: "b_datalen b = length (contents b)" by (simp add: buf_wf_def)
  show "length (contents b) + length x \<le> BUF_MAX_LEN \<Longrightarrow>
      \<exists>b'. buf_perform now (Put x) b = Some ([], b') \<and> buf_wf b' \<and> contents b' = contents b @ x"
    using buf_add_ok [OF w, of x now] l by auto
  show "n \<le> length (contents b) \<Longrightarrow>
      \<exists>b'. buf_perform now (Get n) b = Some (take n (contents b), b') \<and> buf_wf b' \<and> contents b' = drop n (contents b)"
    using buf_get_bytes_ok [OF w, of n] l by (auto simp: known_bytes_ok)
  show "\<exists>b'. buf_perform now (Contiguous n) b = Some ([], b') \<and> buf_wf b' \<and> contents b' = contents b"
    using buf_pullup_ok [OF w, of n] by auto
qed

lemma buf_new_wf: "buf_wf buf_new" "contents buf_new = []"
  by (simp_all add: buf_wf_def buf_new_def contents_def CHUNK_OVERHEAD_def CHUNK_HEADER_LEN_def SENTINEL_LEN_def)

lemma buf_new_empty: "b_datalen buf_new = 0" "b_chunks buf_new = []"
  by (simp_all add: buf_new_def)

lemma buf_wf_assert: "buf_wf b \<Longrightarrow> buf_assert_ok b"
proof -
  assume w: "buf_wf b"
  then have "b_datalen b = sum_list (map ch_datalen (b_chunks b))" "chunks_wf (b_chunks b)"
    by (simp_all add: buf_wf_def contents_def chunks_length)
  moreover have "ch_datalen ch \<le> BUF_MAX_LEN" if "ch \<in> set (b_chunks b)" for ch
    using member_le_sum_list [of "ch_datalen ch" "map ch_datalen (b_chunks b)"] that w calculation(1)
    by (simp add: buf_wf_def)
  ultimately show ?thesis
    by (auto simp: buf_assert_ok_def chunks_wf_def list_all_iff chunk_ok_def chunk_wf_def)
qed

text \<open>C23: A buffer is a byte stream.  For every sequence of buf_add, buf_get_bytes and buf_pullup calls
  in which no get asks for more than is stored and the buffer never exceeds BUF_MAX_LEN, no call
  fails an assertion, runs out of a chunk's memory or hands out an uninitialised byte; the bytes
  handed out followed by the bytes left are the bytes that were there followed by the bytes added,
  in order, as many as were asked for; and the buffer passes buf_assert_ok at the end.\<close>

theorem buf_stream_fifo:
  assumes "buf_wf b" "legal BUF_MAX_LEN (b_datalen b) ops"
  shows "\<exists>out b'. run_stream (buf_perform now) ops b = Some (out, b') \<and> buf_wf b' \<and> buf_assert_ok b'
    \<and> contents b @ bytes_put ops = out @ contents b' \<and> length out = bytes_wanted ops"
  using buffer.run_fifo [OF assms(1), of ops now] assms buf_wf_assert by (auto simp: buf_wf_def)

theorem buf_stream_fifo_witness:
  "\<exists>b'. run_stream (buf_perform 0) [Put [1, 2, 3], Contiguous 2, Get 2, Put [4], Get 1] buf_new = Some ([1, 2, 3], b')
    \<and> contents b' = [4]"
proof -
  have "legal BUF_MAX_LEN (b_datalen buf_new) [Put [1, 2, 3], Contiguous 2, Get 2, Put [4], Get 1]"
    by (simp add: BUF_MAX_LEN_def INT_MAX_def buf_new_def)
  from buf_stream_fifo [OF buf_new_wf(1) this, of 0]
  obtain out b' where r: "run_stream (buf_perform 0) [Put [1, 2, 3], Contiguous 2, Get 2, Put [4], Get 1] buf_new = Some (out, b')"
    "[1, 2, 3, 4] = out @ contents b'" "length out = 3"
    by (auto simp: buf_new_wf)
  then have "out = take 3 [1, 2, 3, 4]" "contents b' = drop 3 [1, 2, 3, 4]" by (simp_all add: r(2))
  with r(1) show ?thesis by simp
qed

subsection \<open>The contracts of the operations\<close>

text \<open>Buf_add at its length limit.  On a well-formed buffer it appends the bytes and returns the
  new length when that is at most BUF_MAX_LEN; when it is more but the added string itself is
  not longer than BUF_MAX_LEN it returns -1 and changes nothing; for a longer string the guard's
  unsigned subtraction wraps around, the string is copied, and the assertion at the end fails.\<close>

theorem buf_add_limits:
  assumes "buf_wf b" "length s < 2 ^ 63"
  shows "if b_datalen b + length s \<le> BUF_MAX_LEN
      then \<exists>b'. buf_add now b s = Some (int (b_datalen b + length s), b') \<and> buf_wf b' \<and> contents b' = contents b @ s
    else if length s \<le> BUF_MAX_LEN then buf_add now b s = Some (- 1, b)
    else buf_add now b s = None"
proof -
  have d: "b_datalen b \<le> BUF_MAX_LEN" using assms(1) by (simp add: buf_wf_def)
  consider "b_datalen b + length s \<le> BUF_MAX_LEN"
    | "\<not> b_datalen b + length s \<le> BUF_MAX_LEN" "length s \<le> BUF_MAX_LEN"
    | "\<not> b_datalen b + length s \<le> BUF_MAX_LEN" "\<not> length s \<le> BUF_MAX_LEN" by blast
  then show ?thesis
  proof cases
    case 1
    then show ?thesis using buf_add_ok [OF assms(1) 1, of now] by auto
  next
    case 2
    then have g: "(int BUF_MAX_LEN - int (length s)) mod 2 ^ 64 = int BUF_MAX_LEN - int (length s)"
      by (intro mod_pos_pos_trivial) (auto simp: BUF_MAX_LEN_def INT_MAX_def)
    have "s \<noteq> []" using 2 d by auto
    then show ?thesis using 2 d unfolding buf_add_def g by auto
  next
    case 3
    have "(int BUF_MAX_LEN - int (length s)) mod 2 ^ 64 = (int BUF_MAX_LEN - int (length s) + 2 ^ 64) mod 2 ^ 64"
      by simp
    also have "\<dots> = int BUF_MAX_LEN - int (length s) + 2 ^ 64"
      using 3(2) assms(2) by (intro mod_pos_pos_trivial) (auto simp: BUF_MAX_LEN_def INT_MAX_def)
    finally have g: "(int BUF_MAX_LEN - int (length s)) mod 2 ^ 64 = int BUF_MAX_LEN - int (length s) + 2 ^ 64" .
    have "int (b_datalen b) \<le> int BUF_MAX_LEN - int (length s) + 2 ^ 64"
      using d assms(2) by (simp add: BUF_MAX_LEN_def INT_MAX_def)
    moreover obtain chs where "add_loop now b s = Some (b\<lparr>b_chunks := chs, b_datalen := b_datalen b + length s\<rparr>)"
      using add_loop_ok [of b now s] assms(1) by (auto simp: buf_wf_def)
    moreover have "s \<noteq> []" using 3 by auto
    ultimately show ?thesis using 3 d unfolding buf_add_def g by simp
  qed
qed

theorem buf_add_limits_witness:
  "\<exists>b'. buf_add 0 buf_new [7, 8] = Some (2, b') \<and> buf_wf b' \<and> contents b' = [7, 8]"
  using buf_add_limits [of buf_new "[7, 8]" 0] buf_new_wf by (simp add: BUF_MAX_LEN_def INT_MAX_def buf_new_def)

text \<open>Buf_pullup.  It changes neither the contents nor the invariant, and the pointer and length it
  hands out are the front of the contents, at least as long as the requested number of bytes or
  all that is stored (a null pointer only when nothing is stored); repacking, growing and copying stay
  within the chunk's memory.\<close>

theorem buf_pullup_contract:
  assumes "buf_wf b"
  shows "\<exists>b' head. buf_pullup b n = Some (b', head) \<and> buf_wf b' \<and> contents b' = contents b
    \<and> (case head of
         None \<Rightarrow> contents b = []
       | Some m \<Rightarrow> min n (b_datalen b) \<le> length m \<and> m = map Some (take (length m) (contents b)))"
  using buf_pullup_ok [OF assms, of n] unfolding pulled_def by blast

theorem buf_pullup_contract_witness: "buf_pullup buf_new 5 = Some (buf_new, None)"
  using buf_pullup_contract [OF buf_new_wf(1), of 5] by (auto simp: buf_pullup_def buf_new_def)

text \<open>Moving data between buffers.  buf_move_to_buf moves the first *buf_flushlen bytes, or all there
  are, to the end of the other buffer, returns how many and subtracts them from *buf_flushlen; buf_move_all
  moves all of them; when the result could exceed BUF_MAX_LEN both change nothing (-1 and 0).\<close>

theorem buf_move_contract:
  assumes "buf_wf bo" "buf_wf bi" and k_def: "k = min n (b_datalen bi)"
  shows "(if b_datalen bo + n \<le> BUF_MAX_LEN
      then \<exists>bo' bi'. buf_move_to_buf now bo bi n = Some (int k, n - k, bo', bi') \<and> buf_wf bo' \<and> buf_wf bi'
        \<and> contents bo' = contents bo @ take k (contents bi) \<and> contents bi' = drop k (contents bi)
      else buf_move_to_buf now bo bi n = Some (- 1, n, bo, bi))
    \<and> (let (r, bo', bi') = buf_move_all bo bi in buf_wf bo' \<and> buf_wf bi' \<and>
        (if b_datalen bo + b_datalen bi \<le> BUF_MAX_LEN
         then r = b_datalen bi \<and> contents bo' = contents bo @ contents bi \<and> contents bi' = []
         else r = 0 \<and> bo' = bo \<and> bi' = bi))"
proof (rule conjI)
  have d: "b_datalen bo \<le> BUF_MAX_LEN" "b_datalen bi \<le> BUF_MAX_LEN" "b_datalen bi = length (contents bi)"
    using assms(1,2) by (simp_all add: buf_wf_def)
  show "if b_datalen bo + n \<le> BUF_MAX_LEN
      then \<exists>bo' bi'. buf_move_to_buf now bo bi n = Some (int k, n - k, bo', bi') \<and> buf_wf bo' \<and> buf_wf bi'
        \<and> contents bo' = contents bo @ take k (contents bi) \<and> contents bi' = drop k (contents bi)
      else buf_move_to_buf now bo bi n = Some (- 1, n, bo, bi)"
  proof (cases "b_datalen bo + n \<le> BUF_MAX_LEN")
    case True
    then obtain bo' bi' where "move_loop now bo bi k = Some (bo', bi')" "buf_wf bo'" "buf_wf bi'"
      "contents bo' = contents bo @ take k (contents bi)" "contents bi' = drop k (contents bi)"
    proof -
      have "k \<le> b_datalen bi" "b_datalen bo + k \<le> BUF_MAX_LEN" using True by (auto simp: k_def)
      from move_loop_ok [OF assms(1,2) this, of now] that show ?thesis by blast
    qed
    moreover have "\<not> b_datalen bo > BUF_MAX_LEN" "\<not> n > BUF_MAX_LEN" "\<not> b_datalen bo > BUF_MAX_LEN - n" "k \<le> BUF_MAX_LEN"
      using True by (auto simp: k_def)
    ultimately show ?thesis using True by (simp add: buf_move_to_buf_def k_def Let_def)
  next
    case False
    then show ?thesis using d by (auto simp: buf_move_to_buf_def)
  qed
  show "let (r, bo', bi') = buf_move_all bo bi in buf_wf bo' \<and> buf_wf bi' \<and>
        (if b_datalen bo + b_datalen bi \<le> BUF_MAX_LEN
         then r = b_datalen bi \<and> contents bo' = contents bo @ contents bi \<and> contents bi' = []
         else r = 0 \<and> bo' = bo \<and> bi' = bi)"
    using assms(1,2) d by (auto simp: buf_move_all_def buf_datalen_def buf_wf_def contents_def)
qed

theorem buf_move_contract_witness:
  "buf_move_to_buf 0 buf_new buf_new 9 = Some (0, 9, buf_new, buf_new)"
  using buf_move_contract [OF buf_new_wf(1) buf_new_wf(1), of 0 9 0] 
  by (simp add: buf_move_to_buf_def buf_new_def BUF_MAX_LEN_def INT_MAX_def move_loop.simps [of _ _ _ 0])

text \<open>Buf_get_line.  When the contents have a newline and the line with a NUL fits in *data_len, it
  returns 1, writes the line with its newline and a NUL, sets *data_len to the line's length and removes
  exactly that line; when it does not fit it returns -1 with the size needed and changes nothing; without
  a newline it returns 0 and changes nothing.\<close>

theorem buf_get_line_contract:
  assumes "buf_wf b"
  shows "case first_line (contents b) of
      None \<Rightarrow> buf_get_line b n = Some (0, [], n, b)
    | Some l \<Rightarrow>
        if length l + 1 > n then buf_get_line b n = Some (- 1, [], length l + 1, b)
        else \<exists>b'. buf_get_line b n = Some (1, map Some l @ [Some 0], length l, b') \<and> buf_wf b'
               \<and> contents b = l @ contents b'"
  by (rule buf_get_line_ok [OF assms])

theorem buf_get_line_contract_witness:
  "\<exists>b b'. contents b = [65, 10, 66] \<and> buf_get_line b 10 = Some (1, [Some 65, Some 10, Some 0], 2, b') \<and> contents b' = [66]"
proof -
  obtain b where b: "buf_wf b" "contents b = [65, 10, 66]"
    using buf_add_limits [OF buf_new_wf(1), of "[65, 10, 66]" 0] buf_new_wf buf_new_empty
    by (auto simp: BUF_MAX_LEN_def INT_MAX_def)
  then have "first_line (contents b) = Some [65, 10]" by (simp add: first_line_def)
  then show ?thesis using buf_get_line_contract [OF b(1), of 10] b(2) by auto
qed

text \<open>C32: buf_find_string_offset.  On a well-formed buffer without empty chunks it returns the first
  position of a nonempty string in the contents, or -1 when it does not occur, matches across the
  chunk boundaries included.\<close>

theorem buf_find_string_correct:
  assumes "buf_wf b" "no_empty (b_chunks b)" "s \<noteq> []"
  shows "\<exists>r. buf_find_string_offset b s = Some r
    \<and> (if r < 0 then r = - 1 \<and> (\<forall>i. \<not> occurs_at s (contents b) i)
       else occurs_at s (contents b) (nat r) \<and> (\<forall>j. \<not> (j < nat r \<and> occurs_at s (contents b) j)))"
proof -
  have "pos_wf (buf_pos_init b)" "suffix_at (buf_pos_init b) = contents b" "index_of (buf_pos_init b) = 0"
    using assms by (cases "b_chunks b"; auto simp: pos_wf_def buf_pos_init_def buf_wf_def no_empty_def index_of_def
        suffix_at_def contents_def)+
  then have "buf_find_string_offset b s = Some (case first_occ s (contents b) of None \<Rightarrow> - 1 | Some i \<Rightarrow> int i)"
    using find_string_loop_ok [OF assms(3), of "buf_pos_init b"] assms(3)
    by (auto simp: buf_find_string_offset_def split: option.splits)
  then show ?thesis using first_occ_spec [of s "contents b"] by (auto split: option.splits)
qed

definition one_byte_buf :: buf where
  "one_byte_buf = \<lparr>b_datalen = 1, b_default_chunk_size = 256, b_chunks =
     [\<lparr>ch_datalen = 1, ch_memlen = 1, ch_data = 0, ch_inserted_time = 0, ch_mem = [Some 13]\<rparr>]\<rparr>"

lemma one_byte_buf_wf: "buf_wf one_byte_buf" "no_empty (b_chunks one_byte_buf)" "contents one_byte_buf = [13]"
  by (simp_all add: one_byte_buf_def buf_wf_def chunk_wf_def chunk_bytes_def chunk_data_def contents_def
      no_empty_def BUF_MAX_LEN_def INT_MAX_def CHUNK_OVERHEAD_def CHUNK_HEADER_LEN_def SENTINEL_LEN_def)

theorem buf_find_string_correct_witness: "buf_find_string_offset one_byte_buf [13] = Some 0"
proof -
  obtain r where r: "buf_find_string_offset one_byte_buf [13] = Some r"
    "if r < 0 then r = - 1 \<and> (\<forall>i. \<not> occurs_at [13] [13] i)
       else occurs_at [13] [13] (nat r) \<and> (\<forall>j. \<not> (j < nat r \<and> occurs_at [13] [13] j))"
    using buf_find_string_correct [OF one_byte_buf_wf(1,2), of "[13]"] unfolding one_byte_buf_wf(3) by blast
  have o: "occurs_at [13] [13] (i) \<longleftrightarrow> i = 0" for i by (cases i) (auto simp: occurs_at_def)
  then show ?thesis using r o [of 0] by (auto split: if_splits)
qed

text \<open>C38: The limit of buf_find_string_offset.  A read that ends without data leaves an empty chunk at
  the tail (buf_add_chunk_with_capacity), which is well formed and passes buf_assert_ok; when the contents
  end in the middle of a possible match, the search then compares a byte of that chunk's memory that was
  never written.  After buf_move_all the empty chunk can be in the middle of a buffer.\<close>

theorem buf_find_string_reads_uninitialised:
  "\<exists>b. buf_add_chunk_with_capacity 0 one_byte_buf 100 True = Some b \<and> buf_wf b \<and> buf_assert_ok b
     \<and> contents b = [13] \<and> buf_find_string_offset b [13, 10] = None
     \<and> (case buf_move_all b one_byte_buf of
          (r, bo, bi) \<Rightarrow> \<not> no_empty (butlast (b_chunks bo)) \<and> buf_find_string_offset bo [13, 13] = None)"
proof -
  obtain ch where ch: "buf_add_chunk_with_capacity 0 one_byte_buf 100 True =
      Some (one_byte_buf\<lparr>b_chunks := b_chunks one_byte_buf @ [ch]\<rparr>)"
    "chunk_wf ch" "chunk_data ch = []" "ch_datalen ch = 0" "ch_data ch = 0" "0 < length (ch_mem ch)" "ch_mem ch ! 0 = None"
    by (simp add: buf_add_chunk_with_capacity_def one_byte_buf_def CHUNK_ALLOC_SIZE_def CHUNK_OVERHEAD_def
        CHUNK_HEADER_LEN_def SENTINEL_LEN_def chunk_new_with_alloc_size_def CHUNK_SIZE_WITH_ALLOC_def
        chunk_wf_def chunk_data_def chunk_bytes_def)
  let ?b = "one_byte_buf\<lparr>b_chunks := b_chunks one_byte_buf @ [ch]\<rparr>"
  have c: "contents ?b = [13]" "buf_wf ?b"
    using one_byte_buf_wf ch(2,3) by (auto simp: buf_wf_def contents_def one_byte_buf_def)
  have f: "buf_find_string_offset \<lparr>b_datalen = n, b_default_chunk_size = d, b_chunks = b_chunks one_byte_buf @ ch # chs\<rparr> (13 # x # xs) = None"
    for n d chs x xs
    using ch(4-7)
    by (simp add: buf_find_string_offset_def find_string_loop.simps buf_pos_init_def one_byte_buf_def
        buf_find_pos_of_char_def chunk_bytes_def buf_pos_inc_def char_at_def BUF_MAX_LEN_def INT_MAX_def Let_def)
  show ?thesis
    using ch c buf_wf_assert [OF c(2)] f [unfolded one_byte_buf_def, simplified]
    by (auto simp: buf_move_all_def buf_datalen_def one_byte_buf_def BUF_MAX_LEN_def INT_MAX_def no_empty_def)
qed

end
