(* ===== verification/Token_Bucket.thy ===== *)
theory Token_Bucket
  imports Prelude
begin

text \<open>
  Token buckets for rate limiting (lib/evloop/token_bucket.c and .h).  A bucket's level is an
  \<open>int32_t\<close>, held as a 32-bit word and read with \<open>sint\<close>; conversions and signed overflow wrap around.
  \<open>None\<close> stands for a division by a rate of 0.  The time stamps are those of the platforms that
  have \<open>clock_gettime\<close> (953 units in a second).
\<close>

unbundle bit_operations_syntax

type_synonym u32 = "32 word"

record token_bucket_cfg =
  rate :: u32
  burst :: u32

type_synonym token_bucket_raw = u32

definition TOKEN_BUCKET_MAX_BURST :: u32 where "TOKEN_BUCKET_MAX_BURST = 2147483647"
definition TICKS_PER_STEP :: nat where "TICKS_PER_STEP = 16"
definition STAMP_TICKS_PER_SECOND :: nat where "STAMP_TICKS_PER_SECOND = 953"
definition TB_READ :: nat where "TB_READ = 1"
definition TB_WRITE :: nat where "TB_WRITE = 2"
definition UINT32_MAX :: u32 where "UINT32_MAX = 4294967295"

definition token_bucket_cfg_init :: "u32 \<Rightarrow> u32 \<Rightarrow> token_bucket_cfg" where
  "token_bucket_cfg_init r b =
     \<lparr>rate = r, burst = (if b > TOKEN_BUCKET_MAX_BURST then TOKEN_BUCKET_MAX_BURST else b)\<rparr>"

definition token_bucket_raw_reset :: "token_bucket_cfg \<Rightarrow> token_bucket_raw" where
  "token_bucket_raw_reset cfg = burst cfg"

definition token_bucket_raw_adjust :: "token_bucket_raw \<Rightarrow> token_bucket_cfg \<Rightarrow> token_bucket_raw" where
  "token_bucket_raw_adjust bucket cfg = (if sint bucket < sint (burst cfg) then bucket else burst cfg)"

text \<open>The return value and the new level; \<open>gap\<close> is computed in \<open>size_t\<close>.\<close>

definition token_bucket_raw_refill_steps ::
  "token_bucket_raw \<Rightarrow> token_bucket_cfg \<Rightarrow> u32 \<Rightarrow> (bool \<times> token_bucket_raw) option" where
  "token_bucket_raw_refill_steps bucket cfg elapsed =
     (if rate cfg = 0 then None
      else
        let was_empty = (sint bucket \<le> 0);
            gap = (scast (burst cfg) :: 64 word) - scast bucket;
            bucket = (if (ucast elapsed :: 64 word) > gap div ucast (rate cfg) then burst cfg
                      else bucket + rate cfg * elapsed)
        in Some (was_empty \<and> sint bucket > 0, bucket))"

definition token_bucket_raw_dec :: "token_bucket_raw \<Rightarrow> int \<Rightarrow> bool \<times> token_bucket_raw" where
  "token_bucket_raw_dec bucket n =
     (if n < 0 then (False, bucket)
      else (sint bucket > 0 \<and> n \<ge> sint bucket, word_of_int (sint bucket - n)))"

definition token_bucket_raw_get :: "token_bucket_raw \<Rightarrow> nat" where
  "token_bucket_raw_get bucket = (if sint bucket \<ge> 0 then nat (sint bucket) else 0)"

definition monotime_coarse_stamp_units_to_approx_msec :: "64 word \<Rightarrow> 64 word" where
  "monotime_coarse_stamp_units_to_approx_msec units = (units * 1000) div of_nat STAMP_TICKS_PER_SECOND"

definition rate_per_sec_to_rate_per_step :: "u32 \<Rightarrow> u32" where
  "rate_per_sec_to_rate_per_step r =
     (let units = (ucast r :: 64 word) * of_nat TICKS_PER_STEP;
          val = (ucast (monotime_coarse_stamp_units_to_approx_msec units div 1000) :: u32)
      in if val \<noteq> 0 then val else 1)"

subsection \<open>Read-write buckets\<close>

record token_bucket_rw =
  rw_cfg :: token_bucket_cfg
  read_bucket :: token_bucket_raw
  write_bucket :: token_bucket_raw
  last_refilled_at_timestamp :: u32

definition token_bucket_rw_adjust :: "token_bucket_rw \<Rightarrow> u32 \<Rightarrow> u32 \<Rightarrow> token_bucket_rw" where
  "token_bucket_rw_adjust bucket r b =
     (let cfg = token_bucket_cfg_init (rate_per_sec_to_rate_per_step r) b in
      bucket\<lparr>rw_cfg := cfg,
             read_bucket := token_bucket_raw_adjust (read_bucket bucket) cfg,
             write_bucket := token_bucket_raw_adjust (write_bucket bucket) cfg\<rparr>)"

definition token_bucket_rw_reset :: "token_bucket_rw \<Rightarrow> u32 \<Rightarrow> token_bucket_rw" where
  "token_bucket_rw_reset bucket now =
     bucket\<lparr>read_bucket := token_bucket_raw_reset (rw_cfg bucket),
            write_bucket := token_bucket_raw_reset (rw_cfg bucket),
            last_refilled_at_timestamp := now\<rparr>"

definition token_bucket_rw_init :: "u32 \<Rightarrow> u32 \<Rightarrow> u32 \<Rightarrow> token_bucket_rw" where
  "token_bucket_rw_init r b now =
     token_bucket_rw_reset
       (token_bucket_rw_adjust
          \<lparr>rw_cfg = \<lparr>rate = 0, burst = 0\<rparr>, read_bucket = 0, write_bucket = 0, last_refilled_at_timestamp = 0\<rparr> r b)
       now"

definition token_bucket_rw_refill :: "token_bucket_rw \<Rightarrow> u32 \<Rightarrow> (nat \<times> token_bucket_rw) option" where
  "token_bucket_rw_refill bucket now =
     (let elapsed_ticks = now - last_refilled_at_timestamp bucket in
      if elapsed_ticks \<le> UINT32_MAX div 4 then
        (let elapsed_steps = elapsed_ticks div of_nat TICKS_PER_STEP in
         if elapsed_steps = 0 then Some (0, bucket)
         else do {
           (r, read) \<leftarrow> token_bucket_raw_refill_steps (read_bucket bucket) (rw_cfg bucket) elapsed_steps;
           (w, write) \<leftarrow> token_bucket_raw_refill_steps (write_bucket bucket) (rw_cfg bucket) elapsed_steps;
           Some ((if r then TB_READ else 0) OR (if w then TB_WRITE else 0),
                 bucket\<lparr>read_bucket := read, write_bucket := write, last_refilled_at_timestamp := now\<rparr>)
         })
      else Some (0, bucket\<lparr>last_refilled_at_timestamp := now\<rparr>))"

definition token_bucket_rw_dec_read :: "token_bucket_rw \<Rightarrow> int \<Rightarrow> bool \<times> token_bucket_rw" where
  "token_bucket_rw_dec_read bucket n =
     (let (e, b) = token_bucket_raw_dec (read_bucket bucket) n in (e, bucket\<lparr>read_bucket := b\<rparr>))"

definition token_bucket_rw_dec_write :: "token_bucket_rw \<Rightarrow> int \<Rightarrow> bool \<times> token_bucket_rw" where
  "token_bucket_rw_dec_write bucket n =
     (let (e, b) = token_bucket_raw_dec (write_bucket bucket) n in (e, bucket\<lparr>write_bucket := b\<rparr>))"

definition token_bucket_rw_dec :: "token_bucket_rw \<Rightarrow> int \<Rightarrow> int \<Rightarrow> nat \<times> token_bucket_rw" where
  "token_bucket_rw_dec bucket n_read n_written =
     (let (r, bucket) = token_bucket_rw_dec_read bucket n_read;
          (w, bucket) = token_bucket_rw_dec_write bucket n_written
      in ((if r then TB_READ else 0) OR (if w then TB_WRITE else 0), bucket))"

definition token_bucket_rw_get_read :: "token_bucket_rw \<Rightarrow> nat" where
  "token_bucket_rw_get_read bucket = token_bucket_raw_get (read_bucket bucket)"

definition token_bucket_rw_get_write :: "token_bucket_rw \<Rightarrow> nat" where
  "token_bucket_rw_get_write bucket = token_bucket_raw_get (write_bucket bucket)"

subsection \<open>Single counters\<close>

record token_bucket_ctr =
  ctr_cfg :: token_bucket_cfg
  counter :: token_bucket_raw
  ctr_last_refilled_at_timestamp :: u32

definition token_bucket_ctr_adjust :: "token_bucket_ctr \<Rightarrow> u32 \<Rightarrow> u32 \<Rightarrow> token_bucket_ctr" where
  "token_bucket_ctr_adjust bucket r b =
     (let cfg = token_bucket_cfg_init r b in
      bucket\<lparr>ctr_cfg := cfg, counter := token_bucket_raw_adjust (counter bucket) cfg\<rparr>)"

definition token_bucket_ctr_reset :: "token_bucket_ctr \<Rightarrow> u32 \<Rightarrow> token_bucket_ctr" where
  "token_bucket_ctr_reset bucket now =
     bucket\<lparr>counter := token_bucket_raw_reset (ctr_cfg bucket), ctr_last_refilled_at_timestamp := now\<rparr>"

definition token_bucket_ctr_init :: "u32 \<Rightarrow> u32 \<Rightarrow> u32 \<Rightarrow> token_bucket_ctr" where
  "token_bucket_ctr_init r b now =
     token_bucket_ctr_reset
       (token_bucket_ctr_adjust
          \<lparr>ctr_cfg = \<lparr>rate = 0, burst = 0\<rparr>, counter = 0, ctr_last_refilled_at_timestamp = 0\<rparr> r b) now"

definition token_bucket_ctr_refill :: "token_bucket_ctr \<Rightarrow> u32 \<Rightarrow> token_bucket_ctr option" where
  "token_bucket_ctr_refill bucket now =
     (let elapsed_sec = now - ctr_last_refilled_at_timestamp bucket in
      map_option (\<lambda>c. bucket\<lparr>counter := c, ctr_last_refilled_at_timestamp := now\<rparr>)
        (if elapsed_sec \<le> UINT32_MAX div 4
         then map_option snd (token_bucket_raw_refill_steps (counter bucket) (ctr_cfg bucket) elapsed_sec)
         else Some (counter bucket)))"

definition token_bucket_ctr_dec :: "token_bucket_ctr \<Rightarrow> int \<Rightarrow> bool \<times> token_bucket_ctr" where
  "token_bucket_ctr_dec bucket n =
     (let (e, c) = token_bucket_raw_dec (counter bucket) n in (e, bucket\<lparr>counter := c\<rparr>))"

definition token_bucket_ctr_get :: "token_bucket_ctr \<Rightarrow> nat" where
  "token_bucket_ctr_get bucket = token_bucket_raw_get (counter bucket)"

subsection \<open>Exact refilling\<close>

text \<open>A configuration that was initialised with a positive rate, and a level within it.\<close>

definition cfg_ok :: "token_bucket_cfg \<Rightarrow> bool" where
  "cfg_ok cfg \<longleftrightarrow> rate cfg \<noteq> 0 \<and> 0 \<le> sint (burst cfg)"

definition level_ok :: "token_bucket_cfg \<Rightarrow> token_bucket_raw \<Rightarrow> bool" where
  "level_ok cfg bucket \<longleftrightarrow> sint bucket \<le> sint (burst cfg)"

lemma sint32_bounds: "- (2 ^ 31) \<le> sint (w :: u32)" "sint (w :: u32) < 2 ^ 31"
  using sint_ge [of w] sint_lt [of w] by simp_all

lemma sint_word_small:
  assumes "- (2 ^ 31) \<le> x" "x < 2 ^ 31"
  shows "sint (word_of_int x :: u32) = x"
proof -
  have "sint (word_of_int x :: u32) = (x + 2 ^ 31) mod 2 ^ 32 - 2 ^ 31" by (simp add: int_word_sint)
  also have "(x + 2 ^ 31) mod 2 ^ 32 = x + 2 ^ 31" using assms by (intro mod_pos_pos_trivial) auto
  finally show ?thesis by simp
qed

lemma uint32_less: "uint (w :: u32) < 2 ^ 32"
  using uint_lt2p [of w] by simp

lemma refill_gap:
  assumes "level_ok cfg bucket"
  shows "uint ((scast (burst cfg) :: 64 word) - scast bucket) = sint (burst cfg) - sint bucket"
proof -
  have "(scast (burst cfg) :: 64 word) - scast bucket = word_of_int (sint (burst cfg) - sint bucket)"
    by (simp only: scast_eq wi_hom_sub)
  moreover have "0 \<le> sint (burst cfg) - sint bucket" "sint (burst cfg) - sint bucket < 2 ^ 64"
    using assms sint32_bounds [of bucket] sint32_bounds [of "burst cfg"] by (auto simp: level_ok_def)
  ultimately show ?thesis by (simp only: uint_word_of_int) (intro mod_pos_pos_trivial, simp_all)
qed

lemma uint_ucast64: "uint (ucast (w :: u32) :: 64 word) = uint w"
  by (rule uint_up_ucast) (simp add: is_up)

lemma refill_steps_exact:
  fixes elapsed :: u32
  assumes "cfg_ok cfg" "level_ok cfg bucket"
  defines "lvl \<equiv> min (sint (burst cfg)) (sint bucket + uint (rate cfg) * uint elapsed)"
  shows "\<exists>b. token_bucket_raw_refill_steps bucket cfg elapsed = Some (sint bucket \<le> 0 \<and> 0 < lvl, b)
    \<and> sint b = lvl"
proof -
  let ?gap = "(scast (burst cfg) :: 64 word) - scast bucket"
  let ?g = "sint (burst cfg) - sint bucket" and ?r = "uint (rate cfg)" and ?e = "uint elapsed"
  have g: "uint ?gap = ?g" by (rule refill_gap [OF assms(2)])
  have r: "0 < ?r" using assms(1) by (simp add: cfg_ok_def word_neq_0_conv word_less_def)
  have test: "(ucast elapsed :: 64 word) > ?gap div ucast (rate cfg) \<longleftrightarrow> ?e > ?g div ?r"
    by (simp only: word_less_def uint_div g uint_ucast64)
  show ?thesis
  proof (cases "?e > ?g div ?r")
    case True
    have "?g < ?r * ?e"
    proof -
      have "?g div ?r + 1 \<le> ?e" using True by simp
      then have "?r * (?g div ?r + 1) \<le> ?r * ?e" using r by (intro mult_left_mono) auto
      moreover have "?r * (?g div ?r + 1) = ?r * (?g div ?r) + ?r" by (simp add: distrib_left)
      ultimately show ?thesis using mult_div_mod_eq [of ?r ?g] pos_mod_bound [OF r, of ?g] by linarith
    qed
    then have "lvl = sint (burst cfg)" by (simp add: lvl_def)
    then show ?thesis
      using True test assms(1) by (simp add: token_bucket_raw_refill_steps_def cfg_ok_def Let_def)
  next
    case False
    then have le: "?r * ?e \<le> ?g"
    proof -
      have "?r * ?e \<le> ?r * (?g div ?r)" using False r by (intro mult_left_mono) auto
      also have "\<dots> \<le> ?g" using mult_div_mod_eq [of ?r ?g] pos_mod_sign [OF r, of ?g] by linarith
      finally show ?thesis .
    qed
    then have l: "lvl = sint bucket + ?r * ?e" by (simp add: lvl_def)
    have pos: "0 \<le> ?r * ?e" by simp
    have eq: "bucket + rate cfg * elapsed = word_of_int (sint bucket + ?r * ?e)"
      by (simp add: wi_hom_syms)
    have "sint (bucket + rate cfg * elapsed) = lvl"
      unfolding eq l using pos le sint32_bounds [of bucket] sint32_bounds [of "burst cfg"]
      by (intro sint_word_small) linarith+
    then show ?thesis
      using False test assms(1) by (simp add: token_bucket_raw_refill_steps_def cfg_ok_def Let_def)
  qed
qed

lemma raw_dec_exact:
  assumes "0 \<le> n" "- (2 ^ 31) \<le> sint bucket - n"
  shows "\<exists>b. token_bucket_raw_dec bucket n = (0 < sint bucket \<and> sint bucket \<le> n, b) \<and> sint b = sint bucket - n"
  using assms sint32_bounds [of bucket] sint_word_small [of "sint bucket - n"] by (auto simp: token_bucket_raw_dec_def)

text \<open>Token_bucket_raw_refill_steps is exact.  For a configuration with a positive rate and a level
  not above the burst (negative levels included), the refill does not divide by zero, the mixed 32 and
  64-bit arithmetic never wraps, the new level is min(burst, level + rate * elapsed) as integers,
  and the result is true exactly when the bucket goes from empty to nonempty.\<close>

theorem token_bucket_refill_exact:
  assumes "cfg_ok cfg" "level_ok cfg bucket"
  shows "\<exists>b. token_bucket_raw_refill_steps bucket cfg elapsed = Some (sint bucket \<le> 0 \<and> 0 < sint b, b)
    \<and> sint b = min (sint (burst cfg)) (sint bucket + uint (rate cfg) * uint elapsed) \<and> level_ok cfg b"
  using refill_steps_exact [OF assms, of elapsed] by (auto simp: level_ok_def)

theorem token_bucket_refill_exact_witness:
  "\<exists>b. token_bucket_raw_refill_steps (- 5) \<lparr>rate = 10, burst = 100\<rparr> 3 = Some (True, b) \<and> sint b = 25"
proof -
  have "cfg_ok \<lparr>rate = 10, burst = 100\<rparr>" "level_ok \<lparr>rate = 10, burst = 100\<rparr> (- 5)"
    by (simp_all add: cfg_ok_def level_ok_def)
  from token_bucket_refill_exact [OF this, of 3] show ?thesis by auto
qed

subsection \<open>The rate limit\<close>

text \<open>
  A client that refills now and then and never spends more than \<open>token_bucket_rw_get_read\<close> says.
  Time is counted in stamp units since some start; the code sees it modulo \<open>2 ^ 32\<close>.
\<close>

datatype tb_event = Refill_At nat | Spend_Read nat

fun times_ok :: "nat \<Rightarrow> tb_event list \<Rightarrow> bool" where
  "times_ok t [] = True"
| "times_ok t (Refill_At u # es) = (t \<le> u \<and> times_ok u es)"
| "times_ok t (Spend_Read n # es) = times_ok t es"

fun end_time :: "nat \<Rightarrow> tb_event list \<Rightarrow> nat" where
  "end_time t [] = t"
| "end_time t (Refill_At u # es) = end_time u es"
| "end_time t (Spend_Read n # es) = end_time t es"

fun spend_run :: "tb_event list \<Rightarrow> token_bucket_rw \<Rightarrow> nat option" where
  "spend_run [] b = Some 0"
| "spend_run (Refill_At t # es) b =
     (case token_bucket_rw_refill b (of_nat t) of None \<Rightarrow> None | Some (flags, b) \<Rightarrow> spend_run es b)"
| "spend_run (Spend_Read n # es) b =
     (if n > token_bucket_rw_get_read b then None
      else map_option ((+) n) (spend_run es (snd (token_bucket_rw_dec_read b (int n)))))"

definition rw_ok :: "token_bucket_rw \<Rightarrow> bool" where
  "rw_ok b \<longleftrightarrow> cfg_ok (rw_cfg b) \<and> level_ok (rw_cfg b) (read_bucket b) \<and> level_ok (rw_cfg b) (write_bucket b)"

lemma rw_refill_ok:
  assumes "rw_ok b"
  shows "\<exists>flags b'. token_bucket_rw_refill b now = Some (flags, b') \<and> rw_ok b' \<and> rw_cfg b' = rw_cfg b
    \<and> (let ticks = uint (now - last_refilled_at_timestamp b); steps = ticks div 16 in
       if ticks \<le> 1073741823 \<and> steps = 0 then b' = b
       else last_refilled_at_timestamp b' = now
         \<and> (if ticks \<le> 1073741823
            then sint (read_bucket b') = min (sint (burst (rw_cfg b))) (sint (read_bucket b) + uint (rate (rw_cfg b)) * steps)
               \<and> sint (write_bucket b') = min (sint (burst (rw_cfg b))) (sint (write_bucket b) + uint (rate (rw_cfg b)) * steps)
            else read_bucket b' = read_bucket b \<and> write_bucket b' = write_bucket b))"
proof -
  let ?e = "now - last_refilled_at_timestamp b" and ?cfg = "rw_cfg b"
  let ?s = "?e div of_nat TICKS_PER_STEP"
  have lim: "?e \<le> UINT32_MAX div 4 \<longleftrightarrow> uint ?e \<le> 1073741823"
    by (simp add: UINT32_MAX_def word_le_def)
  have s: "uint ?s = uint ?e div 16" by (simp add: TICKS_PER_STEP_def uint_div)
  have s0: "?s = 0 \<longleftrightarrow> uint ?e div 16 = 0" by (metis s uint_0_iff)
  have ok: "cfg_ok ?cfg" "level_ok ?cfg (read_bucket b)" "level_ok ?cfg (write_bucket b)"
    using assms by (simp_all add: rw_ok_def)
  obtain r fr w fw where
    r: "token_bucket_raw_refill_steps (read_bucket b) ?cfg ?s = Some (fr, r)"
      "sint r = min (sint (burst ?cfg)) (sint (read_bucket b) + uint (rate ?cfg) * (uint ?e div 16))" and
    w: "token_bucket_raw_refill_steps (write_bucket b) ?cfg ?s = Some (fw, w)"
      "sint w = min (sint (burst ?cfg)) (sint (write_bucket b) + uint (rate ?cfg) * (uint ?e div 16))"
    using refill_steps_exact [OF ok(1,2), of ?s] refill_steps_exact [OF ok(1,3), of ?s] unfolding s by blast
  show ?thesis
  proof (cases "uint ?e \<le> 1073741823 \<and> uint ?e div 16 \<noteq> 0")
    case True
    then show ?thesis using ok r w lim s0
      by (auto simp: token_bucket_rw_refill_def rw_ok_def level_ok_def Let_def)
  next
    case False
    then show ?thesis using assms lim s0 by (auto simp: token_bucket_rw_refill_def rw_ok_def Let_def)
  qed
qed

lemma stamp_elapsed:
  assumes "t \<le> u"
  shows "uint ((of_nat u :: u32) - of_nat t) \<le> int (u - t)"
proof -
  have "(of_nat u :: u32) - of_nat t = of_nat (u - t)" using assms by (simp add: of_nat_diff)
  moreover have "uint (of_nat (u - t) :: u32) = int ((u - t) mod 2 ^ 32)"
    by (simp add: unsigned_of_nat take_bit_eq_mod)
  ultimately show ?thesis by (simp only: of_nat_le_iff mod_less_eq_dividend)
qed

lemma end_time_ge: "times_ok t es \<Longrightarrow> t \<le> end_time t es"
  by (induction t es rule: times_ok.induct) auto

lemma floor_add: "t0 \<le> u \<Longrightarrow> u \<le> e \<Longrightarrow> (u - t0) div 16 + (e - u) div 16 \<le> ((e :: nat) - t0) div 16"
proof -
  assume a: "t0 \<le> u" "u \<le> e"
  have "((u - t0) div 16 + (e - u) div 16) * 16 \<le> e - t0"
    using a div_times_less_eq_dividend [of "u - t0" 16] div_times_less_eq_dividend [of "e - u" 16]
    by (simp add: add_mult_distrib)
  then show ?thesis by (simp add: less_eq_div_iff_mult_less_eq)
qed

lemma spend_bound:
  "rw_ok b \<Longrightarrow> last_refilled_at_timestamp b = of_nat t0 \<Longrightarrow> t0 \<le> t \<Longrightarrow> times_ok t es \<Longrightarrow>
   spend_run es b = Some s \<Longrightarrow>
     int s \<le> max 0 (sint (read_bucket b) + uint (rate (rw_cfg b)) * int ((end_time t es - t0) div 16))"
proof (induction es arbitrary: b t0 t s)
  case (Cons a es)
  show ?case
  proof (cases a)
    case (Refill_At u)
    let ?r = "uint (rate (rw_cfg b))" and ?E = "end_time u es"
    have tu: "t0 \<le> u" "times_ok u es" using Cons.prems Refill_At by auto
    obtain fl b' where b': "token_bucket_rw_refill b (of_nat u) = Some (fl, b')" "rw_ok b'" "rw_cfg b' = rw_cfg b"
      and eff: "b' = b \<or> (last_refilled_at_timestamp b' = of_nat u \<and>
         sint (read_bucket b') \<le> sint (read_bucket b) + ?r * (uint ((of_nat u :: u32) - of_nat t0) div 16))"
      using rw_refill_ok [OF Cons.prems(1), of "of_nat u"] Cons.prems(2) by (fastforce simp: Let_def split: if_splits)
    have run: "spend_run es b' = Some s" using Cons.prems(5) Refill_At b'(1) by simp
    show ?thesis
      using eff
    proof
      assume "b' = b"
      then show ?thesis using Cons.IH [OF b'(2) _ tu(1,2) run] Cons.prems(2) Refill_At by simp
    next
      assume e: "last_refilled_at_timestamp b' = of_nat u \<and>
         sint (read_bucket b') \<le> sint (read_bucket b) + ?r * (uint ((of_nat u :: u32) - of_nat t0) div 16)"
      have ih: "int s \<le> max 0 (sint (read_bucket b') + ?r * int ((?E - u) div 16))"
        using Cons.IH [OF b'(2) _ _ tu(2) run, of u] e b'(3) by simp
      have "uint ((of_nat u :: u32) - of_nat t0) div 16 \<le> int (u - t0) div 16"
        using stamp_elapsed [OF tu(1)] by (intro zdiv_mono1) auto
      then have "?r * (uint ((of_nat u :: u32) - of_nat t0) div 16) \<le> ?r * int ((u - t0) div 16)"
        by (intro mult_left_mono) (simp_all add: zdiv_int)
      moreover have "?r * int ((u - t0) div 16) + ?r * int ((?E - u) div 16) \<le> ?r * int ((?E - t0) div 16)"
        using floor_add [OF tu(1) end_time_ge [OF tu(2)]] unfolding distrib_left [symmetric]
        by (intro mult_left_mono) auto
      ultimately show ?thesis using ih e [THEN conjunct2] unfolding Refill_At end_time.simps by linarith
    qed
  next
    case (Spend_Read n)
    let ?b = "snd (token_bucket_rw_dec_read b (int n))"
    obtain s' where s': "n \<le> token_bucket_rw_get_read b" "spend_run es ?b = Some s'" "s = n + s'"
      using Cons.prems(5) Spend_Read by (auto split: if_splits)
    have n: "n = 0 \<or> int n \<le> sint (read_bucket b)"
      using s'(1) by (auto simp: token_bucket_rw_get_read_def token_bucket_raw_get_def split: if_splits)
    have low: "- (2 ^ 31) \<le> sint (read_bucket b) - int n" using n sint32_bounds [of "read_bucket b"] by auto
    have lvl: "sint (read_bucket ?b) = sint (read_bucket b) - int n"
      using raw_dec_exact [of "int n" "read_bucket b"] low by (auto simp: token_bucket_rw_dec_read_def)
    have same: "rw_cfg ?b = rw_cfg b" "last_refilled_at_timestamp ?b = last_refilled_at_timestamp b"
      "write_bucket ?b = write_bucket b"
      by (simp_all add: token_bucket_rw_dec_read_def split: prod.splits)
    have "rw_ok ?b" using Cons.prems(1) lvl same by (auto simp: rw_ok_def level_ok_def)
    then have "int s' \<le> max 0 (sint (read_bucket b) - int n
        + uint (rate (rw_cfg b)) * int ((end_time t es - t0) div 16))"
      using Cons.IH [of ?b t0 t s'] Cons.prems(2-4) s'(2) same lvl Spend_Read by simp
    moreover have "0 \<le> uint (rate (rw_cfg b)) * int ((end_time t es - t0) div 16)" by simp
    ultimately show ?thesis using n s'(3) Spend_Read by auto
  qed
qed simp

text \<open>C28: The rate limit.  However often the bucket is refilled, and whatever the sizes of the reads,
  a client that never reads more than token_bucket_rw_get_read allows reads in total at most the initial
  level plus the rate for each 16 ticks that passed since the last refill (time stamps wrapping
  modulo 2^32 and refills that skip a large jump included).\<close>

theorem token_bucket_rate_limit:
  assumes "rw_ok b" "last_refilled_at_timestamp b = of_nat t0" "times_ok t0 es" "spend_run es b = Some s"
  shows "int s \<le> max 0 (sint (read_bucket b) + uint (rate (rw_cfg b)) * int ((end_time t0 es - t0) div 16))"
  by (rule spend_bound [OF assms(1,2) order_refl assms(3,4)])

theorem token_bucket_rate_limit_witness:
  "\<exists>s. spend_run [Refill_At 33, Spend_Read 12] \<lparr>rw_cfg = \<lparr>rate = 10, burst = 100\<rparr>, read_bucket = 5, write_bucket = 5,
       last_refilled_at_timestamp = 0\<rparr> = Some s \<and> int s \<le> 25"
proof -
  let ?b = "\<lparr>rw_cfg = \<lparr>rate = 10, burst = 100\<rparr>, read_bucket = 5, write_bucket = 5, last_refilled_at_timestamp = 0 :: u32\<rparr>"
  have ok: "rw_ok ?b" by (simp add: rw_ok_def cfg_ok_def level_ok_def)
  then obtain fl b' where "token_bucket_rw_refill ?b (of_nat 33) = Some (fl, b')" "sint (read_bucket b') = 25"
    using rw_refill_ok [OF ok, of 33] by (auto simp: Let_def)
  then have "spend_run [Refill_At 33, Spend_Read 12] ?b = Some 12"
    by (simp add: token_bucket_rw_get_read_def token_bucket_raw_get_def)
  then show ?thesis using token_bucket_rate_limit [OF ok, of 0 "[Refill_At 33, Spend_Read 12]" 12] by simp
qed

subsection \<open>The invariant\<close>

lemma rate_per_step:
  "uint (rate_per_sec_to_rate_per_step r) = max 1 (uint r * 16000 div 953 div 1000)"
proof -
  let ?u = "(ucast r :: 64 word) * 16" and ?m = "uint r * 16000 div 953 div 1000"
  have r: "0 \<le> uint r" "uint r < 2 ^ 32" using uint32_less by simp_all
  have u: "uint ?u = uint r * 16"
    using r by (subst uint_mult_lem [THEN iffD1]) (simp_all add: uint_ucast64)
  have "uint (?u * 1000) = uint r * 16000"
    using r by (subst uint_mult_lem [THEN iffD1]) (simp_all add: u)
  then have m: "uint (monotime_coarse_stamp_units_to_approx_msec ?u div 1000) = ?m"
    by (simp add: monotime_coarse_stamp_units_to_approx_msec_def STAMP_TICKS_PER_SECOND_def uint_div)
  have "?m < 2 ^ 32" using r by (simp add: zdiv_zmult2_eq [symmetric] div_less_iff_less_mult)
  moreover have nn: "0 \<le> ?m" using r by (simp add: pos_imp_zdiv_nonneg_iff)
  ultimately have v: "uint (ucast (monotime_coarse_stamp_units_to_approx_msec ?u div 1000) :: u32) = ?m"
    by (simp add: unsigned_ucast_eq unsigned_take_bit_eq m take_bit_int_eq_self)
  then have "(ucast (monotime_coarse_stamp_units_to_approx_msec ?u div 1000) :: u32) = 0 \<longleftrightarrow> ?m = 0"
    by (metis uint_0_iff)
  then show ?thesis using v nn
    by (auto simp: rate_per_sec_to_rate_per_step_def TICKS_PER_STEP_def Let_def max_def)
qed

lemma cfg_init_ok: "r \<noteq> 0 \<Longrightarrow> cfg_ok (token_bucket_cfg_init r b)"
proof -
  assume r: "r \<noteq> 0"
  have "sint x = uint x" if "x \<le> 2147483647" for x :: u32
  proof -
    have "uint x \<le> 2147483647" using that by (simp add: word_le_def)
    then have "sint (word_of_int (uint x) :: u32) = uint x"
      by (intro sint_word_small) (auto intro: order_trans [of _ 0])
    then show ?thesis by simp
  qed
  then have "0 \<le> sint x" if "x \<le> 2147483647" for x :: u32 using that by simp
  then show ?thesis using r by (auto simp: token_bucket_cfg_init_def cfg_ok_def TOKEN_BUCKET_MAX_BURST_def not_less)
qed

lemma rate_per_step_nonzero: "rate_per_sec_to_rate_per_step r \<noteq> 0"
  using rate_per_step [of r] by (auto simp: word_uint_eq_iff)

lemma adjust_level: "level_ok cfg (token_bucket_raw_adjust bucket cfg)"
  by (simp add: level_ok_def token_bucket_raw_adjust_def)

lemma rw_adjust_ok: "rw_ok (token_bucket_rw_adjust tb r b)"
  by (simp add: token_bucket_rw_adjust_def rw_ok_def Let_def cfg_init_ok rate_per_step_nonzero adjust_level)

lemma rw_reset_ok: "cfg_ok (rw_cfg tb) \<Longrightarrow> rw_ok (token_bucket_rw_reset tb now)"
  by (simp add: token_bucket_rw_reset_def rw_ok_def token_bucket_raw_reset_def level_ok_def)

text \<open>C34: The invariant of the read-write buckets: the rate per step is positive, the burst is not
  negative and neither level is above it.  Initialising (for any rate and burst, 0 included) and adjusting
  establish it, resetting, refilling and decrementing by amounts that do not take a level below
  -2^31 keep it, a refill never divides by zero, and decrementing lowers the levels by exactly
  the amounts; the rate per step is the rate per second over 953/16, rounded down and at least 1.\<close>

theorem token_bucket_rw_invariant:
  assumes "rw_ok tb" "0 \<le> nr" "0 \<le> nw"
    and "- (2 ^ 31) \<le> sint (read_bucket tb) - nr" "- (2 ^ 31) \<le> sint (write_bucket tb) - nw"
  shows "rw_ok (token_bucket_rw_init r b now) \<and> rw_ok (token_bucket_rw_adjust tb r b)
    \<and> rw_ok (token_bucket_rw_reset tb now)
    \<and> (\<exists>flags tb'. token_bucket_rw_refill tb now = Some (flags, tb') \<and> rw_ok tb')
    \<and> rw_ok (snd (token_bucket_rw_dec tb nr nw))
    \<and> sint (read_bucket (snd (token_bucket_rw_dec tb nr nw))) = sint (read_bucket tb) - nr
    \<and> sint (write_bucket (snd (token_bucket_rw_dec tb nr nw))) = sint (write_bucket tb) - nw
    \<and> uint (rate_per_sec_to_rate_per_step r) = max 1 (uint r * 16000 div 953 div 1000)"
proof (intro conjI)
  show "rw_ok (token_bucket_rw_init r b now)"
    using rw_adjust_ok unfolding token_bucket_rw_init_def rw_ok_def [of "token_bucket_rw_adjust _ _ _"]
    by (blast intro: rw_reset_ok)
  show "rw_ok (token_bucket_rw_adjust tb r b)" by (rule rw_adjust_ok)
  show "rw_ok (token_bucket_rw_reset tb now)" using assms(1) rw_reset_ok unfolding rw_ok_def [of tb] by blast
  show "\<exists>flags tb'. token_bucket_rw_refill tb now = Some (flags, tb') \<and> rw_ok tb'"
    using rw_refill_ok [OF assms(1), of now] by blast
  obtain fr fw rb wb where d: "token_bucket_raw_dec (read_bucket tb) nr = (fr, rb)" "sint rb = sint (read_bucket tb) - nr"
    "token_bucket_raw_dec (write_bucket tb) nw = (fw, wb)" "sint wb = sint (write_bucket tb) - nw"
    using raw_dec_exact [OF assms(2,4)] raw_dec_exact [OF assms(3,5)] by auto
  then have e: "snd (token_bucket_rw_dec tb nr nw) = tb\<lparr>read_bucket := rb, write_bucket := wb\<rparr>"
    by (simp add: token_bucket_rw_dec_def token_bucket_rw_dec_read_def token_bucket_rw_dec_write_def)
  show "rw_ok (snd (token_bucket_rw_dec tb nr nw))"
    using assms(1-3) d unfolding e by (simp add: rw_ok_def level_ok_def)
  show "sint (read_bucket (snd (token_bucket_rw_dec tb nr nw))) = sint (read_bucket tb) - nr"
    "sint (write_bucket (snd (token_bucket_rw_dec tb nr nw))) = sint (write_bucket tb) - nw"
    using d unfolding e by simp_all
  show "uint (rate_per_sec_to_rate_per_step r) = max 1 (uint r * 16000 div 953 div 1000)" by (rule rate_per_step)
qed

theorem token_bucket_rw_invariant_witness:
  "rw_ok (token_bucket_rw_init 0 50 7) \<and>
   sint (read_bucket (snd (token_bucket_rw_dec \<lparr>rw_cfg = \<lparr>rate = 10, burst = 100\<rparr>, read_bucket = 5, write_bucket = 5,
       last_refilled_at_timestamp = 0\<rparr> 9 0))) = - 4"
proof -
  let ?b = "\<lparr>rw_cfg = \<lparr>rate = 10, burst = 100\<rparr>, read_bucket = 5, write_bucket = 5, last_refilled_at_timestamp = 0 :: u32\<rparr>"
  have ok: "rw_ok ?b" by (simp add: rw_ok_def cfg_ok_def level_ok_def)
  show ?thesis using token_bucket_rw_invariant [OF ok, of 9 0 0 50 7] by simp
qed

end
