(* ===== verification/Sendme.thy ===== *)
theory Sendme
  imports Smartlist
begin

text \<open>
  SENDME cells (core/or/sendme.c, trunnel/sendme_cell.c and the window helpers of
  core/or/congestion_control_common.c).  A circuit is held with the hop that the functions are passed
  as \<open>layer_hint\<close> (\<open>None\<close> for a null pointer).  \<open>None\<close> results are failed assertions, a remainder by 0
  or a loop without end.  What these files leave to others is an argument: sending a relay cell
  (\<open>relay_send_command_from_edge\<close>, \<open>connection_edge_send_command\<close>) with the state it works on, the
  congestion control algorithm, and the consensus parameters.
\<close>

definition DIGEST_LEN :: nat where "DIGEST_LEN = 20"
definition TRUNNEL_SENDME_V1_DIGEST_LEN :: nat where "TRUNNEL_SENDME_V1_DIGEST_LEN = 20"
definition SENDME_MAX_SUPPORTED_VERSION :: int where "SENDME_MAX_SUPPORTED_VERSION = 1"
definition CIRCWINDOW_START :: int where "CIRCWINDOW_START = 1000"
definition CIRCWINDOW_START_MAX :: int where "CIRCWINDOW_START_MAX = 1000"
definition CIRCWINDOW_INCREMENT :: int where "CIRCWINDOW_INCREMENT = 100"
definition STREAMWINDOW_START :: int where "STREAMWINDOW_START = 500"
definition STREAMWINDOW_START_MAX :: int where "STREAMWINDOW_START_MAX = 500"
definition STREAMWINDOW_INCREMENT :: int where "STREAMWINDOW_INCREMENT = 50"
definition END_CIRC_REASON_TORPROTOCOL :: int where "END_CIRC_REASON_TORPROTOCOL = 1"
definition RELAY_PAYLOAD_SIZE :: nat where "RELAY_PAYLOAD_SIZE = 509 - (1 + 2 + 2 + 4 + 2)"
definition INT32_MAX :: nat where "INT32_MAX = 2147483647"

subsection \<open>The cell\<close>

record sendme_cell =
  sc_version :: byte
  sc_data_len :: nat
  sc_data_v1_digest :: bytes

definition sendme_cell_new :: sendme_cell where
  "sendme_cell_new =
     \<lparr>sc_version = 0, sc_data_len = 0, sc_data_v1_digest = replicate TRUNNEL_SENDME_V1_DIGEST_LEN 0\<rparr>"

definition sendme_cell_check :: "sendme_cell \<Rightarrow> bool" where
  "sendme_cell_check obj = (sc_version obj = 0 \<or> sc_version obj = 1)"

definition htons :: "nat \<Rightarrow> bytes" where
  "htons n = [of_nat (n div 256), of_nat (n mod 256)]"

definition ntohs :: "bytes \<Rightarrow> nat" where
  "ntohs b = unat (b ! 0) * 256 + unat (b ! 1)"

text \<open>The result: a negative code, or the written bytes.\<close>

definition sendme_cell_encode :: "nat \<Rightarrow> sendme_cell \<Rightarrow> int + bytes" where
  "sendme_cell_encode avail obj =
     (if \<not> sendme_cell_check obj then Inl (- 1)
      else if avail < 1 then Inl (- 2)
      else if avail - 1 < 2 then Inl (- 2)
      else if sc_version obj = 1 \<and> avail - 3 < TRUNNEL_SENDME_V1_DIGEST_LEN then Inl (- 2)
      else
        let union = (if sc_version obj = 1 then take TRUNNEL_SENDME_V1_DIGEST_LEN (sc_data_v1_digest obj) else []) in
        if length union > 65535 then Inl (- 1)
        else Inr ([sc_version obj] @ htons (length union) @ union))"

text \<open>The result: a negative code, or the cell with the number of bytes used.\<close>

definition sendme_cell_parse :: "bytes \<Rightarrow> int + (sendme_cell \<times> nat)" where
  "sendme_cell_parse input =
     (if length input < 1 then Inl (- 2)
      else let version = input ! 0; ptr = drop 1 input in
        if \<not> (version = 0 \<or> version = 1) then Inl (- 1)
        else if length ptr < 2 then Inl (- 2)
        else let data_len = ntohs ptr; ptr = drop 2 ptr in
          if length ptr < data_len then Inl (- 2)
          else if version = 0 then
            Inr (sendme_cell_new\<lparr>sc_version := version, sc_data_len := data_len\<rparr>, 3 + data_len)
          else if data_len < TRUNNEL_SENDME_V1_DIGEST_LEN then Inl (- 1)
          else if data_len - TRUNNEL_SENDME_V1_DIGEST_LEN \<noteq> 0 then Inl (- 1)
          else Inr (\<lparr>sc_version = version, sc_data_len = data_len,
                     sc_data_v1_digest = take TRUNNEL_SENDME_V1_DIGEST_LEN ptr\<rparr>, 3 + data_len))"

subsection \<open>Circuits\<close>

record relay_crypto =
  f_digest :: bytes
  b_digest :: bytes
  sendme_digest :: bytes

record congestion_control =
  cc_sendme_inc :: nat
  cc_inflight :: nat
  cc_cwnd :: nat
  cc_in_slow_start :: bool

record crypt_path =
  cp_package_window :: int
  cp_deliver_window :: int
  cp_ccontrol :: "congestion_control option"
  cp_crypto :: relay_crypto

record circuit =
  CIRCUIT_IS_ORIGIN :: bool
  c_package_window :: int
  c_deliver_window :: int
  c_ccontrol :: "congestion_control option"
  c_crypto :: relay_crypto
  sendme_last_digests :: "bytes list option"

type_synonym circ_hop = "circuit \<times> crypt_path option"

definition relay_crypto_get_sendme_digest :: "relay_crypto \<Rightarrow> bytes" where
  "relay_crypto_get_sendme_digest crypto = sendme_digest crypto"

definition relay_crypto_record_sendme_digest :: "relay_crypto \<Rightarrow> bool \<Rightarrow> relay_crypto" where
  "relay_crypto_record_sendme_digest crypto is_foward_digest =
     crypto\<lparr>sendme_digest := (if is_foward_digest then f_digest crypto else b_digest crypto)\<rparr>"

definition cpath_sendme_record_cell_digest :: "crypt_path \<Rightarrow> bool \<Rightarrow> crypt_path" where
  "cpath_sendme_record_cell_digest cpath is_foward_digest =
     cpath\<lparr>cp_crypto := relay_crypto_record_sendme_digest (cp_crypto cpath) is_foward_digest\<rparr>"

definition sendme_get_inc_count :: "circuit \<Rightarrow> crypt_path option \<Rightarrow> int" where
  "sendme_get_inc_count circ layer_hint =
     (case (case layer_hint of Some h \<Rightarrow> cp_ccontrol h | None \<Rightarrow> c_ccontrol circ) of
        Some cc \<Rightarrow> int (cc_sendme_inc cc)
      | None \<Rightarrow> CIRCWINDOW_INCREMENT)"

definition circuit_sent_cell_for_sendme :: "circuit \<Rightarrow> crypt_path option \<Rightarrow> bool option" where
  "circuit_sent_cell_for_sendme circ layer_hint =
     (let (window, cc) = (case layer_hint of
          Some h \<Rightarrow> (cp_package_window h, cp_ccontrol h)
        | None \<Rightarrow> (c_package_window circ, c_ccontrol circ)) in
      case cc of
        Some cc \<Rightarrow>
          if cc_inflight cc = 0 then Some False
          else if cc_sendme_inc cc = 0 then None
          else Some ((cc_inflight cc + 1) mod cc_sendme_inc cc = 0)
      | None \<Rightarrow>
          if window = CIRCWINDOW_START then Some False
          else Some ((window - 1) mod CIRCWINDOW_INCREMENT = 0))"

definition congestion_control_get_package_window :: "circuit \<Rightarrow> crypt_path option \<Rightarrow> int" where
  "congestion_control_get_package_window circ cpath =
     (let (package_window, cc) = (case cpath of
          Some h \<Rightarrow> (cp_package_window h, cp_ccontrol h)
        | None \<Rightarrow> (c_package_window circ, c_ccontrol circ)) in
      case cc of
        None \<Rightarrow> package_window
      | Some cc \<Rightarrow>
          if cc_inflight cc > cc_cwnd cc then 0
          else if cc_cwnd cc - cc_inflight cc > INT32_MAX then int INT32_MAX
          else int (cc_cwnd cc - cc_inflight cc))"

subsection \<open>Validating\<close>

text \<open>The popped digest and the circuit.\<close>

definition pop_first_cell_digest :: "circuit \<Rightarrow> bytes option \<times> circuit" where
  "pop_first_cell_digest circ =
     (case sendme_last_digests circ of
        None \<Rightarrow> (None, circ)
      | Some [] \<Rightarrow> (None, circ)
      | Some (d # ds) \<Rightarrow> (Some d, circ\<lparr>sendme_last_digests := smartlist_del_keeporder (d # ds) 0\<rparr>))"

definition v1_digest_matches :: "bytes \<Rightarrow> bytes \<Rightarrow> bool" where
  "v1_digest_matches circ_digest cell_digest = memeq circ_digest cell_digest TRUNNEL_SENDME_V1_DIGEST_LEN"

definition cell_v1_is_valid :: "sendme_cell \<Rightarrow> bytes \<Rightarrow> bool" where
  "cell_v1_is_valid cell circ_digest = v1_digest_matches circ_digest (sc_data_v1_digest cell)"

definition cell_version_can_be_handled :: "int \<Rightarrow> byte \<Rightarrow> bool" where
  "cell_version_can_be_handled accept_version cell_version =
     (if accept_version > SENDME_MAX_SUPPORTED_VERSION then False
      else if uint cell_version < accept_version then False
      else if uint cell_version > SENDME_MAX_SUPPORTED_VERSION then False
      else True)"

definition sendme_is_valid :: "int \<Rightarrow> circuit \<Rightarrow> bytes \<Rightarrow> bool \<times> circuit" where
  "sendme_is_valid accept_version circ cell_payload =
     (case (if length cell_payload = 0 then Inr (0, None)
            else case sendme_cell_parse cell_payload of
                Inl e \<Rightarrow> Inl e
              | Inr (cell, used) \<Rightarrow> Inr (sc_version cell, Some cell)) of
        Inl e \<Rightarrow> (False, circ)
      | Inr (cell_version, cell) \<Rightarrow>
          if \<not> cell_version_can_be_handled accept_version cell_version then (False, circ)
          else
            (case pop_first_cell_digest circ of
               (None, circ) \<Rightarrow> (False, circ)
             | (Some circ_digest, circ) \<Rightarrow>
                 (case cell of
                    Some cell \<Rightarrow>
                      if cell_version = 1 then (cell_v1_is_valid cell circ_digest, circ) else (True, circ)
                  | None \<Rightarrow> (True, circ))))"

text \<open>A negative code or the payload.\<close>

definition build_cell_payload_v1 :: "bytes \<Rightarrow> int + bytes" where
  "build_cell_payload_v1 cell_digest =
     sendme_cell_encode RELAY_PAYLOAD_SIZE
       (sendme_cell_new\<lparr>sc_version := 1, sc_data_len := TRUNNEL_SENDME_V1_DIGEST_LEN,
          sc_data_v1_digest := take TRUNNEL_SENDME_V1_DIGEST_LEN cell_digest\<rparr>)"

text \<open>Sending a relay cell: the payload, the circuit and the rest of the state, and a return value.\<close>

type_synonym 'n relay_send = "bytes \<Rightarrow> circ_hop \<Rightarrow> 'n \<Rightarrow> int \<times> circ_hop \<times> 'n"

definition send_circuit_level_sendme ::
  "int \<Rightarrow> 'n relay_send \<Rightarrow> circ_hop \<Rightarrow> 'n \<Rightarrow> bytes \<Rightarrow> int \<times> circ_hop \<times> 'n" where
  "send_circuit_level_sendme emit_version relay_send circ net cell_digest =
     (case (if emit_version = 1 then build_cell_payload_v1 cell_digest else Inr []) of
        Inl e \<Rightarrow> (- 1, circ, net)
      | Inr payload \<Rightarrow>
          (case relay_send payload circ net of
             (r, circ, net) \<Rightarrow> (if r < 0 then - 1 else 0, circ, net)))"

definition record_cell_digest_on_circ :: "circuit \<Rightarrow> bytes \<Rightarrow> circuit" where
  "record_cell_digest_on_circ circ digest =
     circ\<lparr>sendme_last_digests :=
       Some (smartlist_add (case sendme_last_digests circ of None \<Rightarrow> [] | Some l \<Rightarrow> l) (take DIGEST_LEN digest))\<rparr>"

definition circuit_sendme_cell_is_next :: "int \<Rightarrow> int \<Rightarrow> bool option" where
  "circuit_sendme_cell_is_next deliver_window sendme_inc =
     (if \<not> deliver_window \<le> CIRCWINDOW_START then None
      else if sendme_inc = 0 then None
      else Some ((CIRCWINDOW_START - (deliver_window - 1)) mod sendme_inc = 0))"

subsection \<open>Circuit level\<close>

definition get_deliver_window :: "circ_hop \<Rightarrow> int" where
  "get_deliver_window ch = (case snd ch of Some h \<Rightarrow> cp_deliver_window h | None \<Rightarrow> c_deliver_window (fst ch))"

text \<open>The loop of \<open>sendme_circuit_consider_sending\<close>.\<close>

function consider_loop ::
  "int \<Rightarrow> 'n relay_send \<Rightarrow> int \<Rightarrow> circ_hop \<Rightarrow> 'n \<Rightarrow> nat \<Rightarrow> (circ_hop \<times> 'n) option" where
  "consider_loop emit_version relay_send sendme_inc ch net 0 = None"
| "consider_loop emit_version relay_send sendme_inc ch net (Suc fuel) =
     (if get_deliver_window ch \<le> CIRCWINDOW_START - sendme_inc then
        let (circ, layer_hint) = ch;
            (ch, digest) = (case layer_hint of
              Some h \<Rightarrow> ((circ, Some (h\<lparr>cp_deliver_window := cp_deliver_window h + sendme_inc\<rparr>)), sendme_digest (cp_crypto h))
            | None \<Rightarrow> ((circ\<lparr>c_deliver_window := c_deliver_window circ + sendme_inc\<rparr>, None),
                       relay_crypto_get_sendme_digest (c_crypto circ)))
        in case send_circuit_level_sendme emit_version relay_send ch net digest of
             (r, ch, net) \<Rightarrow>
               if r < 0 then Some (ch, net)
               else consider_loop emit_version relay_send sendme_inc ch net fuel
      else Some (ch, net))"
  by pat_completeness auto
termination by (relation "measure (\<lambda>(e, r, i, ch, n, fuel). fuel)") auto

text \<open>
  Each round adds the increment to a window that only it changes, so a positive increment ends the
  loop within this many rounds.
\<close>

definition consider_fuel :: "circ_hop \<Rightarrow> nat" where
  "consider_fuel ch = nat (CIRCWINDOW_START - get_deliver_window ch) + 2"

definition sendme_circuit_consider_sending ::
  "int \<Rightarrow> 'n relay_send \<Rightarrow> circ_hop \<Rightarrow> 'n \<Rightarrow> (circ_hop \<times> 'n) option" where
  "sendme_circuit_consider_sending emit_version relay_send ch net =
     consider_loop emit_version relay_send (sendme_get_inc_count (fst ch) (snd ch)) ch net (consider_fuel ch)"

definition sendme_process_circuit_level_impl :: "circ_hop \<Rightarrow> int \<times> circ_hop" where
  "sendme_process_circuit_level_impl ch =
     (let (circ, layer_hint) = ch in
      if CIRCUIT_IS_ORIGIN circ then
        (case layer_hint of
           None \<Rightarrow> (- END_CIRC_REASON_TORPROTOCOL, ch)
         | Some h \<Rightarrow>
             if cp_package_window h + CIRCWINDOW_INCREMENT > CIRCWINDOW_START_MAX
             then (- END_CIRC_REASON_TORPROTOCOL, ch)
             else (0, circ, Some (h\<lparr>cp_package_window := cp_package_window h + CIRCWINDOW_INCREMENT\<rparr>)))
      else if c_package_window circ + CIRCWINDOW_INCREMENT > CIRCWINDOW_START_MAX
      then (- END_CIRC_REASON_TORPROTOCOL, ch)
      else (0, circ\<lparr>c_package_window := c_package_window circ + CIRCWINDOW_INCREMENT\<rparr>, layer_hint))"

text \<open>\<open>dispatch\<close> is the congestion control algorithm; the count of valid data is left out.\<close>

definition sendme_process_circuit_level ::
  "int \<Rightarrow> (congestion_control \<Rightarrow> circ_hop \<Rightarrow> int \<times> circ_hop) \<Rightarrow> circ_hop \<Rightarrow> bytes \<Rightarrow> int \<times> circ_hop" where
  "sendme_process_circuit_level accept_version dispatch ch cell_payload =
     (let (circ, layer_hint) = ch in
      case sendme_is_valid accept_version circ cell_payload of
        (ok, circ) \<Rightarrow>
          if \<not> ok then (- END_CIRC_REASON_TORPROTOCOL, circ, layer_hint)
          else (case (case layer_hint of Some h \<Rightarrow> cp_ccontrol h | None \<Rightarrow> c_ccontrol circ) of
              None \<Rightarrow> sendme_process_circuit_level_impl (circ, layer_hint)
            | Some cc \<Rightarrow> dispatch cc (circ, layer_hint)))"

definition sendme_circuit_data_received :: "circ_hop \<Rightarrow> (int \<times> circ_hop) option" where
  "sendme_circuit_data_received ch =
     (let (circ, layer_hint) = ch in
      if CIRCUIT_IS_ORIGIN circ then
        (case layer_hint of
           None \<Rightarrow> None
         | Some h \<Rightarrow>
             Some (cp_deliver_window h - 1, circ, Some (h\<lparr>cp_deliver_window := cp_deliver_window h - 1\<rparr>)))
      else (case layer_hint of
           Some h \<Rightarrow> None
         | None \<Rightarrow>
             Some (c_deliver_window circ - 1, circ\<lparr>c_deliver_window := c_deliver_window circ - 1\<rparr>, None)))"

text \<open>\<open>note_sent\<close> is \<open>congestion_control_note_cell_sent\<close>.\<close>

definition sendme_note_circuit_data_packaged ::
  "(congestion_control \<Rightarrow> circ_hop \<Rightarrow> circ_hop) \<Rightarrow> circ_hop \<Rightarrow> (int \<times> circ_hop) option" where
  "sendme_note_circuit_data_packaged note_sent ch =
     (let (circ, layer_hint) = ch in
      map_option (\<lambda>(circ, layer_hint).
          (congestion_control_get_package_window circ layer_hint, circ, layer_hint))
        (case (case layer_hint of Some h \<Rightarrow> cp_ccontrol h | None \<Rightarrow> c_ccontrol circ) of
           Some cc \<Rightarrow> Some (note_sent cc ch)
         | None \<Rightarrow>
             if CIRCUIT_IS_ORIGIN circ then
               (case layer_hint of
                  None \<Rightarrow> None
                | Some h \<Rightarrow> Some (circ, Some (h\<lparr>cp_package_window := cp_package_window h - 1\<rparr>)))
             else (case layer_hint of
                  Some h \<Rightarrow> None
                | None \<Rightarrow> Some (circ\<lparr>c_package_window := c_package_window circ - 1\<rparr>, None))))"

definition sendme_record_cell_digest_on_circ :: "circ_hop \<Rightarrow> circ_hop option" where
  "sendme_record_cell_digest_on_circ ch =
     (let (circ, cpath) = ch in
      case circuit_sent_cell_for_sendme circ cpath of
        None \<Rightarrow> None
      | Some False \<Rightarrow> Some ch
      | Some True \<Rightarrow>
          Some (record_cell_digest_on_circ circ
            (relay_crypto_get_sendme_digest (case cpath of Some h \<Rightarrow> cp_crypto h | None \<Rightarrow> c_crypto circ)), cpath))"

definition sendme_record_received_cell_digest :: "circ_hop \<Rightarrow> circ_hop option" where
  "sendme_record_received_cell_digest ch =
     (let (circ, cpath) = ch in
      case circuit_sendme_cell_is_next (get_deliver_window ch) (sendme_get_inc_count circ cpath) of
        None \<Rightarrow> None
      | Some False \<Rightarrow> Some ch
      | Some True \<Rightarrow>
          Some (case cpath of
              Some h \<Rightarrow> (circ, Some (cpath_sendme_record_cell_digest h False))
            | None \<Rightarrow> (circ\<lparr>c_crypto := relay_crypto_record_sendme_digest (c_crypto circ) True\<rparr>, None)))"

definition sendme_record_sending_cell_digest :: "circ_hop \<Rightarrow> circ_hop option" where
  "sendme_record_sending_cell_digest ch =
     (let (circ, cpath) = ch in
      case circuit_sent_cell_for_sendme circ cpath of
        None \<Rightarrow> None
      | Some False \<Rightarrow> Some ch
      | Some True \<Rightarrow>
          Some (case cpath of
              Some h \<Rightarrow> (circ, Some (cpath_sendme_record_cell_digest h True))
            | None \<Rightarrow> (circ\<lparr>c_crypto := relay_crypto_record_sendme_digest (c_crypto circ) False\<rparr>, None)))"

subsection \<open>Stream level\<close>

text \<open>
  What the stream functions use of an edge connection: the windows, whether it uses flow control,
  whether its outbuf is too full and whether it has a circuit.
\<close>

record edge_connection =
  e_package_window :: int
  e_deliver_window :: int
  e_uses_flow_control :: bool
  e_outbuf_too_full :: bool
  e_has_circuit :: bool
  e_xoff_received :: bool

text \<open>The number of stream SENDMEs sent; \<open>send\<close> tells whether the k-th one can be sent.\<close>

function stream_consider_loop :: "(nat \<Rightarrow> bool) \<Rightarrow> 'a edge_connection_scheme \<Rightarrow> nat \<Rightarrow>
    nat \<times> 'a edge_connection_scheme" where
  "stream_consider_loop send conn k =
     (if e_deliver_window conn \<le> STREAMWINDOW_START - STREAMWINDOW_INCREMENT then
        let conn = conn\<lparr>e_deliver_window := e_deliver_window conn + STREAMWINDOW_INCREMENT\<rparr> in
        if \<not> send k then (k, conn) else stream_consider_loop send conn (k + 1)
      else (k, conn))"
  by pat_completeness auto
termination
  by (relation "measure (\<lambda>(send, conn, k). nat (STREAMWINDOW_START - e_deliver_window conn))")
    (auto simp: STREAMWINDOW_START_def STREAMWINDOW_INCREMENT_def)

declare stream_consider_loop.simps [simp del]

definition sendme_connection_edge_consider_sending ::
  "(nat \<Rightarrow> bool) \<Rightarrow> 'a edge_connection_scheme \<Rightarrow> nat \<times> 'a edge_connection_scheme" where
  "sendme_connection_edge_consider_sending send conn =
     (if e_uses_flow_control conn then (0, conn)
      else if e_outbuf_too_full conn then (0, conn)
      else if \<not> e_has_circuit conn then (0, conn)
      else stream_consider_loop send conn 0)"

definition sendme_process_stream_level :: "'a edge_connection_scheme \<Rightarrow> int \<times> 'a edge_connection_scheme" where
  "sendme_process_stream_level conn =
     (if e_uses_flow_control conn then (- END_CIRC_REASON_TORPROTOCOL, conn)
      else if e_package_window conn + STREAMWINDOW_INCREMENT > STREAMWINDOW_START_MAX
      then (- END_CIRC_REASON_TORPROTOCOL, conn)
      else (0, conn\<lparr>e_package_window := e_package_window conn + STREAMWINDOW_INCREMENT\<rparr>))"

text \<open>\<open>xoff\<close> and \<open>note_sent\<close> are the functions of congestion_control_flow.c (theory \<open>Flow_Control\<close>, which
  extends the record).\<close>

definition sendme_stream_data_received ::
  "('a edge_connection_scheme \<Rightarrow> int \<times> 'a edge_connection_scheme) \<Rightarrow> 'a edge_connection_scheme \<Rightarrow>
    int \<times> 'a edge_connection_scheme" where
  "sendme_stream_data_received xoff conn =
     (if e_uses_flow_control conn then xoff conn
      else (e_deliver_window conn - 1, conn\<lparr>e_deliver_window := e_deliver_window conn - 1\<rparr>))"

definition sendme_note_stream_data_packaged ::
  "('a edge_connection_scheme \<Rightarrow> nat \<Rightarrow> 'a edge_connection_scheme) \<Rightarrow> 'a edge_connection_scheme \<Rightarrow>
    nat \<Rightarrow> int \<times> 'a edge_connection_scheme" where
  "sendme_note_stream_data_packaged note_sent conn len =
     (if e_uses_flow_control conn then
        (let conn = note_sent conn len in (if e_xoff_received conn then - 1 else 1, conn))
      else (e_package_window conn - 1, conn\<lparr>e_package_window := e_package_window conn - 1\<rparr>))"

end
