(* ===== verification/Sendme_Protocol.thy ===== *)
theory Sendme_Protocol
  imports Sendme
begin

text \<open>
  Two endpoints of a circuit under the original fixed-window flow control, connected by a FIFO of
  relay cells in each direction, each running the functions of the theory Sendme in the order in which
  relay.c and relay_crypto.c call them.  The running digest after the n-th relay cell of a direction, which
  both ends compute, is an argument.  The step relation lets sending and receiving interleave in
  any order.
\<close>

subsection \<open>One endpoint\<close>

definition pw :: "circ_hop \<Rightarrow> int" where
  "pw ch = (case snd ch of Some h \<Rightarrow> cp_package_window h | None \<Rightarrow> c_package_window (fst ch))"

definition crypto_of :: "circ_hop \<Rightarrow> relay_crypto" where
  "crypto_of ch = (case snd ch of Some h \<Rightarrow> cp_crypto h | None \<Rightarrow> c_crypto (fst ch))"

definition sdig :: "circ_hop \<Rightarrow> bytes" where
  "sdig ch = sendme_digest (crypto_of ch)"

definition lastd :: "circ_hop \<Rightarrow> bytes list" where
  "lastd ch = (case sendme_last_digests (fst ch) of None \<Rightarrow> [] | Some l \<Rightarrow> l)"

text \<open>A client's circuit comes with the hop, a relay's without; neither has a congestion control object.\<close>

definition ch_wf :: "circ_hop \<Rightarrow> bool" where
  "ch_wf ch \<longleftrightarrow> CIRCUIT_IS_ORIGIN (fst ch) = (snd ch \<noteq> None) \<and>
     (case snd ch of Some h \<Rightarrow> cp_ccontrol h | None \<Rightarrow> c_ccontrol (fst ch)) = None"

text \<open>The running digests (\<open>relay_set_digest\<close>, and recognising a cell, in relay_crypto.c).\<close>

definition set_crypto :: "(relay_crypto \<Rightarrow> relay_crypto) \<Rightarrow> circ_hop \<Rightarrow> circ_hop" where
  "set_crypto f ch = (case ch of
      (circ, Some h) \<Rightarrow> (circ, Some (h\<lparr>cp_crypto := f (cp_crypto h)\<rparr>))
    | (circ, None) \<Rightarrow> (circ\<lparr>c_crypto := f (c_crypto circ)\<rparr>, None))"

definition set_sending_digest :: "bytes \<Rightarrow> circ_hop \<Rightarrow> circ_hop" where
  "set_sending_digest d ch =
     set_crypto (\<lambda>c. if snd ch \<noteq> None then c\<lparr>f_digest := d\<rparr> else c\<lparr>b_digest := d\<rparr>) ch"

definition set_received_digest :: "bytes \<Rightarrow> circ_hop \<Rightarrow> circ_hop" where
  "set_received_digest d ch =
     set_crypto (\<lambda>c. if snd ch \<noteq> None then c\<lparr>b_digest := d\<rparr> else c\<lparr>f_digest := d\<rparr>) ch"

datatype relay_cell = Data_Cell bytes | Sendme_Cell bytes bytes

text \<open>The number of relay cells sent so far, and the cells sent but not yet received.\<close>

type_synonym net = "nat \<times> relay_cell list"

definition send_sendme :: "(nat \<Rightarrow> bytes) \<Rightarrow> net relay_send" where
  "send_sendme dig payload ch net =
     (case sendme_record_sending_cell_digest (set_sending_digest (dig (fst net)) ch) of
        None \<Rightarrow> (- 1, ch, net)
      | Some ch \<Rightarrow> (0, ch, Suc (fst net), snd net @ [Sendme_Cell payload (dig (fst net))]))"

text \<open>Packaging a DATA cell; the result is \<open>None\<close> when the circuit is closed or an assertion fails.\<close>

definition package_data :: "(nat \<Rightarrow> bytes) \<Rightarrow> circ_hop \<Rightarrow> net \<Rightarrow> (circ_hop \<times> net) option" where
  "package_data dig ch net =
     do {
       ch \<leftarrow> sendme_record_sending_cell_digest (set_sending_digest (dig (fst net)) ch);
       ch \<leftarrow> sendme_record_cell_digest_on_circ ch;
       (r, ch) \<leftarrow> sendme_note_circuit_data_packaged (\<lambda>cc ch. ch) ch;
       if r < 0 then None else Some (ch, Suc (fst net), snd net @ [Data_Cell (dig (fst net))])
     }"

definition process_cell ::
  "int \<Rightarrow> int \<Rightarrow> (nat \<Rightarrow> bytes) \<Rightarrow> relay_cell \<Rightarrow> circ_hop \<Rightarrow> net \<Rightarrow> (circ_hop \<times> net) option" where
  "process_cell accept_version emit_version dig cell ch net =
     (case cell of
        Data_Cell d \<Rightarrow>
          do {
            ch \<leftarrow> sendme_record_received_cell_digest (set_received_digest d ch);
            (r, ch) \<leftarrow> sendme_circuit_data_received ch;
            if r < 0 then None
            else sendme_circuit_consider_sending emit_version (send_sendme dig) ch net
          }
      | Sendme_Cell payload d \<Rightarrow>
          do {
            ch \<leftarrow> sendme_record_received_cell_digest (set_received_digest d ch);
            (case sendme_process_circuit_level accept_version (\<lambda>cc ch. (0, ch)) ch payload of
               (r, ch) \<Rightarrow> if r < 0 then None else Some (ch, net))
          })"

text \<open>What each operation does to the windows and digests of a well-formed endpoint.\<close>

named_theorems endpoint_defs \<open>the observations of an endpoint\<close>
declare pw_def [endpoint_defs] crypto_of_def [endpoint_defs] sdig_def [endpoint_defs] lastd_def [endpoint_defs]
  ch_wf_def [endpoint_defs] get_deliver_window_def [endpoint_defs] set_crypto_def [endpoint_defs]

definition gives :: "'a option \<Rightarrow> ('a \<Rightarrow> bool) \<Rightarrow> bool" where
  "gives r P \<longleftrightarrow> (case r of None \<Rightarrow> False | Some x \<Rightarrow> P x)"

lemma givesE: "gives r P \<Longrightarrow> \<exists>x. r = Some x \<and> P x"
  by (cases r) (simp_all add: gives_def)

lemma record_sending:
  assumes "ch_wf ch"
  shows "gives (sendme_record_sending_cell_digest (set_sending_digest d ch)) (\<lambda>ch'. ch_wf ch'
    \<and> pw ch' = pw ch \<and> get_deliver_window ch' = get_deliver_window ch \<and> lastd ch' = lastd ch
    \<and> (pw ch \<noteq> 1000 \<and> (pw ch - 1) mod 100 = 0 \<longrightarrow> sdig ch' = d))"
proof (cases ch)
  case (Pair circ hint)
  then show ?thesis using assms
    by (cases hint)
      (auto simp: gives_def sendme_record_sending_cell_digest_def set_sending_digest_def endpoint_defs circuit_sent_cell_for_sendme_def
        CIRCWINDOW_START_def CIRCWINDOW_INCREMENT_def cpath_sendme_record_cell_digest_def
        relay_crypto_record_sendme_digest_def split: option.splits bool.splits)
qed

lemma record_on_circ:
  assumes "ch_wf ch"
  shows "gives (sendme_record_cell_digest_on_circ ch) (\<lambda>ch'. ch_wf ch'
    \<and> pw ch' = pw ch \<and> get_deliver_window ch' = get_deliver_window ch
    \<and> lastd ch' = lastd ch @ (if pw ch \<noteq> 1000 \<and> (pw ch - 1) mod 100 = 0 then [take 20 (sdig ch)] else []))"
proof (cases ch)
  case (Pair circ hint)
  then show ?thesis using assms
    by (cases hint)
      (auto simp: gives_def sendme_record_cell_digest_on_circ_def endpoint_defs circuit_sent_cell_for_sendme_def
        CIRCWINDOW_START_def CIRCWINDOW_INCREMENT_def record_cell_digest_on_circ_def relay_crypto_get_sendme_digest_def
        DIGEST_LEN_def smartlist_add_def split: option.splits bool.splits)
qed

lemma note_packaged:
  assumes "ch_wf ch"
  shows "gives (sendme_note_circuit_data_packaged ns ch) (\<lambda>(r, ch'). r = pw ch - 1 \<and> ch_wf ch'
    \<and> pw ch' = pw ch - 1 \<and> get_deliver_window ch' = get_deliver_window ch \<and> lastd ch' = lastd ch)"
proof (cases ch)
  case (Pair circ hint)
  then show ?thesis using assms
    by (cases hint)
      (auto simp: gives_def sendme_note_circuit_data_packaged_def endpoint_defs congestion_control_get_package_window_def)
qed

lemma record_received:
  assumes "ch_wf ch" "get_deliver_window ch \<le> 1000"
  shows "gives (sendme_record_received_cell_digest (set_received_digest d ch)) (\<lambda>ch'. ch_wf ch'
    \<and> pw ch' = pw ch \<and> get_deliver_window ch' = get_deliver_window ch \<and> lastd ch' = lastd ch
    \<and> ((1000 - (get_deliver_window ch - 1)) mod 100 = 0 \<longrightarrow> sdig ch' = d))"
proof (cases ch)
  case (Pair circ hint)
  then show ?thesis using assms
    by (cases hint)
      (auto simp: gives_def sendme_record_received_cell_digest_def set_received_digest_def endpoint_defs
        circuit_sendme_cell_is_next_def sendme_get_inc_count_def
        CIRCWINDOW_START_def CIRCWINDOW_INCREMENT_def cpath_sendme_record_cell_digest_def
        relay_crypto_record_sendme_digest_def split: option.splits bool.splits)
qed

lemma data_received:
  assumes "ch_wf ch"
  shows "gives (sendme_circuit_data_received ch) (\<lambda>(r, ch'). r = get_deliver_window ch - 1 \<and> ch_wf ch'
    \<and> pw ch' = pw ch \<and> get_deliver_window ch' = get_deliver_window ch - 1 \<and> lastd ch' = lastd ch \<and> sdig ch' = sdig ch)"
proof (cases ch)
  case (Pair circ hint)
  then show ?thesis using assms
    by (cases hint) (auto simp: gives_def sendme_circuit_data_received_def endpoint_defs)
qed

text \<open>The payload of a SENDME and what the other end makes of it.\<close>

definition payload_of :: "int \<Rightarrow> bytes \<Rightarrow> bytes" where
  "payload_of emit d = (if emit = 1 then [1, 0, 20] @ take 20 d else [])"

lemma build_payload: "build_cell_payload_v1 d = Inr ([1, 0, 20] @ take 20 d)" if "20 \<le> length d"
  using that by (simp add: build_cell_payload_v1_def sendme_cell_encode_def sendme_cell_check_def RELAY_PAYLOAD_SIZE_def
      TRUNNEL_SENDME_V1_DIGEST_LEN_def htons_def Let_def)

lemma parse_payload:
  "20 \<le> length d \<Longrightarrow> \<exists>used. sendme_cell_parse ([1, 0, 20] @ take 20 d) =
     Inr (\<lparr>sc_version = 1, sc_data_len = 20, sc_data_v1_digest = take 20 d\<rparr>, used)"
  by (simp add: sendme_cell_parse_def TRUNNEL_SENDME_V1_DIGEST_LEN_def ntohs_def Let_def)

definition versions_ok :: "int \<Rightarrow> int \<Rightarrow> bool" where
  "versions_ok accept emit \<longleftrightarrow> 0 \<le> accept \<and> accept \<le> emit \<and> emit \<le> 1"

lemma process_sendme:
  assumes "ch_wf ch" "versions_ok accept emit" "20 \<le> length d" "lastd ch = take 20 d # ds" "pw ch \<le> 900"
  shows "gives (Some (sendme_process_circuit_level accept dispatch ch (payload_of emit d))) (\<lambda>(r, ch'). r = 0 \<and> ch_wf ch'
    \<and> pw ch' = pw ch + 100 \<and> get_deliver_window ch' = get_deliver_window ch \<and> lastd ch' = ds)"
proof -
  obtain circ hint where ch: "ch = (circ, hint)" by (cases ch)
  have l: "sendme_last_digests circ = Some (take 20 d # ds)"
    using assms(4) ch by (auto simp: lastd_def split: option.splits)
  have emit: "emit = 1 \<or> emit = 0 \<and> accept = 0" using assms(2) by (auto simp: versions_ok_def)
  obtain used where p: "sendme_cell_parse ([1, 0, 20] @ take 20 d) =
     Inr (\<lparr>sc_version = 1, sc_data_len = 20, sc_data_v1_digest = take 20 d\<rparr>, used)"
    using parse_payload [OF assms(3)] by blast
  have "sendme_is_valid accept circ (payload_of emit d) = (True, circ\<lparr>sendme_last_digests := Some ds\<rparr>)"
  proof (cases "emit = 1")
    case True
    then show ?thesis using p l assms(2) 
      by (simp add: payload_of_def sendme_is_valid_def cell_version_can_be_handled_def SENDME_MAX_SUPPORTED_VERSION_def
          versions_ok_def pop_first_cell_digest_def smartlist_del_keeporder_def cell_v1_is_valid_def v1_digest_matches_def memeq_def)
  next
    case False
    then show ?thesis using l emit
      by (simp add: payload_of_def sendme_is_valid_def cell_version_can_be_handled_def SENDME_MAX_SUPPORTED_VERSION_def
          pop_first_cell_digest_def smartlist_del_keeporder_def)
  qed
  then show ?thesis using assms(1,5) ch
    by (cases hint)
      (auto simp: gives_def sendme_process_circuit_level_def sendme_process_circuit_level_impl_def endpoint_defs
        CIRCWINDOW_INCREMENT_def CIRCWINDOW_START_MAX_def)
qed

lemma send_level_sendme:
  assumes "ch_wf ch" "20 \<le> length d" "0 \<le> emit" "emit \<le> 1"
  shows "gives (Some (send_circuit_level_sendme emit (send_sendme dig) ch net d))
    (\<lambda>(r, ch', net'). r = 0 \<and> ch_wf ch' \<and> pw ch' = pw ch \<and> get_deliver_window ch' = get_deliver_window ch
      \<and> lastd ch' = lastd ch \<and> net' = (Suc (fst net), snd net @ [Sendme_Cell (payload_of emit d) (dig (fst net))]))"
proof -
  obtain ch' where "sendme_record_sending_cell_digest (set_sending_digest (dig (fst net)) ch) = Some ch'" "ch_wf ch'"
    "pw ch' = pw ch" "get_deliver_window ch' = get_deliver_window ch" "lastd ch' = lastd ch"
    using givesE [OF record_sending [OF assms(1)]] by blast
  then show ?thesis using build_payload [OF assms(2)] assms(3,4)
    by (auto simp: gives_def send_circuit_level_sendme_def send_sendme_def payload_of_def)
qed

lemma consider_sending:
  assumes "ch_wf ch" "get_deliver_window ch = 900 \<Longrightarrow> 20 \<le> length (sdig ch)" "0 \<le> emit" "emit \<le> 1"
    "900 \<le> get_deliver_window ch"
    "get_deliver_window ch \<le> 1000"
  shows "gives (sendme_circuit_consider_sending emit (send_sendme dig) ch net)
    (\<lambda>(ch', net'). ch_wf ch' \<and> pw ch' = pw ch \<and> lastd ch' = lastd ch
      \<and> (if get_deliver_window ch = 900
         then get_deliver_window ch' = 1000
           \<and> net' = (Suc (fst net), snd net @ [Sendme_Cell (payload_of emit (sdig ch)) (dig (fst net))])
         else ch' = ch \<and> net' = net))"
proof -
  have inc: "sendme_get_inc_count (fst ch) (snd ch) = 100"
    using assms(1) by (simp add: sendme_get_inc_count_def ch_wf_def CIRCWINDOW_INCREMENT_def split: option.splits)
  obtain f where f: "consider_fuel ch = Suc (Suc f)" by (simp add: consider_fuel_def)
  have eq: "sendme_circuit_consider_sending emit (send_sendme dig) ch net =
    consider_loop emit (send_sendme dig) 100 ch net (Suc (Suc f))"
    unfolding sendme_circuit_consider_sending_def inc f ..
  show ?thesis
  proof (cases "get_deliver_window ch = 900")
    case False
    then show ?thesis unfolding eq using assms by (auto simp: gives_def CIRCWINDOW_START_def)
  next
    case True
    obtain circ hint where ch: "ch = (circ, hint)" by (cases ch)
    define ch1 where "ch1 = (case hint of
        Some h \<Rightarrow> (circ, Some (h\<lparr>cp_deliver_window := cp_deliver_window h + 100\<rparr>))
      | None \<Rightarrow> (circ\<lparr>c_deliver_window := c_deliver_window circ + 100\<rparr>, None))"
    have w: "ch_wf ch1" "pw ch1 = pw ch" "lastd ch1 = lastd ch" "get_deliver_window ch1 = 1000"
      using assms(1) True ch by (auto simp: ch1_def endpoint_defs split: option.splits)
    obtain ch2 where s: "send_circuit_level_sendme emit (send_sendme dig) ch1 net (sdig ch) =
        (0, ch2, Suc (fst net), snd net @ [Sendme_Cell (payload_of emit (sdig ch)) (dig (fst net))])"
      "ch_wf ch2" "pw ch2 = pw ch" "lastd ch2 = lastd ch" "get_deliver_window ch2 = 1000"
      using givesE [OF send_level_sendme [OF w(1) assms(2) [OF True] assms(3,4), of dig net]] w by auto
    have "consider_loop emit (send_sendme dig) 100 ch net (Suc (Suc f)) =
      Some (ch2, Suc (fst net), snd net @ [Sendme_Cell (payload_of emit (sdig ch)) (dig (fst net))])"
      using True s(1,5) ch
      by (cases hint) (simp_all add: ch1_def sdig_def crypto_of_def CIRCWINDOW_START_def relay_crypto_get_sendme_digest_def)
    then show ?thesis unfolding eq using s(2-5) True by (simp add: gives_def)
  qed
qed

subsection \<open>One direction of the flow\<close>

text \<open>
  What holds of the sender's package window and digest list, the receiver's deliver window, the
  digests of the DATA cells under way and the payloads of the SENDMEs under way back: all are
  functions of the digests of the DATA cells sent so far, how many of them have arrived, and
  how many SENDMEs have arrived.
\<close>

definition mark :: "bytes list \<Rightarrow> nat \<Rightarrow> bytes" where
  "mark D k = D ! (100 * k + 99)"

definition flow_at :: "int \<Rightarrow> bytes list \<Rightarrow> nat \<Rightarrow> nat \<Rightarrow> int \<Rightarrow> bytes list \<Rightarrow> int \<Rightarrow> bytes list \<Rightarrow> bytes list \<Rightarrow> bool" where
  "flow_at emit D r v p l w ds ss \<longleftrightarrow>
     list_all (\<lambda>d. length d = 20) D \<and> p = 1000 - int (length D) + 100 * int v \<and> 0 \<le> p
     \<and> l = map (mark D) [v..<length D div 100]
     \<and> w = 1000 - int (r mod 100) \<and> r \<le> length D \<and> ds = drop r D
     \<and> ss = map (\<lambda>k. payload_of emit (mark D k)) [v..<r div 100] \<and> v \<le> r div 100"

definition flow :: "int \<Rightarrow> int \<Rightarrow> bytes list \<Rightarrow> int \<Rightarrow> bytes list \<Rightarrow> bytes list \<Rightarrow> bool" where
  "flow emit p l w ds ss \<longleftrightarrow> (\<exists>D r v. flow_at emit D r v p l w ds ss)"

lemma mark_append: "k < length D div 100 \<Longrightarrow> mark (D @ [d]) k = mark D k"
  by (auto simp: mark_def nth_append)

lemma window_mod:
  "(999 - int n + 100 * int v) mod 100 = 0 \<longleftrightarrow> n mod 100 = 99"
  "(1000 - int n + 100 * int v = 1000) \<Longrightarrow> n mod 100 \<noteq> 99"
proof -
  have "int n = 100 * int (n div 100) + int (n mod 100)" by (simp add: zdiv_int zmod_int)
  then have "999 - int n + 100 * int v = (99 - int (n mod 100)) + 100 * (9 + int v - int (n div 100))"
    by (simp add: algebra_simps)
  then have "(999 - int n + 100 * int v) mod 100 = (99 - int (n mod 100)) mod 100"
    by (simp only: mod_mult_self2)
  also have "\<dots> = 99 - int (n mod 100)" by (intro mod_pos_pos_trivial) (simp_all add: less_Suc_eq_le [of _ 99, simplified])
  finally show "(999 - int n + 100 * int v) mod 100 = 0 \<longleftrightarrow> n mod 100 = 99" by simp
  assume "1000 - int n + 100 * int v = 1000"
  then have "n = 100 * v" by simp
  then show "n mod 100 \<noteq> 99" by simp
qed

lemma suc_hundred:
  "n mod 100 = 99 \<Longrightarrow> Suc n div 100 = Suc (n div 100) \<and> Suc n mod 100 = 0 \<and> 100 * (n div 100) + 99 = n"
  "n mod 100 \<noteq> 99 \<Longrightarrow> Suc n div 100 = n div 100 \<and> Suc n mod 100 = Suc (n mod 100)"
  using mult_div_mod_eq [of 100 n] by (simp_all add: div_Suc mod_Suc)

lemma flow_send:
  assumes "flow emit p l w ds ss" "0 < p" "length d = 20"
  shows "flow emit (p - 1) (l @ (if p \<noteq> 1000 \<and> (p - 1) mod 100 = 0 then [take 20 d] else [])) w (ds @ [d]) ss"
proof -
  obtain D r v where f: "flow_at emit D r v p l w ds ss" using assms(1) by (auto simp: flow_def)
  have le: "r \<le> length D" "v \<le> r div 100" "r div 100 \<le> length D div 100"
    using f by (auto simp: flow_at_def div_le_mono)
  have old: "map (mark (D @ [d])) [v..<length D div 100] = map (mark D) [v..<length D div 100]"
    "map (\<lambda>k. payload_of emit (mark (D @ [d]) k)) [v..<r div 100] = map (\<lambda>k. payload_of emit (mark D k)) [v..<r div 100]"
    using le by (auto simp: mark_append)
  have p: "p = 1000 - int (length D) + 100 * int v" using f by (simp add: flow_at_def)
  have last: "p \<noteq> 1000 \<and> (p - 1) mod 100 = 0 \<longleftrightarrow> length D mod 100 = 99"
  proof -
    have "p - 1 = 999 - int (length D) + 100 * int v" using p by simp
    then show ?thesis using window_mod [of "length D" v] p by (simp only:) blast
  qed
  have l': "map (mark (D @ [d])) [v..<length (D @ [d]) div 100] =
      l @ (if p \<noteq> 1000 \<and> (p - 1) mod 100 = 0 then [take 20 d] else [])"
  proof (cases "length D mod 100 = 99")
    case True
    then have n: "length (D @ [d]) div 100 = Suc (length D div 100)" "100 * (length D div 100) + 99 = length D"
      using suc_hundred(1) [of "length D"] by simp_all
    have "mark (D @ [d]) (length D div 100) = d" using n(2) by (simp add: mark_def nth_append)
    then show ?thesis using True last old(1) f le n(1) assms(3) by (simp add: flow_at_def)
  next
    case False
    then have n: "length (D @ [d]) div 100 = length D div 100"
      using suc_hundred(2) [of "length D"] by simp
    then show ?thesis using False last old(1) f by (simp add: flow_at_def)
  qed
  have "flow_at emit (D @ [d]) r v (p - 1) (l @ (if p \<noteq> 1000 \<and> (p - 1) mod 100 = 0 then [take 20 d] else [])) w (ds @ [d]) ss"
    using f assms(2,3) le old(2) l' by (simp add: flow_at_def)
  then show ?thesis unfolding flow_def by blast
qed

lemma flow_data:
  assumes "flow emit p l w (d # ds) ss"
  shows "900 < w \<and> w \<le> 1000 \<and> length d = 20 \<and>
    (if (1000 - (w - 1)) mod 100 = 0 then w - 1 = 900 \<and> flow emit p l 1000 ds (ss @ [payload_of emit d])
     else w - 1 \<noteq> 900 \<and> flow emit p l (w - 1) ds ss)"
proof -
  obtain D r v where f: "flow_at emit D r v p l w (d # ds) ss" using assms(1) by (auto simp: flow_def)
  have r: "d # ds = drop r D" "list_all (\<lambda>d. length d = 20) D" "v \<le> r div 100"
    "w = 1000 - int (r mod 100)" "ss = map (\<lambda>k. payload_of emit (mark D k)) [v..<r div 100]"
    using f by (auto simp: flow_at_def)
  have lt: "r < length D" using r(1) by (metis drop_all list.distinct(1) not_le_imp_less)
  then have d: "d = D ! r" "ds = drop (Suc r) D" using r(1) by (simp_all add: Cons_nth_drop_Suc [symmetric])
  have len: "length d = 20" using r(2) lt d(1) by (simp add: list_all_length)
  have m: "r mod 100 \<le> 99" by (simp add: less_Suc_eq_le [of _ 99, simplified])
  have next_mod: "(1000 - (w - 1)) mod 100 = 0 \<longleftrightarrow> r mod 100 = 99"
  proof -
    have "1000 - (w - 1) = int (r mod 100) + 1" using r(4) by simp
    then show ?thesis using m by (cases "r mod 100 = 99") (simp_all add: mod_pos_pos_trivial)
  qed
  show ?thesis
  proof (cases "r mod 100 = 99")
    case True
    have n: "Suc r div 100 = Suc (r div 100)" "Suc r mod 100 = 0" "100 * (r div 100) + 99 = r"
      using suc_hundred(1) [OF True] by simp_all
    have "mark D (r div 100) = d" using n(3) d(1) by (simp add: mark_def)
    then have "flow_at emit D (Suc r) v p l 1000 ds (ss @ [payload_of emit d])"
      using f lt d(2) r n(1,2) by (simp add: flow_at_def)
    then show ?thesis using True next_mod r(4) len by (auto simp: flow_def)
  next
    case False
    have n: "Suc r div 100 = r div 100" "Suc r mod 100 = Suc (r mod 100)"
      using suc_hundred(2) [OF False] by simp_all
    have "flow_at emit D (Suc r) v p l (w - 1) ds ss"
      using f lt d(2) r n by (simp add: flow_at_def)
    then show ?thesis using False m next_mod r(4) len by (auto simp: flow_def)
  qed
qed

lemma flow_sendme:
  assumes "flow emit p l w ds (q # ss)"
  shows "\<exists>d l'. q = payload_of emit d \<and> length d = 20 \<and> l = take 20 d # l' \<and> p \<le> 900 \<and> flow emit (p + 100) l' w ds ss"
proof -
  obtain D r v where f: "flow_at emit D r v p l w ds (q # ss)" using assms(1) by (auto simp: flow_def)
  have r: "q # ss = map (\<lambda>k. payload_of emit (mark D k)) [v..<r div 100]" "r \<le> length D"
    "list_all (\<lambda>d. length d = 20) D"
    using f by (auto simp: flow_at_def)
  have v: "v < r div 100" using r(1) by (cases "v < r div 100") auto
  have vn: "v < length D div 100" using v div_le_mono [OF r(2), of 100] by simp
  have "100 * v + 100 \<le> length D" using vn by (metis add.commute div_times_less_eq_dividend le_trans mult.commute mult_Suc_right mult_le_mono1 Suc_leI)
  then have m: "length (mark D v) = 20" "int (length D) \<ge> 100 * int v + 100"
    using r(3) by (simp_all add: mark_def list_all_length)
  have q: "q = payload_of emit (mark D v)" "ss = map (\<lambda>k. payload_of emit (mark D k)) [Suc v..<r div 100]"
    using r(1) v by (simp_all add: upt_conv_Cons)
  have l: "l = take 20 (mark D v) # map (mark D) [Suc v..<length D div 100]"
    using f vn m(1) by (simp add: flow_at_def upt_conv_Cons)
  have "flow_at emit D r (Suc v) (p + 100) (map (mark D) [Suc v..<length D div 100]) w ds ss"
    using f q(2) v by (simp add: flow_at_def)
  then have "flow emit (p + 100) (map (mark D) [Suc v..<length D div 100]) w ds ss" by (auto simp: flow_def)
  moreover have "p \<le> 900" using f m(2) by (simp add: flow_at_def)
  ultimately show ?thesis using q(1) l m(1) by blast
qed

subsection \<open>The two endpoints\<close>

record system =
  end_a :: circ_hop
  net_a :: net
  end_b :: circ_hop
  net_b :: net

definition packages :: "(nat \<Rightarrow> bytes) \<Rightarrow> system \<Rightarrow> system option" where
  "packages dig s = map_option (\<lambda>(ch, net). s\<lparr>end_a := ch, net_a := net\<rparr>) (package_data dig (end_a s) (net_a s))"

definition receives :: "int \<Rightarrow> int \<Rightarrow> (nat \<Rightarrow> bytes) \<Rightarrow> system \<Rightarrow> system option" where
  "receives accept_version emit_version dig s =
     map_option (\<lambda>(ch, net). s\<lparr>end_a := ch, net_a := net, net_b := (fst (net_b s), tl (snd (net_b s)))\<rparr>)
       (process_cell accept_version emit_version dig (hd (snd (net_b s))) (end_a s) (net_a s))"

definition swap :: "system \<Rightarrow> system" where
  "swap s = \<lparr>end_a = end_b s, net_a = net_b s, end_b = end_a s, net_b = net_a s\<rparr>"

text \<open>The steps; \<open>None\<close> is a closed circuit (or a failed assertion).\<close>

inductive step :: "int \<Rightarrow> int \<Rightarrow> (nat \<Rightarrow> bytes) \<Rightarrow> (nat \<Rightarrow> bytes) \<Rightarrow> system \<Rightarrow> system option \<Rightarrow> bool"
  for accept_version emit_version dig_a dig_b where
  package_a: "0 < congestion_control_get_package_window (fst (end_a s)) (snd (end_a s)) \<Longrightarrow>
    step accept_version emit_version dig_a dig_b s (packages dig_a s)"
| package_b: "0 < congestion_control_get_package_window (fst (end_b s)) (snd (end_b s)) \<Longrightarrow>
    step accept_version emit_version dig_a dig_b s (map_option swap (packages dig_b (swap s)))"
| receive_a: "snd (net_b s) \<noteq> [] \<Longrightarrow>
    step accept_version emit_version dig_a dig_b s (receives accept_version emit_version dig_a s)"
| receive_b: "snd (net_a s) \<noteq> [] \<Longrightarrow>
    step accept_version emit_version dig_a dig_b s (map_option swap (receives accept_version emit_version dig_b (swap s)))"

inductive reachable :: "int \<Rightarrow> int \<Rightarrow> (nat \<Rightarrow> bytes) \<Rightarrow> (nat \<Rightarrow> bytes) \<Rightarrow> system \<Rightarrow> system option \<Rightarrow> bool"
  for accept_version emit_version dig_a dig_b s0 where
  start: "reachable accept_version emit_version dig_a dig_b s0 (Some s0)"
| more: "reachable accept_version emit_version dig_a dig_b s0 (Some s) \<Longrightarrow>
    step accept_version emit_version dig_a dig_b s t \<Longrightarrow> reachable accept_version emit_version dig_a dig_b s0 t"

text \<open>The start: full windows, no digests, nothing sent.\<close>

definition fresh :: "circ_hop \<Rightarrow> bool" where
  "fresh ch \<longleftrightarrow> ch_wf ch \<and> pw ch = CIRCWINDOW_START \<and> get_deliver_window ch = CIRCWINDOW_START \<and> lastd ch = []"

definition initial :: "system \<Rightarrow> bool" where
  "initial s \<longleftrightarrow> fresh (end_a s) \<and> fresh (end_b s) \<and> net_a s = (0, []) \<and> net_b s = (0, [])"

fun data_digests :: "relay_cell list \<Rightarrow> bytes list" where
  "data_digests [] = []"
| "data_digests (Data_Cell d # cs) = d # data_digests cs"
| "data_digests (Sendme_Cell p d # cs) = data_digests cs"

fun sendme_payloads :: "relay_cell list \<Rightarrow> bytes list" where
  "sendme_payloads [] = []"
| "sendme_payloads (Data_Cell d # cs) = sendme_payloads cs"
| "sendme_payloads (Sendme_Cell p d # cs) = p # sendme_payloads cs"

lemma cells_append [simp]:
  "data_digests (cs @ ds) = data_digests cs @ data_digests ds"
  "sendme_payloads (cs @ ds) = sendme_payloads cs @ sendme_payloads ds"
  by (induction cs rule: data_digests.induct) auto

definition sys_ok :: "int \<Rightarrow> system \<Rightarrow> bool" where
  "sys_ok emit s \<longleftrightarrow> ch_wf (end_a s) \<and> ch_wf (end_b s)
     \<and> flow emit (pw (end_a s)) (lastd (end_a s)) (get_deliver_window (end_b s))
         (data_digests (snd (net_a s))) (sendme_payloads (snd (net_b s)))
     \<and> flow emit (pw (end_b s)) (lastd (end_b s)) (get_deliver_window (end_a s))
         (data_digests (snd (net_b s))) (sendme_payloads (snd (net_a s)))"

lemma sys_ok_swap: "sys_ok emit (swap s) \<longleftrightarrow> sys_ok emit s"
  by (auto simp: sys_ok_def swap_def)

lemma swap_swap [simp]: "swap (swap s) = s"
  by (simp add: swap_def)

lemma package_window_pw:
  "ch_wf ch \<Longrightarrow> congestion_control_get_package_window (fst ch) (snd ch) = pw ch"
  by (auto simp: congestion_control_get_package_window_def endpoint_defs split: option.splits)

lemma package_data_ok:
  assumes "ch_wf ch" "0 < pw ch"
  shows "gives (package_data dig ch net) (\<lambda>(ch', net'). ch_wf ch' \<and> pw ch' = pw ch - 1
    \<and> get_deliver_window ch' = get_deliver_window ch
    \<and> lastd ch' = lastd ch @ (if pw ch \<noteq> 1000 \<and> (pw ch - 1) mod 100 = 0 then [take 20 (dig (fst net))] else [])
    \<and> net' = (Suc (fst net), snd net @ [Data_Cell (dig (fst net))]))"
proof -
  obtain ch1 where 1: "sendme_record_sending_cell_digest (set_sending_digest (dig (fst net)) ch) = Some ch1" "ch_wf ch1"
    "pw ch1 = pw ch" "get_deliver_window ch1 = get_deliver_window ch" "lastd ch1 = lastd ch"
    "pw ch \<noteq> 1000 \<and> (pw ch - 1) mod 100 = 0 \<longrightarrow> sdig ch1 = dig (fst net)"
    using givesE [OF record_sending [OF assms(1)]] by blast
  obtain ch2 where 2: "sendme_record_cell_digest_on_circ ch1 = Some ch2" "ch_wf ch2" "pw ch2 = pw ch1"
    "get_deliver_window ch2 = get_deliver_window ch1"
    "lastd ch2 = lastd ch1 @ (if pw ch1 \<noteq> 1000 \<and> (pw ch1 - 1) mod 100 = 0 then [take 20 (sdig ch1)] else [])"
    using givesE [OF record_on_circ [OF 1(2)]] by blast
  obtain ch3 where 3: "sendme_note_circuit_data_packaged (\<lambda>cc ch. ch) ch2 = Some (pw ch2 - 1, ch3)" "ch_wf ch3"
    "pw ch3 = pw ch2 - 1" "get_deliver_window ch3 = get_deliver_window ch2" "lastd ch3 = lastd ch2"
    using givesE [OF note_packaged [OF 2(2)], of "\<lambda>cc ch. ch"] by auto
  have "package_data dig ch net = Some (ch3, Suc (fst net), snd net @ [Data_Cell (dig (fst net))])"
    using assms(2) by (simp add: package_data_def 1(1) 2(1) 3(1) 2(3) 1(3))
  then show ?thesis using 1 2 3 by (simp add: gives_def)
qed

lemma packages_ok:
  assumes "sys_ok emit s" "\<And>n. length (dig n) = 20" "0 < pw (end_a s)"
  shows "gives (packages dig s) (sys_ok emit)"
proof -
  let ?d = "dig (fst (net_a s))"
  obtain ch where "package_data dig (end_a s) (net_a s) = Some (ch, Suc (fst (net_a s)), snd (net_a s) @ [Data_Cell ?d])"
    "ch_wf ch" "pw ch = pw (end_a s) - 1" "get_deliver_window ch = get_deliver_window (end_a s)"
    "lastd ch = lastd (end_a s) @ (if pw (end_a s) \<noteq> 1000 \<and> (pw (end_a s) - 1) mod 100 = 0 then [take 20 ?d] else [])"
    using givesE [OF package_data_ok [of "end_a s" dig "net_a s"]] assms(1,3) by (auto simp: sys_ok_def)
  then show ?thesis
    using assms flow_send [of emit "pw (end_a s)" "lastd (end_a s)" "get_deliver_window (end_b s)"
        "data_digests (snd (net_a s))" "sendme_payloads (snd (net_b s))" ?d]
    by (simp add: packages_def gives_def sys_ok_def)
qed

lemma flow_window: "flow emit p l w ds ss \<Longrightarrow> 900 < w \<and> w \<le> 1000 \<and> 0 \<le> p \<and> p \<le> 1000"
proof -
  assume "flow emit p l w ds ss"
  then obtain D r v where f: "flow_at emit D r v p l w ds ss" by (auto simp: flow_def)
  then have "v \<le> length D div 100" using div_le_mono [of r "length D" 100] by (auto simp: flow_at_def)
  then have "100 * v \<le> length D" by (metis div_times_less_eq_dividend le_trans mult.commute mult_le_mono1)
  moreover have "int (r mod 100) \<le> 99" by simp
  ultimately show ?thesis using f by (simp add: flow_at_def)
qed

text \<open>What remains to be received: a DATA cell may cause a SENDME.\<close>

definition load :: "system \<Rightarrow> nat" where
  "load s = 2 * length (data_digests (snd (net_a s))) + length (sendme_payloads (snd (net_a s)))
     + 2 * length (data_digests (snd (net_b s))) + length (sendme_payloads (snd (net_b s)))"

lemma load_swap [simp]: "load (swap s) = load s"
  by (simp add: load_def swap_def)

lemma receives_ok:
  assumes ok: "sys_ok emit s" and dig: "\<And>n. length (dig n) = 20" and ver: "versions_ok accept emit"
    and cell: "snd (net_b s) = cell # rest"
  shows "gives (receives accept emit dig s) (\<lambda>t. sys_ok emit t \<and> load t < load s)"
proof -
  let ?a = "end_a s" and ?w = "get_deliver_window (end_a s)"
  have wf: "ch_wf ?a" using ok by (simp add: sys_ok_def)
  have w: "900 < ?w" "?w \<le> 1000"
    using ok flow_window by (auto simp: sys_ok_def)
  have e: "0 \<le> emit" "emit \<le> 1" using ver by (auto simp: versions_ok_def)
  show ?thesis
  proof (cases cell)
    case (Data_Cell d)
    have fl: "flow emit (pw (end_b s)) (lastd (end_b s)) ?w (d # data_digests rest) (sendme_payloads (snd (net_a s)))"
      using ok cell Data_Cell by (simp add: sys_ok_def)
    note fd = flow_data [OF fl]
    obtain c1 where c1: "sendme_record_received_cell_digest (set_received_digest d ?a) = Some c1" "ch_wf c1"
      "pw c1 = pw ?a" "get_deliver_window c1 = ?w" "lastd c1 = lastd ?a"
      "(1000 - (?w - 1)) mod 100 = 0 \<longrightarrow> sdig c1 = d"
      using givesE [OF record_received [OF wf w(2)]] by blast
    obtain c2 where c2: "sendme_circuit_data_received c1 = Some (?w - 1, c2)" "ch_wf c2" "pw c2 = pw c1"
      "get_deliver_window c2 = ?w - 1" "lastd c2 = lastd c1" "sdig c2 = sdig c1"
      using givesE [OF data_received [OF c1(2)]] c1(4) by auto
    have sd: "get_deliver_window c2 = 900 \<Longrightarrow> sdig c2 = d" "get_deliver_window c2 = 900 \<Longrightarrow> 20 \<le> length (sdig c2)"
      using fd c1(6) c2(4,6) by (auto split: if_splits)
    obtain c3 net where c3: "sendme_circuit_consider_sending emit (send_sendme dig) c2 (net_a s) = Some (c3, net)" "ch_wf c3"
      "pw c3 = pw c2" "lastd c3 = lastd c2"
      "if get_deliver_window c2 = 900 then get_deliver_window c3 = 1000
           \<and> net = (Suc (fst (net_a s)), snd (net_a s) @ [Sendme_Cell (payload_of emit (sdig c2)) (dig (fst (net_a s)))])
         else c3 = c2 \<and> net = net_a s"
      using givesE [OF consider_sending [OF c2(2) sd(2) e, of dig "net_a s"]] c2(4) w by auto
    have r: "receives accept emit dig s = Some (s\<lparr>end_a := c3, net_a := net, net_b := (fst (net_b s), rest)\<rparr>)"
      using w by (simp add: receives_def cell Data_Cell process_cell_def c1(1) c2(1) c3(1))
    show ?thesis
    proof (cases "get_deliver_window c2 = 900")
      case True
      then show ?thesis using ok fd sd(1) c1 c2 c3 cell Data_Cell by (auto simp: r gives_def sys_ok_def load_def split: if_splits)
    next
      case False
      then show ?thesis using ok fd c1 c2 c3 cell Data_Cell by (auto simp: r gives_def sys_ok_def load_def split: if_splits)
    qed
  next
    case (Sendme_Cell q d)
    have fl: "flow emit (pw ?a) (lastd ?a) (get_deliver_window (end_b s)) (data_digests (snd (net_a s))) (q # sendme_payloads rest)"
      using ok cell Sendme_Cell by (simp add: sys_ok_def)
    obtain m l' where m: "q = payload_of emit m" "length m = 20" "lastd ?a = take 20 m # l'" "pw ?a \<le> 900"
      "flow emit (pw ?a + 100) l' (get_deliver_window (end_b s)) (data_digests (snd (net_a s))) (sendme_payloads rest)"
      using flow_sendme [OF fl] by blast
    obtain c1 where c1: "sendme_record_received_cell_digest (set_received_digest d ?a) = Some c1" "ch_wf c1"
      "pw c1 = pw ?a" "get_deliver_window c1 = ?w" "lastd c1 = lastd ?a"
      using givesE [OF record_received [OF wf w(2)]] by blast
    obtain c2 where c2: "sendme_process_circuit_level accept (\<lambda>cc ch. (0, ch)) c1 (payload_of emit m) = (0, c2)" "ch_wf c2"
      "pw c2 = pw ?a + 100" "get_deliver_window c2 = ?w" "lastd c2 = l'"
      using givesE [OF process_sendme [OF c1(2) ver, of m l' "\<lambda>cc ch. (0, ch)"]] m(2-4) c1(3-5) by auto
    have "receives accept emit dig s = Some (s\<lparr>end_a := c2, net_a := net_a s, net_b := (fst (net_b s), rest)\<rparr>)"
      by (simp add: receives_def cell Sendme_Cell process_cell_def c1(1) m(1) c2(1))
    then show ?thesis using ok m(5) c2 cell Sendme_Cell by (simp add: gives_def sys_ok_def load_def)
  qed
qed

lemma gives_swap: "gives r P \<Longrightarrow> (\<And>t. P t \<Longrightarrow> Q (swap t)) \<Longrightarrow> gives (map_option swap r) Q"
  by (cases r) (simp_all add: gives_def)

lemma gives_mono: "gives r P \<Longrightarrow> (\<And>t. P t \<Longrightarrow> Q t) \<Longrightarrow> gives r Q"
  by (cases r) (simp_all add: gives_def)

text \<open>A receive step of either end keeps the invariant and leaves less to receive.\<close>

lemma receive_steps:
  assumes "sys_ok emit s" "versions_ok accept emit" "\<And>n. length (dig n) = 20"
  shows "snd (net_b s) \<noteq> [] \<Longrightarrow> gives (receives accept emit dig s) (\<lambda>t. sys_ok emit t \<and> load t < load s)"
    and "snd (net_a s) \<noteq> [] \<Longrightarrow>
      gives (map_option swap (receives accept emit dig (swap s))) (\<lambda>t. sys_ok emit t \<and> load t < load s)"
proof -
  show "gives (receives accept emit dig s) (\<lambda>t. sys_ok emit t \<and> load t < load s)" if ne: "snd (net_b s) \<noteq> []"
    using receives_ok [OF assms(1,3,2)] ne by (cases "snd (net_b s)") auto
  show "gives (map_option swap (receives accept emit dig (swap s))) (\<lambda>t. sys_ok emit t \<and> load t < load s)"
    if "snd (net_a s) \<noteq> []"
  proof -
    have "snd (net_b (swap s)) \<noteq> []" using that by (simp add: swap_def)
    then obtain c cs where "snd (net_b (swap s)) = c # cs" by (cases "snd (net_b (swap s))") auto
    then have "gives (receives accept emit dig (swap s)) (\<lambda>t. sys_ok emit t \<and> load t < load s)"
      using receives_ok [of emit "swap s" dig accept, OF _ assms(3,2)] assms(1) by (simp add: sys_ok_swap)
    then show ?thesis by (rule gives_swap) (simp add: sys_ok_swap)
  qed
qed

lemma step_ok:
  assumes "step accept emit dig_a dig_b s t" "sys_ok emit s" "versions_ok accept emit"
    and "\<And>n. length (dig_a n) = 20" "\<And>n. length (dig_b n) = 20"
  shows "gives t (sys_ok emit)"
  using assms(1)
proof cases
  case package_a
  then show ?thesis using packages_ok [OF assms(2,4)] assms(2) by (auto simp: package_window_pw sys_ok_def)
next
  case package_b
  have "0 < pw (end_a (swap s))" using package_b(2) assms(2) by (auto simp: package_window_pw sys_ok_def swap_def)
  then have "gives (packages dig_b (swap s)) (sys_ok emit)"
    using packages_ok [of emit "swap s" dig_b, OF _ assms(5)] assms(2) by (simp add: sys_ok_swap)
  then show ?thesis unfolding package_b(1) by (rule gives_swap) (simp add: sys_ok_swap)
next
  case receive_a
  then show ?thesis using receive_steps(1) [of emit s accept dig_a, OF assms(2,3,4)] by (auto elim: gives_mono)
next
  case receive_b
  then show ?thesis using receive_steps(2) [of emit s accept dig_b, OF assms(2,3,5)] by (auto elim: gives_mono)
qed

lemma flow_start: "flow emit 1000 [] 1000 [] []"
  unfolding flow_def by (intro exI [of _ "[]"] exI [of _ 0]) (simp add: flow_at_def)

lemma reachable_ok:
  assumes "reachable accept emit dig_a dig_b s0 t" "initial s0" "versions_ok accept emit"
    and "\<And>n. length (dig_a n) = 20" "\<And>n. length (dig_b n) = 20"
  shows "gives t (sys_ok emit)"
  using assms(1)
proof (induction rule: reachable.induct)
  case start
  then show ?case using assms(2) flow_start
    by (simp add: gives_def sys_ok_def initial_def fresh_def CIRCWINDOW_START_def)
next
  case (more s t)
  then show ?case using step_ok [OF more(2) _ assms(3-5)] by (simp add: gives_def)
qed

text \<open>Nothing is lost: every cell the window has been charged for is accounted for.\<close>

lemma flow_conserve:
  assumes "flow emit p l w ds ss"
  shows "p + int (length ds) + (1000 - w) + 100 * int (length ss) = 1000"
proof -
  obtain D r v where f: "flow_at emit D r v p l w ds ss" using assms by (auto simp: flow_def)
  have n: "length ds + r = length D" "length ss + v = r div 100"
    "p = 1000 - int (length D) + 100 * int v" "w = 1000 - int (r mod 100)"
    using f by (simp_all add: flow_at_def)
  have "int (length D) = int (length ds) + int r" "int (r div 100) = int (length ss) + int v"
    using n(1,2) by linarith+
  moreover have "int r = 100 * int (r div 100) + int (r mod 100)" by (simp add: zdiv_int zmod_int)
  ultimately show ?thesis using n(3,4) by linarith
qed

lemma can_drain:
  assumes "reachable accept emit dig_a dig_b s0 (Some s)" "sys_ok emit s" "versions_ok accept emit"
    and "\<And>n. length (dig_a n) = 20" "\<And>n. length (dig_b n) = 20"
  shows "\<exists>t. reachable accept emit dig_a dig_b s (Some t) \<and> sys_ok emit t \<and> snd (net_a t) = [] \<and> snd (net_b t) = []"
proof -
  have "\<exists>t. reachable accept emit dig_a dig_b s (Some t) \<and> sys_ok emit t \<and> snd (net_a t) = [] \<and> snd (net_b t) = []"
    if "reachable accept emit dig_a dig_b s (Some u)" "sys_ok emit u" for u
    using that
  proof (induction "load u" arbitrary: u rule: less_induct)
    case less
    note a = receive_steps(1) [of emit u accept dig_a, OF less.prems(2) assms(3,4)]
      and b = receive_steps(2) [of emit u accept dig_b, OF less.prems(2) assms(3,5)]
    consider "snd (net_b u) \<noteq> []" | "snd (net_a u) \<noteq> []" | "snd (net_a u) = []" "snd (net_b u) = []" by blast
    then show ?case
    proof cases
      case 1
      obtain t where t: "receives accept emit dig_a u = Some t" "sys_ok emit t" "load t < load u"
        using givesE [OF a [OF 1]] by auto
      show ?thesis
        using less.hyps [OF t(3) _ t(2)] reachable.more [OF less.prems(1) step.receive_a [OF 1]] t(1) by metis
    next
      case 2
      obtain t where t: "map_option swap (receives accept emit dig_b (swap u)) = Some t" "sys_ok emit t" "load t < load u"
        using givesE [OF b [OF 2]] by auto
      show ?thesis
        using less.hyps [OF t(3) _ t(2)] reachable.more [OF less.prems(1) step.receive_b [OF 2]] t(1) by metis
    next
      case 3
      then show ?thesis using less.prems by blast
    qed
  qed
  then show ?thesis using reachable.start [of accept emit dig_a dig_b s] assms(2) by blast
qed

subsection \<open>Properties\<close>

definition sample_relay :: circuit where
  "sample_relay =
     \<lparr>CIRCUIT_IS_ORIGIN = False, c_package_window = 1000, c_deliver_window = 1000, c_ccontrol = None,
      c_crypto = \<lparr>f_digest = [], b_digest = [], sendme_digest = []\<rparr>, sendme_last_digests = None\<rparr>"

definition sample_hop :: crypt_path where
  "sample_hop =
     \<lparr>cp_package_window = 1000, cp_deliver_window = 1000, cp_ccontrol = None,
      cp_crypto = \<lparr>f_digest = [], b_digest = [], sendme_digest = []\<rparr>\<rparr>"

definition sample_system :: system where
  "sample_system =
     \<lparr>end_a = (sample_relay\<lparr>CIRCUIT_IS_ORIGIN := True\<rparr>, Some sample_hop), net_a = (0, []),
      end_b = (sample_relay, None), net_b = (0, [])\<rparr>"

lemma sample_initial: "initial sample_system"
  by (simp add: sample_system_def sample_relay_def sample_hop_def initial_def fresh_def endpoint_defs CIRCWINDOW_START_def)

lemma sample_step:
  "reachable 1 1 (\<lambda>n. replicate 20 7) (\<lambda>n. replicate 20 8) sample_system (packages (\<lambda>n. replicate 20 7) sample_system)"
  by (rule reachable.more [OF reachable.start step.package_a])
    (simp add: sample_system_def sample_relay_def sample_hop_def congestion_control_get_package_window_def)

lemma sample_package:
  "\<exists>s. packages (\<lambda>n. replicate 20 7) sample_system = Some s"
  by (simp add: sample_system_def sample_relay_def sample_hop_def packages_def package_data_def set_sending_digest_def
      set_crypto_def sendme_record_sending_cell_digest_def circuit_sent_cell_for_sendme_def CIRCWINDOW_START_def
      sendme_record_cell_digest_on_circ_def sendme_note_circuit_data_packaged_def
      congestion_control_get_package_window_def)

text \<open>
  C8: However packaging and receiving interleave at the two ends of a circuit with fixed-window flow control, the
  circuit is never closed and no assertion fails, the package windows stay between 0 and 1000 and the
  deliver windows between 901 and 1000, and in each direction the package window, the DATA cells under way,
  the cells delivered but not yet acknowledged and a hundred for every SENDME under way add up to 1000.
  Both ends may accept version 0 or only version 1, as long as they emit what the other accepts.
\<close>

theorem sendme_window_conservation:
  assumes "reachable accept emit dig_a dig_b s0 t" "initial s0" "versions_ok accept emit"
    and "\<And>n. length (dig_a n) = 20" "\<And>n. length (dig_b n) = 20"
  shows "gives t (\<lambda>s.
      0 \<le> pw (end_a s) \<and> pw (end_a s) \<le> 1000 \<and> 900 < get_deliver_window (end_a s) \<and> get_deliver_window (end_a s) \<le> 1000
    \<and> 0 \<le> pw (end_b s) \<and> pw (end_b s) \<le> 1000 \<and> 900 < get_deliver_window (end_b s) \<and> get_deliver_window (end_b s) \<le> 1000
    \<and> pw (end_a s) + int (length (data_digests (snd (net_a s)))) + (1000 - get_deliver_window (end_b s))
        + 100 * int (length (sendme_payloads (snd (net_b s)))) = 1000
    \<and> pw (end_b s) + int (length (data_digests (snd (net_b s)))) + (1000 - get_deliver_window (end_a s))
        + 100 * int (length (sendme_payloads (snd (net_a s)))) = 1000)"
  using reachable_ok [OF assms] by (rule gives_mono) (auto simp: sys_ok_def dest: flow_window flow_conserve)

theorem sendme_window_conservation_witness:
  "gives (packages (\<lambda>n. replicate 20 7) sample_system) (\<lambda>s. pw (end_a s) + int (length (data_digests (snd (net_a s))))
     + (1000 - get_deliver_window (end_b s)) + 100 * int (length (sendme_payloads (snd (net_b s)))) = 1000)"
  by (rule gives_mono [OF sendme_window_conservation [OF sample_step sample_initial]]) (simp_all add: versions_ok_def)

text \<open>
  C9: The flow control never gets stuck: from every state that the two ends can reach, handling the cells that are
  under way leads to a state where nothing is under way and both ends may package at least
  901 more DATA cells.
\<close>

theorem sendme_no_deadlock:
  assumes "reachable accept emit dig_a dig_b s0 (Some s)" "initial s0" "versions_ok accept emit"
    and "\<And>n. length (dig_a n) = 20" "\<And>n. length (dig_b n) = 20"
  shows "\<exists>t. reachable accept emit dig_a dig_b s (Some t) \<and> snd (net_a t) = [] \<and> snd (net_b t) = []
    \<and> 901 \<le> congestion_control_get_package_window (fst (end_a t)) (snd (end_a t))
    \<and> 901 \<le> congestion_control_get_package_window (fst (end_b t)) (snd (end_b t))"
proof -
  have "sys_ok emit s" using reachable_ok [OF assms] by (simp add: gives_def)
  then obtain t where t: "reachable accept emit dig_a dig_b s (Some t)" "sys_ok emit t"
    "snd (net_a t) = []" "snd (net_b t) = []"
    using can_drain [OF assms(1) _ assms(3-5)] by blast
  have f: "flow emit (pw (end_a t)) (lastd (end_a t)) (get_deliver_window (end_b t)) [] []"
    "flow emit (pw (end_b t)) (lastd (end_b t)) (get_deliver_window (end_a t)) [] []"
    using t(2-4) by (simp_all add: sys_ok_def)
  have "901 \<le> pw (end_a t)" "901 \<le> pw (end_b t)"
    using flow_conserve [OF f(1)] flow_window [OF f(1)] flow_conserve [OF f(2)] flow_window [OF f(2)] by simp_all
  then show ?thesis using t by (auto simp: package_window_pw sys_ok_def)
qed

theorem sendme_no_deadlock_witness:
  "\<exists>s t. packages (\<lambda>n. replicate 20 7) sample_system = Some s
    \<and> reachable 1 1 (\<lambda>n. replicate 20 7) (\<lambda>n. replicate 20 8) s (Some t)
    \<and> 901 \<le> congestion_control_get_package_window (fst (end_a t)) (snd (end_a t))"
proof -
  obtain s where s: "packages (\<lambda>n. replicate 20 7) sample_system = Some s" using sample_package by blast
  show ?thesis
    using sendme_no_deadlock [OF sample_step [unfolded s] sample_initial] s by (auto simp: versions_ok_def)
qed

lemma ntohs_20: "ntohs (b0 # b1 # bs) = 20 \<longleftrightarrow> b0 = 0 \<and> b1 = 20"
proof -
  have "unat b0 < 256" "unat b1 < 256" using unsigned_less [of b0] unsigned_less [of b1] by simp_all
  then have "unat b0 * 256 + unat b1 = 20 \<longleftrightarrow> unat b0 = 0 \<and> unat b1 = 20" by arith
  then show ?thesis by (simp add: ntohs_def word_unat_eq_iff)
qed

text \<open>The payloads the parser takes.\<close>

definition v0_payload :: "bytes \<Rightarrow> bool" where
  "v0_payload p \<longleftrightarrow> p = [] \<or> 3 \<le> length p \<and> p ! 0 = 0 \<and> 3 + ntohs (drop 1 p) \<le> length p"

definition v1_payload :: "bytes \<Rightarrow> bool" where
  "v1_payload p \<longleftrightarrow> 23 \<le> length p \<and> take 3 p = [1, 0, 20]"

lemma payloads_exclusive: "v1_payload p \<Longrightarrow> \<not> v0_payload p"
  by (cases p) (auto simp: v1_payload_def v0_payload_def)

lemma parse_v1:
  assumes "v1_payload p"
  shows "sendme_cell_parse p = Inr (\<lparr>sc_version = 1, sc_data_len = 20, sc_data_v1_digest = take 20 (drop 3 p)\<rparr>, 23)"
proof -
  obtain q where "p = 1 # 0 # 20 # q" "20 \<le> length q"
    using assms by (cases p; cases "tl p"; cases "tl (tl p)") (auto simp: v1_payload_def)
  then show ?thesis
    by (simp add: sendme_cell_parse_def TRUNNEL_SENDME_V1_DIGEST_LEN_def ntohs_def Let_def)
qed

lemma parse_v0:
  assumes "v0_payload p" "p \<noteq> []"
  shows "\<exists>c used. sendme_cell_parse p = Inr (c, used) \<and> sc_version c = 0"
  using assms by (auto simp: sendme_cell_parse_def v0_payload_def Let_def)

lemma parse_other:
  assumes "\<not> v0_payload p" "\<not> v1_payload p"
  shows "\<exists>e. sendme_cell_parse p = Inl e"
proof -
  have "p \<noteq> []" using assms(1) by (auto simp: v0_payload_def)
  show ?thesis
  proof (cases "3 \<le> length p")
    case False
    then show ?thesis using \<open>p \<noteq> []\<close> by (auto simp: sendme_cell_parse_def Let_def)
  next
    case True
    then obtain b0 b1 b2 q where "p = b0 # b1 # b2 # q"
      by (cases p; cases "tl p"; cases "tl (tl p)") auto
    then show ?thesis using assms ntohs_20 [of b1 b2 q]
      by (auto simp: sendme_cell_parse_def v0_payload_def v1_payload_def TRUNNEL_SENDME_V1_DIGEST_LEN_def Let_def ntohs_def)
  qed
qed

lemma sendme_is_valid_iff:
  assumes "0 \<le> accept"
  shows "fst (sendme_is_valid accept circ p) \<longleftrightarrow>
      (case sendme_last_digests circ of Some (d # ds) \<Rightarrow>
         accept = 0 \<and> v0_payload p \<or> accept \<le> 1 \<and> v1_payload p \<and> take 20 (drop 3 p) = take 20 d
       | _ \<Rightarrow> False)"
    and "snd (sendme_is_valid accept circ p) \<in> {circ, snd (pop_first_cell_digest circ)}"
proof -
  consider "p = []" | "p \<noteq> []" "v0_payload p" | "v1_payload p" | "\<not> v0_payload p" "\<not> v1_payload p" by blast
  then have "(fst (sendme_is_valid accept circ p) \<longleftrightarrow>
      (case sendme_last_digests circ of Some (d # ds) \<Rightarrow>
         accept = 0 \<and> v0_payload p \<or> accept \<le> 1 \<and> v1_payload p \<and> take 20 (drop 3 p) = take 20 d
       | _ \<Rightarrow> False)) \<and> snd (sendme_is_valid accept circ p) \<in> {circ, snd (pop_first_cell_digest circ)}"
  proof cases
    case 1
    then show ?thesis using assms
      by (auto simp: sendme_is_valid_def v0_payload_def v1_payload_def cell_version_can_be_handled_def
          SENDME_MAX_SUPPORTED_VERSION_def pop_first_cell_digest_def split: option.splits list.splits)
  next
    case 2
    obtain c used where c: "sendme_cell_parse p = Inr (c, used)" "sc_version c = 0" using parse_v0 [OF 2(2,1)] by blast
    have "\<not> v1_payload p" using 2(2) payloads_exclusive by blast
    then show ?thesis using assms 2 c
      by (auto simp: sendme_is_valid_def cell_version_can_be_handled_def
          SENDME_MAX_SUPPORTED_VERSION_def pop_first_cell_digest_def split: option.splits list.splits)
  next
    case 3
    have "\<not> v0_payload p" "p \<noteq> []" using 3 payloads_exclusive by (auto simp: v1_payload_def)
    then show ?thesis using assms 3 parse_v1 [OF 3]
      by (auto simp: sendme_is_valid_def cell_version_can_be_handled_def cell_v1_is_valid_def v1_digest_matches_def
          memeq_def TRUNNEL_SENDME_V1_DIGEST_LEN_def
          SENDME_MAX_SUPPORTED_VERSION_def pop_first_cell_digest_def split: option.splits list.splits)
  next
    case 4
    obtain e where "sendme_cell_parse p = Inl e" using parse_other [OF 4] by blast
    then show ?thesis using assms 4
      by (auto simp: sendme_is_valid_def v0_payload_def split: option.splits list.splits)
  qed
  then show "fst (sendme_is_valid accept circ p) \<longleftrightarrow>
      (case sendme_last_digests circ of Some (d # ds) \<Rightarrow>
         accept = 0 \<and> v0_payload p \<or> accept \<le> 1 \<and> v1_payload p \<and> take 20 (drop 3 p) = take 20 d
       | _ \<Rightarrow> False)"
    and "snd (sendme_is_valid accept circ p) \<in> {circ, snd (pop_first_cell_digest circ)}" by blast+
qed

text \<open>
  C29: A circuit SENDME opens the window of a fixed-window circuit, by exactly 100 cells, if and only if there is a
  recorded digest, the window stays within 1000, and the payload is either a version 0 payload while the
  consensus still accepts version 0, or a version 1 payload of 20 bytes equal to the oldest recorded digest.
  Any other SENDME gives the error that closes the circuit, and leaves the window alone.
\<close>

theorem sendme_accepted_iff:
  assumes "ch_wf ch" "0 \<le> accept"
  shows "(fst (sendme_process_circuit_level accept dispatch ch p),
      pw (snd (sendme_process_circuit_level accept dispatch ch p))) =
    (if pw ch \<le> 900 \<and> lastd ch \<noteq> [] \<and>
        (accept = 0 \<and> v0_payload p \<or> accept \<le> 1 \<and> v1_payload p \<and> take 20 (drop 3 p) = take 20 (hd (lastd ch)))
     then (0, pw ch + 100) else (- END_CIRC_REASON_TORPROTOCOL, pw ch))"
proof -
  obtain circ hint where ch: "ch = (circ, hint)" by (cases ch)
  obtain ok circ' where v: "sendme_is_valid accept circ p = (ok, circ')" by (cases "sendme_is_valid accept circ p")
  have circ': "circ' \<in> {circ, snd (pop_first_cell_digest circ)}"
    using sendme_is_valid_iff(2) [OF assms(2), of circ p] v by simp
  then have same: "c_ccontrol circ' = c_ccontrol circ" "CIRCUIT_IS_ORIGIN circ' = CIRCUIT_IS_ORIGIN circ"
    "c_package_window circ' = c_package_window circ"
    by (auto simp: pop_first_cell_digest_def split: option.splits list.splits)
  have ok: "ok \<longleftrightarrow> lastd ch \<noteq> [] \<and>
      (accept = 0 \<and> v0_payload p \<or> accept \<le> 1 \<and> v1_payload p \<and> take 20 (drop 3 p) = take 20 (hd (lastd ch)))"
    using sendme_is_valid_iff(1) [OF assms(2), of circ p] v ch
    by (auto simp: lastd_def split: option.splits list.splits)
  show ?thesis using assms(1) ch same unfolding ok [symmetric]
    by (cases hint)
      (auto simp: sendme_process_circuit_level_def v sendme_process_circuit_level_impl_def pw_def ch_wf_def
        CIRCWINDOW_INCREMENT_def CIRCWINDOW_START_MAX_def)
qed

theorem sendme_accepted_iff_witness:
  "fst (sendme_process_circuit_level 1 (\<lambda>cc ch. (0, ch))
     (sample_relay\<lparr>c_package_window := 900, sendme_last_digests := Some [replicate 20 7]\<rparr>, None)
     ([1, 0, 20] @ replicate 20 7)) = 0"
proof -
  let ?ch = "(sample_relay\<lparr>c_package_window := 900, sendme_last_digests := Some [replicate 20 7]\<rparr>, None)"
  have "ch_wf ?ch" "pw ?ch = 900" "lastd ?ch = [replicate 20 7]"
    by (simp_all add: sample_relay_def endpoint_defs)
  then show ?thesis
    using sendme_accepted_iff [of ?ch 1 "\<lambda>cc ch. (0, ch)" "[1, 0, 20] @ replicate 20 7"]
    by (simp add: v1_payload_def)
qed

end
