(* ===== verification/Conflux.thy ===== *)
theory Conflux
  imports Pqueue Sendme "HOL-Library.Monad_Syntax"
begin

text \<open>
  Conflux: one stream of relay cells over several circuits (core/or/conflux.c, with
  conflux_util.c, conflux_cell.c and the parts of conflux_pool.c that add and remove legs).
  A circuit is a number, and so is a pointer to a leg (the circuit of the leg: a set has at most one leg
  per circuit); \<open>circs\<close> gives the contents of the circuits.  Sequence numbers and windows are 64-bit
  counters, with the wrap-around written out.  \<open>None\<close> is a failed assertion or a dangling
  pointer.  The logging and the checks that only log are left out.
\<close>

definition UINT64_MAX :: nat where "UINT64_MAX = 2 ^ 64 - 1"
definition UINT32_MAX :: nat where "UINT32_MAX = 2 ^ 32 - 1"
definition SIZEOF_CONFLUX_CELL :: nat where "SIZEOF_CONFLUX_CELL = 8 + 4 + 516"
definition SIZEOF_CELL :: nat where "SIZEOF_CELL = 516"

definition RELAY_COMMAND_BEGIN :: nat where "RELAY_COMMAND_BEGIN = 1"
definition RELAY_COMMAND_DATA :: nat where "RELAY_COMMAND_DATA = 2"
definition RELAY_COMMAND_END :: nat where "RELAY_COMMAND_END = 3"
definition RELAY_COMMAND_CONNECTED :: nat where "RELAY_COMMAND_CONNECTED = 4"
definition RELAY_COMMAND_RESOLVE :: nat where "RELAY_COMMAND_RESOLVE = 11"
definition RELAY_COMMAND_RESOLVED :: nat where "RELAY_COMMAND_RESOLVED = 12"
definition RELAY_COMMAND_XOFF :: nat where "RELAY_COMMAND_XOFF = 43"
definition RELAY_COMMAND_XON :: nat where "RELAY_COMMAND_XON = 44"

text \<open>Every other command, known or not, is not multiplexed.\<close>

definition conflux_should_multiplex :: "nat \<Rightarrow> bool" where
  "conflux_should_multiplex relay_command =
     (relay_command \<in> {RELAY_COMMAND_BEGIN, RELAY_COMMAND_DATA, RELAY_COMMAND_END, RELAY_COMMAND_CONNECTED,
        RELAY_COMMAND_RESOLVE, RELAY_COMMAND_RESOLVED, RELAY_COMMAND_XOFF, RELAY_COMMAND_XON})"

subsection \<open>State\<close>

text \<open>\<open>last_hop\<close> is \<open>cpath->prev\<close>: its address and its contents.\<close>

record cfx_circuit = circuit +
  marked_for_close :: bool
  circuit_blocked_on_n_chan :: bool
  circuit_blocked_on_p_chan :: bool
  has_n_chan :: bool
  last_hop :: "(nat \<times> crypt_path) option"

datatype conflux_alg = CONFLUX_ALG_MINRTT | CONFLUX_ALG_LOWRTT | CONFLUX_ALG_CWNDRTT

record conflux_leg =
  leg_circ :: nat
  last_seq_recv :: nat
  last_seq_sent :: nat
  circ_rtts_usec :: nat
  linked_sent_usec :: nat

text \<open>\<open>cell_addr\<close> is the address of the allocated object.\<close>

record 'c conflux_cell =
  cell_seq :: nat
  cell_addr :: nat
  cell_cell :: 'c

record 'c conflux =
  cfx_alg :: conflux_alg
  cfx_legs :: "conflux_leg list"
  ooo_q :: "'c conflux_cell pqueue"
  last_seq_delivered :: nat
  cells_until_switch :: nat
  curr_leg :: "nat option"
  prev_leg :: "nat option"
  in_full_teardown :: bool

text \<open>A set with what it shares: the circuits, the global count of queued bytes, the next free address.\<close>

record 'c cfx_state =
  the_cfx :: "'c conflux"
  circs :: "nat \<Rightarrow> cfx_circuit"
  total_ooo_q_bytes :: nat
  next_addr :: nat

definition conflux_get_leg :: "'c conflux \<Rightarrow> nat \<Rightarrow> conflux_leg option" where
  "conflux_get_leg cfx circ = find (\<lambda>leg. leg_circ leg = circ) (cfx_legs cfx)"

text \<open>Writing through a pointer to a leg.\<close>

definition update_leg :: "nat \<Rightarrow> (conflux_leg \<Rightarrow> conflux_leg) \<Rightarrow> 'c conflux \<Rightarrow> 'c conflux" where
  "update_leg circ f cfx = cfx\<lparr>cfx_legs := map (\<lambda>leg. if leg_circ leg = circ then f leg else leg) (cfx_legs cfx)\<rparr>"

definition conflux_get_max_seq_sent :: "'c conflux \<Rightarrow> nat" where
  "conflux_get_max_seq_sent cfx =
     foldl (\<lambda>max_seq_sent leg. if last_seq_sent leg > max_seq_sent then last_seq_sent leg else max_seq_sent) 0
       (cfx_legs cfx)"

definition conflux_get_max_seq_recv :: "'c conflux \<Rightarrow> nat" where
  "conflux_get_max_seq_recv cfx =
     foldl (\<lambda>max_seq_recv leg. if last_seq_recv leg > max_seq_recv then last_seq_recv leg else max_seq_recv) 0
       (cfx_legs cfx)"

definition conflux_get_circ_bytes_allocation :: "'c conflux option \<Rightarrow> nat" where
  "conflux_get_circ_bytes_allocation circ_conflux =
     (case circ_conflux of Some cfx \<Rightarrow> length (pq_list (ooo_q cfx)) * SIZEOF_CONFLUX_CELL | None \<Rightarrow> 0)"

definition circuit_ccontrol :: "cfx_circuit \<Rightarrow> congestion_control option" where
  "circuit_ccontrol circ =
     (if CIRCUIT_IS_ORIGIN circ then Option.bind (last_hop circ) (\<lambda>(addr, hop). cp_ccontrol hop)
      else c_ccontrol circ)"

definition circuit_mark_for_close :: "nat \<Rightarrow> (nat \<Rightarrow> cfx_circuit) \<Rightarrow> nat \<Rightarrow> cfx_circuit" where
  "circuit_mark_for_close circ cs = cs(circ := (cs circ)\<lparr>marked_for_close := True\<rparr>)"

subsection \<open>Deciding where to send\<close>

definition circuit_ready_to_send :: "cfx_circuit \<Rightarrow> bool option" where
  "circuit_ready_to_send circ =
     do {
       cc \<leftarrow> circuit_ccontrol circ;
       let cc_sendable = \<not> cc_inflight cc \<ge> cc_cwnd cc;
       Some (if CIRCUIT_IS_ORIGIN circ then cc_sendable \<and> \<not> circuit_blocked_on_n_chan circ
             else cc_sendable \<and> \<not> circuit_blocked_on_p_chan circ)
     }"

definition min_rtt_leg :: "conflux_leg list \<Rightarrow> nat \<times> nat option" where
  "min_rtt_leg legs =
     foldl (\<lambda>(min_rtt, circ) leg.
         if circ_rtts_usec leg \<noteq> 0 \<and> circ_rtts_usec leg < min_rtt then (circ_rtts_usec leg, Some (leg_circ leg))
         else (min_rtt, circ))
       (UINT64_MAX, None) legs"

text \<open>The circuit if it can send.\<close>

definition if_ready :: "(nat \<Rightarrow> cfx_circuit) \<Rightarrow> nat option \<Rightarrow> nat option option" where
  "if_ready cs circ =
     (case circ of
        None \<Rightarrow> Some None
      | Some c \<Rightarrow> do { ready \<leftarrow> circuit_ready_to_send (cs c); Some (if ready then Some c else None) })"

definition conflux_decide_circ_minrtt :: "(nat \<Rightarrow> cfx_circuit) \<Rightarrow> 'c conflux \<Rightarrow> nat option option" where
  "conflux_decide_circ_minrtt cs cfx =
     (if length (cfx_legs cfx) = 0 then None else if_ready cs (snd (min_rtt_leg (cfx_legs cfx))))"

fun lowrtt_loop :: "(nat \<Rightarrow> cfx_circuit) \<Rightarrow> nat \<Rightarrow> nat option \<Rightarrow> conflux_leg list \<Rightarrow> nat option option" where
  "lowrtt_loop cs low_rtt circ [] = Some circ"
| "lowrtt_loop cs low_rtt circ (leg # legs) =
     do {
       ready \<leftarrow> circuit_ready_to_send (cs (leg_circ leg));
       if \<not> ready then lowrtt_loop cs low_rtt circ legs
       else if circ_rtts_usec leg \<noteq> 0 \<and> circ_rtts_usec leg < low_rtt
       then lowrtt_loop cs (circ_rtts_usec leg) (Some (leg_circ leg)) legs
       else lowrtt_loop cs low_rtt circ legs
     }"

definition conflux_decide_circ_lowrtt :: "(nat \<Rightarrow> cfx_circuit) \<Rightarrow> 'c conflux \<Rightarrow> nat option option" where
  "conflux_decide_circ_lowrtt cs cfx =
     (if length (cfx_legs cfx) = 0 then None else lowrtt_loop cs UINT64_MAX None (cfx_legs cfx))"

definition cwnd_available :: "cfx_circuit \<Rightarrow> nat option" where
  "cwnd_available on_circ =
     do {
       cc \<leftarrow> circuit_ccontrol on_circ;
       Some (if cc_cwnd cc < cc_inflight cc then 0 else cc_cwnd cc - cc_inflight cc)
     }"

definition cwnd_sendable :: "cfx_circuit \<Rightarrow> nat \<Rightarrow> nat \<Rightarrow> nat option" where
  "cwnd_sendable on_circ in_usec our_usec =
     do {
       cc \<leftarrow> circuit_ccontrol on_circ;
       cwnd_adjusted \<leftarrow> cwnd_available on_circ;
       Some (if our_usec = 0 \<or> in_usec = 0 then cwnd_adjusted
             else if cc_in_slow_start cc then cwnd_adjusted
             else min (cc_cwnd cc) ((cwnd_adjusted * in_usec mod 2 ^ 64) div our_usec))
     }"

fun cwndrtt_loop :: "(nat \<Rightarrow> cfx_circuit) \<Rightarrow> nat \<Rightarrow> nat option \<Rightarrow> conflux_leg list \<Rightarrow> nat option option" where
  "cwndrtt_loop cs min_rtt circ [] = Some circ"
| "cwndrtt_loop cs min_rtt circ (leg # legs) =
     do {
       ready \<leftarrow> circuit_ready_to_send (cs (leg_circ leg));
       if \<not> ready then cwndrtt_loop cs min_rtt circ legs
       else if circ_rtts_usec leg \<noteq> 0 then
         do {
           sendable \<leftarrow> cwnd_sendable (cs (leg_circ leg)) min_rtt (circ_rtts_usec leg);
           cwndrtt_loop cs min_rtt (if sendable > 0 then Some (leg_circ leg) else circ) legs
         }
       else cwndrtt_loop cs min_rtt circ legs
     }"

text \<open>The assertion at its start is the code's: it holds when there are no legs.\<close>

definition conflux_decide_circ_cwndrtt :: "(nat \<Rightarrow> cfx_circuit) \<Rightarrow> 'c conflux \<Rightarrow> nat option option" where
  "conflux_decide_circ_cwndrtt cs cfx =
     (if \<not> (length (cfx_legs cfx) = 0) then None
      else
        let (min_rtt, leg) = min_rtt_leg (cfx_legs cfx) in
        do {
          first \<leftarrow> if_ready cs leg;
          case first of
            Some c \<Rightarrow> Some (Some c)
          | None \<Rightarrow> do { leg \<leftarrow> cwndrtt_loop cs min_rtt None (cfx_legs cfx); if_ready cs leg }
        })"

definition conflux_can_switch :: "nat \<Rightarrow> (nat \<Rightarrow> cfx_circuit) \<Rightarrow> 'c conflux \<Rightarrow> bool option" where
  "conflux_can_switch drain_pct cs cfx =
     (if cells_until_switch cfx > 0 then
        (case prev_leg cfx of
           None \<Rightarrow> Some False
         | Some prev \<Rightarrow>
             do {
               leg \<leftarrow> conflux_get_leg cfx prev;
               cc \<leftarrow> circuit_ccontrol (cs (leg_circ leg));
               Some (cc_inflight cc < cc_sendme_inc cc
                 \<or> 100 * cc_inflight cc mod 2 ^ 64 \<le> drain_pct * cc_cwnd cc mod 2 ^ 64)
             })
      else Some True)"

definition conflux_pick_first_leg :: "'c conflux \<Rightarrow> bool \<times> 'c conflux" where
  "conflux_pick_first_leg cfx =
     (let min_leg = foldl (\<lambda>min_leg leg.
              if circ_rtts_usec leg > 0 then
                (case min_leg of
                   None \<Rightarrow> Some leg
                 | Some m \<Rightarrow> if circ_rtts_usec leg < circ_rtts_usec m then Some leg else Some m)
              else min_leg) None (cfx_legs cfx) in
      case min_leg of
        Some leg \<Rightarrow> (True, cfx\<lparr>cells_until_switch := 0, curr_leg := Some (leg_circ leg)\<rparr>)
      | None \<Rightarrow>
          (case cfx_legs cfx of
             [] \<Rightarrow> (False, cfx)
           | leg # legs \<Rightarrow> (True, cfx\<lparr>cells_until_switch := 0, curr_leg := Some (leg_circ leg)\<rparr>)))"

definition decide_by_alg :: "(nat \<Rightarrow> cfx_circuit) \<Rightarrow> 'c conflux \<Rightarrow> nat option option" where
  "decide_by_alg cs cfx =
     (case cfx_alg cfx of
        CONFLUX_ALG_MINRTT \<Rightarrow> conflux_decide_circ_minrtt cs cfx
      | CONFLUX_ALG_LOWRTT \<Rightarrow> conflux_decide_circ_lowrtt cs cfx
      | CONFLUX_ALG_CWNDRTT \<Rightarrow> conflux_decide_circ_cwndrtt cs cfx)"

definition conflux_decide_next_circ ::
  "nat \<Rightarrow> (nat \<Rightarrow> cfx_circuit) \<Rightarrow> 'c conflux \<Rightarrow> (nat option \<times> 'c conflux) option" where
  "conflux_decide_next_circ drain_pct cs cfx =
     (if in_full_teardown cfx then Some (None, cfx)
      else
        case (case curr_leg cfx of None \<Rightarrow> conflux_pick_first_leg cfx | Some c \<Rightarrow> (True, cfx)) of
          (False, cfx) \<Rightarrow> Some (None, cfx)
        | (True, cfx) \<Rightarrow>
            do {
              can_switch \<leftarrow> conflux_can_switch drain_pct cs cfx;
              if \<not> can_switch then
                do {
                  p \<leftarrow> curr_leg cfx;
                  leg \<leftarrow> conflux_get_leg cfx p;
                  circ \<leftarrow> if_ready cs (Some (leg_circ leg));
                  Some (circ, cfx)
                }
              else do { circ \<leftarrow> decide_by_alg cs cfx; Some (circ, cfx) }
            })"

subsection \<open>The SWITCH cell\<close>

definition htonl :: "nat \<Rightarrow> bytes" where
  "htonl n = [of_nat (n div 2 ^ 24), of_nat (n div 2 ^ 16), of_nat (n div 2 ^ 8), of_nat n]"

definition ntohl :: "bytes \<Rightarrow> nat" where
  "ntohl b = unat (b ! 0) * 2 ^ 24 + unat (b ! 1) * 2 ^ 16 + unat (b ! 2) * 2 ^ 8 + unat (b ! 3)"

text \<open>The payload of the cell, of full length; \<open>None\<close> when the number does not fit.\<close>

definition conflux_send_switch_command :: "nat \<Rightarrow> bytes option" where
  "conflux_send_switch_command relative_seq =
     (if relative_seq \<ge> UINT32_MAX then None
      else Some (htonl relative_seq @ replicate (RELAY_PAYLOAD_SIZE - 4) 0))"

definition conflux_cell_parse_switch :: "bytes \<Rightarrow> nat \<Rightarrow> nat" where
  "conflux_cell_parse_switch payload rh_len = (if rh_len < 4 then 0 else ntohl payload)"

subsection \<open>Sending\<close>

text \<open>\<open>conflux_mark_all_for_close\<close> (conflux_pool.c), up to what closing a circuit does elsewhere.\<close>

definition conflux_mark_all_for_close :: "'c cfx_state \<Rightarrow> 'c cfx_state" where
  "conflux_mark_all_for_close st =
     (if in_full_teardown (the_cfx st) then st
      else st\<lparr>the_cfx := (the_cfx st)\<lparr>in_full_teardown := True\<rparr>,
              circs := foldl (\<lambda>cs leg. circuit_mark_for_close (leg_circ leg) cs) (circs st) (cfx_legs (the_cfx st))\<rparr>)"

text \<open>The circuit to send on, and the payload of a SWITCH cell to send on it before.\<close>

definition conflux_decide_circ_for_send ::
  "nat \<Rightarrow> 'c cfx_state \<Rightarrow> nat \<Rightarrow> nat \<Rightarrow> (nat option \<times> bytes option \<times> 'c cfx_state) option" where
  "conflux_decide_circ_for_send drain_pct st orig_circ relay_command =
     (if \<not> conflux_should_multiplex relay_command then Some (Some orig_circ, None, st)
      else do {
        (new_circ, cfx) \<leftarrow> conflux_decide_next_circ drain_pct (circs st) (the_cfx st);
        let st = st\<lparr>the_cfx := cfx\<rparr>;
        case new_circ of
          None \<Rightarrow>
            if relay_command \<noteq> RELAY_COMMAND_DATA then
              (case curr_leg cfx of
                 None \<Rightarrow> Some (None, None, st)
               | Some p \<Rightarrow> do { leg \<leftarrow> conflux_get_leg cfx p; Some (Some (leg_circ leg), None, st) })
            else Some (None, None, st)
        | Some c \<Rightarrow>
            do {
              p \<leftarrow> curr_leg cfx;
              old_leg \<leftarrow> conflux_get_leg cfx p;
              if c = leg_circ old_leg then Some (Some c, None, st)
              else do {
                new_leg \<leftarrow> conflux_get_leg cfx c;
                let cfx = cfx\<lparr>cells_until_switch := 0, prev_leg := Some p, curr_leg := Some c\<rparr>;
                let st = st\<lparr>the_cfx := cfx\<rparr>;
                let relative_seq = nat ((int (last_seq_sent old_leg) - int (last_seq_sent new_leg)) mod 2 ^ 64);
                if last_seq_sent new_leg > last_seq_sent old_leg then Some (None, None, conflux_mark_all_for_close st)
                else case conflux_send_switch_command relative_seq of
                  None \<Rightarrow> Some (None, None, conflux_mark_all_for_close st)
                | Some payload \<Rightarrow>
                    Some (Some c, Some payload,
                      st\<lparr>the_cfx := update_leg c (\<lambda>leg. leg\<lparr>last_seq_sent := last_seq_sent old_leg\<rparr>) cfx\<rparr>)
              }
            }
      })"

definition conflux_note_cell_sent :: "'c conflux \<Rightarrow> nat \<Rightarrow> nat \<Rightarrow> 'c conflux" where
  "conflux_note_cell_sent cfx circ relay_command =
     (if \<not> conflux_should_multiplex relay_command then cfx
      else case conflux_get_leg cfx circ of
        None \<Rightarrow> cfx
      | Some leg \<Rightarrow>
          let cfx = update_leg circ (\<lambda>leg. leg\<lparr>last_seq_sent := (last_seq_sent leg + 1) mod 2 ^ 64\<rparr>) cfx in
          if cells_until_switch cfx > 0 then cfx\<lparr>cells_until_switch := cells_until_switch cfx - 1\<rparr> else cfx)"

definition conflux_update_rtt :: "'c conflux \<Rightarrow> nat \<Rightarrow> nat \<Rightarrow> 'c conflux" where
  "conflux_update_rtt cfx circ rtt_usec =
     (case conflux_get_leg cfx circ of
        None \<Rightarrow> cfx
      | Some leg \<Rightarrow> update_leg circ (\<lambda>leg. leg\<lparr>circ_rtts_usec := rtt_usec\<rparr>) cfx)"

subsection \<open>Receiving\<close>

definition conflux_queue_cmp :: "'c conflux_cell \<Rightarrow> 'c conflux_cell \<Rightarrow> int" where
  "conflux_queue_cmp cell_a cell_b =
     (if cell_seq cell_a < cell_seq cell_b then - 1 else if cell_seq cell_a > cell_seq cell_b then 1 else 0)"

interpretation conflux_pq: pqueue_order conflux_queue_cmp
  by unfold_locales (auto simp: conflux_queue_cmp_def split: if_splits)

definition conflux_get_destination_hop :: "cfx_circuit \<Rightarrow> nat option" where
  "conflux_get_destination_hop circ = (if CIRCUIT_IS_ORIGIN circ then map_option fst (last_hop circ) else None)"

definition conflux_validate_source_hop :: "cfx_circuit \<Rightarrow> nat option \<Rightarrow> bool" where
  "conflux_validate_source_hop in_circ layer_hint =
     (if conflux_get_destination_hop in_circ \<noteq> layer_hint then False
      else if layer_hint = None then \<not> has_n_chan in_circ
      else True)"

text \<open>\<open>cc_enabled\<close>, \<open>enabled_option\<close> and \<open>consensus_enabled\<close> are the settings it looks at.\<close>

definition conflux_is_enabled :: "bool \<Rightarrow> int \<Rightarrow> bool \<Rightarrow> cfx_circuit option \<Rightarrow> bool" where
  "conflux_is_enabled cc_enabled enabled_option consensus_enabled circ =
     (if \<not> cc_enabled then False
      else if (case circ of Some c \<Rightarrow> circuit_ccontrol c = None | None \<Rightarrow> False) then False
      else if enabled_option \<noteq> - 1 then enabled_option \<noteq> 0
      else consensus_enabled)"

definition close_circ :: "nat \<Rightarrow> 'c cfx_state \<Rightarrow> 'c cfx_state" where
  "close_circ c st = st\<lparr>circs := circuit_mark_for_close c (circs st)\<rparr>"

definition conflux_process_switch_command ::
  "bool \<Rightarrow> 'c cfx_state \<Rightarrow> nat \<Rightarrow> nat option \<Rightarrow> bytes \<Rightarrow> nat \<Rightarrow> int \<times> 'c cfx_state" where
  "conflux_process_switch_command enabled st in_circ layer_hint payload rh_len =
     (if \<not> enabled then (- 1, close_circ in_circ st)
      else case conflux_get_leg (the_cfx st) in_circ of
        None \<Rightarrow> (- 1, close_circ in_circ st)
      | Some leg \<Rightarrow>
          if \<not> conflux_validate_source_hop (circs st in_circ) layer_hint then (- 1, close_circ in_circ st)
          else
            let relative_seq = conflux_cell_parse_switch payload rh_len in
            (0, st\<lparr>the_cfx := update_leg in_circ
                     (\<lambda>leg. leg\<lparr>last_seq_recv := (last_seq_recv leg + relative_seq) mod 2 ^ 64\<rparr>) (the_cfx st)\<rparr>))"

definition conflux_process_cell ::
  "nat \<Rightarrow> 'c cfx_state \<Rightarrow> nat \<Rightarrow> nat option \<Rightarrow> 'c \<Rightarrow> bool \<times> 'c cfx_state" where
  "conflux_process_cell max_oooq st in_circ layer_hint cell =
     (case conflux_get_leg (the_cfx st) in_circ of
        None \<Rightarrow> (False, close_circ in_circ st)
      | Some leg \<Rightarrow>
          if \<not> conflux_validate_source_hop (circs st in_circ) layer_hint then (False, close_circ in_circ st)
          else
            let seq = (last_seq_recv leg + 1) mod 2 ^ 64;
                cfx = update_leg in_circ (\<lambda>leg. leg\<lparr>last_seq_recv := (last_seq_recv leg + 1) mod 2 ^ 64\<rparr>) (the_cfx st);
                st = st\<lparr>the_cfx := cfx\<rparr> in
            if seq = (last_seq_delivered cfx + 1) mod 2 ^ 64 then
              (True, st\<lparr>the_cfx := cfx\<lparr>last_seq_delivered := (last_seq_delivered cfx + 1) mod 2 ^ 64\<rparr>\<rparr>)
            else if seq \<le> last_seq_delivered cfx then (False, close_circ in_circ st)
            else
              let n_bytes_in_q = length (pq_list (ooo_q cfx)) * SIZEOF_CONFLUX_CELL mod 2 ^ 32 in
              if n_bytes_in_q \<ge> max_oooq then (False, close_circ in_circ st)
              else
                let c_cell = \<lparr>cell_seq = seq, cell_addr = next_addr st, cell_cell = cell\<rparr> in
                (False, st\<lparr>the_cfx := cfx\<lparr>ooo_q := smartlist_pqueue_add conflux_queue_cmp (ooo_q cfx) c_cell\<rparr>,
                           total_ooo_q_bytes := (total_ooo_q_bytes st + SIZEOF_CELL) mod 2 ^ 64,
                           next_addr := next_addr st + 1\<rparr>))"

definition conflux_dequeue_cell :: "'c cfx_state \<Rightarrow> nat \<Rightarrow> ('c conflux_cell option \<times> 'c cfx_state) option" where
  "conflux_dequeue_cell st circ =
     (if marked_for_close (circs st circ) then Some (None, st)
      else
        let cfx = the_cfx st in
        case pq_list (ooo_q cfx) of
          [] \<Rightarrow> Some (None, st)
        | top_cell # rest \<Rightarrow>
            if cell_seq top_cell = (last_seq_delivered cfx + 1) mod 2 ^ 64 then
              do {
                (x, q) \<leftarrow> smartlist_pqueue_pop conflux_queue_cmp (ooo_q cfx);
                Some (Some top_cell,
                  st\<lparr>the_cfx := cfx\<lparr>ooo_q := q, last_seq_delivered := (last_seq_delivered cfx + 1) mod 2 ^ 64\<rparr>,
                     total_ooo_q_bytes := nat ((int (total_ooo_q_bytes st) - int SIZEOF_CELL) mod 2 ^ 64)\<rparr>)
              }
            else Some (None, st))"

text \<open>
  The receiving side of \<open>connection_edge_process_relay_cell\<close> (relay.c) for a multiplexed cell: the cells
  handed to the streams, in order.  Each dequeued cell shortens the queue, so its length is enough fuel.
  What handing over a cell does is not modelled.
\<close>

fun dequeue_loop :: "nat \<Rightarrow> 'c cfx_state \<Rightarrow> nat \<Rightarrow> ('c list \<times> 'c cfx_state) option" where
  "dequeue_loop 0 st circ = None"
| "dequeue_loop (Suc fuel) st circ =
     do {
       (c_cell, st) \<leftarrow> conflux_dequeue_cell st circ;
       case c_cell of
         None \<Rightarrow> Some ([], st)
       | Some c \<Rightarrow> do { (cells, st) \<leftarrow> dequeue_loop fuel st circ; Some (cell_cell c # cells, st) }
     }"

definition process_multiplexed ::
  "nat \<Rightarrow> 'c cfx_state \<Rightarrow> nat \<Rightarrow> nat option \<Rightarrow> 'c \<Rightarrow> ('c list \<times> 'c cfx_state) option" where
  "process_multiplexed max_oooq st in_circ layer_hint cell =
     (case conflux_process_cell max_oooq st in_circ layer_hint cell of
        (False, st) \<Rightarrow> Some ([], st)
      | (True, st) \<Rightarrow>
          do {
            (cells, st) \<leftarrow> dequeue_loop (length (pq_list (ooo_q (the_cfx st))) + 1) st in_circ;
            Some (cell # cells, st)
          })"

subsection \<open>Legs and windows\<close>

datatype conflux_ux = CONFLUX_UX_NO_OPINION | CONFLUX_UX_MIN_LATENCY | CONFLUX_UX_LOW_MEM_LATENCY
  | CONFLUX_UX_HIGH_THROUGHPUT | CONFLUX_UX_LOW_MEM_THROUGHPUT | CONFLUX_UX_OTHER nat

fun conflux_choose_algorithm :: "conflux_ux \<Rightarrow> conflux_alg" where
  "conflux_choose_algorithm CONFLUX_UX_NO_OPINION = CONFLUX_ALG_LOWRTT"
| "conflux_choose_algorithm CONFLUX_UX_MIN_LATENCY = CONFLUX_ALG_MINRTT"
| "conflux_choose_algorithm CONFLUX_UX_HIGH_THROUGHPUT = CONFLUX_ALG_LOWRTT"
| "conflux_choose_algorithm CONFLUX_UX_LOW_MEM_THROUGHPUT = CONFLUX_ALG_MINRTT"
| "conflux_choose_algorithm CONFLUX_UX_LOW_MEM_LATENCY = CONFLUX_ALG_MINRTT"
| "conflux_choose_algorithm (CONFLUX_UX_OTHER u) = CONFLUX_ALG_LOWRTT"

text \<open>Whether the whole set has to be torn down, and the set.\<close>

definition cfx_del_leg :: "(nat \<Rightarrow> cfx_circuit) \<Rightarrow> 'c conflux \<Rightarrow> nat \<Rightarrow> (bool \<times> 'c conflux) option" where
  "cfx_del_leg cs cfx circ =
     (case conflux_get_leg cfx circ of
        None \<Rightarrow> Some (False, cfx)
      | Some leg \<Rightarrow>
          do {
            cc \<leftarrow> circuit_ccontrol (cs circ);
            if cc_sendme_inc cc = 0 then None
            else
              let in_flight = cc_inflight cc \<ge> cc_sendme_inc cc;
                  cfx = cfx\<lparr>cfx_legs := smartlist_remove (cfx_legs cfx) (Some leg)\<rparr>;
                  ahead = (length (cfx_legs cfx) > 0
                    \<and> (conflux_get_max_seq_sent cfx < last_seq_sent leg
                       \<or> conflux_get_max_seq_recv cfx < last_seq_recv leg));
                  was_curr = (curr_leg cfx = Some circ);
                  cfx = (if was_curr then cfx\<lparr>curr_leg := None\<rparr> else cfx);
                  cfx = (if prev_leg cfx = Some circ then cfx\<lparr>prev_leg := None\<rparr> else cfx)
              in Some (in_flight \<or> ahead \<or> was_curr, cfx)
          })"

definition conflux_can_send :: "nat \<Rightarrow> (nat \<Rightarrow> cfx_circuit) \<Rightarrow> 'c conflux \<Rightarrow> (bool \<times> 'c conflux) option" where
  "conflux_can_send drain_pct cs cfx =
     do {
       (send_circ, cfx) \<leftarrow> conflux_decide_next_circ drain_pct cs cfx;
       Some (send_circ \<noteq> None, cfx)
     }"

text \<open>For a circuit with a set.\<close>

definition circuit_get_package_window ::
  "nat \<Rightarrow> (nat \<Rightarrow> cfx_circuit) \<Rightarrow> 'c conflux \<Rightarrow> nat \<Rightarrow> (int \<times> 'c conflux) option" where
  "circuit_get_package_window drain_pct cs cfx circ =
     (if marked_for_close (cs circ) then Some (0, cfx)
      else if in_full_teardown cfx then Some (0, cfx)
      else do {
        (c, cfx) \<leftarrow> conflux_decide_next_circ drain_pct cs cfx;
        case c of
          None \<Rightarrow> Some (0, cfx)
        | Some c \<Rightarrow>
            Some (congestion_control_get_package_window (circuit.truncate (cs c))
              (if CIRCUIT_IS_ORIGIN (cs c) then map_option snd (last_hop (cs c)) else None), cfx)
      })"

subsection \<open>Byte order\<close>

lemma unat_byte: "unat (of_nat n :: byte) = n mod 256"
  by (simp add: unat_of_nat take_bit_eq_mod)

lemma ntohl_htonl:
  assumes "n < 2 ^ 32"
  shows "ntohl (htonl n @ xs) = n"
proof -
  define a b c where "a = n div 256" and "b = a div 256" and "c = b div 256"
  have d: "n div 2 ^ 8 = a" "n div 2 ^ 16 = b" "n div 2 ^ 24 = c"
    by (simp_all add: a_def b_def c_def div_mult2_eq [symmetric])
  have "c < 256" using assms by (simp add: d(3) [symmetric] less_mult_imp_div_less)
  then have "c mod 256 = c" by simp
  moreover have "n = a * 256 + n mod 256" "a = b * 256 + a mod 256" "b = c * 256 + b mod 256"
    by (simp_all add: a_def b_def c_def)
  ultimately show ?thesis unfolding ntohl_def htonl_def d by (simp add: unat_byte)
qed

end
