(* ===== verification/Conflux_Protocol.thy ===== *)
theory Conflux_Protocol
  imports Conflux "HOL-Library.Sublist"
begin

text \<open>
  The two ends of a conflux set: a sender that spreads multiplexed cells over the legs as
  conflux.c decides, one FIFO per leg, and a receiver that puts the cells back in order.  The steps leave
  the scheduling, the round-trip times, the windows and the closing of circuits to the environment.
\<close>

subsection \<open>The out-of-order queue\<close>

definition queue :: "'c cfx_state \<Rightarrow> 'c conflux_cell pqueue" where
  "queue st = ooo_q (the_cfx st)"

definition delivered_to :: "'c cfx_state \<Rightarrow> nat" where
  "delivered_to st = last_seq_delivered (the_cfx st)"

text \<open>The queued cells with their sequence numbers.\<close>

definition queued :: "'c cfx_state \<Rightarrow> (nat \<times> 'c) multiset" where
  "queued st = mset (map (\<lambda>c. (cell_seq c, cell_cell c)) (pq_list (queue st)))"

definition queue_ok :: "'c cfx_state \<Rightarrow> bool" where
  "queue_ok st \<longleftrightarrow> pqueue_ok conflux_queue_cmp (queue st) \<and> length (pq_list (queue st)) \<le> INT_MAX"

text \<open>The next cell is not waiting at the top of the queue.\<close>

definition drained :: "'c cfx_state \<Rightarrow> bool" where
  "drained st \<longleftrightarrow> (case pq_list (queue st) of [] \<Rightarrow> True | c # cs \<Rightarrow> cell_seq c \<noteq> (delivered_to st + 1) mod 2 ^ 64)"

definition same_legs :: "'c cfx_state \<Rightarrow> 'c cfx_state \<Rightarrow> bool" where
  "same_legs st st' \<longleftrightarrow> cfx_legs (the_cfx st') = cfx_legs (the_cfx st) \<and> circs st' = circs st"

lemma dequeue_cell:
  assumes "queue_ok st" "\<not> marked_for_close (circs st circ)"
  shows "(drained st \<and> conflux_dequeue_cell st circ = Some (None, st)) \<or>
    (\<exists>c st'. conflux_dequeue_cell st circ = Some (Some c, st') \<and> cell_seq c = (delivered_to st + 1) mod 2 ^ 64
       \<and> delivered_to st' = (delivered_to st + 1) mod 2 ^ 64 \<and> queued st = add_mset (cell_seq c, cell_cell c) (queued st')
       \<and> queue_ok st' \<and> same_legs st st')"
proof (cases "drained st")
  case True
  then show ?thesis using assms(2)
    by (cases "pq_list (queue st)") (auto simp: drained_def conflux_dequeue_cell_def Let_def queue_def delivered_to_def)
next
  case False
  then obtain c cs where l: "pq_list (queue st) = c # cs" "cell_seq c = (delivered_to st + 1) mod 2 ^ 64"
    by (auto simp: drained_def split: list.splits)
  obtain q' where q: "smartlist_pqueue_pop conflux_queue_cmp (queue st) = Some (c, q')" "pqueue_ok conflux_queue_cmp q'"
    "add_mset c (mset (pq_list q')) = mset (pq_list (queue st))"
    using conflux_pq.pop_ok [of "queue st"] assms(1) l(1) by (auto simp: queue_ok_def)
  have len: "length (pq_list q') < length (pq_list (queue st))"
    using arg_cong [OF q(3), of size] by simp
  have "queued st = image_mset (\<lambda>c. (cell_seq c, cell_cell c)) (add_mset c (mset (pq_list q')))"
    by (simp add: queued_def q(3))
  then show ?thesis using assms l q len
    by (intro disjI2 exI)
      (auto simp: conflux_dequeue_cell_def Let_def queue_def delivered_to_def queued_def queue_ok_def same_legs_def)
qed

lemma dequeue_loop_total:
  assumes "queue_ok st" "size (queued st) < fuel"
  shows "\<exists>cells st'. dequeue_loop fuel st circ = Some (cells, st') \<and> queue_ok st' \<and> same_legs st st'"
  using assms
proof (induction fuel arbitrary: st)
  case (Suc fuel)
  show ?case
  proof (cases "marked_for_close (circs st circ)")
    case True
    then show ?thesis using Suc.prems by (simp add: conflux_dequeue_cell_def same_legs_def)
  next
    case False
    show ?thesis using dequeue_cell [OF Suc.prems(1) False]
    proof (elim disjE exE conjE)
      assume "conflux_dequeue_cell st circ = Some (None, st)"
      then show ?thesis using Suc.prems by (simp add: same_legs_def)
    next
      fix c st'
      assume *: "conflux_dequeue_cell st circ = Some (Some c, st')" "queue_ok st'" "same_legs st st'"
        "queued st = add_mset (cell_seq c, cell_cell c) (queued st')"
      obtain cells st2 where "dequeue_loop fuel st' circ = Some (cells, st2)" "queue_ok st2" "same_legs st' st2"
        using Suc.IH [OF *(2)] *(4) Suc.prems(2) by auto
      then show ?thesis using *(1,3) by (simp add: same_legs_def)
    qed
  qed
qed simp

text \<open>What the loop hands over are the cells that follow the last one delivered.\<close>

lemma dequeue_loop_cells:
  assumes "queue_ok st" "\<not> marked_for_close (circs st circ)" "dequeue_loop fuel st circ = Some (cells, st')"
    "delivered_to st + size (queued st) + 1 < 2 ^ 64"
  shows "queued st = mset (enumerate (delivered_to st + 1) cells) + queued st'
    \<and> delivered_to st' = delivered_to st + length cells \<and> drained st'"
  using assms
proof (induction fuel arbitrary: st cells)
  case (Suc fuel)
  show ?case using dequeue_cell [OF Suc.prems(1,2)]
  proof (elim disjE exE conjE)
    assume "conflux_dequeue_cell st circ = Some (None, st)" "drained st"
    then show ?thesis using Suc.prems(3) by simp
  next
    fix c st1
    assume 1: "conflux_dequeue_cell st circ = Some (Some c, st1)" "queue_ok st1" "same_legs st st1"
      "queued st = add_mset (cell_seq c, cell_cell c) (queued st1)"
      "cell_seq c = (delivered_to st + 1) mod 2 ^ 64" "delivered_to st1 = (delivered_to st + 1) mod 2 ^ 64"
    have d: "cell_seq c = delivered_to st + 1" "delivered_to st1 = delivered_to st + 1"
      using 1(5,6) Suc.prems(4) by simp_all
    obtain cs where cs: "dequeue_loop fuel st1 circ = Some (cs, st')" "cells = cell_cell c # cs"
      using Suc.prems(3) 1(1) by (auto simp: split: bind_splits)
    have m: "\<not> marked_for_close (circs st1 circ)" using 1(3) Suc.prems(2) by (simp add: same_legs_def)
    have b: "delivered_to st1 + size (queued st1) + 1 < 2 ^ 64" using Suc.prems(4) 1(4) d(2) by simp
    note ih = Suc.IH [OF 1(2) m cs(1) b]
    then show ?thesis using 1(4) d cs(2) by simp
  qed
qed simp

subsection \<open>The two ends\<close>

datatype 'c wire = Switch_Wire bytes | Cell_Wire 'c

record 'c cfx_sys =
  snd_st :: "'c cfx_state"
  rcv_st :: "'c cfx_state"
  chan :: "nat \<Rightarrow> 'c wire list"
  sent_cells :: "'c list"
  delivered_cells :: "'c list"

text \<open>Sending a multiplexed cell (\<open>relay_send_command_from_edge\<close>): a closed circuit takes nothing.\<close>

definition sends :: "nat \<Rightarrow> nat \<Rightarrow> nat \<Rightarrow> 'c \<Rightarrow> 'c cfx_sys \<Rightarrow> 'c cfx_sys option" where
  "sends drain_pct orig_circ cmd x s =
     (case conflux_decide_circ_for_send drain_pct (snd_st s) orig_circ cmd of
        None \<Rightarrow> None
      | Some (None, sw, st) \<Rightarrow> Some (s\<lparr>snd_st := st\<rparr>)
      | Some (Some c, sw, st) \<Rightarrow>
          if marked_for_close (circs st c) then Some (s\<lparr>snd_st := st\<rparr>)
          else Some (s\<lparr>snd_st := st\<lparr>the_cfx := conflux_note_cell_sent (the_cfx st) c cmd\<rparr>,
                       chan := (chan s)(c := chan s c
                         @ (case sw of None \<Rightarrow> [] | Some p \<Rightarrow> [Switch_Wire p]) @ [Cell_Wire x]),
                       sent_cells := sent_cells s @ [x]\<rparr>))"

definition receives_wire ::
  "nat \<Rightarrow> bool \<Rightarrow> 'c cfx_state \<Rightarrow> nat \<Rightarrow> nat option \<Rightarrow> 'c wire \<Rightarrow> ('c list \<times> 'c cfx_state) option" where
  "receives_wire max_oooq enabled st circ hint w =
     (case w of
        Switch_Wire p \<Rightarrow> Some ([], snd (conflux_process_switch_command enabled st circ hint p (length p)))
      | Cell_Wire x \<Rightarrow> process_multiplexed max_oooq st circ hint x)"

inductive cfx_step :: "nat \<Rightarrow> nat \<Rightarrow> 'c cfx_sys \<Rightarrow> 'c cfx_sys \<Rightarrow> bool" for drain_pct max_oooq where
  send: "conflux_should_multiplex cmd \<Longrightarrow> sends drain_pct orig_circ cmd x s = Some t \<Longrightarrow> cfx_step drain_pct max_oooq s t"
| receive: "chan s l = w # ws \<Longrightarrow> \<not> marked_for_close (circs (rcv_st s) l) \<Longrightarrow>
    receives_wire max_oooq enabled (rcv_st s) l hint w = Some (cells, st) \<Longrightarrow>
    cfx_step drain_pct max_oooq s
      (s\<lparr>rcv_st := st, chan := (chan s)(l := ws), delivered_cells := delivered_cells s @ cells\<rparr>)"
| sender_circuits: "(\<And>c. marked_for_close (circs (snd_st s) c) \<Longrightarrow> marked_for_close (cs c)) \<Longrightarrow>
    cfx_step drain_pct max_oooq s (s\<lparr>snd_st := (snd_st s)\<lparr>circs := cs\<rparr>\<rparr>)"
| receiver_circuits: "(\<And>c. marked_for_close (circs (rcv_st s) c) \<Longrightarrow> marked_for_close (cs c)) \<Longrightarrow>
    cfx_step drain_pct max_oooq s (s\<lparr>rcv_st := (rcv_st s)\<lparr>circs := cs\<rparr>\<rparr>)"
| round_trip: "cfx_step drain_pct max_oooq s
    (s\<lparr>snd_st := (snd_st s)\<lparr>the_cfx := conflux_update_rtt (the_cfx (snd_st s)) c rtt\<rparr>\<rparr>)"

inductive cfx_reachable :: "nat \<Rightarrow> nat \<Rightarrow> 'c cfx_sys \<Rightarrow> 'c cfx_sys \<Rightarrow> bool" for drain_pct max_oooq s0 where
  start: "cfx_reachable drain_pct max_oooq s0 s0"
| more: "cfx_reachable drain_pct max_oooq s0 s \<Longrightarrow> cfx_step drain_pct max_oooq s t \<Longrightarrow>
    cfx_reachable drain_pct max_oooq s0 t"

definition leg_ids :: "'c cfx_state \<Rightarrow> nat list" where
  "leg_ids st = map leg_circ (cfx_legs (the_cfx st))"

definition fresh_set :: "'c cfx_state \<Rightarrow> bool" where
  "fresh_set st \<longleftrightarrow> distinct (leg_ids st)
     \<and> list_all (\<lambda>leg. last_seq_sent leg = 0 \<and> last_seq_recv leg = 0) (cfx_legs (the_cfx st))
     \<and> queue st = \<lparr>pq_list = [], pq_idx = (\<lambda>x. - 1)\<rparr> \<and> delivered_to st = 0
     \<and> curr_leg (the_cfx st) = None \<and> \<not> in_full_teardown (the_cfx st)"

text \<open>A freshly linked set: no cell sent yet, the same legs at both ends.\<close>

definition cfx_initial :: "'c cfx_sys \<Rightarrow> bool" where
  "cfx_initial s \<longleftrightarrow> fresh_set (snd_st s) \<and> fresh_set (rcv_st s) \<and> leg_ids (snd_st s) = leg_ids (rcv_st s)
     \<and> (\<forall>l. chan s l = []) \<and> sent_cells s = [] \<and> delivered_cells s = []"

subsection \<open>Legs\<close>

definition seq_sent :: "'c conflux \<Rightarrow> nat \<Rightarrow> nat" where
  "seq_sent cfx l = (case conflux_get_leg cfx l of None \<Rightarrow> 0 | Some leg \<Rightarrow> last_seq_sent leg)"

definition seq_recv :: "'c conflux \<Rightarrow> nat \<Rightarrow> nat" where
  "seq_recv cfx l = (case conflux_get_leg cfx l of None \<Rightarrow> 0 | Some leg \<Rightarrow> last_seq_recv leg)"

lemma get_leg_iff: "conflux_get_leg cfx c \<noteq> None \<longleftrightarrow> c \<in> leg_circ ` set (cfx_legs cfx)"
  by (auto simp: conflux_get_leg_def find_None_iff)

lemma get_leg_circ: "conflux_get_leg cfx c = Some leg \<Longrightarrow> leg_circ leg = c \<and> leg \<in> set (cfx_legs cfx)"
  by (auto simp: conflux_get_leg_def find_Some_iff)

lemma find_map_leg:
  assumes "\<And>leg. leg_circ (f leg) = leg_circ leg"
  shows "find (\<lambda>leg. leg_circ leg = c) (map f legs) = map_option f (find (\<lambda>leg. leg_circ leg = c) legs)"
  using assms by (induction legs) auto

lemma get_leg_update:
  assumes "\<And>leg. leg_circ (f leg) = leg_circ leg"
  shows "conflux_get_leg (update_leg c f cfx) l =
    (if l = c then map_option f (conflux_get_leg cfx l) else conflux_get_leg cfx l)"
proof -
  have "conflux_get_leg (update_leg c f cfx) l =
      map_option (\<lambda>leg. if leg_circ leg = c then f leg else leg) (conflux_get_leg cfx l)"
    using assms by (simp add: conflux_get_leg_def update_leg_def find_map_leg)
  then show ?thesis using get_leg_circ by (cases "conflux_get_leg cfx l") auto
qed

lemma update_leg_simps [simp]:
  "curr_leg (update_leg c f cfx) = curr_leg cfx" "in_full_teardown (update_leg c f cfx) = in_full_teardown cfx"
  "ooo_q (update_leg c f cfx) = ooo_q cfx" "last_seq_delivered (update_leg c f cfx) = last_seq_delivered cfx"
  "cells_until_switch (update_leg c f cfx) = cells_until_switch cfx"
  by (simp_all add: update_leg_def)

lemma update_leg_ids [simp]:
  "(\<And>leg. leg_circ (f leg) = leg_circ leg) \<Longrightarrow> map leg_circ (cfx_legs (update_leg c f cfx)) = map leg_circ (cfx_legs cfx)"
  by (simp add: update_leg_def)

lemma get_leg_cong: "cfx_legs a = cfx_legs b \<Longrightarrow> conflux_get_leg a l = conflux_get_leg b l"
  by (simp add: conflux_get_leg_def)

subsection \<open>The sequence numbers under way\<close>

fun walk_cells :: "nat \<Rightarrow> 'c wire list \<Rightarrow> (nat \<times> 'c) list" where
  "walk_cells r [] = []"
| "walk_cells r (Switch_Wire p # ws) = walk_cells (r + conflux_cell_parse_switch p (length p)) ws"
| "walk_cells r (Cell_Wire x # ws) = (r + 1, x) # walk_cells (r + 1) ws"

fun walk_end :: "nat \<Rightarrow> 'c wire list \<Rightarrow> nat" where
  "walk_end r [] = r"
| "walk_end r (Switch_Wire p # ws) = walk_end (r + conflux_cell_parse_switch p (length p)) ws"
| "walk_end r (Cell_Wire x # ws) = walk_end (r + 1) ws"

lemma walk_append:
  "walk_cells r (vs @ ws) = walk_cells r vs @ walk_cells (walk_end r vs) ws"
  "walk_end r (vs @ ws) = walk_end (walk_end r vs) ws"
  by (induction r vs rule: walk_cells.induct) auto

lemma walk_end_ge: "r \<le> walk_end r ws"
  by (induction r ws rule: walk_end.induct) auto

text \<open>A SWITCH cell carries its number.\<close>

lemma switch_roundtrip:
  "conflux_send_switch_command k = Some p \<Longrightarrow> conflux_cell_parse_switch p (length p) = k"
  by (auto simp: conflux_send_switch_command_def conflux_cell_parse_switch_def UINT32_MAX_def RELAY_PAYLOAD_SIZE_def
      htonl_def split: if_splits intro!: ntohl_htonl [unfolded htonl_def, simplified])

subsection \<open>The sender\<close>

lemma min_leg_in:
  fixes pick :: "conflux_leg option \<Rightarrow> conflux_leg \<Rightarrow> conflux_leg option"
  assumes "foldl pick m legs = Some l"
    and pick: "\<And>m leg l. pick m leg = Some l \<Longrightarrow> m = Some l \<or> l = leg"
  shows "m = Some l \<or> l \<in> set legs"
  using assms(1) by (induction legs arbitrary: m) (auto dest: pick)

lemma pick_first_leg:
  assumes "conflux_pick_first_leg cfx = (b, cfx')"
  shows "cfx_legs cfx' = cfx_legs cfx \<and> in_full_teardown cfx' = in_full_teardown cfx
    \<and> (if b then curr_leg cfx' \<in> (Some \<circ> leg_circ) ` set (cfx_legs cfx) else cfx' = cfx)"
proof -
  let ?pick = "\<lambda>min_leg leg. if circ_rtts_usec leg > 0 then
      (case min_leg of None \<Rightarrow> Some leg
       | Some m \<Rightarrow> if circ_rtts_usec leg < circ_rtts_usec m then Some leg else Some m)
    else min_leg"
  have "foldl ?pick None (cfx_legs cfx) = Some l \<Longrightarrow> l \<in> set (cfx_legs cfx)" for l
    by (drule min_leg_in) (auto split: if_splits option.splits)
  then show ?thesis using assms
    by (auto simp: conflux_pick_first_leg_def Let_def split: option.splits list.splits)
qed

text \<open>The current leg is kept, or is the first one chosen.\<close>

definition keeps_curr :: "'c conflux \<Rightarrow> 'c conflux \<Rightarrow> bool" where
  "keeps_curr cfx cfx' \<longleftrightarrow> cfx_legs cfx' = cfx_legs cfx \<and> in_full_teardown cfx' = in_full_teardown cfx
     \<and> (curr_leg cfx' = curr_leg cfx
        \<or> curr_leg cfx = None \<and> curr_leg cfx' \<in> (Some \<circ> leg_circ) ` set (cfx_legs cfx))"

lemma next_circ_frame:
  assumes "conflux_decide_next_circ drain cs cfx = Some (r, cfx')"
  shows "keeps_curr cfx cfx' \<and> (in_full_teardown cfx \<longrightarrow> r = None)"
proof (cases "in_full_teardown cfx")
  case True
  then show ?thesis using assms by (simp add: conflux_decide_next_circ_def keeps_curr_def)
next
  case False
  obtain b cfx1 where p: "(case curr_leg cfx of None \<Rightarrow> conflux_pick_first_leg cfx | Some c \<Rightarrow> (True, cfx)) = (b, cfx1)"
    by (cases "case curr_leg cfx of None \<Rightarrow> conflux_pick_first_leg cfx | Some c \<Rightarrow> (True, cfx)")
  have "keeps_curr cfx cfx1"
  proof (cases "curr_leg cfx")
    case None
    then show ?thesis using pick_first_leg [of cfx b cfx1] p by (auto simp: keeps_curr_def split: if_splits)
  next
    case (Some c)
    then show ?thesis using p by (simp add: keeps_curr_def)
  qed
  moreover have "cfx' = cfx1"
    using assms False p
    by (cases b) (auto simp: conflux_decide_next_circ_def split: bind_splits if_splits)
  ultimately show ?thesis using False by simp
qed

lemma mark_all_closes:
  "c \<in> leg_circ ` set legs \<or> marked_for_close (cs c) \<Longrightarrow>
    marked_for_close (foldl (\<lambda>cs leg. circuit_mark_for_close (leg_circ leg) cs) cs legs c)"
  by (induction legs arbitrary: cs) (auto simp: circuit_mark_for_close_def)

definition snd_ok :: "nat \<Rightarrow> 'c cfx_state \<Rightarrow> bool" where
  "snd_ok n st \<longleftrightarrow> (\<forall>leg \<in> set (cfx_legs (the_cfx st)). last_seq_sent leg \<le> n)
     \<and> (if in_full_teardown (the_cfx st) then \<forall>c \<in> set (leg_ids st). marked_for_close (circs st c)
        else case curr_leg (the_cfx st) of
            None \<Rightarrow> n = 0
          | Some p \<Rightarrow> p \<in> set (leg_ids st) \<and> seq_sent (the_cfx st) p = n)"

lemma seq_sent_le: "snd_ok n st \<Longrightarrow> seq_sent (the_cfx st) l \<le> n"
  by (auto simp: snd_ok_def seq_sent_def split: option.splits dest: get_leg_circ)

lemma snd_ok_keeps:
  assumes "snd_ok n st" "keeps_curr (the_cfx st) cfx"
  shows "snd_ok n (st\<lparr>the_cfx := cfx\<rparr>)"
    and "\<not> in_full_teardown cfx \<Longrightarrow> curr_leg cfx = Some p \<Longrightarrow> p \<in> set (leg_ids st) \<and> seq_sent (the_cfx st) p = n"
    and "seq_sent cfx l = seq_sent (the_cfx st) l"
proof -
  have g: "conflux_get_leg cfx l = conflux_get_leg (the_cfx st) l" for l
    using assms(2) get_leg_cong [of cfx "the_cfx st"] by (simp add: keeps_curr_def)
  then show s: "seq_sent cfx l = seq_sent (the_cfx st) l" for l by (simp add: seq_sent_def)
  have zero: "seq_sent (the_cfx st) l = n" if "n = 0" for l using seq_sent_le [OF assms(1), of l] that by simp
  show c: "\<not> in_full_teardown cfx \<Longrightarrow> curr_leg cfx = Some p \<Longrightarrow> p \<in> set (leg_ids st) \<and> seq_sent (the_cfx st) p = n" for p
    using assms zero by (cases "curr_leg (the_cfx st)") (auto simp: snd_ok_def keeps_curr_def leg_ids_def)
  show "snd_ok n (st\<lparr>the_cfx := cfx\<rparr>)"
    using assms c s by (auto simp: snd_ok_def keeps_curr_def leg_ids_def split: option.splits)
qed

text \<open>What deciding on a circuit does, and the circuit it gives.\<close>

lemma mark_all_ok:
  assumes "cfx_legs cfx = cfx_legs (the_cfx st)" "\<not> in_full_teardown cfx" "snd_ok n st"
  shows "snd_ok n (conflux_mark_all_for_close (st\<lparr>the_cfx := cfx\<rparr>))"
    and "seq_sent (the_cfx (conflux_mark_all_for_close (st\<lparr>the_cfx := cfx\<rparr>))) l = seq_sent (the_cfx st) l"
    and "leg_ids (conflux_mark_all_for_close (st\<lparr>the_cfx := cfx\<rparr>)) = leg_ids st"
    and "marked_for_close (circs st c) \<Longrightarrow> marked_for_close (circs (conflux_mark_all_for_close (st\<lparr>the_cfx := cfx\<rparr>)) c)"
  using assms get_leg_cong [of "cfx\<lparr>in_full_teardown := True\<rparr>" "the_cfx st"]
  by (auto simp: conflux_mark_all_for_close_def snd_ok_def leg_ids_def seq_sent_def intro!: mark_all_closes)

lemma decide_ok:
  assumes "snd_ok n st" "n < 2 ^ 64" "conflux_should_multiplex cmd"
    and "conflux_decide_circ_for_send drain st orig cmd = Some (r, sw, st')"
  shows "snd_ok n st' \<and> leg_ids st' = leg_ids st
    \<and> (\<forall>c. marked_for_close (circs st c) \<longrightarrow> marked_for_close (circs st' c))
    \<and> (\<forall>l. r \<noteq> Some l \<longrightarrow> seq_sent (the_cfx st') l = seq_sent (the_cfx st) l)
    \<and> (case r of None \<Rightarrow> True
       | Some c \<Rightarrow> marked_for_close (circs st' c) \<or>
           c \<in> set (leg_ids st) \<and> curr_leg (the_cfx st') = Some c \<and> \<not> in_full_teardown (the_cfx st')
           \<and> seq_sent (the_cfx st') c = n
           \<and> (case sw of None \<Rightarrow> seq_sent (the_cfx st) c = n
              | Some p \<Rightarrow> seq_sent (the_cfx st) c + conflux_cell_parse_switch p (length p) = n))"
proof -
  obtain circ cfx where nc: "conflux_decide_next_circ drain (circs st) (the_cfx st) = Some (circ, cfx)"
    using assms(3,4) by (auto simp: conflux_decide_circ_for_send_def Let_def split: bind_splits)
  have k: "keeps_curr (the_cfx st) cfx" "in_full_teardown (the_cfx st) \<longrightarrow> circ = None"
    using next_circ_frame [OF nc] by simp_all
  have t: "in_full_teardown cfx = in_full_teardown (the_cfx st)" "cfx_legs cfx = cfx_legs (the_cfx st)"
    using k(1) by (simp_all add: keeps_curr_def)
  note sk = snd_ok_keeps [OF assms(1) k(1)]
  have ids: "leg_ids (st\<lparr>the_cfx := cfx\<rparr>) = leg_ids st" using t by (simp add: leg_ids_def)
  show ?thesis
  proof (cases circ)
    case None
    have "(r, sw, st') = (None, None, st\<lparr>the_cfx := cfx\<rparr>)
      \<or> (\<exists>p. curr_leg cfx = Some p \<and> p \<in> set (leg_ids st) \<and> (r, sw, st') = (Some p, None, st\<lparr>the_cfx := cfx\<rparr>))"
    proof (cases "cmd = RELAY_COMMAND_DATA \<or> curr_leg cfx = None")
      case True
      then show ?thesis using assms(3,4) nc None
        by (cases "cmd = RELAY_COMMAND_DATA") (auto simp: conflux_decide_circ_for_send_def Let_def)
    next
      case False
      then obtain p leg where p: "curr_leg cfx = Some p" "conflux_get_leg cfx p = Some leg"
        using assms(3,4) nc None by (auto simp: conflux_decide_circ_for_send_def Let_def split: bind_splits)
      then show ?thesis using assms(3,4) nc None False get_leg_circ [OF p(2)] t(2)
        by (auto simp: leg_ids_def conflux_decide_circ_for_send_def Let_def)
    qed
    then consider "(r, sw, st') = (None, None, st\<lparr>the_cfx := cfx\<rparr>)"
      | p where "curr_leg cfx = Some p" "p \<in> set (leg_ids st)" "(r, sw, st') = (Some p, None, st\<lparr>the_cfx := cfx\<rparr>)"
      by blast
    then show ?thesis
    proof cases
      case 1
      then show ?thesis using sk ids by simp
    next
      case 2
      then show ?thesis using sk(1,3) ids sk(2) [OF _ 2(1)] assms(1)
        by (cases "in_full_teardown cfx") (auto simp: t(1) snd_ok_def)
    qed
  next
    case (Some c)
    have nt: "\<not> in_full_teardown cfx" using k(2) t(1) Some by simp
    obtain p old where o: "curr_leg cfx = Some p" "conflux_get_leg cfx p = Some old"
      using assms(3,4) nc Some by (auto simp: conflux_decide_circ_for_send_def Let_def split: bind_splits)
    have p: "p \<in> set (leg_ids st)" "last_seq_sent old = n" "leg_circ old = p"
      using sk(2) [OF nt o(1)] sk(3) [of p] o(2) get_leg_circ [OF o(2)] by (simp_all add: seq_sent_def)
    show ?thesis
    proof (cases "c = p")
      case True
      have "(r, sw, st') = (Some p, None, st\<lparr>the_cfx := cfx\<rparr>)"
        using assms(3,4) nc Some o p(3) True by (simp add: conflux_decide_circ_for_send_def Let_def)
      then show ?thesis using sk p(1) ids o(1) nt sk(2) [OF nt o(1)] by simp
    next
      case False
      obtain new where g: "conflux_get_leg cfx c = Some new"
        using assms(3,4) nc Some o p(3) False by (auto simp: conflux_decide_circ_for_send_def Let_def split: bind_splits)
      have new: "leg_circ new = c" "c \<in> set (leg_ids st)" "last_seq_sent new = seq_sent (the_cfx st) c" "last_seq_sent new \<le> n"
        using get_leg_circ [OF g] g t(2) sk(3) [of c] seq_sent_le [OF assms(1), of c]
        by (auto simp: leg_ids_def seq_sent_def)
      define cfx1 where "cfx1 = cfx\<lparr>cells_until_switch := 0, prev_leg := Some p, curr_leg := Some c\<rparr>"
      have rel: "nat ((int (last_seq_sent old) - int (last_seq_sent new)) mod 2 ^ 64) = n - last_seq_sent new"
        using new(4) p(2) assms(2) by (simp add: of_nat_diff [symmetric] zmod_int [symmetric] nat_mod_distrib del: of_nat_diff)
      have rel2: "nat (int n - int (last_seq_sent new)) = n - last_seq_sent new" by linarith
      show ?thesis
      proof (cases "conflux_send_switch_command (n - last_seq_sent new)")
        case None
        have eq: "(r, sw, st') = (None, None, conflux_mark_all_for_close (st\<lparr>the_cfx := cfx1\<rparr>))"
          using assms(3,4) nc Some o p g False None rel new(4)
          by (simp add: conflux_decide_circ_for_send_def cfx1_def Let_def rel2)
        show ?thesis using eq mark_all_ok [of cfx1 st n] t nt assms(1) by (simp add: cfx1_def)
      next
        case (Some pl)
        define f where "f = (\<lambda>leg :: conflux_leg. leg\<lparr>last_seq_sent := last_seq_sent old\<rparr>)"
        have eq: "(r, sw, st') = (circ, Some pl, st\<lparr>the_cfx := update_leg c f cfx1\<rparr>)"
          using assms(3,4) nc \<open>circ = Some c\<close> o p g False Some rel new(4)
          by (auto simp add: conflux_decide_circ_for_send_def cfx1_def Let_def f_def rel2)
        have gl: "conflux_get_leg (update_leg c f cfx1) l =
            (if l = c then map_option f (conflux_get_leg cfx l) else conflux_get_leg cfx l)" for l
          using get_leg_update [of f c cfx1 l] get_leg_cong [of cfx1 cfx l] by (auto simp: f_def cfx1_def)
        have sq: "seq_sent (update_leg c f cfx1) l = (if l = c then n else seq_sent (the_cfx st) l)" for l
          using sk(3) [of l] g p(2) gl [of l] by (auto simp: seq_sent_def f_def)
        have ids1: "leg_ids (st\<lparr>the_cfx := update_leg c f cfx1\<rparr>) = leg_ids st"
          using t(2) by (simp add: leg_ids_def f_def cfx1_def update_leg_def)
        have "\<forall>leg \<in> set (cfx_legs (update_leg c f cfx1)). last_seq_sent leg \<le> n"
          using assms(1) t(2) p(2) by (auto simp: update_leg_def cfx1_def f_def snd_ok_def)
        then have "snd_ok n (st\<lparr>the_cfx := update_leg c f cfx1\<rparr>)"
          using nt new(2) ids1 sq by (simp add: snd_ok_def cfx1_def)
        then show ?thesis using eq ids1 sq new nt switch_roundtrip [OF Some] \<open>circ = Some c\<close>
          by (simp add: cfx1_def)
      qed
    qed
  qed
qed

lemma note_sent_ok:
  assumes "snd_ok n st" "curr_leg (the_cfx st) = Some c" "\<not> in_full_teardown (the_cfx st)" "n + 1 < 2 ^ 64"
    "conflux_should_multiplex cmd" "distinct (leg_ids st)"
  shows "snd_ok (n + 1) (st\<lparr>the_cfx := conflux_note_cell_sent (the_cfx st) c cmd\<rparr>)"
    and "seq_sent (conflux_note_cell_sent (the_cfx st) c cmd) l = (if l = c then n + 1 else seq_sent (the_cfx st) l)"
    and "leg_ids (st\<lparr>the_cfx := conflux_note_cell_sent (the_cfx st) c cmd\<rparr>) = leg_ids st"
proof -
  let ?cfx = "the_cfx st"
  define f where "f = (\<lambda>leg :: conflux_leg. leg\<lparr>last_seq_sent := (last_seq_sent leg + 1) mod 2 ^ 64\<rparr>)"
  have c: "c \<in> set (leg_ids st)" "seq_sent ?cfx c = n" using assms(1-3) by (auto simp: snd_ok_def)
  then obtain leg where leg: "conflux_get_leg ?cfx c = Some leg" "last_seq_sent leg = n"
    using get_leg_iff [of ?cfx c] by (auto simp: leg_ids_def seq_sent_def)
  define cfx' where "cfx' = conflux_note_cell_sent ?cfx c cmd"
  have l: "cfx_legs cfx' = cfx_legs (update_leg c f ?cfx)" "curr_leg cfx' = Some c" "\<not> in_full_teardown cfx'"
    using assms(2,3,5) leg(1) by (simp_all add: cfx'_def conflux_note_cell_sent_def f_def Let_def)
  have s: "seq_sent cfx' l = (if l = c then n + 1 else seq_sent ?cfx l)" for l
    using get_leg_cong [OF l(1), of l] get_leg_update [of f c ?cfx l] leg assms(4) by (simp add: f_def seq_sent_def)
  have ids: "leg_ids (st\<lparr>the_cfx := cfx'\<rparr>) = leg_ids st"
    using l(1) by (simp add: leg_ids_def f_def update_leg_def)
  have "last_seq_sent leg' \<le> n" if "leg' \<in> set (cfx_legs ?cfx)" for leg' using assms(1) that by (simp add: snd_ok_def)
  then have "last_seq_sent (f leg') \<le> n + 1 \<and> last_seq_sent leg' \<le> n + 1" if "leg' \<in> set (cfx_legs ?cfx)" for leg'
    using that mod_less_eq_dividend [of "last_seq_sent leg' + 1" "2 ^ 64"] by (fastforce simp: f_def)
  then have "\<forall>leg' \<in> set (cfx_legs cfx'). last_seq_sent leg' \<le> n + 1"
    using l(1) by (auto simp: update_leg_def)
  then show "snd_ok (n + 1) (st\<lparr>the_cfx := conflux_note_cell_sent (the_cfx st) c cmd\<rparr>)"
    using l(2,3) s c(1) ids by (simp add: snd_ok_def cfx'_def [symmetric])
  show "seq_sent (conflux_note_cell_sent (the_cfx st) c cmd) l = (if l = c then n + 1 else seq_sent (the_cfx st) l)"
    "leg_ids (st\<lparr>the_cfx := conflux_note_cell_sent (the_cfx st) c cmd\<rparr>) = leg_ids st"
    using s ids by (simp_all add: cfx'_def)
qed

subsection \<open>The receiver\<close>

definition queue_small :: "'c cfx_state \<Rightarrow> bool" where
  "queue_small st \<longleftrightarrow> size (queued st) * SIZEOF_CONFLUX_CELL \<le> 2 ^ 31 + SIZEOF_CONFLUX_CELL"

definition rcv_ok :: "'c cfx_state \<Rightarrow> bool" where
  "rcv_ok st \<longleftrightarrow> pqueue_ok conflux_queue_cmp (queue st) \<and> queue_small st \<and> drained st"

lemma rcv_queue_ok: "rcv_ok st \<Longrightarrow> queue_ok st"
  by (auto simp: rcv_ok_def queue_ok_def queue_small_def queued_def SIZEOF_CONFLUX_CELL_def INT_MAX_def)

lemma rcv_same:
  assumes "queue st' = queue st" "delivered_to st' = delivered_to st"
  shows "rcv_ok st' = rcv_ok st" "queued st' = queued st"
  using assms by (simp_all add: rcv_ok_def queue_small_def queued_def drained_def cong: list.case_cong)

text \<open>What an operation of the receiver leaves alone.\<close>

definition rcv_frame :: "nat \<Rightarrow> 'c cfx_state \<Rightarrow> 'c cfx_state \<Rightarrow> bool" where
  "rcv_frame l st st' \<longleftrightarrow> leg_ids st' = leg_ids st
     \<and> (\<forall>k. k \<noteq> l \<longrightarrow> seq_recv (the_cfx st') k = seq_recv (the_cfx st) k
        \<and> marked_for_close (circs st' k) = marked_for_close (circs st k))"

lemma seq_recv_update:
  assumes "conflux_get_leg cfx l = Some leg"
  shows "seq_recv (update_leg l (\<lambda>leg. leg\<lparr>last_seq_recv := f (last_seq_recv leg)\<rparr>) cfx) k =
    (if k = l then f (seq_recv cfx l) else seq_recv cfx k)"
  using get_leg_update [of "\<lambda>leg. leg\<lparr>last_seq_recv := f (last_seq_recv leg)\<rparr>" l cfx k] assms
  by (auto simp: seq_recv_def split: option.splits)

lemma rcv_frame_close: "rcv_frame l st (close_circ l st)"
  by (simp add: rcv_frame_def close_circ_def circuit_mark_for_close_def leg_ids_def)

lemma close_circ_simps [simp]:
  "queued (close_circ l st) = queued st" "delivered_to (close_circ l st) = delivered_to st"
  "rcv_ok (close_circ l st) = rcv_ok st" "marked_for_close (circs (close_circ l st) l)"
  using rcv_same [of "close_circ l st" st]
  by (simp_all add: close_circ_def circuit_mark_for_close_def delivered_to_def queue_def)

lemma process_switch:
  assumes "l \<in> set (leg_ids st)" "rcv_ok st"
    "seq_recv (the_cfx st) l + conflux_cell_parse_switch p len < 2 ^ 64"
    "snd (conflux_process_switch_command enabled st l hint p len) = st'"
  shows "rcv_frame l st st' \<and> rcv_ok st' \<and> queued st' = queued st \<and> delivered_to st' = delivered_to st
    \<and> (marked_for_close (circs st' l)
       \<or> seq_recv (the_cfx st') l = seq_recv (the_cfx st) l + conflux_cell_parse_switch p len)"
proof -
  obtain leg where leg: "conflux_get_leg (the_cfx st) l = Some leg"
    using assms(1) get_leg_iff [of "the_cfx st" l] by (auto simp: leg_ids_def)
  consider "st' = close_circ l st"
    | "st' = st\<lparr>the_cfx := update_leg l
         (\<lambda>leg. leg\<lparr>last_seq_recv := (last_seq_recv leg + conflux_cell_parse_switch p len) mod 2 ^ 64\<rparr>) (the_cfx st)\<rparr>"
    using assms(4) leg by (auto simp: conflux_process_switch_command_def Let_def split: if_splits)
  then show ?thesis
  proof cases
    case 1
    then show ?thesis using assms(2) by (simp add: rcv_frame_close)
  next
    case 2
    then have "queue st' = queue st" "delivered_to st' = delivered_to st" by (simp_all add: queue_def delivered_to_def)
    then show ?thesis using 2 assms(2,3) rcv_same [of st' st]
        seq_recv_update [OF leg, where f = "\<lambda>r. (r + conflux_cell_parse_switch p len) mod 2 ^ 64"]
      by (simp add: rcv_frame_def leg_ids_def)
  qed
qed

lemma process_cell_cases:
  assumes "l \<in> set (leg_ids st)" "seq_recv (the_cfx st) l + 1 < 2 ^ 64" "delivered_to st + 1 < 2 ^ 64"
    "conflux_process_cell max_oooq st l hint x = (b, st')" "max_oooq < 2 ^ 31" "rcv_ok st"
    "\<forall>q \<in># queued st. fst q \<noteq> seq_recv (the_cfx st) l + 1"
  shows "rcv_frame l st st'
    \<and> (marked_for_close (circs st' l) \<and> \<not> b \<and> queued st' = queued st \<and> delivered_to st' = delivered_to st \<and> rcv_ok st'
     \<or> circs st' = circs st \<and> seq_recv (the_cfx st') l = seq_recv (the_cfx st) l + 1
      \<and> (if b then seq_recv (the_cfx st) l = delivered_to st \<and> delivered_to st' = delivered_to st + 1
            \<and> queue_ok st' \<and> queued st' = queued st
         else queued st' = add_mset (seq_recv (the_cfx st) l + 1, x) (queued st) \<and> delivered_to st' = delivered_to st
            \<and> rcv_ok st'))"
proof -
  let ?r = "seq_recv (the_cfx st) l"
  obtain leg where leg: "conflux_get_leg (the_cfx st) l = Some leg" "last_seq_recv leg = ?r"
    using assms(1) get_leg_iff [of "the_cfx st" l] by (auto simp: leg_ids_def seq_recv_def)
  define f where "f = (\<lambda>leg :: conflux_leg. leg\<lparr>last_seq_recv := (last_seq_recv leg + 1) mod 2 ^ 64\<rparr>)"
  define cfx where "cfx = update_leg l f (the_cfx st)"
  define st1 where "st1 = st\<lparr>the_cfx := cfx\<rparr>"
  have same: "queue st1 = queue st" "delivered_to st1 = delivered_to st" "circs st1 = circs st" "leg_ids st1 = leg_ids st"
    by (simp_all add: st1_def cfx_def queue_def delivered_to_def leg_ids_def f_def update_leg_def)
  have r1: "seq_recv cfx k = (if k = l then ?r + 1 else seq_recv (the_cfx st) k)" for k
    using seq_recv_update [OF leg(1), of "\<lambda>r. (r + 1) mod 2 ^ 64" k] assms(2) by (simp add: cfx_def f_def)
  have ok1: "rcv_ok st1" "queued st1 = queued st"
    using assms(6) rcv_same [OF same(1,2)] by simp_all
  have frame1: "rcv_frame l st st1" using same r1 by (simp add: rcv_frame_def st1_def)
  have frame2: "rcv_frame l st (close_circ l st1)"
    using frame1 rcv_frame_close [of l st1] by (simp add: rcv_frame_def)
  define cell where "cell = \<lparr>cell_seq = ?r + 1, cell_addr = next_addr st, cell_cell = x\<rparr>"
  consider "b = False" "st' = close_circ l st" | "b = False" "st' = close_circ l st1"
    | "b = True" "?r = delivered_to st" "st' = st1\<lparr>the_cfx := cfx\<lparr>last_seq_delivered := delivered_to st + 1\<rparr>\<rparr>"
    | tot where "b = False" "?r > delivered_to st" "length (pq_list (queue st)) * SIZEOF_CONFLUX_CELL mod 2 ^ 32 < max_oooq"
      "st' = st1\<lparr>the_cfx := cfx\<lparr>ooo_q := smartlist_pqueue_add conflux_queue_cmp (queue st) cell\<rparr>,
        total_ooo_q_bytes := tot, next_addr := next_addr st + 1\<rparr>"
  proof -
    have seq: "(last_seq_recv leg + 1) mod 2 ^ 64 = ?r + 1" using leg(2) assms(2) by simp
    have del: "last_seq_delivered cfx = delivered_to st" "ooo_q cfx = queue st" by (simp_all add: cfx_def delivered_to_def queue_def)
    have e: "conflux_process_cell max_oooq st l hint x =
      (if \<not> conflux_validate_source_hop (circs st l) hint then (False, close_circ l st)
       else if ?r + 1 = delivered_to st + 1 then (True, st1\<lparr>the_cfx := cfx\<lparr>last_seq_delivered := delivered_to st + 1\<rparr>\<rparr>)
       else if ?r + 1 \<le> delivered_to st then (False, close_circ l st1)
       else if length (pq_list (queue st)) * SIZEOF_CONFLUX_CELL mod 2 ^ 32 \<ge> max_oooq then (False, close_circ l st1)
       else (False, st1\<lparr>the_cfx := cfx\<lparr>ooo_q := smartlist_pqueue_add conflux_queue_cmp (queue st) cell\<rparr>,
          total_ooo_q_bytes := (total_ooo_q_bytes st + SIZEOF_CELL) mod 2 ^ 64, next_addr := next_addr st + 1\<rparr>))"
      using assms(3)
      unfolding conflux_process_cell_def leg(1) option.case Let_def seq f_def [symmetric] cfx_def [symmetric] del cell_def
      by (simp add: st1_def del)
    show ?thesis using assms(4) that unfolding e by (auto split: if_splits)
  qed
  then show ?thesis
  proof cases
    case 1
    then show ?thesis using assms(6) by (simp add: rcv_frame_close)
  next
    case 2
    then show ?thesis using ok1 same frame2 by simp
  next
    case 3
    have "queued st' = queued st" "delivered_to st' = delivered_to st + 1" "queue st' = queue st"
      using 3(3) ok1(2) same(1) by (simp_all add: queued_def delivered_to_def queue_def st1_def)
    moreover have "queue_ok st'" using rcv_queue_ok [OF assms(6)] calculation(3) by (simp add: queue_ok_def)
    moreover have "seq_recv (the_cfx st') k = seq_recv cfx k" for k
      using 3(3) get_leg_cong [of "the_cfx st'" cfx k] by (simp add: seq_recv_def)
    moreover have "leg_ids st' = leg_ids st" "circs st' = circs st"
      using 3(3) same(3,4) by (simp_all add: leg_ids_def st1_def)
    ultimately show ?thesis using 3(1,2) r1 by (simp add: rcv_frame_def)
  next
    case 4
    have notin: "cell \<notin> set (pq_list (queue st))"
      using assms(7) by (force simp: queued_def cell_def)
    have q: "queue st' = smartlist_pqueue_add conflux_queue_cmp (queue st) cell" using 4(4) by (simp add: queue_def)
    have add: "pqueue_ok conflux_queue_cmp (queue st')" "mset (pq_list (queue st')) = add_mset cell (mset (pq_list (queue st)))"
      using conflux_pq.add_ok [of "queue st" cell] notin assms(6) unfolding q by (simp_all add: rcv_ok_def)
    have qd: "queued st' = add_mset (?r + 1, x) (queued st)"
      by (simp add: queued_def add(2) cell_def)
    have d: "delivered_to st' = delivered_to st" using 4(4) same(2) by (simp add: delivered_to_def st1_def)
    have small: "queue_small st'"
      using assms(5,6) 4(3) qd by (simp add: rcv_ok_def queue_small_def SIZEOF_CONFLUX_CELL_def queued_def)
    have dr: "drained st'"
    proof (cases "pq_list (queue st')")
      case (Cons c cs)
      have "c \<in># mset (pq_list (queue st'))" using Cons by simp
      then consider "c = cell" | "c \<in> set (pq_list (queue st))" using add(2) by auto
      then show ?thesis
      proof cases
        case 1
        then show ?thesis using Cons 4(2) assms(2,3) d by (simp add: drained_def cell_def)
      next
        case 2
        obtain c0 cs0 where old: "pq_list (queue st) = c0 # cs0" using 2 by (cases "pq_list (queue st)") auto
        have "c0 \<in> set (pq_list (queue st'))" using add(2) old by (metis insert_iff list.set_intros(1) set_mset_add_mset_insert set_mset_mset)
        then obtain i where i: "i < length (pq_list (queue st'))" "pq_list (queue st') ! i = c0" by (auto simp: in_set_conv_nth)
        have le1: "conflux_queue_cmp c c0 \<le> 0"
          using conflux_pq.heap_root_min [of "pq_list (queue st')" i] add(1) i Cons by (simp add: pqueue_ok_def)
        obtain j where j: "j < length (pq_list (queue st))" "pq_list (queue st) ! j = c" using 2 by (auto simp: in_set_conv_nth)
        have le2: "conflux_queue_cmp c0 c \<le> 0"
          using conflux_pq.heap_root_min [of "pq_list (queue st)" j] assms(6) j old by (simp add: rcv_ok_def pqueue_ok_def)
        have "cell_seq c = cell_seq c0" using le1 le2 by (auto simp: conflux_queue_cmp_def split: if_splits)
        then show ?thesis using assms(6) Cons old d by (simp add: rcv_ok_def drained_def)
      qed
    qed (simp add: drained_def)
    have "seq_recv (the_cfx st') k = seq_recv cfx k" for k
      using 4(4) get_leg_cong [of "the_cfx st'" cfx k] by (simp add: seq_recv_def)
    moreover have "leg_ids st' = leg_ids st" "circs st' = circs st"
      using 4(4) same(3,4) by (simp_all add: leg_ids_def st1_def)
    ultimately show ?thesis using 4(1) r1 qd d small dr add(1) by (simp add: rcv_frame_def rcv_ok_def)
  qed
qed

subsection \<open>The invariant\<close>

text \<open>The cells of a list with their positions, counted from 1.\<close>

definition numbered :: "'c list \<Rightarrow> (nat \<times> 'c) multiset" where
  "numbered xs = mset (enumerate 1 xs)"

text \<open>The cells that a leg still has under way; a leg that was closed brings nothing any more.\<close>

definition under_way :: "'c cfx_sys \<Rightarrow> nat \<Rightarrow> (nat \<times> 'c) multiset" where
  "under_way s l = (if marked_for_close (circs (rcv_st s) l) then {#}
     else mset (walk_cells (seq_recv (the_cfx (rcv_st s)) l) (chan s l)))"

definition pending :: "'c cfx_sys \<Rightarrow> (nat \<times> 'c) multiset" where
  "pending s = (\<Sum>l \<in> set (leg_ids (rcv_st s)). under_way s l)"

definition accounted :: "'c cfx_sys \<Rightarrow> (nat \<times> 'c) multiset" where
  "accounted s = pending s + queued (rcv_st s) + numbered (delivered_cells s)"

definition leg_ok :: "'c cfx_sys \<Rightarrow> nat \<Rightarrow> bool" where
  "leg_ok s l \<longleftrightarrow> marked_for_close (circs (rcv_st s) l) \<or>
     walk_end (seq_recv (the_cfx (rcv_st s)) l) (chan s l) \<le> length (sent_cells s)
     \<and> (marked_for_close (circs (snd_st s) l)
        \<or> walk_end (seq_recv (the_cfx (rcv_st s)) l) (chan s l) = seq_sent (the_cfx (snd_st s)) l)"

definition all_open :: "'c cfx_sys \<Rightarrow> bool" where
  "all_open s \<longleftrightarrow> (\<forall>l \<in> set (leg_ids (rcv_st s)). \<not> marked_for_close (circs (rcv_st s) l))"

definition cfx_inv :: "'c cfx_sys \<Rightarrow> bool" where
  "cfx_inv s \<longleftrightarrow> snd_ok (length (sent_cells s)) (snd_st s)
     \<and> leg_ids (snd_st s) = leg_ids (rcv_st s) \<and> distinct (leg_ids (rcv_st s))
     \<and> (\<forall>l. l \<notin> set (leg_ids (rcv_st s)) \<longrightarrow> chan s l = [])
     \<and> (\<forall>l \<in> set (leg_ids (rcv_st s)). leg_ok s l)
     \<and> rcv_ok (rcv_st s) \<and> delivered_to (rcv_st s) = length (delivered_cells s)
     \<and> accounted s \<subseteq># numbered (sent_cells s)
     \<and> (all_open s \<longrightarrow> accounted s = numbered (sent_cells s))"

lemma numbered_append: "numbered (xs @ ys) = numbered xs + mset (enumerate (length xs + 1) ys)"
  by (simp add: numbered_def enumerate_append_eq)

lemma size_numbered [simp]: "size (numbered xs) = length xs"
  by (simp add: numbered_def)

lemma numbered_distinct: "{#p, q#} \<subseteq># numbered xs \<Longrightarrow> fst p \<noteq> fst q"
proof
  assume sub: "{#p, q#} \<subseteq># numbered xs" and eq: "fst p = fst q"
  have "image_mset fst {#p, q#} \<subseteq># image_mset fst (numbered xs)" using sub by (rule image_mset_subseteq_mono)
  then have "{#fst q, fst q#} \<subseteq># mset [1..<1 + length xs]"
    using eq by (simp add: numbered_def del: upt_Suc flip: mset_map)
  then have "count {#fst q, fst q#} (fst q) \<le> count (mset [1..<1 + length xs]) (fst q)" by (rule mset_subset_eq_count)
  moreover have "count (mset [1..<1 + length xs]) (fst q) \<le> 1"
    using distinct_upt [of 1 "1 + length xs"] unfolding distinct_count_atmost_1 by (metis le_refl zero_le_one)
  ultimately show False by simp
qed

lemma accounted_cong:
  assumes "rcv_st t = rcv_st s" "chan t = chan s" "delivered_cells t = delivered_cells s"
  shows "accounted t = accounted s" "all_open t = all_open s"
proof -
  have "under_way t = under_way s" unfolding under_way_def fun_eq_iff assms by simp
  then show "accounted t = accounted s" "all_open t = all_open s"
    by (simp_all add: accounted_def pending_def all_open_def assms)
qed

lemma pending_update:
  assumes "leg_ids (rcv_st t) = leg_ids (rcv_st s)" "l \<in> set (leg_ids (rcv_st s))"
    and "\<And>k. k \<noteq> l \<Longrightarrow> under_way t k = under_way s k"
  shows "pending t + under_way s l = pending s + under_way t l"
proof -
  let ?L = "set (leg_ids (rcv_st s))"
  have "(\<Sum>k \<in> ?L - {l}. under_way t k) = (\<Sum>k \<in> ?L - {l}. under_way s k)" using assms(3) by (intro sum.cong) auto
  then show ?thesis using assms(1,2) by (simp add: pending_def sum.remove)
qed

lemma under_way_pending: "l \<in> set (leg_ids (rcv_st s)) \<Longrightarrow> under_way s l \<subseteq># pending s"
  by (simp add: pending_def sum.remove)

subsection \<open>Every step keeps the invariant\<close>

lemma sender_inv:
  assumes "cfx_inv s" "snd_ok (length (sent_cells s)) st" "leg_ids st = leg_ids (snd_st s)"
    and "\<And>c. marked_for_close (circs (snd_st s) c) \<Longrightarrow> marked_for_close (circs st c)"
    and "\<And>l. \<not> marked_for_close (circs st l) \<Longrightarrow> seq_sent (the_cfx st) l = seq_sent (the_cfx (snd_st s)) l"
  shows "cfx_inv (s\<lparr>snd_st := st\<rparr>)"
proof -
  have "leg_ok (s\<lparr>snd_st := st\<rparr>) l" if "leg_ok s l" for l
    using that assms(4) [of l] assms(5) [of l]
    by (cases "marked_for_close (circs st l)") (auto simp: leg_ok_def)
  then show ?thesis
    using assms(1-3) accounted_cong [of "s\<lparr>snd_st := st\<rparr>" s] by (simp add: cfx_inv_def)
qed

lemma sends_inv:
  assumes inv: "cfx_inv s" and m: "conflux_should_multiplex cmd" and t: "sends drain orig cmd x s = Some t"
    and bound: "length (sent_cells t) < 2 ^ 64 - 1"
  shows "cfx_inv t"
proof -
  let ?n = "length (sent_cells s)"
  obtain r sw st where d: "conflux_decide_circ_for_send drain (snd_st s) orig cmd = Some (r, sw, st)"
    using t by (auto simp: sends_def split: option.splits)
  have n: "?n < 2 ^ 64" using t bound by (auto simp: sends_def split: option.splits prod.splits if_splits)
  have ok: "snd_ok ?n (snd_st s)" using inv by (simp add: cfx_inv_def)
  note dk = decide_ok [OF ok n m d]
  have keep: "cfx_inv (s\<lparr>snd_st := st\<rparr>)"
    if same: "\<And>l. \<not> marked_for_close (circs st l) \<Longrightarrow> seq_sent (the_cfx st) l = seq_sent (the_cfx (snd_st s)) l"
    using inv dk same by (intro sender_inv) blast+
  consider "t = s\<lparr>snd_st := st\<rparr>" "r = None" | c where "t = s\<lparr>snd_st := st\<rparr>" "r = Some c" "marked_for_close (circs st c)"
    | c where "r = Some c" "\<not> marked_for_close (circs st c)"
      "t = s\<lparr>snd_st := st\<lparr>the_cfx := conflux_note_cell_sent (the_cfx st) c cmd\<rparr>,
             chan := (chan s)(c := chan s c @ (case sw of None \<Rightarrow> [] | Some p \<Rightarrow> [Switch_Wire p]) @ [Cell_Wire x]),
             sent_cells := sent_cells s @ [x]\<rparr>"
    using t d by (cases r) (auto simp: sends_def split: if_splits)
  then show ?thesis
  proof cases
    case 1
    then show ?thesis using keep dk by simp
  next
    case 2
    show ?thesis unfolding 2(1) using dk 2(2,3) by (intro keep) (metis option.inject)
  next
    case 3
    define new where "new = (case sw of None \<Rightarrow> [] | Some p \<Rightarrow> [Switch_Wire p]) @ [Cell_Wire x]"
    have c: "c \<in> set (leg_ids (snd_st s))" "curr_leg (the_cfx st) = Some c" "\<not> in_full_teardown (the_cfx st)"
      "snd_ok ?n st" "leg_ids st = leg_ids (snd_st s)"
      using dk 3(1,2) by simp_all
    have open_s: "\<not> marked_for_close (circs (snd_st s) c)" using dk 3(2) by blast
    have legs: "leg_ids (snd_st s) = leg_ids (rcv_st s)" "distinct (leg_ids (rcv_st s))" using inv by (simp_all add: cfx_inv_def)
    have b: "?n + 1 < 2 ^ 64" using bound 3(3) by simp
    have dist: "distinct (leg_ids st)" using c(5) legs by simp
    note ns = note_sent_ok [OF c(4,2,3) b m dist]
    let ?r = "seq_recv (the_cfx (rcv_st s)) c"
    have w: "walk_cells ?r (chan s c @ new) = walk_cells ?r (chan s c) @ [(?n + 1, x)] \<and> walk_end ?r (chan s c @ new) = ?n + 1"
      if "\<not> marked_for_close (circs (rcv_st s) c)"
    proof -
      have "leg_ok s c" using inv c(1) legs by (simp add: cfx_inv_def)
      then have "walk_end ?r (chan s c) = seq_sent (the_cfx (snd_st s)) c" using that open_s by (simp add: leg_ok_def)
      then show ?thesis using dk 3(1,2) by (cases sw) (simp_all add: new_def walk_append)
    qed
    have sq: "seq_sent (the_cfx st) l = seq_sent (the_cfx (snd_st s)) l" if "l \<noteq> c" for l
      using dk 3(1) that by simp
    have t': "chan t = (chan s)(c := chan s c @ new)" "sent_cells t = sent_cells s @ [x]" "rcv_st t = rcv_st s"
      "delivered_cells t = delivered_cells s" "snd_st t = st\<lparr>the_cfx := conflux_note_cell_sent (the_cfx st) c cmd\<rparr>"
      unfolding 3(3) new_def by simp_all
    have uw: "under_way t c = under_way s c + (if marked_for_close (circs (rcv_st s) c) then {#} else {#(?n + 1, x)#})"
      using w by (simp add: under_way_def t')
    have "pending t + under_way s c = pending s + under_way t c"
      using c(1) legs by (intro pending_update) (auto simp: t' under_way_def)
    then have pt: "pending t = pending s + (if marked_for_close (circs (rcv_st s) c) then {#} else {#(?n + 1, x)#})"
      unfolding uw by simp
    have num: "numbered (sent_cells t) = numbered (sent_cells s) + {#(?n + 1, x)#}"
      by (simp add: t' numbered_append)
    have acc: "accounted t = accounted s + (if marked_for_close (circs (rcv_st s) c) then {#} else {#(?n + 1, x)#})"
      by (simp add: accounted_def pt t')
    have "accounted t \<subseteq># numbered (sent_cells t)"
      using inv unfolding acc num cfx_inv_def by (auto intro: subset_mset.order_trans)
    moreover have "all_open t \<longrightarrow> accounted t = numbered (sent_cells t)"
      using inv c(1) legs unfolding acc num cfx_inv_def by (auto simp: all_open_def t')
    moreover have "leg_ok t l" if "l \<in> set (leg_ids (rcv_st s))" for l
    proof (cases "l = c")
      case True
      then show ?thesis using w ns(2) [of c] by (auto simp: leg_ok_def t')
    next
      case False
      have "leg_ok s l" using inv that by (simp add: cfx_inv_def)
      then show ?thesis using False ns(2) [of l] sq [OF False] dk by (auto simp: leg_ok_def t')
    qed
    moreover have "chan t l = []" if "l \<notin> set (leg_ids (rcv_st s))" for l
      using inv that c(1) legs by (auto simp: t' cfx_inv_def)
    ultimately show ?thesis
      using inv ns(1,3) c(5) by (simp add: cfx_inv_def t')
  qed
qed

definition received :: "'c cfx_sys \<Rightarrow> 'c cfx_state \<Rightarrow> nat \<Rightarrow> 'c wire list \<Rightarrow> 'c list \<Rightarrow> 'c cfx_sys" where
  "received s st l ws cells =
     s\<lparr>rcv_st := st, chan := (chan s)(l := ws), delivered_cells := delivered_cells s @ cells\<rparr>"

lemma received_inv:
  assumes inv: "cfx_inv s" and l: "l \<in> set (leg_ids (rcv_st s))" and op: "\<not> marked_for_close (circs (rcv_st s) l)"
    and fr: "rcv_frame l (rcv_st s) st" and ok: "rcv_ok st"
    and d: "delivered_to st = length (delivered_cells s) + length cells"
    and leg: "leg_ok (received s st l ws cells) l"
    and sub: "under_way (received s st l ws cells) l + queued st + mset (enumerate (length (delivered_cells s) + 1) cells)
      \<subseteq># under_way s l + queued (rcv_st s)"
    and eq: "\<not> marked_for_close (circs st l) \<Longrightarrow>
      under_way (received s st l ws cells) l + queued st + mset (enumerate (length (delivered_cells s) + 1) cells)
      = under_way s l + queued (rcv_st s)"
  shows "cfx_inv (received s st l ws cells)"
proof -
  let ?t = "received s st l ws cells"
  let ?new = "under_way ?t l + queued st + mset (enumerate (length (delivered_cells s) + 1) cells)"
  have ids: "leg_ids (rcv_st ?t) = leg_ids (rcv_st s)" using fr by (simp add: received_def rcv_frame_def)
  have other: "under_way ?t k = under_way s k" "leg_ok s k \<Longrightarrow> leg_ok ?t k" if "k \<noteq> l" for k
    using fr that by (auto simp: under_way_def leg_ok_def received_def rcv_frame_def)
  define rest where "rest = (\<Sum>k \<in> set (leg_ids (rcv_st s)) - {l}. under_way s k)"
  have "rest = (\<Sum>k \<in> set (leg_ids (rcv_st s)) - {l}. under_way ?t k)"
    unfolding rest_def using other(1) by (intro sum.cong) auto
  then have p: "pending s = under_way s l + rest" "pending ?t = under_way ?t l + rest"
    unfolding pending_def ids using l by (simp_all add: sum.remove rest_def)
  have a: "accounted s = (under_way s l + queued (rcv_st s)) + (rest + numbered (delivered_cells s))"
    "accounted ?t = ?new + (rest + numbered (delivered_cells s))"
    by (simp_all add: accounted_def p numbered_append) (simp_all add: received_def numbered_append)
  have "accounted ?t \<subseteq># accounted s" unfolding a using sub by (simp only: subset_mset.add_right_mono)
  then have 1: "accounted ?t \<subseteq># numbered (sent_cells ?t)"
    using inv by (auto simp: cfx_inv_def received_def intro: subset_mset.order_trans)
  have 2: "all_open ?t \<longrightarrow> accounted ?t = numbered (sent_cells ?t)"
  proof
    assume o: "all_open ?t"
    then have "\<not> marked_for_close (circs st l)" using l ids by (auto simp: all_open_def received_def)
    then have "accounted ?t = accounted s" unfolding a using eq by simp
    moreover have "all_open s" using o fr op ids by (fastforce simp: all_open_def received_def rcv_frame_def)
    ultimately show "accounted ?t = numbered (sent_cells ?t)" using inv by (simp add: cfx_inv_def received_def)
  qed
  have "chan ?t k = []" if "k \<notin> set (leg_ids (rcv_st s))" for k
    using inv that l by (auto simp: cfx_inv_def received_def)
  moreover have "leg_ok ?t k" if "k \<in> set (leg_ids (rcv_st s))" for k
    using inv that other(2) leg by (cases "k = l") (auto simp: cfx_inv_def)
  ultimately show ?thesis
    using inv 1 2 ids ok d by (simp add: cfx_inv_def) (simp add: received_def)
qed

lemma receives_inv:
  assumes inv: "cfx_inv s" and w: "chan s l = w # ws" and op: "\<not> marked_for_close (circs (rcv_st s) l)"
    and r: "receives_wire max_oooq enabled (rcv_st s) l hint w = Some (cells, st)"
    and bound: "length (sent_cells s) < 2 ^ 64 - 1" and mx: "max_oooq < 2 ^ 31"
  shows "cfx_inv (received s st l ws cells)"
proof -
  let ?R = "rcv_st s" and ?n = "length (sent_cells s)"
  let ?r = "seq_recv (the_cfx ?R) l"
  have l: "l \<in> set (leg_ids ?R)" using inv w by (force simp: cfx_inv_def)
  have ok: "rcv_ok ?R" "delivered_to ?R = length (delivered_cells s)" using inv by (simp_all add: cfx_inv_def)
  have lk: "walk_end ?r (w # ws) \<le> ?n" "marked_for_close (circs (snd_st s) l) \<or> walk_end ?r (w # ws) = seq_sent (the_cfx (snd_st s)) l"
    using inv l w op by (auto simp: cfx_inv_def leg_ok_def)
  have uw: "under_way s l = mset (walk_cells ?r (w # ws))" using op w by (simp add: under_way_def)
  have acc: "accounted s \<subseteq># numbered (sent_cells s)" using inv by (simp add: cfx_inv_def)
  have size: "delivered_to ?R + size (queued ?R) + size (pending s) \<le> ?n"
    using size_mset_mono [OF acc] ok(2) by (simp add: accounted_def)
  show ?thesis
  proof (cases w)
    case (Switch_Wire p)
    let ?k = "conflux_cell_parse_switch p (length p)"
    have c: "cells = []" "snd (conflux_process_switch_command enabled ?R l hint p (length p)) = st"
      using r Switch_Wire by (simp_all add: receives_wire_def)
    have "?r + ?k < 2 ^ 64" using lk(1) bound walk_end_ge [of "?r + ?k" ws] Switch_Wire by simp
    note ps = process_switch [OF l ok(1) this c(2)]
    show ?thesis
    proof (rule received_inv [OF inv l op])
      show "leg_ok (received s st l ws cells) l"
        using ps lk Switch_Wire by (auto simp: leg_ok_def received_def)
      show "under_way (received s st l ws cells) l + queued st + mset (enumerate (length (delivered_cells s) + 1) cells)
          \<subseteq># under_way s l + queued ?R"
        "\<not> marked_for_close (circs st l) \<Longrightarrow> under_way (received s st l ws cells) l + queued st
          + mset (enumerate (length (delivered_cells s) + 1) cells) = under_way s l + queued ?R"
        using ps c(1) unfolding uw by (auto simp: under_way_def received_def Switch_Wire)
    qed (use ps c(1) ok(2) in simp_all)
  next
    case (Cell_Wire x)
    have rb: "?r + 1 < 2 ^ 64" using lk(1) bound walk_end_ge [of "?r + 1" ws] Cell_Wire by simp
    have here: "(?r + 1, x) \<in># under_way s l" by (simp add: uw Cell_Wire)
    then have pd: "{#(?r + 1, x)#} \<subseteq># pending s" using under_way_pending [OF l] by (auto dest: mset_subset_eqD)
    then have db: "delivered_to ?R + size (queued ?R) + 1 \<le> ?n" using size size_mset_mono [OF pd] by simp
    have fresh: "\<forall>q \<in># queued ?R. fst q \<noteq> ?r + 1"
    proof
      fix q assume "q \<in># queued ?R"
      then have "{#(?r + 1, x)#} + {#q#} \<subseteq># pending s + queued ?R" using pd by (intro subset_mset.add_mono) simp_all
      then have "{#(?r + 1, x)#} + {#q#} \<subseteq># accounted s"
        unfolding accounted_def by (rule subset_mset.order_trans) (rule mset_subset_eq_add_left)
      then have "{#(?r + 1, x), q#} \<subseteq># accounted s" by (simp add: add_mset_commute)
      then show "fst q \<noteq> ?r + 1" using numbered_distinct subset_mset.order_trans [OF _ acc] by fastforce
    qed
    obtain b st1 where pc: "conflux_process_cell max_oooq ?R l hint x = (b, st1)" by (cases "conflux_process_cell max_oooq ?R l hint x")
    have d1: "delivered_to ?R + 1 < 2 ^ 64" using db bound by simp
    note cs = process_cell_cases [OF l rb d1 pc mx ok(1) fresh]
    consider "marked_for_close (circs st1 l)" "\<not> b" "queued st1 = queued ?R" "delivered_to st1 = delivered_to ?R" "rcv_ok st1"
      | "\<not> b" "circs st1 = circs ?R" "seq_recv (the_cfx st1) l = ?r + 1" "rcv_ok st1"
        "queued st1 = add_mset (?r + 1, x) (queued ?R)" "delivered_to st1 = delivered_to ?R"
      | "b" "circs st1 = circs ?R" "seq_recv (the_cfx st1) l = ?r + 1" "?r = delivered_to ?R"
        "delivered_to st1 = delivered_to ?R + 1" "queue_ok st1" "queued st1 = queued ?R"
      using cs by (cases b) auto
    then show ?thesis
    proof cases
      case 1
      have c: "cells = []" "st = st1" using r pc 1(2) Cell_Wire by (simp_all add: receives_wire_def process_multiplexed_def)
      show ?thesis unfolding c
        by (rule received_inv [OF inv l op]) (use cs 1 ok(2) in \<open>simp_all add: leg_ok_def received_def under_way_def\<close>)
    next
      case 2
      have c: "cells = []" "st = st1" using r pc 2(1) Cell_Wire by (simp_all add: receives_wire_def process_multiplexed_def)
      show ?thesis unfolding c
        by (rule received_inv [OF inv l op])
          (use cs 2 ok(2) op lk uw in \<open>simp_all add: leg_ok_def received_def under_way_def Cell_Wire\<close>)
    next
      case 3
      obtain cells' where c: "dequeue_loop (length (pq_list (ooo_q (the_cfx st1))) + 1) st1 l = Some (cells', st)" "cells = x # cells'"
        using r pc 3(1) Cell_Wire by (auto simp: receives_wire_def process_multiplexed_def split: bind_splits)
      have "\<not> marked_for_close (circs st1 l)" using 3(2) op by simp
      note dq = dequeue_loop_cells [OF 3(6) this c(1)] dequeue_loop_total [OF 3(6), of "length (pq_list (ooo_q (the_cfx st1))) + 1" l]
      have q: "queued ?R = mset (enumerate (length (delivered_cells s) + 2) cells') + queued st"
        "delivered_to st = length (delivered_cells s) + 1 + length cells'" "drained st"
        using dq(1) 3(5,7) ok(2) db bound by simp_all
      have st: "queue_ok st" "same_legs st1 st" using dq(2) c(1) by (auto simp: queued_def queue_def)
      have same: "leg_ids st = leg_ids st1" "circs st = circs st1" "seq_recv (the_cfx st) k = seq_recv (the_cfx st1) k" for k
        using st(2) get_leg_cong [of "the_cfx st" "the_cfx st1" k] by (simp_all add: same_legs_def leg_ids_def seq_recv_def)
      have "size (queued st) \<le> size (queued ?R)" using q(1) by simp
      then have "rcv_ok st" using q(3) st(1) ok(1)
        by (auto simp: rcv_ok_def queue_ok_def queue_small_def SIZEOF_CONFLUX_CELL_def)
      moreover have "rcv_frame l ?R st" using cs same by (simp add: rcv_frame_def)
      ultimately show ?thesis unfolding c(2)
        by (intro received_inv [OF inv l op])
          (use q same 3 ok(2) op lk uw in \<open>simp_all add: leg_ok_def received_def under_way_def Cell_Wire\<close>)
    qed
  qed
qed

lemma circuits_inv:
  assumes "cfx_inv s"
  shows "(\<And>c. marked_for_close (circs (snd_st s) c) \<Longrightarrow> marked_for_close (cs c)) \<Longrightarrow>
      cfx_inv (s\<lparr>snd_st := (snd_st s)\<lparr>circs := cs\<rparr>\<rparr>)"
    and "cfx_inv (s\<lparr>snd_st := (snd_st s)\<lparr>the_cfx := conflux_update_rtt (the_cfx (snd_st s)) c rtt\<rparr>\<rparr>)"
proof -
  have ok: "snd_ok (length (sent_cells s)) (snd_st s)" using assms by (simp add: cfx_inv_def)
  show "cfx_inv (s\<lparr>snd_st := (snd_st s)\<lparr>circs := cs\<rparr>\<rparr>)"
    if "\<And>c. marked_for_close (circs (snd_st s) c) \<Longrightarrow> marked_for_close (cs c)"
    using ok that by (intro sender_inv [OF assms]) (auto simp: snd_ok_def leg_ids_def split: option.splits)
  define f where "f = (\<lambda>leg :: conflux_leg. leg\<lparr>circ_rtts_usec := rtt\<rparr>)"
  have u: "conflux_update_rtt (the_cfx (snd_st s)) c rtt = (if conflux_get_leg (the_cfx (snd_st s)) c = None
      then the_cfx (snd_st s) else update_leg c f (the_cfx (snd_st s)))"
    by (simp add: conflux_update_rtt_def f_def split: option.splits)
  have sq: "seq_sent (update_leg c f (the_cfx (snd_st s))) l = seq_sent (the_cfx (snd_st s)) l" for l
    using get_leg_update [of f c "the_cfx (snd_st s)" l] by (auto simp: seq_sent_def f_def split: option.splits)
  have ids: "leg_ids ((snd_st s)\<lparr>the_cfx := update_leg c f (the_cfx (snd_st s))\<rparr>) = leg_ids (snd_st s)"
    by (simp add: leg_ids_def f_def)
  have "\<forall>leg \<in> set (cfx_legs (update_leg c f (the_cfx (snd_st s)))). last_seq_sent leg \<le> length (sent_cells s)"
    using ok by (auto simp: snd_ok_def update_leg_def f_def)
  then have "snd_ok (length (sent_cells s)) ((snd_st s)\<lparr>the_cfx := update_leg c f (the_cfx (snd_st s))\<rparr>)"
    using ok ids sq by (auto simp: snd_ok_def split: option.splits)
  then show "cfx_inv (s\<lparr>snd_st := (snd_st s)\<lparr>the_cfx := conflux_update_rtt (the_cfx (snd_st s)) c rtt\<rparr>\<rparr>)"
    unfolding u using ids sq assms by (auto intro!: sender_inv)
qed

lemma sum_mset_mono: "finite A \<Longrightarrow> (\<And>x. x \<in> A \<Longrightarrow> f x \<subseteq># g x) \<Longrightarrow> sum f A \<subseteq># sum g A"
  by (induction rule: finite_induct) (auto intro: subset_mset.add_mono)

lemma receiver_circuits_inv:
  assumes inv: "cfx_inv s" and mono: "\<And>c. marked_for_close (circs (rcv_st s) c) \<Longrightarrow> marked_for_close (cs c)"
  shows "cfx_inv (s\<lparr>rcv_st := (rcv_st s)\<lparr>circs := cs\<rparr>\<rparr>)"
proof -
  define t where "t = s\<lparr>rcv_st := (rcv_st s)\<lparr>circs := cs\<rparr>\<rparr>"
  have same: "leg_ids (rcv_st t) = leg_ids (rcv_st s)" "the_cfx (rcv_st t) = the_cfx (rcv_st s)" "chan t = chan s"
    "sent_cells t = sent_cells s" "delivered_cells t = delivered_cells s" "snd_st t = snd_st s" "circs (rcv_st t) = cs"
    by (simp_all add: t_def leg_ids_def)
  have q: "queue (rcv_st t) = queue (rcv_st s)" "delivered_to (rcv_st t) = delivered_to (rcv_st s)"
    using same(2) by (simp_all add: queue_def delivered_to_def)
  have uw: "under_way t l \<subseteq># under_way s l" "\<not> marked_for_close (cs l) \<Longrightarrow> under_way t l = under_way s l"
    "leg_ok s l \<Longrightarrow> leg_ok t l" for l
    using mono [of l] by (auto simp: under_way_def leg_ok_def same)
  have "pending t \<subseteq># pending s" unfolding pending_def same(1) using uw(1) by (intro sum_mset_mono) simp_all
  then have "accounted t \<subseteq># accounted s" by (simp add: accounted_def rcv_same(2) [OF q] same(5))
  then have 1: "accounted t \<subseteq># numbered (sent_cells t)" using inv by (auto simp: cfx_inv_def same intro: subset_mset.order_trans)
  have 2: "accounted t = numbered (sent_cells t)" if "all_open t"
  proof -
    have "under_way t l = under_way s l" if "l \<in> set (leg_ids (rcv_st s))" for l
      using \<open>all_open t\<close> that uw(2) by (simp add: all_open_def same)
    then have "accounted t = accounted s" by (simp add: accounted_def pending_def rcv_same(2) [OF q] same(1,5))
    moreover have "all_open s" using that mono by (auto simp: all_open_def same)
    ultimately show ?thesis using inv by (simp add: cfx_inv_def same)
  qed
  have "cfx_inv t" using inv 1 2 uw(3) by (simp add: cfx_inv_def same rcv_same(1) [OF q] q(2))
  then show ?thesis by (simp add: t_def)
qed

lemma step_inv:
  assumes "cfx_step drain max_oooq s t" "cfx_inv s" "length (sent_cells t) < 2 ^ 64 - 1" "max_oooq < 2 ^ 31"
  shows "cfx_inv t"
  using assms(1)
proof cases
  case (send cmd orig_circ x)
  then show ?thesis using assms(3) by (intro sends_inv [OF assms(2)])
next
  case (receive l w ws enabled hint cells st)
  have "cfx_inv (received s st l ws cells)"
    using receives_inv [OF assms(2) receive(2,3,4) _ assms(4)] assms(3) receive(1) by simp
  then show ?thesis using receive(1) by (simp add: received_def)
next
  case (sender_circuits cs)
  then show ?thesis using circuits_inv(1) [OF assms(2)] by blast
next
  case (receiver_circuits cs)
  then show ?thesis using receiver_circuits_inv [OF assms(2)] by blast
next
  case (round_trip c rtt)
  then show ?thesis using circuits_inv(2) [OF assms(2)] by blast
qed

lemma step_sent: "cfx_step drain max_oooq s t \<Longrightarrow> length (sent_cells s) \<le> length (sent_cells t)"
  by (induction rule: cfx_step.induct) (auto simp: sends_def split: option.splits prod.splits if_splits)

lemma initial_inv:
  assumes "cfx_initial s"
  shows "cfx_inv s"
proof -
  have f: "fresh_set (snd_st s)" "fresh_set (rcv_st s)" "leg_ids (snd_st s) = leg_ids (rcv_st s)"
    "sent_cells s = []" "delivered_cells s = []" and ch: "\<And>l. chan s l = []"
    using assms by (simp_all add: cfx_initial_def)
  have sq: "seq_sent (the_cfx (snd_st s)) l = 0" "seq_recv (the_cfx (rcv_st s)) l = 0" for l
    using f(1,2) by (auto simp: fresh_set_def list_all_iff seq_sent_def seq_recv_def dest!: get_leg_circ split: option.splits)
  have "under_way s = (\<lambda>l. {#})" by (simp add: under_way_def ch fun_eq_iff)
  then have "accounted s = {#}" using f(2,5)
    by (simp add: accounted_def pending_def fresh_set_def queued_def numbered_def)
  moreover have "rcv_ok (rcv_st s)" using f(2)
    by (simp add: rcv_ok_def fresh_set_def pqueue_ok_def heap_ok_def idx_ok_def queue_small_def queued_def drained_def)
  ultimately show ?thesis using f ch sq
    by (simp add: cfx_inv_def leg_ok_def snd_ok_def fresh_set_def list_all_iff numbered_def)
qed

lemma reachable_inv:
  assumes "cfx_reachable drain max_oooq s0 s" "cfx_initial s0" "length (sent_cells s) < 2 ^ 64 - 1" "max_oooq < 2 ^ 31"
  shows "cfx_inv s"
  using assms(1,3)
proof (induction rule: cfx_reachable.induct)
  case start
  then show ?case using assms(2) initial_inv by blast
next
  case (more s t)
  then show ?case using step_sent [OF more(2)] step_inv [OF more(2) _ _ assms(4)] by simp
qed

lemma numbered_prefix:
  assumes "numbered xs \<subseteq># numbered ys"
  shows "prefix xs ys"
proof -
  have "length xs \<le> length ys" using size_mset_mono [OF assms] by simp
  moreover have "xs ! i = ys ! i" if i: "i < length xs" for i
  proof -
    have "(i + 1, xs ! i) \<in># numbered xs" using i by (auto simp: numbered_def in_set_enumerate_eq)
    then have "(i + 1, xs ! i) \<in># numbered ys" using assms by (rule mset_subset_eqD [rotated])
    then show ?thesis by (auto simp: numbered_def in_set_enumerate_eq)
  qed
  ultimately have "xs = take (length xs) ys" by (intro nth_equalityI) simp_all
  then show ?thesis by (metis take_is_prefix)
qed

lemma inv_prefix: "cfx_inv s \<Longrightarrow> prefix (delivered_cells s) (sent_cells s)"
  by (rule numbered_prefix) (auto simp: cfx_inv_def accounted_def intro: subset_mset.order_trans [OF mset_subset_eq_add_right])

lemma inv_complete:
  assumes inv: "cfx_inv s" and arr: "\<And>l. l \<in> set (leg_ids (rcv_st s)) \<Longrightarrow> \<not> marked_for_close (circs (rcv_st s) l) \<and> chan s l = []"
    and bound: "length (sent_cells s) < 2 ^ 64 - 1"
  shows "delivered_cells s = sent_cells s \<and> queued (rcv_st s) = {#}"
proof -
  let ?R = "rcv_st s" and ?d = "length (delivered_cells s)"
  have "pending s = {#}" using arr by (simp add: pending_def under_way_def)
  then have eq: "queued ?R + numbered (delivered_cells s) = numbered (sent_cells s)"
    using inv arr by (simp add: cfx_inv_def all_open_def accounted_def)
  have le: "?d \<le> length (sent_cells s)" using arg_cong [OF eq, of size] by simp
  have "?d = length (sent_cells s)"
  proof (rule ccontr)
    assume "?d \<noteq> length (sent_cells s)"
    then have "(?d + 1, sent_cells s ! ?d) \<in># numbered (sent_cells s)" using le by (auto simp: numbered_def in_set_enumerate_eq)
    moreover have "(?d + 1, sent_cells s ! ?d) \<notin># numbered (delivered_cells s)" by (auto simp: numbered_def in_set_enumerate_eq)
    ultimately have "(?d + 1, sent_cells s ! ?d) \<in># queued ?R" unfolding eq [symmetric] by simp
    then obtain c where c: "c \<in> set (pq_list (queue ?R))" "cell_seq c = ?d + 1" by (auto simp: queued_def)
    then obtain c0 cs where q: "pq_list (queue ?R) = c0 # cs" by (cases "pq_list (queue ?R)") auto
    obtain i where i: "i < length (pq_list (queue ?R))" "pq_list (queue ?R) ! i = c" using c(1) by (auto simp: in_set_conv_nth)
    have "conflux_queue_cmp c0 c \<le> 0"
      using conflux_pq.heap_root_min [of "pq_list (queue ?R)" i] i q inv by (simp add: cfx_inv_def rcv_ok_def pqueue_ok_def)
    then have "cell_seq c0 \<le> ?d + 1" using c(2) by (simp add: conflux_queue_cmp_def split: if_splits)
    moreover have "drained ?R" "delivered_to ?R = ?d" using inv by (simp_all add: cfx_inv_def rcv_ok_def)
    then have "cell_seq c0 \<noteq> ?d + 1" using q bound le by (simp add: drained_def)
    ultimately have old: "cell_seq c0 \<le> ?d" by simp
    have mem: "(cell_seq c0, cell_cell c0) \<in># queued ?R" using q by (simp add: queued_def)
    then have "(cell_seq c0, cell_cell c0) \<in># numbered (sent_cells s)" unfolding eq [symmetric] by simp
    then have "1 \<le> cell_seq c0" by (auto simp: numbered_def in_set_enumerate_eq)
    then have "(cell_seq c0, delivered_cells s ! (cell_seq c0 - 1)) \<in># numbered (delivered_cells s)"
      using old by (auto simp: numbered_def in_set_enumerate_eq)
    then have "{#(cell_seq c0, cell_cell c0)#} + {#(cell_seq c0, delivered_cells s ! (cell_seq c0 - 1))#}
        \<subseteq># queued ?R + numbered (delivered_cells s)"
      using mem by (intro subset_mset.add_mono) simp_all
    then show False unfolding eq using numbered_distinct by fastforce
  qed
  then show ?thesis using inv_prefix [OF inv] eq by (auto simp: prefix_def)
qed

subsection \<open>Properties\<close>

definition sample_circuit :: cfx_circuit where
  "sample_circuit =
     \<lparr>CIRCUIT_IS_ORIGIN = False, c_package_window = 1000, c_deliver_window = 1000,
      c_ccontrol = Some \<lparr>cc_sendme_inc = 31, cc_inflight = 0, cc_cwnd = 124, cc_in_slow_start = True\<rparr>,
      c_crypto = \<lparr>f_digest = [], b_digest = [], sendme_digest = []\<rparr>, sendme_last_digests = None,
      marked_for_close = False, circuit_blocked_on_n_chan = False, circuit_blocked_on_p_chan = False,
      has_n_chan = False, last_hop = None\<rparr>"

definition sample_leg :: "nat \<Rightarrow> nat \<Rightarrow> conflux_leg" where
  "sample_leg c rtt =
     \<lparr>leg_circ = c, last_seq_recv = 0, last_seq_sent = 0, circ_rtts_usec = rtt, linked_sent_usec = 0\<rparr>"

definition sample_set :: "nat cfx_state" where
  "sample_set =
     \<lparr>the_cfx = \<lparr>cfx_alg = CONFLUX_ALG_LOWRTT, cfx_legs = [sample_leg 1 90000, sample_leg 2 70000],
        ooo_q = \<lparr>pq_list = [], pq_idx = (\<lambda>x. - 1)\<rparr>, last_seq_delivered = 0, cells_until_switch = 0,
        curr_leg = None, prev_leg = None, in_full_teardown = False\<rparr>,
      circs = (\<lambda>c. sample_circuit), total_ooo_q_bytes = 0, next_addr = 0\<rparr>"

definition sample_conflux :: "nat cfx_sys" where
  "sample_conflux =
     \<lparr>snd_st = sample_set, rcv_st = sample_set, chan = (\<lambda>l. []), sent_cells = [], delivered_cells = []\<rparr>"

lemmas sample_conflux_defs = sample_conflux_def sample_set_def sample_leg_def sample_circuit_def

lemma sample_conflux_initial: "cfx_initial sample_conflux"
  by (simp add: sample_conflux_defs cfx_initial_def fresh_set_def leg_ids_def queue_def delivered_to_def)

text \<open>Running the system: sending a data cell, receiving from a leg, measuring a leg.\<close>

datatype 'c cfx_event = Send_Cell 'c | Receive_From nat | Measure_Leg nat nat

fun cfx_exec :: "nat \<Rightarrow> nat \<Rightarrow> 'c cfx_event \<Rightarrow> 'c cfx_sys \<Rightarrow> 'c cfx_sys option" where
  "cfx_exec drain_pct max_oooq (Send_Cell x) s = sends drain_pct 1 RELAY_COMMAND_DATA x s"
| "cfx_exec drain_pct max_oooq (Receive_From l) s =
     (case chan s l of
        [] \<Rightarrow> None
      | w # ws \<Rightarrow>
          if marked_for_close (circs (rcv_st s) l) then None
          else case receives_wire max_oooq True (rcv_st s) l None w of
            None \<Rightarrow> None
          | Some (cells, st) \<Rightarrow>
              Some (s\<lparr>rcv_st := st, chan := (chan s)(l := ws), delivered_cells := delivered_cells s @ cells\<rparr>))"
| "cfx_exec drain_pct max_oooq (Measure_Leg c rtt) s =
     Some (s\<lparr>snd_st := (snd_st s)\<lparr>the_cfx := conflux_update_rtt (the_cfx (snd_st s)) c rtt\<rparr>\<rparr>)"

fun cfx_run :: "nat \<Rightarrow> nat \<Rightarrow> 'c cfx_event list \<Rightarrow> 'c cfx_sys \<Rightarrow> 'c cfx_sys option" where
  "cfx_run drain_pct max_oooq [] s = Some s"
| "cfx_run drain_pct max_oooq (e # es) s =
     (case cfx_exec drain_pct max_oooq e s of None \<Rightarrow> None | Some s \<Rightarrow> cfx_run drain_pct max_oooq es s)"

lemma cfx_exec_step: "cfx_exec drain_pct max_oooq e s = Some t \<Longrightarrow> cfx_step drain_pct max_oooq s t"
proof (cases e)
  case (Send_Cell x)
  then show "cfx_exec drain_pct max_oooq e s = Some t \<Longrightarrow> cfx_step drain_pct max_oooq s t"
    using cfx_step.send [of RELAY_COMMAND_DATA] by (simp add: conflux_should_multiplex_def)
qed (auto intro: cfx_step.receive cfx_step.round_trip split: list.splits if_splits option.splits)

lemma cfx_run_reachable:
  "cfx_reachable drain_pct max_oooq s0 s \<Longrightarrow> cfx_run drain_pct max_oooq es s = Some t \<Longrightarrow> cfx_reachable drain_pct max_oooq s0 t"
  by (induction drain_pct max_oooq es s rule: cfx_run.induct)
    (auto intro: cfx_reachable.more cfx_exec_step split: option.splits)

text \<open>
  The sender starts on leg 2; then leg 1 becomes the faster one and the sender switches to it.  Leg 1
  delivers first, so that cell 43 waits in the out-of-order queue for cell 42.
\<close>

definition sample_switch :: "nat cfx_event list" where
  "sample_switch = [Send_Cell 42, Measure_Leg 1 20000, Send_Cell 43, Receive_From 1, Receive_From 1]"

lemmas sample_switch_eval = sample_switch_def sends_def conflux_decide_circ_for_send_def conflux_decide_next_circ_def
  conflux_pick_first_leg_def conflux_can_switch_def decide_by_alg_def conflux_decide_circ_lowrtt_def circuit_ready_to_send_def
  circuit_ccontrol_def conflux_get_leg_def conflux_should_multiplex_def sample_conflux_defs UINT64_MAX_def
  conflux_update_rtt_def update_leg_def conflux_send_switch_command_def conflux_note_cell_sent_def
  receives_wire_def conflux_process_switch_command_def conflux_validate_source_hop_def conflux_get_destination_hop_def
  conflux_cell_parse_switch_def process_multiplexed_def conflux_process_cell_def conflux_dequeue_cell_def
  RELAY_COMMAND_DATA_def SIZEOF_CONFLUX_CELL_def SIZEOF_CELL_def ntohl_def htonl_def
  smartlist_pqueue_add_def smartlist_pqueue_pop_def smartlist_add_def UPDATE_IDX_def UINT32_MAX_def

lemma sample_switch_waits:
  "\<exists>s. cfx_run 0 1000000 sample_switch sample_conflux = Some s \<and> sent_cells s = [42, 43] \<and> delivered_cells s = []
     \<and> length (pq_list (queue (rcv_st s))) = 1"
  by (simp add: sample_switch_eval queue_def Let_def sift_up.simps [of _ _ 0])

lemma sample_switch_midway:
  "\<exists>s. cfx_run 0 1000000 [Send_Cell 42, Measure_Leg 1 20000, Send_Cell 43, Receive_From 2] sample_conflux = Some s
     \<and> sent_cells s = [42, 43] \<and> delivered_cells s = [42]"
  by (simp add: sample_switch_eval Let_def)

lemma sample_switch_delivers:
  "\<exists>s. cfx_run 0 1000000 (sample_switch @ [Receive_From 2]) sample_conflux = Some s \<and> sent_cells s = [42, 43]
     \<and> list_all (\<lambda>l. \<not> marked_for_close (circs (rcv_st s) l) \<and> chan s l = []) (leg_ids (rcv_st s))"
  by (simp add: sample_switch_eval leg_ids_def Let_def sift_up.simps [of _ _ 0])

text \<open>
  C1: Conflux keeps the order of a stream: however the sender chooses and switches legs (as round-trip times and
  congestion windows change), however the legs' cells are delayed against each other, and whichever circuits are
  closed on the way, what the receiver has handed over is at every moment a prefix of the multiplexed
  cells sent: nothing is reordered, doubled, invented or skipped.
\<close>

theorem conflux_delivers_in_order:
  assumes "cfx_reachable drain_pct max_oooq s0 s" "cfx_initial s0" "length (sent_cells s) < 2 ^ 64 - 1" "max_oooq < 2 ^ 31"
  shows "prefix (delivered_cells s) (sent_cells s)"
  using inv_prefix [OF reachable_inv [OF assms]] .

theorem conflux_delivers_in_order_witness:
  "\<exists>s. cfx_reachable 0 1000000 sample_conflux s \<and> sent_cells s = [42, 43] \<and> delivered_cells s = [42]
     \<and> prefix (delivered_cells s) (sent_cells s)"
proof -
  obtain s where s: "cfx_run 0 1000000 [Send_Cell 42, Measure_Leg 1 20000, Send_Cell 43, Receive_From 2] sample_conflux = Some s"
    "sent_cells s = [42, 43]" "delivered_cells s = [42]" using sample_switch_midway by blast
  have r: "cfx_reachable 0 1000000 sample_conflux s" by (rule cfx_run_reachable [OF cfx_reachable.start s(1)])
  have "prefix (delivered_cells s) (sent_cells s)"
    by (rule conflux_delivers_in_order [OF r sample_conflux_initial]) (simp_all add: s(2))
  then show ?thesis using r s by blast
qed

text \<open>
  C15: Conflux loses nothing: once no cell is under way on any leg and no circuit of the set was closed, every
  multiplexed cell that was sent has been handed over, and the out-of-order queue is empty.
\<close>

theorem conflux_delivers_everything:
  assumes "cfx_reachable drain_pct max_oooq s0 s" "cfx_initial s0" "length (sent_cells s) < 2 ^ 64 - 1" "max_oooq < 2 ^ 31"
    and "list_all (\<lambda>l. \<not> marked_for_close (circs (rcv_st s) l) \<and> chan s l = []) (leg_ids (rcv_st s))"
  shows "delivered_cells s = sent_cells s \<and> pq_list (queue (rcv_st s)) = []"
  using inv_complete [OF reachable_inv [OF assms(1-4)] _ assms(3)] assms(5)
  by (simp add: list_all_iff queued_def)

theorem conflux_delivers_everything_witness:
  "\<exists>s. cfx_reachable 0 1000000 sample_conflux s \<and> sent_cells s = [42, 43] \<and> delivered_cells s = [42, 43]
     \<and> pq_list (queue (rcv_st s)) = []"
proof -
  obtain s where s: "cfx_run 0 1000000 (sample_switch @ [Receive_From 2]) sample_conflux = Some s" "sent_cells s = [42, 43]"
    "list_all (\<lambda>l. \<not> marked_for_close (circs (rcv_st s) l) \<and> chan s l = []) (leg_ids (rcv_st s))"
    using sample_switch_delivers by blast
  have r: "cfx_reachable 0 1000000 sample_conflux s" by (rule cfx_run_reachable [OF cfx_reachable.start s(1)])
  have "delivered_cells s = sent_cells s \<and> pq_list (queue (rcv_st s)) = []"
    by (rule conflux_delivers_everything [OF r sample_conflux_initial _ _ s(3)]) (simp_all add: s(2))
  then show ?thesis using r s(2) by auto
qed

text \<open>
  C39: Handling a multiplexed cell always ends without a failed assertion: with the out-of-order queue a heap whose
  length fits an int, the loop that dequeues cells runs out of cells to deliver within as many rounds as there are
  cells, and leaves the queue a heap.
\<close>

theorem conflux_receive_total:
  assumes "smartlist_pqueue_assert_ok conflux_queue_cmp (queue st)" "length (pq_list (queue st)) \<le> INT_MAX"
    and "next_addr st \<notin> cell_addr ` set (pq_list (queue st))"
  shows "\<exists>cells st'. process_multiplexed max_oooq st circ hint x = Some (cells, st')
    \<and> smartlist_pqueue_assert_ok conflux_queue_cmp (queue st')"
proof -
  obtain b st1 where pc: "conflux_process_cell max_oooq st circ hint x = (b, st1)"
    by (cases "conflux_process_cell max_oooq st circ hint x")
  have ok: "pqueue_ok conflux_queue_cmp (queue st)" using assms(1) by (simp add: pqueue_ok_assert)
  consider "\<not> b" "queue st1 = queue st" | "b" "queue st1 = queue st"
    | seq where "\<not> b"
      "queue st1 = smartlist_pqueue_add conflux_queue_cmp (queue st) \<lparr>cell_seq = seq, cell_addr = next_addr st, cell_cell = x\<rparr>"
    using pc by (auto simp: conflux_process_cell_def Let_def queue_def close_circ_def split: option.splits if_splits)
  then show ?thesis
  proof cases
    case 1
    then show ?thesis using pc ok by (simp add: process_multiplexed_def pqueue_ok_assert [symmetric])
  next
    case 2
    have "queue_ok st1" using 2(2) ok assms(2) by (simp add: queue_ok_def)
    from dequeue_loop_total [OF this, of "length (pq_list (ooo_q (the_cfx st1))) + 1" circ]
    show ?thesis using pc 2(1)
      by (auto simp: process_multiplexed_def queued_def queue_def queue_ok_def pqueue_ok_assert [symmetric]
          simp del: dequeue_loop.simps)
  next
    case 3
    have "\<lparr>cell_seq = seq, cell_addr = next_addr st, cell_cell = x\<rparr> \<notin> set (pq_list (queue st))"
      using assms(3) by force
    then show ?thesis using pc 3 conflux_pq.add_ok [OF ok]
      by (simp add: process_multiplexed_def pqueue_ok_assert [symmetric])
  qed
qed

theorem conflux_receive_total_witness:
  "\<exists>cells st'. process_multiplexed 1000000 sample_set 1 None 42 = Some (cells, st')"
  using conflux_receive_total [of sample_set 1000000 1 None 42]
  by (auto simp: sample_conflux_defs queue_def smartlist_pqueue_assert_ok_def)

text \<open>
  The assertion at the start of \<open>conflux_decide_circ_cwndrtt\<close> fails for every set that has legs, the
  only sets it is called for.
\<close>

theorem conflux_cwndrtt_aborts:
  "conflux_decide_circ_cwndrtt cs cfx = (if cfx_legs cfx = [] then Some None else None)"
  by (simp add: conflux_decide_circ_cwndrtt_def min_rtt_leg_def if_ready_def)

end
