(* ===== verification/Circuitmux.thy ===== *)
theory Circuitmux
  imports Prelude "HOL-Library.Monad_Syntax"
begin

text \<open>
  The circuit multiplexer of a channel (core/or/circuitmux.c): the circuits attached to it with their
  numbers of queued cells, the DESTROY cells that wait to be sent, and the choice of what to send next.
  The hash table is a map from pairs of a channel and a circuit ID.  A circuit is a number; \<open>circs\<close>
  gives its channels and IDs, which do not change while it is attached.  The scheduling policy is a
  record of callbacks, as in the code; a callback that is \<open>NULL\<close> there is one that does nothing here.
  Counters are of 32 bits, with the wrap-around written out.  \<open>None\<close> is a failed assertion.
\<close>

datatype cell_direction = CELL_DIRECTION_IN | CELL_DIRECTION_OUT

record mux_circuit =
  mc_n_chan :: "nat option"
  mc_n_circ_id :: nat
  mc_is_or :: bool
  mc_p_chan :: "nat option"
  mc_p_circ_id :: nat

record 'd circuit_muxinfo =
  mi_cell_count :: nat
  mi_direction :: cell_direction
  mi_policy_data :: 'd

record ('p, 'd) circuitmux_policy =
  alloc_circ_data :: "'p \<Rightarrow> nat \<Rightarrow> cell_direction \<Rightarrow> nat \<Rightarrow> 'd \<times> 'p"
  free_circ_data :: "'p \<Rightarrow> nat \<Rightarrow> 'd \<Rightarrow> 'p"
  notify_circ_active :: "'p \<Rightarrow> nat \<Rightarrow> 'd \<Rightarrow> 'p option"
  notify_circ_inactive :: "'p \<Rightarrow> nat \<Rightarrow> 'd \<Rightarrow> 'p option"
  notify_set_n_cells :: "'p \<Rightarrow> nat \<Rightarrow> 'd \<Rightarrow> nat \<Rightarrow> 'p option"
  notify_xmit_cells :: "'p \<Rightarrow> nat \<Rightarrow> 'd \<Rightarrow> nat \<Rightarrow> 'p option"
  pick_active_circuit :: "'p \<Rightarrow> nat option"

type_synonym mux_key = "nat \<times> nat"

record ('p, 'd) circuitmux =
  chanid_circid_map :: "mux_key \<Rightarrow> 'd circuit_muxinfo option"
  n_circuits :: nat
  n_active_circuits :: nat
  n_cells :: nat
  mux_policy_data :: 'p
  destroy_cell_queue :: "(nat \<times> nat) list"
  destroy_ctr :: int
  last_cell_was_destroy :: bool

definition add32 :: "nat \<Rightarrow> nat \<Rightarrow> nat" where "add32 a b = (a + b) mod 2 ^ 32"
definition sub32 :: "nat \<Rightarrow> nat \<Rightarrow> nat" where "sub32 a b = nat ((int a - int b) mod 2 ^ 32)"

definition circuitmux_alloc :: "'p \<Rightarrow> ('p, 'd) circuitmux" where
  "circuitmux_alloc p =
     \<lparr>chanid_circid_map = Map.empty, n_circuits = 0, n_active_circuits = 0, n_cells = 0, mux_policy_data = p,
      destroy_cell_queue = [], destroy_ctr = 0, last_cell_was_destroy = False\<rparr>"

subsection \<open>Finding a circuit\<close>

definition n_key :: "mux_circuit \<Rightarrow> mux_key option" where
  "n_key circ = map_option (\<lambda>chan. (chan, mc_n_circ_id circ)) (mc_n_chan circ)"

definition p_key :: "mux_circuit \<Rightarrow> mux_key option" where
  "p_key circ = (if mc_is_or circ then map_option (\<lambda>chan. (chan, mc_p_circ_id circ)) (mc_p_chan circ) else None)"

definition lookup_key :: "('p, 'd) circuitmux \<Rightarrow> mux_key option \<Rightarrow> 'd circuit_muxinfo option" where
  "lookup_key cmux k = Option.bind k (chanid_circid_map cmux)"

text \<open>The key of the entry; the outer option is the assertions on its direction.\<close>

definition circuitmux_find_map_entry :: "('p, 'd) circuitmux \<Rightarrow> mux_circuit \<Rightarrow> mux_key option option" where
  "circuitmux_find_map_entry cmux circ =
     (case lookup_key cmux (n_key circ) of
        Some ent \<Rightarrow> if mi_direction ent = CELL_DIRECTION_OUT then Some (n_key circ) else None
      | None \<Rightarrow>
          (case lookup_key cmux (p_key circ) of
             Some ent \<Rightarrow> if mi_direction ent = CELL_DIRECTION_IN then Some (p_key circ) else None
           | None \<Rightarrow> Some None))"

text \<open>With the assertion that there is one.\<close>

definition find_attached :: "('p, 'd) circuitmux \<Rightarrow> mux_circuit \<Rightarrow> (mux_key \<times> 'd circuit_muxinfo) option" where
  "find_attached cmux circ =
     do {
       k \<leftarrow> circuitmux_find_map_entry cmux circ;
       k \<leftarrow> k;
       ent \<leftarrow> chanid_circid_map cmux k;
       Some (k, ent)
     }"

definition circuitmux_attached_circuit_direction :: "('p, 'd) circuitmux \<Rightarrow> mux_circuit \<Rightarrow> cell_direction option" where
  "circuitmux_attached_circuit_direction cmux circ =
     do { (k, ent) \<leftarrow> find_attached cmux circ; Some (mi_direction ent) }"

definition circuitmux_is_circuit_attached :: "('p, 'd) circuitmux \<Rightarrow> mux_circuit \<Rightarrow> bool option" where
  "circuitmux_is_circuit_attached cmux circ =
     do { k \<leftarrow> circuitmux_find_map_entry cmux circ; Some (k \<noteq> None) }"

definition circuitmux_num_cells_for_circuit :: "('p, 'd) circuitmux \<Rightarrow> mux_circuit \<Rightarrow> nat option" where
  "circuitmux_num_cells_for_circuit cmux circ =
     do {
       k \<leftarrow> circuitmux_find_map_entry cmux circ;
       Some (case lookup_key cmux k of Some ent \<Rightarrow> mi_cell_count ent | None \<Rightarrow> 0)
     }"

definition circuitmux_is_circuit_active :: "('p, 'd) circuitmux \<Rightarrow> mux_circuit \<Rightarrow> bool option" where
  "circuitmux_is_circuit_active cmux circ =
     do {
       k \<leftarrow> circuitmux_find_map_entry cmux circ;
       Some (case lookup_key cmux k of Some ent \<Rightarrow> mi_cell_count ent > 0 | None \<Rightarrow> False)
     }"

definition circuitmux_num_cells :: "('p, 'd) circuitmux \<Rightarrow> nat" where
  "circuitmux_num_cells cmux = add32 (n_cells cmux) (length (destroy_cell_queue cmux))"

definition circuitmux_num_active_circuits :: "('p, 'd) circuitmux \<Rightarrow> nat" where
  "circuitmux_num_active_circuits cmux = n_active_circuits cmux"

definition circuitmux_num_circuits :: "('p, 'd) circuitmux \<Rightarrow> nat" where
  "circuitmux_num_circuits cmux = n_circuits cmux"

subsection \<open>Attaching and detaching\<close>

definition circuitmux_make_circuit_active ::
  "('p, 'd) circuitmux_policy \<Rightarrow> (nat \<Rightarrow> mux_circuit) \<Rightarrow> ('p, 'd) circuitmux \<Rightarrow> nat \<Rightarrow> ('p, 'd) circuitmux option" where
  "circuitmux_make_circuit_active P circs cmux circ =
     do {
       (k, ent) \<leftarrow> find_attached cmux (circs circ);
       p \<leftarrow> notify_circ_active P (mux_policy_data cmux) circ (mi_policy_data ent);
       Some (cmux\<lparr>mux_policy_data := p\<rparr>)
     }"

definition circuitmux_make_circuit_inactive ::
  "('p, 'd) circuitmux_policy \<Rightarrow> (nat \<Rightarrow> mux_circuit) \<Rightarrow> ('p, 'd) circuitmux \<Rightarrow> nat \<Rightarrow> ('p, 'd) circuitmux option" where
  "circuitmux_make_circuit_inactive P circs cmux circ =
     do {
       (k, ent) \<leftarrow> find_attached cmux (circs circ);
       p \<leftarrow> notify_circ_inactive P (mux_policy_data cmux) circ (mi_policy_data ent);
       Some (cmux\<lparr>mux_policy_data := p\<rparr>)
     }"

text \<open>\<open>cell_count\<close> is the length of the circuit's queue in that direction.\<close>

definition circuitmux_attach_circuit ::
  "('p, 'd) circuitmux_policy \<Rightarrow> (nat \<Rightarrow> mux_circuit) \<Rightarrow> ('p, 'd) circuitmux \<Rightarrow> nat \<Rightarrow> cell_direction \<Rightarrow> nat
     \<Rightarrow> ('p, 'd) circuitmux option" where
  "circuitmux_attach_circuit P circs cmux circ direction cell_count =
     (case (case direction of CELL_DIRECTION_OUT \<Rightarrow> n_key (circs circ) | CELL_DIRECTION_IN \<Rightarrow> p_key (circs circ)) of
        None \<Rightarrow> None
      | Some k \<Rightarrow>
          if snd k = 0 then None
          else case chanid_circid_map cmux k of
            Some ent \<Rightarrow>
              if mi_direction ent \<noteq> direction then None
              else do {
                cmux \<leftarrow>
                  (if mi_cell_count ent > 0 \<and> cell_count = 0
                   then circuitmux_make_circuit_inactive P circs
                     (cmux\<lparr>n_active_circuits := sub32 (n_active_circuits cmux) 1\<rparr>) circ
                   else if mi_cell_count ent = 0 \<and> cell_count > 0
                   then circuitmux_make_circuit_active P circs
                     (cmux\<lparr>n_active_circuits := add32 (n_active_circuits cmux) 1\<rparr>) circ
                   else Some cmux);
                Some (cmux\<lparr>n_cells := add32 (sub32 (n_cells cmux) (mi_cell_count ent)) cell_count,
                           chanid_circid_map := (chanid_circid_map cmux)(k \<mapsto> ent\<lparr>mi_cell_count := cell_count\<rparr>)\<rparr>)
              }
          | None \<Rightarrow>
              let (d, p) = alloc_circ_data P (mux_policy_data cmux) circ direction cell_count;
                  ent = \<lparr>mi_cell_count = cell_count, mi_direction = direction, mi_policy_data = d\<rparr>;
                  cmux = cmux\<lparr>chanid_circid_map := (chanid_circid_map cmux)(k \<mapsto> ent), mux_policy_data := p,
                              n_circuits := add32 (n_circuits cmux) 1\<rparr> in
              do {
                cmux \<leftarrow>
                  (if cell_count > 0
                   then circuitmux_make_circuit_active P circs
                     (cmux\<lparr>n_active_circuits := add32 (n_active_circuits cmux) 1\<rparr>) circ
                   else Some cmux);
                Some (cmux\<lparr>n_cells := add32 (n_cells cmux) cell_count\<rparr>)
              })"

text \<open>The entry found and the direction searched last.\<close>

definition detach_search :: "('p, 'd) circuitmux \<Rightarrow> mux_circuit \<Rightarrow> (mux_key \<times> 'd circuit_muxinfo) option \<times> cell_direction option" where
  "detach_search cmux circ =
     (case (Option.bind (n_key circ) (\<lambda>k. map_option (Pair k) (chanid_circid_map cmux k))) of
        Some e \<Rightarrow> (Some e, Some CELL_DIRECTION_OUT)
      | None \<Rightarrow>
          (case p_key circ of
             Some k \<Rightarrow> (map_option (Pair k) (chanid_circid_map cmux k), Some CELL_DIRECTION_IN)
           | None \<Rightarrow> (None, if n_key circ \<noteq> None then Some CELL_DIRECTION_OUT else None)))"

definition circuitmux_detach_circuit ::
  "('p, 'd) circuitmux_policy \<Rightarrow> (nat \<Rightarrow> mux_circuit) \<Rightarrow> ('p, 'd) circuitmux \<Rightarrow> nat \<Rightarrow> ('p, 'd) circuitmux option" where
  "circuitmux_detach_circuit P circs cmux circ =
     (case detach_search cmux (circs circ) of
        (_, None) \<Rightarrow> None
      | (None, Some dir) \<Rightarrow> Some cmux
      | (Some (k, ent), Some dir) \<Rightarrow>
          let cmux = cmux\<lparr>n_circuits := sub32 (n_circuits cmux) 1\<rparr> in
          do {
            cmux \<leftarrow>
              (if mi_cell_count ent > 0
               then circuitmux_make_circuit_inactive P circs
                 (cmux\<lparr>n_active_circuits := sub32 (n_active_circuits cmux) 1\<rparr>) circ
               else Some cmux);
            let cmux = cmux\<lparr>n_cells := sub32 (n_cells cmux) (mi_cell_count ent),
                            mux_policy_data := free_circ_data P (mux_policy_data cmux) circ (mi_policy_data ent)\<rparr>;
            if dir \<noteq> mi_direction ent then None
            else Some (cmux\<lparr>chanid_circid_map := (chanid_circid_map cmux)(k := None)\<rparr>)
          })"

subsection \<open>Cell counts\<close>

definition circuitmux_set_num_cells ::
  "('p, 'd) circuitmux_policy \<Rightarrow> (nat \<Rightarrow> mux_circuit) \<Rightarrow> ('p, 'd) circuitmux \<Rightarrow> nat \<Rightarrow> nat \<Rightarrow> ('p, 'd) circuitmux option" where
  "circuitmux_set_num_cells P circs cmux circ n =
     do {
       (k, ent) \<leftarrow> find_attached cmux (circs circ);
       let cmux = cmux\<lparr>n_cells := add32 (sub32 (n_cells cmux) (mi_cell_count ent)) n\<rparr>;
       p \<leftarrow> notify_set_n_cells P (mux_policy_data cmux) circ (mi_policy_data ent) n;
       let cmux = cmux\<lparr>mux_policy_data := p,
                       chanid_circid_map := (chanid_circid_map cmux)(k \<mapsto> ent\<lparr>mi_cell_count := n\<rparr>)\<rparr>;
       if mi_cell_count ent > 0 \<and> n = 0 then
         circuitmux_make_circuit_inactive P circs (cmux\<lparr>n_active_circuits := sub32 (n_active_circuits cmux) 1\<rparr>) circ
       else if mi_cell_count ent = 0 \<and> n > 0 then
         circuitmux_make_circuit_active P circs (cmux\<lparr>n_active_circuits := add32 (n_active_circuits cmux) 1\<rparr>) circ
       else Some cmux
     }"

definition circuitmux_clear_num_cells ::
  "('p, 'd) circuitmux_policy \<Rightarrow> (nat \<Rightarrow> mux_circuit) \<Rightarrow> ('p, 'd) circuitmux \<Rightarrow> nat \<Rightarrow> ('p, 'd) circuitmux option" where
  "circuitmux_clear_num_cells P circs cmux circ = circuitmux_set_num_cells P circs cmux circ 0"

definition circuitmux_notify_xmit_cells ::
  "('p, 'd) circuitmux_policy \<Rightarrow> (nat \<Rightarrow> mux_circuit) \<Rightarrow> ('p, 'd) circuitmux \<Rightarrow> nat \<Rightarrow> nat \<Rightarrow> ('p, 'd) circuitmux option" where
  "circuitmux_notify_xmit_cells P circs cmux circ n =
     (if n = 0 then Some cmux
      else do {
        (k, ent) \<leftarrow> find_attached cmux (circs circ);
        if \<not> n \<le> mi_cell_count ent then None
        else do {
          let cmux = cmux\<lparr>chanid_circid_map := (chanid_circid_map cmux)(k \<mapsto> ent\<lparr>mi_cell_count := mi_cell_count ent - n\<rparr>),
                          n_cells := sub32 (n_cells cmux) n\<rparr>;
          p \<leftarrow> notify_xmit_cells P (mux_policy_data cmux) circ (mi_policy_data ent) n;
          let cmux = cmux\<lparr>mux_policy_data := p\<rparr>;
          if mi_cell_count ent - n = 0 then
            circuitmux_make_circuit_inactive P circs (cmux\<lparr>n_active_circuits := sub32 (n_active_circuits cmux) 1\<rparr>) circ
          else Some cmux
        }
      })"

subsection \<open>What to send next\<close>

datatype mux_choice = Send_Destroy | Send_From nat | Send_Nothing

text \<open>The last branch covers a policy that picks no circuit although some are active.\<close>

definition circuitmux_get_first_active_circuit ::
  "('p, 'd) circuitmux_policy \<Rightarrow> ('p, 'd) circuitmux \<Rightarrow> (mux_choice \<times> ('p, 'd) circuitmux) option" where
  "circuitmux_get_first_active_circuit P cmux =
     (if destroy_cell_queue cmux \<noteq> [] \<and> (\<not> last_cell_was_destroy cmux \<or> n_active_circuits cmux = 0) then
        Some (Send_Destroy, cmux\<lparr>last_cell_was_destroy := True\<rparr>)
      else if n_active_circuits cmux > 0 then
        (if \<not> n_cells cmux > 0 then None
         else Some (case pick_active_circuit P (mux_policy_data cmux) of
             Some circ \<Rightarrow> Send_From circ
           | None \<Rightarrow> Send_Nothing, cmux\<lparr>last_cell_was_destroy := False\<rparr>))
      else if \<not> n_cells cmux = 0 \<or> destroy_cell_queue cmux \<noteq> [] then None
      else Some (Send_Nothing, cmux))"

definition circuitmux_append_destroy_cell :: "('p, 'd) circuitmux \<Rightarrow> nat \<Rightarrow> nat \<Rightarrow> ('p, 'd) circuitmux" where
  "circuitmux_append_destroy_cell cmux circ_id reason =
     cmux\<lparr>destroy_cell_queue := destroy_cell_queue cmux @ [(circ_id, reason)], destroy_ctr := destroy_ctr cmux + 1\<rparr>"

definition circuitmux_notify_xmit_destroy :: "('p, 'd) circuitmux \<Rightarrow> ('p, 'd) circuitmux" where
  "circuitmux_notify_xmit_destroy cmux = cmux\<lparr>destroy_ctr := destroy_ctr cmux - 1\<rparr>"

text \<open>
  The count that is returned, and whether the discrepancy is logged: \<open>in_use\<close> is
  \<open>circuit_id_in_use_on_channel\<close>.
\<close>

definition circuitmux_count_queued_destroy_cells :: "(nat \<Rightarrow> bool) \<Rightarrow> ('p, 'd) circuitmux \<Rightarrow> int \<times> bool" where
  "circuitmux_count_queued_destroy_cells in_use cmux =
     (let n_destroy_cells = destroy_ctr cmux;
          manual_total = int (length (destroy_cell_queue cmux));
          manual_total_in_map = int (length (filter (\<lambda>(circ_id, reason). in_use circ_id) (destroy_cell_queue cmux)))
      in (n_destroy_cells, n_destroy_cells \<noteq> manual_total \<or> n_destroy_cells \<noteq> manual_total_in_map))"

text \<open>
  One round of the loop of \<open>channel_flush_from_first_active_circuit\<close> (relay.c), without its statistics and
  without unblocking the streams of the circuit: a DESTROY cell, or one cell
  of the circuit that was picked, whose queue holds \<open>queue_len\<close> cells.  \<open>write_ok\<close> is what
  \<open>channel_write_packed_cell\<close> returns; when it fails the cell is lost and the multiplexer is not told.
\<close>

definition flush_one ::
  "('p, 'd) circuitmux_policy \<Rightarrow> (nat \<Rightarrow> mux_circuit) \<Rightarrow> (nat \<Rightarrow> nat) \<Rightarrow> bool \<Rightarrow> ('p, 'd) circuitmux
     \<Rightarrow> (mux_choice \<times> ('p, 'd) circuitmux) option" where
  "flush_one P circs queue_len write_ok cmux =
     do {
       (choice, cmux) \<leftarrow> circuitmux_get_first_active_circuit P cmux;
       case choice of
         Send_Destroy \<Rightarrow>
           (case destroy_cell_queue cmux of
              [] \<Rightarrow> None
            | dcell # rest \<Rightarrow>
                let cmux = cmux\<lparr>destroy_cell_queue := rest\<rparr> in
                Some (choice, if write_ok then circuitmux_notify_xmit_destroy cmux else cmux))
       | Send_Nothing \<Rightarrow> Some (choice, cmux)
       | Send_From circ \<Rightarrow>
           if queue_len circ = 0 then
             do { cmux \<leftarrow> circuitmux_set_num_cells P circs cmux circ 0; Some (choice, cmux) }
           else if \<not> write_ok then Some (choice, cmux)
           else do {
             cmux \<leftarrow> circuitmux_notify_xmit_cells P circs cmux circ 1;
             cmux \<leftarrow> circuitmux_set_num_cells P circs cmux circ (queue_len circ - 1);
             Some (choice, cmux)
           }
     }"

end
