(* ===== verification/Circuitmux_Props.thy ===== *)
theory Circuitmux_Props
  imports Circuitmux
begin

text \<open>
  What a circuit multiplexer keeps, whatever its policy: the locale \<open>policy_contract\<close> is what the code asks
  of the callbacks of a policy.  Inside it the counters are shown to be exact and no assertion of the
  multiplexer, of the policy or of the flushing loop to fail, in every state reached by the calls that the
  rest of the relay makes.
\<close>

declare split_paired_All [simp del] split_paired_Ex [simp del]

subsection \<open>Sums over the map\<close>

definition tot :: "(nat \<Rightarrow> nat) \<Rightarrow> (mux_key \<Rightarrow> 'd circuit_muxinfo option) \<Rightarrow> nat" where
  "tot f m = (\<Sum>k \<in> dom m. case m k of Some e \<Rightarrow> f (mi_cell_count e) | None \<Rightarrow> 0)"

abbreviation is_active :: "nat \<Rightarrow> nat" where "is_active n \<equiv> (if n > 0 then 1 else 0)"

lemma tot_empty [simp]: "tot f Map.empty = 0"
  by (simp add: tot_def)

lemma tot_remove:
  assumes "finite (dom m)" and "m k = Some e"
  shows "tot f m = f (mi_cell_count e) + tot f (m(k := None))"
proof -
  have "k \<in> dom m" using assms(2) by auto
  then have "tot f m = f (mi_cell_count e) + (\<Sum>j \<in> dom m - {k}. case m j of Some e \<Rightarrow> f (mi_cell_count e) | None \<Rightarrow> 0)"
    using assms by (simp add: tot_def sum.remove [OF assms(1)])
  also have "(\<Sum>j \<in> dom m - {k}. case m j of Some e \<Rightarrow> f (mi_cell_count e) | None \<Rightarrow> 0) = tot f (m(k := None))"
    unfolding tot_def by (rule sum.cong) auto
  finally show ?thesis .
qed

lemma tot_insert:
  assumes "finite (dom m)" and "m k = None"
  shows "tot f (m(k \<mapsto> e)) = f (mi_cell_count e) + tot f m"
proof -
  have "m = (m(k \<mapsto> e))(k := None)" using assms(2) by auto
  then show ?thesis using tot_remove [of "m(k \<mapsto> e)" k e f] assms(1) by simp
qed

lemma tot_update:
  assumes "finite (dom m)" and "m k = Some e"
  shows "tot f (m(k \<mapsto> e')) + f (mi_cell_count e) = tot f m + f (mi_cell_count e')"
  using tot_remove [of "m(k \<mapsto> e')" k e' f] tot_remove [OF assms, of f] assms(1) by simp

lemma tot_ge: "finite (dom m) \<Longrightarrow> m k = Some e \<Longrightarrow> f (mi_cell_count e) \<le> tot f m"
  using tot_remove [of m k e f] by simp

lemma tot_active_pos:
  assumes "finite (dom m)"
  shows "tot is_active m > 0 \<longleftrightarrow> (\<exists>k e. m k = Some e \<and> mi_cell_count e > 0)"
proof
  assume "tot is_active m > 0"
  then obtain k where "k \<in> dom m" "0 < (case m k of Some e \<Rightarrow> is_active (mi_cell_count e) | None \<Rightarrow> 0)"
    unfolding tot_def by (metis (no_types, lifting) bot_nat_0.not_eq_extremum sum.neutral)
  then show "\<exists>k e. m k = Some e \<and> mi_cell_count e > 0"
    by (cases "m k") (auto split: if_splits)
next
  assume "\<exists>k e. m k = Some e \<and> mi_cell_count e > 0"
  then obtain k e where "m k = Some e" "mi_cell_count e > 0" by blast
  then show "tot is_active m > 0" using tot_ge [OF assms, of k e is_active] by simp
qed

lemma tot_active_le: "tot is_active m \<le> tot (\<lambda>n. n) m"
  unfolding tot_def by (rule sum_mono) (simp split: option.splits)

subsection \<open>32-bit counters\<close>

lemma add32_mod: "add32 (a mod 2 ^ 32) b = (a + b) mod 2 ^ 32"
  by (simp add: add32_def mod_add_left_eq)

lemma sub32_mod: "b \<le> a \<Longrightarrow> sub32 (a mod 2 ^ 32) b = (a - b) mod 2 ^ 32"
proof -
  assume "b \<le> a"
  have "(int (a mod 2 ^ 32) - int b) mod 2 ^ 32 = int ((a - b) mod 2 ^ 32)"
    using \<open>b \<le> a\<close> by (simp add: zmod_int of_nat_diff mod_diff_left_eq)
  then show ?thesis by (simp add: sub32_def)
qed

lemma count32_update:
  assumes "old \<le> a" and "a' + old = a + new"
  shows "add32 (sub32 (a mod 2 ^ 32) old) new = a' mod 2 ^ 32"
proof -
  have "a' = a - old + new" using assms by linarith
  then show ?thesis using sub32_mod [OF assms(1)] add32_mod by metis
qed

subsection \<open>The circuits of a channel\<close>

text \<open>The key and direction of a circuit on the channel \<open>ch\<close>; none if both its sides are on it.\<close>

definition attach_key :: "nat \<Rightarrow> mux_circuit \<Rightarrow> (mux_key \<times> cell_direction) option" where
  "attach_key ch circ =
     (let p = mc_is_or circ \<and> mc_p_chan circ = Some ch in
      if mc_n_chan circ = Some ch then (if p then None else Some ((ch, mc_n_circ_id circ), CELL_DIRECTION_OUT))
      else if p then Some ((ch, mc_p_circ_id circ), CELL_DIRECTION_IN) else None)"

lemma attach_key_fst: "attach_key ch circ = Some ((c, i), dir) \<Longrightarrow> c = ch"
  by (auto simp: attach_key_def Let_def split: if_splits)

lemma find_attached_key:
  assumes "attach_key ch circ = Some (k, dir)" and "chanid_circid_map cmux k = Some e" and "mi_direction e = dir"
    and fst: "\<And>k. k \<in> dom (chanid_circid_map cmux) \<Longrightarrow> fst k = ch"
  shows "find_attached cmux circ = Some (k, e)"
proof -
  have "chanid_circid_map cmux (c, i) = None" if "c \<noteq> ch" for c i
    using fst [of "(c, i)"] that by (cases "chanid_circid_map cmux (c, i)") auto
  then show ?thesis
    using assms(1-3)
    by (cases "mc_n_chan circ"; cases "mc_p_chan circ")
       (auto simp: find_attached_def circuitmux_find_map_entry_def lookup_key_def n_key_def p_key_def
          attach_key_def Let_def split: if_splits)
qed


subsection \<open>The contract of a policy\<close>

text \<open>
  \<open>pinv p own A\<close>: \<open>own\<close> gives the circuits of the policy data that are allocated and \<open>A\<close> the data of the
  active circuits.  \<open>env\<close> is what the rest of the program may do to the policy's state between two calls
  (the clock).  Cells are only sent on the circuit that the policy picked.
\<close>

locale policy_contract =
  fixes P :: "('p, 'd) circuitmux_policy"
    and pinv :: "'p \<Rightarrow> ('d \<Rightarrow> nat option) \<Rightarrow> 'd set \<Rightarrow> bool"
    and env :: "'p \<Rightarrow> 'p \<Rightarrow> bool"
  assumes alloc: "pinv p own A \<Longrightarrow> alloc_circ_data P p circ dir n = (d, p') \<Longrightarrow>
      own d = None \<and> pinv p' (own(d \<mapsto> circ)) A"
    and free: "pinv p own A \<Longrightarrow> own d = Some circ \<Longrightarrow> d \<notin> A \<Longrightarrow> pinv (free_circ_data P p circ d) (own(d := None)) A"
    and active: "pinv p own A \<Longrightarrow> own d = Some circ \<Longrightarrow> d \<notin> A \<Longrightarrow>
      \<exists>p'. notify_circ_active P p circ d = Some p' \<and> pinv p' own (insert d A)"
    and inactive: "pinv p own A \<Longrightarrow> own d = Some circ \<Longrightarrow> d \<in> A \<Longrightarrow>
      \<exists>p'. notify_circ_inactive P p circ d = Some p' \<and> pinv p' own (A - {d})"
    and set_n: "pinv p own A \<Longrightarrow> own d = Some circ \<Longrightarrow>
      \<exists>p'. notify_set_n_cells P p circ d n = Some p' \<and> pinv p' own A"
    and xmit: "pinv p own A \<Longrightarrow> own d = Some circ \<Longrightarrow> d \<in> A \<Longrightarrow> inj_on own (dom own) \<Longrightarrow>
      pick_active_circuit P p = Some circ \<Longrightarrow> 0 < n \<Longrightarrow>
      \<exists>p'. notify_xmit_cells P p circ d n = Some p' \<and> pinv p' own A"
    and pick: "pinv p own A \<Longrightarrow> A \<noteq> {} \<Longrightarrow> \<exists>d \<in> A. own d = pick_active_circuit P p \<and> own d \<noteq> None"
    and env_ok: "env p p' \<Longrightarrow> pinv p own A \<Longrightarrow> pinv p' own A"

text \<open>The map and the policy agree: whose the entries are, and which are active.\<close>

definition map_ok ::
  "nat \<Rightarrow> (nat \<Rightarrow> mux_circuit) \<Rightarrow> (mux_key \<Rightarrow> 'd circuit_muxinfo option) \<Rightarrow> ('d \<Rightarrow> nat option) \<Rightarrow> bool" where
  "map_ok ch circs m own \<longleftrightarrow>
     finite (dom m)
     \<and> (\<forall>k e. m k = Some e \<longrightarrow>
          (\<exists>c. own (mi_policy_data e) = Some c \<and> attach_key ch (circs c) = Some (k, mi_direction e)))
     \<and> (\<forall>d c. own d = Some c \<longrightarrow> (\<exists>k e. m k = Some e \<and> mi_policy_data e = d))
     \<and> (\<forall>k e k' e'. m k = Some e \<longrightarrow> m k' = Some e' \<longrightarrow> mi_policy_data e = mi_policy_data e' \<longrightarrow> k = k')"

definition active_data :: "(mux_key \<Rightarrow> 'd circuit_muxinfo option) \<Rightarrow> 'd set" where
  "active_data m = {d. \<exists>k e. m k = Some e \<and> mi_cell_count e > 0 \<and> mi_policy_data e = d}"

definition counters_ok :: "('p, 'd) circuitmux \<Rightarrow> bool" where
  "counters_ok cmux \<longleftrightarrow>
     n_circuits cmux = card (dom (chanid_circid_map cmux)) mod 2 ^ 32
     \<and> n_active_circuits cmux = tot is_active (chanid_circid_map cmux) mod 2 ^ 32
     \<and> n_cells cmux = tot (\<lambda>n. n) (chanid_circid_map cmux) mod 2 ^ 32
     \<and> int (length (destroy_cell_queue cmux)) \<le> destroy_ctr cmux"

definition mux_ok ::
  "('p \<Rightarrow> ('d \<Rightarrow> nat option) \<Rightarrow> 'd set \<Rightarrow> bool) \<Rightarrow> nat \<Rightarrow> (nat \<Rightarrow> mux_circuit) \<Rightarrow> ('p, 'd) circuitmux \<Rightarrow> bool" where
  "mux_ok pinv ch circs cmux \<longleftrightarrow> counters_ok cmux \<and>
     (\<exists>own. map_ok ch circs (chanid_circid_map cmux) own
        \<and> pinv (mux_policy_data cmux) own (active_data (chanid_circid_map cmux)))"

lemma map_okD:
  assumes "map_ok ch circs m own"
  shows "finite (dom m)"
    and "m k = Some e \<Longrightarrow> \<exists>c. own (mi_policy_data e) = Some c \<and> attach_key ch (circs c) = Some (k, mi_direction e)"
    and "own d = Some c \<Longrightarrow> \<exists>k e. m k = Some e \<and> mi_policy_data e = d"
    and "m k = Some e \<Longrightarrow> m k' = Some e' \<Longrightarrow> mi_policy_data e = mi_policy_data e' \<Longrightarrow> k = k'"
  using assms unfolding map_ok_def by blast+

lemma map_ok_fst: "map_ok ch circs m own \<Longrightarrow> k \<in> dom m \<Longrightarrow> fst k = ch"
  using map_okD(2) attach_key_fst by (metis domD prod.collapse)

lemma map_ok_inj:
  assumes "map_ok ch circs m own"
  shows "inj_on own (dom own)"
proof (rule inj_onI)
  fix d d' assume "d \<in> dom own" "d' \<in> dom own" "own d = own d'"
  then obtain c where c: "own d = Some c" "own d' = Some c" by auto
  then obtain k e k' e' where e: "m k = Some e" "mi_policy_data e = d" "m k' = Some e'" "mi_policy_data e' = d'"
    using map_okD(3) [OF assms] by metis
  then have "k = k'" using map_okD(2) [OF assms] c by (metis fst_conv option.inject)
  then show "d = d'" using e by auto
qed

lemma map_ok_update:
  assumes "map_ok ch circs m own" and "m k = Some e"
  shows "map_ok ch circs (m(k \<mapsto> e\<lparr>mi_cell_count := n\<rparr>)) own"
  unfolding map_ok_def
proof (intro conjI allI impI)
  show "finite (dom (m(k \<mapsto> e\<lparr>mi_cell_count := n\<rparr>)))" using map_okD(1) [OF assms(1)] by simp
next
  fix k' e' assume "(m(k \<mapsto> e\<lparr>mi_cell_count := n\<rparr>)) k' = Some e'"
  then show "\<exists>c. own (mi_policy_data e') = Some c \<and> attach_key ch (circs c) = Some (k', mi_direction e')"
    using map_okD(2) [OF assms] map_okD(2) [OF assms(1), of k' e'] by (auto split: if_splits)
next
  fix d c assume "own d = Some c"
  then obtain k' e' where "m k' = Some e'" "mi_policy_data e' = d" using map_okD(3) [OF assms(1)] by blast
  then show "\<exists>k' e'. (m(k \<mapsto> e\<lparr>mi_cell_count := n\<rparr>)) k' = Some e' \<and> mi_policy_data e' = d"
    using assms(2) by (cases "k' = k") (auto)
next
  fix k' e' k'' e'' assume "(m(k \<mapsto> e\<lparr>mi_cell_count := n\<rparr>)) k' = Some e'"
    "(m(k \<mapsto> e\<lparr>mi_cell_count := n\<rparr>)) k'' = Some e''" "mi_policy_data e' = mi_policy_data e''"
  then show "k' = k''"
    using map_okD(4) [OF assms, of k''] map_okD(4) [OF assms, of k'] map_okD(4) [OF assms(1), of k' e' k e]
      map_okD(4) [OF assms(1), of k' e' k'' e''] by (auto split: if_splits)
qed

lemma active_data_iff:
  assumes "map_ok ch circs m own" and "m k = Some e"
  shows "mi_policy_data e \<in> active_data m \<longleftrightarrow> mi_cell_count e > 0"
proof
  assume "mi_policy_data e \<in> active_data m"
  then obtain k' e' where "m k' = Some e'" "mi_cell_count e' > 0" "mi_policy_data e' = mi_policy_data e"
    by (auto simp: active_data_def)
  then show "mi_cell_count e > 0" using map_okD(4) [OF assms(1), of k' e' k e] assms(2) by simp
next
  assume "mi_cell_count e > 0"
  then show "mi_policy_data e \<in> active_data m" using assms(2) by (auto simp: active_data_def)
qed

lemma active_data_update:
  assumes "map_ok ch circs m own" and "m k = Some e"
  shows "active_data (m(k \<mapsto> e\<lparr>mi_cell_count := n\<rparr>)) =
    (if n > 0 then insert (mi_policy_data e) (active_data m) else active_data m - {mi_policy_data e})"
proof (rule set_eqI)
  fix d
  let ?m = "m(k \<mapsto> e\<lparr>mi_cell_count := n\<rparr>)"
  note ok' = map_ok_update [OF assms, of n]
  show "d \<in> active_data ?m \<longleftrightarrow>
      d \<in> (if n > 0 then insert (mi_policy_data e) (active_data m) else active_data m - {mi_policy_data e})"
  proof (cases "d = mi_policy_data e")
    case True
    then show ?thesis using active_data_iff [OF ok', of k "e\<lparr>mi_cell_count := n\<rparr>"] by simp
  next
    case False
    then have "d \<in> active_data ?m \<longleftrightarrow> d \<in> active_data m"
      using assms(2) unfolding active_data_def mem_Collect_eq by (intro ex_cong1) auto
    with False show ?thesis by simp
  qed
qed

lemma map_ok_insert:
  assumes "map_ok ch circs m own" and "m k = None" and "own (mi_policy_data e) = None"
    and "attach_key ch (circs c) = Some (k, mi_direction e)"
  shows "map_ok ch circs (m(k \<mapsto> e)) (own(mi_policy_data e \<mapsto> c))"
  unfolding map_ok_def
proof (intro conjI allI impI)
  show "finite (dom (m(k \<mapsto> e)))" using map_okD(1) [OF assms(1)] by simp
next
  fix k' e' assume "(m(k \<mapsto> e)) k' = Some e'"
  then show "\<exists>c'. (own(mi_policy_data e \<mapsto> c)) (mi_policy_data e') = Some c'
      \<and> attach_key ch (circs c') = Some (k', mi_direction e')"
    using map_okD(2) [OF assms(1), of k' e'] assms(3,4) by (auto split: if_splits)
next
  fix d c' assume "(own(mi_policy_data e \<mapsto> c)) d = Some c'"
  then show "\<exists>k' e'. (m(k \<mapsto> e)) k' = Some e' \<and> mi_policy_data e' = d"
  proof (cases "d = mi_policy_data e")
    case False
    then obtain k' e' where "m k' = Some e'" "mi_policy_data e' = d"
      using \<open>(own(mi_policy_data e \<mapsto> c)) d = Some c'\<close> map_okD(3) [OF assms(1)] by fastforce
    then show ?thesis using assms(2) by (intro exI [of _ k'] exI [of _ e']) auto
  qed (auto intro: exI [of _ k])
next
  fix k' e' k'' e'' assume *: "(m(k \<mapsto> e)) k' = Some e'" "(m(k \<mapsto> e)) k'' = Some e''"
    "mi_policy_data e' = mi_policy_data e''"
  have "mi_policy_data e1 \<noteq> mi_policy_data e" if "m k1 = Some e1" for k1 e1
    using map_okD(2) [OF assms(1) that] assms(3) by auto
  from this [of k'] this [of k''] * show "k' = k''"
    using map_okD(4) [OF assms(1), of k' e' k'' e''] by (auto split: if_splits)
qed

lemma active_data_insert:
  assumes "m k = None"
  shows "active_data (m(k \<mapsto> e)) =
    (if mi_cell_count e > 0 then insert (mi_policy_data e) (active_data m) else active_data m)"
proof (rule set_eqI)
  fix d
  have "(\<exists>k' e'. (m(k \<mapsto> e)) k' = Some e' \<and> mi_cell_count e' > 0 \<and> mi_policy_data e' = d) \<longleftrightarrow>
      (mi_cell_count e > 0 \<and> mi_policy_data e = d) \<or> d \<in> active_data m" (is "?l \<longleftrightarrow> ?r")
  proof
    assume ?l
    then show ?r by (auto simp: active_data_def split: if_splits)
  next
    assume ?r
    then show ?l
    proof
      assume "mi_cell_count e > 0 \<and> mi_policy_data e = d"
      then show ?l by (intro exI [of _ k] exI [of _ e]) simp
    next
      assume "d \<in> active_data m"
      then obtain k' e' where "m k' = Some e'" "mi_cell_count e' > 0" "mi_policy_data e' = d"
        by (auto simp: active_data_def)
      then show ?l using assms by (intro exI [of _ k'] exI [of _ e']) auto
    qed
  qed
  then show "d \<in> active_data (m(k \<mapsto> e)) \<longleftrightarrow>
      d \<in> (if mi_cell_count e > 0 then insert (mi_policy_data e) (active_data m) else active_data m)"
    by (auto simp: active_data_def)
qed

lemma map_ok_remove:
  assumes "map_ok ch circs m own" and "m k = Some e"
  shows "map_ok ch circs (m(k := None)) (own(mi_policy_data e := None))"
  unfolding map_ok_def
proof (intro conjI allI impI)
  show "finite (dom (m(k := None)))" using map_okD(1) [OF assms(1)] by simp
next
  fix k' e' assume "(m(k := None)) k' = Some e'"
  then have "m k' = Some e'" "k' \<noteq> k" by (auto split: if_splits)
  moreover have "mi_policy_data e' \<noteq> mi_policy_data e" using map_okD(4) [OF assms(1)] calculation assms(2) by blast
  ultimately show "\<exists>c. (own(mi_policy_data e := None)) (mi_policy_data e') = Some c
      \<and> attach_key ch (circs c) = Some (k', mi_direction e')"
    using map_okD(2) [OF assms(1), of k' e'] by simp
next
  fix d c assume "(own(mi_policy_data e := None)) d = Some c"
  then have "own d = Some c" "d \<noteq> mi_policy_data e" by (auto split: if_splits)
  moreover obtain k' e' where "m k' = Some e'" "mi_policy_data e' = d"
    using map_okD(3) [OF assms(1) calculation(1)] by blast
  ultimately show "\<exists>k' e'. (m(k := None)) k' = Some e' \<and> mi_policy_data e' = d"
    using assms(2) by (intro exI [of _ k'] exI [of _ e']) auto
next
  fix k' e' k'' e'' assume "(m(k := None)) k' = Some e'" "(m(k := None)) k'' = Some e''"
    "mi_policy_data e' = mi_policy_data e''"
  then show "k' = k''" using map_okD(4) [OF assms(1), of k' e' k'' e''] by (auto split: if_splits)
qed

lemma active_data_remove:
  assumes "map_ok ch circs m own" and "m k = Some e"
  shows "active_data (m(k := None)) = active_data m - {mi_policy_data e}"
proof (rule set_eqI)
  fix d
  have "d \<in> active_data (m(k := None)) \<longleftrightarrow> d \<in> active_data m \<and> d \<noteq> mi_policy_data e"
  proof
    assume "d \<in> active_data (m(k := None))"
    then obtain k' e' where "m k' = Some e'" "k' \<noteq> k" "mi_cell_count e' > 0" "mi_policy_data e' = d"
      by (auto simp: active_data_def split: if_splits)
    then show "d \<in> active_data m \<and> d \<noteq> mi_policy_data e"
      using map_okD(4) [OF assms(1), of k' e' k e] assms(2) by (auto simp: active_data_def)
  next
    assume "d \<in> active_data m \<and> d \<noteq> mi_policy_data e"
    then obtain k' e' where e': "m k' = Some e'" "mi_cell_count e' > 0" "mi_policy_data e' = d" "d \<noteq> mi_policy_data e"
      by (auto simp: active_data_def)
    then have "(m(k := None)) k' = Some e'" using assms(2) by auto
    then show "d \<in> active_data (m(k := None))" using e' unfolding active_data_def by blast
  qed
  then show "d \<in> active_data (m(k := None)) \<longleftrightarrow> d \<in> active_data m - {mi_policy_data e}" by simp
qed

subsection \<open>The operations\<close>

text \<open>
  No two circuits have one ID on the channel, and none has both its sides on it: a relay refuses to extend a
  circuit back to its previous hop.
\<close>

definition keys_ok :: "nat \<Rightarrow> (nat \<Rightarrow> mux_circuit) \<Rightarrow> bool" where
  "keys_ok ch circs \<longleftrightarrow>
     (\<forall>c c' k dir dir'. attach_key ch (circs c) = Some (k, dir) \<longrightarrow> attach_key ch (circs c') = Some (k, dir') \<longrightarrow> c = c')
     \<and> (\<forall>c. \<not> (mc_n_chan (circs c) = Some ch \<and> mc_is_or (circs c) \<and> mc_p_chan (circs c) = Some ch))"

definition mux_attached :: "nat \<Rightarrow> (nat \<Rightarrow> mux_circuit) \<Rightarrow> ('p, 'd) circuitmux \<Rightarrow> nat \<Rightarrow> bool" where
  "mux_attached ch circs cmux c =
     (case attach_key ch (circs c) of Some (k, _) \<Rightarrow> chanid_circid_map cmux k \<noteq> None | None \<Rightarrow> False)"

text \<open>What an update of one entry's count does to the sums.\<close>

lemma active_down:
  assumes "finite (dom m)" and "m k = Some e" and "mi_cell_count e > 0"
  shows "sub32 (tot is_active m mod 2 ^ 32) 1 = tot is_active (m(k \<mapsto> e\<lparr>mi_cell_count := 0\<rparr>)) mod 2 ^ 32"
proof -
  let ?t = "tot is_active (m(k \<mapsto> e\<lparr>mi_cell_count := 0\<rparr>))"
  have "?t + 1 = tot is_active m"
    using tot_update [OF assms(1,2), of is_active "e\<lparr>mi_cell_count := 0\<rparr>"] assms(3) by simp
  then show ?thesis using sub32_mod [of 1 "tot is_active m"] by (metis add_diff_cancel_right' le_add2)
qed

lemma active_up:
  assumes "finite (dom m)" and "m k = Some e" and "mi_cell_count e = 0" and "n > 0"
  shows "add32 (tot is_active m mod 2 ^ 32) 1 = tot is_active (m(k \<mapsto> e\<lparr>mi_cell_count := n\<rparr>)) mod 2 ^ 32"
proof -
  have "tot is_active (m(k \<mapsto> e\<lparr>mi_cell_count := n\<rparr>)) = tot is_active m + 1"
    using tot_update [OF assms(1,2), of is_active "e\<lparr>mi_cell_count := n\<rparr>"] assms(3,4) by simp
  then show ?thesis by (metis add32_mod)
qed

lemma active_same:
  assumes "finite (dom m)" and "m k = Some e" and "mi_cell_count e = 0 \<longleftrightarrow> n = 0"
  shows "tot is_active (m(k \<mapsto> e\<lparr>mi_cell_count := n\<rparr>)) = tot is_active m"
  using tot_update [OF assms(1,2), of is_active "e\<lparr>mi_cell_count := n\<rparr>"] assms(3) by (simp split: if_splits)

lemma cells_update:
  assumes "finite (dom m)" and "m k = Some e"
  shows "add32 (sub32 (tot (\<lambda>n. n) m mod 2 ^ 32) (mi_cell_count e)) n =
    tot (\<lambda>n. n) (m(k \<mapsto> e\<lparr>mi_cell_count := n\<rparr>)) mod 2 ^ 32"
  by (rule count32_update) (use tot_update [OF assms, of "\<lambda>n. n"] tot_ge [OF assms, of "\<lambda>n. n"] in simp_all)

text \<open>The calls that the rest of the relay makes, and when it may.\<close>

datatype mux_op =
    Mux_attach nat cell_direction nat
  | Mux_detach nat
  | Mux_set_cells nat nat
  | Mux_append_destroy nat nat
  | Mux_flush "nat \<Rightarrow> nat" bool

primrec mux_exec ::
  "('p, 'd) circuitmux_policy \<Rightarrow> (nat \<Rightarrow> mux_circuit) \<Rightarrow> mux_op \<Rightarrow> ('p, 'd) circuitmux \<Rightarrow> ('p, 'd) circuitmux option" where
  "mux_exec P circs (Mux_attach c dir n) cmux = circuitmux_attach_circuit P circs cmux c dir n"
| "mux_exec P circs (Mux_detach c) cmux = circuitmux_detach_circuit P circs cmux c"
| "mux_exec P circs (Mux_set_cells c n) cmux = circuitmux_set_num_cells P circs cmux c n"
| "mux_exec P circs (Mux_append_destroy circ_id reason) cmux = Some (circuitmux_append_destroy_cell cmux circ_id reason)"
| "mux_exec P circs (Mux_flush queue_len write_ok) cmux = map_option snd (flush_one P circs queue_len write_ok cmux)"

primrec mux_allowed :: "nat \<Rightarrow> (nat \<Rightarrow> mux_circuit) \<Rightarrow> ('p, 'd) circuitmux \<Rightarrow> mux_op \<Rightarrow> bool" where
  "mux_allowed ch circs cmux (Mux_attach c dir n) =
     (case attach_key ch (circs c) of Some (k, dir') \<Rightarrow> dir' = dir \<and> snd k \<noteq> 0 | None \<Rightarrow> False)"
| "mux_allowed ch circs cmux (Mux_detach c) = (n_key (circs c) \<noteq> None \<or> p_key (circs c) \<noteq> None)"
| "mux_allowed ch circs cmux (Mux_set_cells c n) = mux_attached ch circs cmux c"
| "mux_allowed ch circs cmux (Mux_append_destroy circ_id reason) = True"
| "mux_allowed ch circs cmux (Mux_flush queue_len write_ok) = (tot (\<lambda>n. n) (chanid_circid_map cmux) < 2 ^ 32)"

text \<open>
  The states that are reached.  A circuit that is attached keeps its channels and IDs; the others change as
  they like.
\<close>

inductive mux_reach ::
  "('p, 'd) circuitmux_policy \<Rightarrow> ('p \<Rightarrow> 'p \<Rightarrow> bool) \<Rightarrow> 'p \<Rightarrow> nat \<Rightarrow> (nat \<Rightarrow> mux_circuit) \<Rightarrow> ('p, 'd) circuitmux \<Rightarrow> bool"
  for P env p ch where
  start: "keys_ok ch circs \<Longrightarrow> mux_reach P env p ch circs (circuitmux_alloc p)"
| op: "mux_reach P env p ch circs cmux \<Longrightarrow> mux_allowed ch circs cmux opn \<Longrightarrow> mux_exec P circs opn cmux = Some cmux'
    \<Longrightarrow> mux_reach P env p ch circs cmux'"
| circs: "mux_reach P env p ch circs cmux \<Longrightarrow> keys_ok ch circs' \<Longrightarrow>
    (\<forall>c. mux_attached ch circs cmux c \<longrightarrow> circs' c = circs c) \<Longrightarrow> mux_reach P env p ch circs' cmux"
| env: "mux_reach P env p ch circs cmux \<Longrightarrow> env (mux_policy_data cmux) q
    \<Longrightarrow> mux_reach P env p ch circs (cmux\<lparr>mux_policy_data := q\<rparr>)"

lemma mux_reach_keys: "mux_reach P env p ch circs cmux \<Longrightarrow> keys_ok ch circs"
  by (induction rule: mux_reach.induct) auto

context policy_contract
begin

text \<open>A notification reaches the policy with the data of the circuit's entry.\<close>

lemma find_own:
  assumes "map_ok ch circs (chanid_circid_map cmux) own" and "chanid_circid_map cmux k = Some e"
    and "own (mi_policy_data e) = Some c"
  shows "find_attached cmux (circs c) = Some (k, e)"
proof -
  have "attach_key ch (circs c) = Some (k, mi_direction e)"
    using map_okD(2) [OF assms(1,2)] assms(3) by auto
  then show ?thesis using find_attached_key map_ok_fst [OF assms(1)] assms(2) by metis
qed

lemma make_active:
  assumes "map_ok ch circs (chanid_circid_map cmux) own" and "chanid_circid_map cmux k = Some e"
    and "own (mi_policy_data e) = Some c" and "pinv (mux_policy_data cmux) own A" and "mi_policy_data e \<notin> A"
  shows "\<exists>p. circuitmux_make_circuit_active P circs cmux c = Some (cmux\<lparr>mux_policy_data := p\<rparr>)
    \<and> pinv p own (insert (mi_policy_data e) A)"
  using find_own [OF assms(1-3)] active [OF assms(4,3,5)]
  by (auto simp: circuitmux_make_circuit_active_def)

lemma make_inactive:
  assumes "map_ok ch circs (chanid_circid_map cmux) own" and "chanid_circid_map cmux k = Some e"
    and "own (mi_policy_data e) = Some c" and "pinv (mux_policy_data cmux) own A" and "mi_policy_data e \<in> A"
  shows "\<exists>p. circuitmux_make_circuit_inactive P circs cmux c = Some (cmux\<lparr>mux_policy_data := p\<rparr>)
    \<and> pinv p own (A - {mi_policy_data e})"
  using find_own [OF assms(1-3)] inactive [OF assms(4,3,5)]
  by (auto simp: circuitmux_make_circuit_inactive_def)

lemma set_num_cells_ok:
  assumes map: "map_ok ch circs (chanid_circid_map cmux) own" and e: "chanid_circid_map cmux k = Some e"
    and own: "own (mi_policy_data e) = Some c"
    and pol: "pinv (mux_policy_data cmux) own (active_data (chanid_circid_map cmux))"
    and ctr: "counters_ok cmux"
  shows "\<exists>cmux'. circuitmux_set_num_cells P circs cmux c n = Some cmux' \<and> counters_ok cmux'
    \<and> chanid_circid_map cmux' = (chanid_circid_map cmux)(k \<mapsto> e\<lparr>mi_cell_count := n\<rparr>)
    \<and> pinv (mux_policy_data cmux') own (active_data (chanid_circid_map cmux'))
    \<and> destroy_cell_queue cmux' = destroy_cell_queue cmux \<and> last_cell_was_destroy cmux' = last_cell_was_destroy cmux"
proof -
  let ?m = "chanid_circid_map cmux" and ?e = "e\<lparr>mi_cell_count := n\<rparr>"
  let ?m' = "?m(k \<mapsto> ?e)"
  note fin = map_okD(1) [OF map]
  note map' = map_ok_update [OF map e, of n]
  note act = active_data_update [OF map e, of n] active_data_iff [OF map e]
  have ctr': "n_circuits cmux = card (dom ?m') mod 2 ^ 32" "int (length (destroy_cell_queue cmux)) \<le> destroy_ctr cmux"
    "n_active_circuits cmux = tot is_active ?m mod 2 ^ 32"
    "add32 (sub32 (n_cells cmux) (mi_cell_count e)) n = tot (\<lambda>n. n) ?m' mod 2 ^ 32"
    using ctr e cells_update [OF fin e, of n] by (simp_all add: counters_ok_def insert_absorb domI)
  obtain p where p: "notify_set_n_cells P (mux_policy_data cmux) c (mi_policy_data e) n = Some p" "pinv p own (active_data ?m)"
    using set_n [OF pol own] by blast
  define mid where "mid = cmux\<lparr>n_cells := add32 (sub32 (n_cells cmux) (mi_cell_count e)) n, mux_policy_data := p,
                       chanid_circid_map := ?m'\<rparr>"
  have run: "circuitmux_set_num_cells P circs cmux c n =
      (if mi_cell_count e > 0 \<and> n = 0 then
         circuitmux_make_circuit_inactive P circs (mid\<lparr>n_active_circuits := sub32 (n_active_circuits cmux) 1\<rparr>) c
       else if mi_cell_count e = 0 \<and> n > 0 then
         circuitmux_make_circuit_active P circs (mid\<lparr>n_active_circuits := add32 (n_active_circuits cmux) 1\<rparr>) c
       else Some mid)"
    by (simp add: circuitmux_set_num_cells_def find_own [OF map e own] p mid_def Let_def)
  consider (down) "mi_cell_count e > 0" "n = 0" | (up) "mi_cell_count e = 0" "n > 0"
    | (same) "mi_cell_count e = 0 \<longleftrightarrow> n = 0" by (cases "n = 0") auto
  then show ?thesis
  proof cases
    case down
    let ?mid = "mid\<lparr>n_active_circuits := sub32 (n_active_circuits cmux) 1\<rparr>"
    obtain q where "circuitmux_make_circuit_inactive P circs ?mid c = Some (?mid\<lparr>mux_policy_data := q\<rparr>)"
      "pinv q own (active_data ?m - {mi_policy_data e})"
      using make_inactive [of ch circs ?mid own k ?e c "active_data ?m"] map' own p(2) act down by (auto simp: mid_def)
    then show ?thesis
      using run down ctr' act active_down [OF fin e] by (simp add: mid_def counters_ok_def)
  next
    case up
    let ?mid = "mid\<lparr>n_active_circuits := add32 (n_active_circuits cmux) 1\<rparr>"
    obtain q where "circuitmux_make_circuit_active P circs ?mid c = Some (?mid\<lparr>mux_policy_data := q\<rparr>)"
      "pinv q own (insert (mi_policy_data e) (active_data ?m))"
      using make_active [of ch circs ?mid own k ?e c "active_data ?m"] map' own p(2) act up by (auto simp: mid_def)
    then show ?thesis
      using run up ctr' act active_up [OF fin e, of n] by (simp add: mid_def counters_ok_def)
  next
    case same
    then have "active_data ?m' = active_data ?m" using act by (auto simp: insert_absorb)
    then show ?thesis
      using run same ctr' p(2) active_same [OF fin e same] by (auto simp: mid_def counters_ok_def)
  qed
qed

lemma xmit_ok:
  assumes map: "map_ok ch circs (chanid_circid_map cmux) own" and e: "chanid_circid_map cmux k = Some e"
    and own: "own (mi_policy_data e) = Some c"
    and pol: "pinv (mux_policy_data cmux) own (active_data (chanid_circid_map cmux))"
    and ctr: "counters_ok cmux" and pk: "pick_active_circuit P (mux_policy_data cmux) = Some c"
    and n: "0 < n" "n \<le> mi_cell_count e"
  shows "\<exists>cmux'. circuitmux_notify_xmit_cells P circs cmux c n = Some cmux' \<and> counters_ok cmux'
    \<and> chanid_circid_map cmux' = (chanid_circid_map cmux)(k \<mapsto> e\<lparr>mi_cell_count := mi_cell_count e - n\<rparr>)
    \<and> pinv (mux_policy_data cmux') own (active_data (chanid_circid_map cmux'))
    \<and> destroy_cell_queue cmux' = destroy_cell_queue cmux \<and> last_cell_was_destroy cmux' = last_cell_was_destroy cmux"
proof -
  let ?m = "chanid_circid_map cmux" and ?e = "e\<lparr>mi_cell_count := mi_cell_count e - n\<rparr>"
  let ?m' = "?m(k \<mapsto> ?e)"
  note fin = map_okD(1) [OF map]
  note map' = map_ok_update [OF map e, of "mi_cell_count e - n"]
  note act = active_data_update [OF map e, of "mi_cell_count e - n"] active_data_iff [OF map e]
  have pos: "mi_cell_count e > 0" using n by simp
  have "tot (\<lambda>n. n) ?m = tot (\<lambda>n. n) ?m' + n"
    using tot_update [OF fin e, of "\<lambda>n. n" ?e] n by simp
  then have "sub32 (n_cells cmux) n = tot (\<lambda>n. n) ?m' mod 2 ^ 32"
    using ctr sub32_mod [of n "tot (\<lambda>n. n) ?m"] by (metis add_diff_cancel_right' counters_ok_def le_add2)
  then have ctr': "n_circuits cmux = card (dom ?m') mod 2 ^ 32" "int (length (destroy_cell_queue cmux)) \<le> destroy_ctr cmux"
    "n_active_circuits cmux = tot is_active ?m mod 2 ^ 32" "sub32 (n_cells cmux) n = tot (\<lambda>n. n) ?m' mod 2 ^ 32"
    using ctr e by (simp_all add: counters_ok_def insert_absorb domI)
  have "mi_policy_data e \<in> active_data ?m" using act(2) pos by simp
  then obtain p where p: "notify_xmit_cells P (mux_policy_data cmux) c (mi_policy_data e) n = Some p" "pinv p own (active_data ?m)"
    using xmit [OF pol own _ map_ok_inj [OF map] pk n(1)] by blast
  define mid where "mid = cmux\<lparr>chanid_circid_map := ?m', n_cells := sub32 (n_cells cmux) n, mux_policy_data := p\<rparr>"
  have run: "circuitmux_notify_xmit_cells P circs cmux c n =
      (if mi_cell_count e - n = 0 then
         circuitmux_make_circuit_inactive P circs (mid\<lparr>n_active_circuits := sub32 (n_active_circuits cmux) 1\<rparr>) c
       else Some mid)"
    using n by (simp add: circuitmux_notify_xmit_cells_def find_own [OF map e own] p mid_def Let_def)
  show ?thesis
  proof (cases "mi_cell_count e - n = 0")
    case True
    let ?mid = "mid\<lparr>n_active_circuits := sub32 (n_active_circuits cmux) 1\<rparr>"
    obtain q where "circuitmux_make_circuit_inactive P circs ?mid c = Some (?mid\<lparr>mux_policy_data := q\<rparr>)"
      "pinv q own (active_data ?m - {mi_policy_data e})"
      using make_inactive [of ch circs ?mid own k ?e c "active_data ?m"] map' own p(2) act pos by (auto simp: mid_def)
    then show ?thesis
      using run True ctr' act active_down [OF fin e pos] by (simp add: mid_def counters_ok_def)
  next
    case False
    then have "active_data ?m' = active_data ?m" using act pos by (auto simp: insert_absorb)
    then show ?thesis
      using run False ctr' p(2) active_same [OF fin e, of "mi_cell_count e - n"] pos by (auto simp: mid_def counters_ok_def)
  qed
qed

lemma detach_ok:
  assumes map: "map_ok ch circs (chanid_circid_map cmux) own" and e: "chanid_circid_map cmux k = Some e"
    and own: "own (mi_policy_data e) = Some c"
    and pol: "pinv (mux_policy_data cmux) own (active_data (chanid_circid_map cmux))"
    and ctr: "counters_ok cmux"
  shows "\<exists>cmux'. circuitmux_detach_circuit P circs cmux c = Some cmux' \<and> counters_ok cmux'
    \<and> chanid_circid_map cmux' = (chanid_circid_map cmux)(k := None)
    \<and> pinv (mux_policy_data cmux') (own(mi_policy_data e := None)) (active_data (chanid_circid_map cmux'))"
proof -
  let ?m = "chanid_circid_map cmux"
  let ?m' = "?m(k := None)"
  note fin = map_okD(1) [OF map]
  note act = active_data_remove [OF map e] active_data_iff [OF map e]
  have key: "attach_key ch (circs c) = Some (k, mi_direction e)"
    using map_okD(2) [OF map e] own by auto
  have other: "?m (c', i) = None" if "c' \<noteq> ch" for c' i
    using map_ok_fst [OF map, of "(c', i)"] that by (cases "?m (c', i)") auto
  have search: "detach_search cmux (circs c) = (Some (k, e), Some (mi_direction e))"
    using key e other
    by (cases "mc_n_chan (circs c)"; cases "mc_p_chan (circs c)")
       (auto simp: detach_search_def n_key_def p_key_def attach_key_def Let_def split: if_splits)
  have card: "card (dom ?m) = Suc (card (dom ?m'))"
    using card_Suc_Diff1 [OF fin, of k] e by (simp add: domI del: card_Diff_insert)
  have tots: "tot f ?m = f (mi_cell_count e) + tot f ?m'" for f
    by (rule tot_remove [OF fin e])
  have ctr': "sub32 (n_circuits cmux) 1 = card (dom ?m') mod 2 ^ 32"
    "int (length (destroy_cell_queue cmux)) \<le> destroy_ctr cmux"
    "sub32 (n_cells cmux) (mi_cell_count e) = tot (\<lambda>n. n) ?m' mod 2 ^ 32"
    using ctr sub32_mod [of 1 "card (dom ?m)"] sub32_mod [of "mi_cell_count e" "tot (\<lambda>n. n) ?m"] card
      tots [of "\<lambda>n. n"] by (simp_all add: counters_ok_def del: dom_fun_upd)
  have act_ctr: "mi_cell_count e > 0 \<Longrightarrow> sub32 (n_active_circuits cmux) 1 = tot is_active ?m' mod 2 ^ 32"
    "mi_cell_count e = 0 \<Longrightarrow> n_active_circuits cmux = tot is_active ?m' mod 2 ^ 32"
    using ctr sub32_mod [of 1 "tot is_active ?m"] tots [of is_active] by (simp_all add: counters_ok_def)
  define mid where "mid = cmux\<lparr>n_circuits := sub32 (n_circuits cmux) 1\<rparr>"
  let ?mid = "mid\<lparr>n_active_circuits := sub32 (n_active_circuits cmux) 1\<rparr>"
  have "\<exists>q na. (if mi_cell_count e > 0 then circuitmux_make_circuit_inactive P circs ?mid c else Some mid) =
      Some (mid\<lparr>n_active_circuits := na, mux_policy_data := q\<rparr>) \<and> na = tot is_active ?m' mod 2 ^ 32
      \<and> pinv q own (active_data ?m')"
  proof (cases "mi_cell_count e > 0")
    case True
    obtain q where "circuitmux_make_circuit_inactive P circs ?mid c = Some (?mid\<lparr>mux_policy_data := q\<rparr>)"
      "pinv q own (active_data ?m - {mi_policy_data e})"
      using make_inactive [of ch circs ?mid own k e c "active_data ?m"] map e own pol act True by (auto simp: mid_def)
    then show ?thesis using True act act_ctr by auto
  next
    case False
    have "mid = mid\<lparr>n_active_circuits := n_active_circuits cmux, mux_policy_data := mux_policy_data cmux\<rparr>"
      by (simp add: mid_def)
    moreover have "active_data ?m' = active_data ?m" using act False by auto
    ultimately show ?thesis using False act_ctr pol by auto
  qed
  then obtain q na where q: "(if mi_cell_count e > 0 then circuitmux_make_circuit_inactive P circs ?mid c else Some mid) =
      Some (mid\<lparr>n_active_circuits := na, mux_policy_data := q\<rparr>)" "na = tot is_active ?m' mod 2 ^ 32"
      "pinv q own (active_data ?m')" by blast
  have "mi_policy_data e \<notin> active_data ?m'" using act by simp
  note freed = free [OF q(3) own this]
  define fin_step where "fin_step = (\<lambda>x :: ('p, 'd) circuitmux. x\<lparr>n_cells := sub32 (n_cells x) (mi_cell_count e),
     mux_policy_data := free_circ_data P (mux_policy_data x) c (mi_policy_data e),
     chanid_circid_map := (chanid_circid_map x)(k := None)\<rparr>)"
  have "circuitmux_detach_circuit P circs cmux c =
      Option.bind (if mi_cell_count e > 0 then circuitmux_make_circuit_inactive P circs ?mid c else Some mid)
        (\<lambda>x. Some (fin_step x))"
    unfolding circuitmux_detach_circuit_def search mid_def fin_step_def by (simp add: Let_def)
  also have "\<dots> = Some (fin_step (mid\<lparr>n_active_circuits := na, mux_policy_data := q\<rparr>))"
    by (simp only: q(1) bind.simps)
  finally show ?thesis
    using q freed ctr' by (simp add: mid_def fin_step_def counters_ok_def del: dom_fun_upd)
qed

lemma reattach_ok:
  assumes map: "map_ok ch circs (chanid_circid_map cmux) own" and e: "chanid_circid_map cmux k = Some e"
    and own: "own (mi_policy_data e) = Some c"
    and pol: "pinv (mux_policy_data cmux) own (active_data (chanid_circid_map cmux))"
    and ctr: "counters_ok cmux" and k: "snd k \<noteq> 0"
  shows "\<exists>cmux'. circuitmux_attach_circuit P circs cmux c (mi_direction e) n = Some cmux' \<and> counters_ok cmux'
    \<and> chanid_circid_map cmux' = (chanid_circid_map cmux)(k \<mapsto> e\<lparr>mi_cell_count := n\<rparr>)
    \<and> pinv (mux_policy_data cmux') own (active_data (chanid_circid_map cmux'))"
proof -
  let ?m = "chanid_circid_map cmux" and ?e = "e\<lparr>mi_cell_count := n\<rparr>"
  let ?m' = "?m(k \<mapsto> ?e)"
  note fin = map_okD(1) [OF map]
  note act = active_data_update [OF map e, of n] active_data_iff [OF map e]
  have key: "attach_key ch (circs c) = Some (k, mi_direction e)"
    using map_okD(2) [OF map e] own by auto
  then have side: "(case mi_direction e of CELL_DIRECTION_OUT \<Rightarrow> n_key (circs c) | CELL_DIRECTION_IN \<Rightarrow> p_key (circs c)) = Some k"
    by (auto simp: attach_key_def n_key_def p_key_def Let_def split: if_splits cell_direction.splits)
  have ctr': "n_circuits cmux = card (dom ?m') mod 2 ^ 32" "int (length (destroy_cell_queue cmux)) \<le> destroy_ctr cmux"
    "n_active_circuits cmux = tot is_active ?m mod 2 ^ 32"
    "add32 (sub32 (n_cells cmux) (mi_cell_count e)) n = tot (\<lambda>n. n) ?m' mod 2 ^ 32"
    using ctr e cells_update [OF fin e, of n] by (simp_all add: counters_ok_def insert_absorb domI)
  let ?down = "cmux\<lparr>n_active_circuits := sub32 (n_active_circuits cmux) 1\<rparr>"
  let ?up = "cmux\<lparr>n_active_circuits := add32 (n_active_circuits cmux) 1\<rparr>"
  let ?mid = "if mi_cell_count e > 0 \<and> n = 0 then circuitmux_make_circuit_inactive P circs ?down c
     else if mi_cell_count e = 0 \<and> n > 0 then circuitmux_make_circuit_active P circs ?up c else Some cmux"
  have "\<exists>q na. ?mid = Some (cmux\<lparr>n_active_circuits := na, mux_policy_data := q\<rparr>)
      \<and> na = tot is_active ?m' mod 2 ^ 32 \<and> pinv q own (active_data ?m')"
  proof -
    consider (down) "mi_cell_count e > 0" "n = 0" | (up) "mi_cell_count e = 0" "n > 0"
      | (same) "mi_cell_count e = 0 \<longleftrightarrow> n = 0" by (cases "n = 0") auto
    then show ?thesis
    proof cases
      case down
      then show ?thesis
        using make_inactive [of ch circs ?down own k e c "active_data ?m"] map e own pol act ctr'(3) active_down [OF fin e]
        by auto
    next
      case up
      then show ?thesis
        using make_active [of ch circs ?up own k e c "active_data ?m"] map e own pol act ctr'(3) active_up [OF fin e, of n]
        by auto
    next
      case same
      have "active_data ?m' = active_data ?m" using act same by (auto simp: insert_absorb)
      then show ?thesis using same ctr'(3) pol active_same [OF fin e same]
        by (intro exI [of _ "mux_policy_data cmux"] exI [of _ "n_active_circuits cmux"]) auto
    qed
  qed
  then obtain q na where q: "?mid = Some (cmux\<lparr>n_active_circuits := na, mux_policy_data := q\<rparr>)"
    "na = tot is_active ?m' mod 2 ^ 32" "pinv q own (active_data ?m')" by blast
  define fin_step where "fin_step = (\<lambda>x :: ('p, 'd) circuitmux.
     x\<lparr>n_cells := add32 (sub32 (n_cells x) (mi_cell_count e)) n,
       chanid_circid_map := (chanid_circid_map x)(k \<mapsto> ?e)\<rparr>)"
  have "circuitmux_attach_circuit P circs cmux c (mi_direction e) n = Option.bind ?mid (\<lambda>x. Some (fin_step x))"
    unfolding circuitmux_attach_circuit_def side fin_step_def using k e by simp
  also have "\<dots> = Some (fin_step (cmux\<lparr>n_active_circuits := na, mux_policy_data := q\<rparr>))"
    by (simp only: q(1) bind.simps)
  finally show ?thesis
    using q ctr' by (simp add: fin_step_def counters_ok_def del: dom_fun_upd)
qed

lemma attach_new_ok:
  assumes map: "map_ok ch circs (chanid_circid_map cmux) own" and k0: "chanid_circid_map cmux k = None"
    and key: "attach_key ch (circs c) = Some (k, dir)"
    and pol: "pinv (mux_policy_data cmux) own (active_data (chanid_circid_map cmux))"
    and ctr: "counters_ok cmux" and k: "snd k \<noteq> 0"
  shows "\<exists>cmux' e. circuitmux_attach_circuit P circs cmux c dir n = Some cmux' \<and> counters_ok cmux'
    \<and> chanid_circid_map cmux' = (chanid_circid_map cmux)(k \<mapsto> e) \<and> mi_cell_count e = n
    \<and> map_ok ch circs (chanid_circid_map cmux') (own(mi_policy_data e \<mapsto> c))
    \<and> pinv (mux_policy_data cmux') (own(mi_policy_data e \<mapsto> c)) (active_data (chanid_circid_map cmux'))"
proof -
  let ?m = "chanid_circid_map cmux"
  obtain d p where d: "alloc_circ_data P (mux_policy_data cmux) c dir n = (d, p)" by force
  note new = alloc [OF pol d]
  define e where "e = \<lparr>mi_cell_count = n, mi_direction = dir, mi_policy_data = d\<rparr>"
  let ?m' = "?m(k \<mapsto> e)"
  have map': "map_ok ch circs ?m' (own(d \<mapsto> c))"
    using map_ok_insert [OF map k0, of e c] new key by (simp add: e_def)
  note fin = map_okD(1) [OF map]
  have side: "(case dir of CELL_DIRECTION_OUT \<Rightarrow> n_key (circs c) | CELL_DIRECTION_IN \<Rightarrow> p_key (circs c)) = Some k"
    using key by (auto simp: attach_key_def n_key_def p_key_def Let_def split: if_splits cell_direction.splits)
  have tots: "tot f ?m' = f n + tot f ?m" for f
    using tot_insert [OF fin k0, of f e] by (simp add: e_def)
  have ctr': "add32 (n_circuits cmux) 1 = card (dom ?m') mod 2 ^ 32"
    "int (length (destroy_cell_queue cmux)) \<le> destroy_ctr cmux"
    "add32 (n_cells cmux) n = tot (\<lambda>n. n) ?m' mod 2 ^ 32"
    using ctr tots [of "\<lambda>n. n"] fin k0 add32_mod [of "card (dom ?m)" 1] add32_mod [of "tot (\<lambda>n. n) ?m" n]
    by (simp_all add: counters_ok_def domIff ac_simps)
  have act_ctr: "n > 0 \<Longrightarrow> add32 (n_active_circuits cmux) 1 = tot is_active ?m' mod 2 ^ 32"
    "n = 0 \<Longrightarrow> n_active_circuits cmux = tot is_active ?m' mod 2 ^ 32"
    using ctr tots [of is_active] add32_mod [of "tot is_active ?m" 1] by (simp_all add: counters_ok_def)
  have act: "active_data ?m' = (if n > 0 then insert d (active_data ?m) else active_data ?m)"
    using active_data_insert [of ?m k e] k0 by (simp add: e_def)
  have "d \<notin> active_data ?m"
  proof
    assume "d \<in> active_data ?m"
    then obtain k' e' where "?m k' = Some e'" "mi_policy_data e' = d" by (auto simp: active_data_def)
    then show False using map_okD(2) [OF map, of k' e'] new by auto
  qed
  define mid where "mid = cmux\<lparr>chanid_circid_map := ?m', mux_policy_data := p, n_circuits := add32 (n_circuits cmux) 1\<rparr>"
  let ?up = "mid\<lparr>n_active_circuits := add32 (n_active_circuits cmux) 1\<rparr>"
  let ?mid = "if n > 0 then circuitmux_make_circuit_active P circs ?up c else Some mid"
  have "\<exists>q na. ?mid = Some (mid\<lparr>n_active_circuits := na, mux_policy_data := q\<rparr>)
      \<and> na = tot is_active ?m' mod 2 ^ 32 \<and> pinv q (own(d \<mapsto> c)) (active_data ?m')"
  proof (cases "n > 0")
    case True
    then show ?thesis
      using make_active [of ch circs ?up "own(d \<mapsto> c)" k e c "active_data ?m"] map' new act act_ctr \<open>d \<notin> active_data ?m\<close>
      by (auto simp: mid_def e_def)
  next
    case False
    have "mid = mid\<lparr>n_active_circuits := n_active_circuits cmux, mux_policy_data := p\<rparr>" by (simp add: mid_def)
    then show ?thesis using False act act_ctr new by auto
  qed
  then obtain q na where q: "?mid = Some (mid\<lparr>n_active_circuits := na, mux_policy_data := q\<rparr>)"
    "na = tot is_active ?m' mod 2 ^ 32" "pinv q (own(d \<mapsto> c)) (active_data ?m')" by blast
  have "circuitmux_attach_circuit P circs cmux c dir n =
      Option.bind ?mid (\<lambda>x. Some (x\<lparr>n_cells := add32 (n_cells x) n\<rparr>))"
    unfolding circuitmux_attach_circuit_def side using k k0 by (simp add: d mid_def e_def Let_def)
  also have "\<dots> = Some (mid\<lparr>n_active_circuits := na, mux_policy_data := q, n_cells := add32 (n_cells mid) n\<rparr>)"
    by (simp only: q(1) bind.simps) simp
  finally show ?thesis
    using q ctr' map' by (intro exI [of _ "mid\<lparr>n_active_circuits := na, mux_policy_data := q, n_cells := add32 (n_cells mid) n\<rparr>"]
      exI [of _ e]) (simp add: mid_def counters_ok_def e_def del: dom_fun_upd)
qed

lemma entry_owner:
  assumes "map_ok ch circs m own" and "keys_ok ch circs" and "attach_key ch (circs c) = Some (k, dir)" and "m k = Some e"
  shows "own (mi_policy_data e) = Some c \<and> mi_direction e = dir"
proof -
  obtain c' where c': "own (mi_policy_data e) = Some c'" "attach_key ch (circs c') = Some (k, mi_direction e)"
    using map_okD(2) [OF assms(1,4)] by blast
  then have "c' = c" using assms(2,3) by (auto simp: keys_ok_def)
  then show ?thesis using c' assms(3) by simp
qed

text \<open>A circuit that is not attached: detaching it does nothing.\<close>

lemma detach_not_attached:
  assumes "map_ok ch circs (chanid_circid_map cmux) own" and "keys_ok ch circs" and "\<not> mux_attached ch circs cmux c"
    and "n_key (circs c) \<noteq> None \<or> p_key (circs c) \<noteq> None"
  shows "circuitmux_detach_circuit P circs cmux c = Some cmux"
proof -
  have other: "chanid_circid_map cmux (c', i) = None" if "c' \<noteq> ch" for c' i
    using map_ok_fst [OF assms(1), of "(c', i)"] that by (cases "chanid_circid_map cmux (c', i)") auto
  have "\<not> (mc_n_chan (circs c) = Some ch \<and> mc_is_or (circs c) \<and> mc_p_chan (circs c) = Some ch)"
    using assms(2) by (simp add: keys_ok_def)
  then obtain dir where "detach_search cmux (circs c) = (None, Some dir)"
    using assms(3,4) other
    by (cases "mc_n_chan (circs c)"; cases "mc_p_chan (circs c)"; cases "mc_is_or (circs c)")
       (auto simp: detach_search_def n_key_def p_key_def attach_key_def mux_attached_def Let_def split: if_splits)
  then show ?thesis by (simp add: circuitmux_detach_circuit_def)
qed

text \<open>One round of the flushing loop: what is chosen, and that the multiplexer stays in order.\<close>

lemma flush_one_ok:
  assumes ok: "mux_ok pinv ch circs cmux" and small: "tot (\<lambda>n. n) (chanid_circid_map cmux) < 2 ^ 32"
  shows "\<exists>choice cmux'. flush_one P circs queue_len write_ok cmux = Some (choice, cmux') \<and> mux_ok pinv ch circs cmux'
    \<and> (choice = Send_Destroy \<longleftrightarrow> destroy_cell_queue cmux \<noteq> []
         \<and> (\<not> last_cell_was_destroy cmux \<or> n_active_circuits cmux = 0))
    \<and> (choice = Send_Nothing \<longleftrightarrow> destroy_cell_queue cmux = [] \<and> n_active_circuits cmux = 0)
    \<and> (\<forall>c. choice = Send_From c \<longrightarrow> (\<exists>k dir e. attach_key ch (circs c) = Some (k, dir)
         \<and> chanid_circid_map cmux k = Some e \<and> mi_cell_count e > 0
         \<and> (queue_len c = 0 \<or> write_ok \<longrightarrow>
              chanid_circid_map cmux' = (chanid_circid_map cmux)(k \<mapsto> e\<lparr>mi_cell_count := queue_len c - 1\<rparr>))))
    \<and> (choice = Send_Nothing \<or> last_cell_was_destroy cmux' = (choice = Send_Destroy))"
proof -
  let ?m = "chanid_circid_map cmux"
  obtain own where map: "map_ok ch circs ?m own" and pol: "pinv (mux_policy_data cmux) own (active_data ?m)"
    and ctr: "counters_ok cmux" using ok by (auto simp: mux_ok_def)
  note fin = map_okD(1) [OF map]
  have n: "n_active_circuits cmux = tot is_active ?m" "n_cells cmux = tot (\<lambda>n. n) ?m"
    using ctr small tot_active_le [of ?m] by (simp_all add: counters_ok_def)
  have okI: "mux_ok pinv ch circs x" if "counters_ok x" "map_ok ch circs (chanid_circid_map x) own"
    "pinv (mux_policy_data x) own (active_data (chanid_circid_map x))" for x
    using that by (auto simp: mux_ok_def)
  consider (dest) "destroy_cell_queue cmux \<noteq> []" "\<not> last_cell_was_destroy cmux \<or> n_active_circuits cmux = 0"
    | (relay) "\<not> (destroy_cell_queue cmux \<noteq> [] \<and> (\<not> last_cell_was_destroy cmux \<or> n_active_circuits cmux = 0))"
        "n_active_circuits cmux > 0"
    | (none) "destroy_cell_queue cmux = []" "n_active_circuits cmux = 0" by auto
  then show ?thesis
  proof cases
    case dest
    then obtain dcell rest where q: "destroy_cell_queue cmux = dcell # rest" by (cases "destroy_cell_queue cmux") auto
    define x where "x = cmux\<lparr>last_cell_was_destroy := True, destroy_cell_queue := rest\<rparr>"
    have "flush_one P circs queue_len write_ok cmux =
        Some (Send_Destroy, if write_ok then circuitmux_notify_xmit_destroy x else x)"
      using dest q by (simp add: flush_one_def circuitmux_get_first_active_circuit_def x_def)
    moreover have "counters_ok (if write_ok then circuitmux_notify_xmit_destroy x else x)"
      using ctr q by (simp add: counters_ok_def circuitmux_notify_xmit_destroy_def x_def)
    ultimately show ?thesis
      using dest map pol by (auto simp: x_def circuitmux_notify_xmit_destroy_def intro!: okI)
  next
    case none
    then have "tot (\<lambda>n. n) ?m = 0"
      using none n tot_active_pos [OF fin] unfolding tot_def [of "\<lambda>n. n"]
      by (intro sum.neutral) (auto split: option.splits)
    then have "flush_one P circs queue_len write_ok cmux = Some (Send_Nothing, cmux)"
      using none n by (simp add: flush_one_def circuitmux_get_first_active_circuit_def)
    then show ?thesis using none ok by simp
  next
    case relay
    then have "active_data ?m \<noteq> {}" using n tot_active_pos [OF fin] by (auto simp: active_data_def)
    then obtain d where d: "d \<in> active_data ?m" "own d = pick_active_circuit P (mux_policy_data cmux)" "own d \<noteq> None"
      using pick [OF pol] by blast
    then obtain c k e where e: "own d = Some c" "?m k = Some e" "mi_policy_data e = d" "mi_cell_count e > 0"
      by (auto simp: active_data_def)
    have key: "attach_key ch (circs c) = Some (k, mi_direction e)" using map_okD(2) [OF map e(2)] e by auto
    define x where "x = cmux\<lparr>last_cell_was_destroy := False\<rparr>"
    have x: "map_ok ch circs (chanid_circid_map x) own" "chanid_circid_map x k = Some e"
      "own (mi_policy_data e) = Some c" "pinv (mux_policy_data x) own (active_data (chanid_circid_map x))" "counters_ok x"
      using map e pol ctr by (simp_all add: x_def counters_ok_def)
    have "tot is_active ?m > 0" using relay n by simp
    then have first: "circuitmux_get_first_active_circuit P cmux = Some (Send_From c, x)"
      using relay n tot_active_le [of ?m] trans [OF d(2) [symmetric] e(1)]
      by (auto simp: circuitmux_get_first_active_circuit_def x_def)
    have sel: "\<not> (destroy_cell_queue cmux \<noteq> [] \<and> (\<not> last_cell_was_destroy cmux \<or> n_active_circuits cmux = 0))"
      "\<not> (destroy_cell_queue cmux = [] \<and> n_active_circuits cmux = 0)" using relay by auto
    have "\<exists>cmux'. flush_one P circs queue_len write_ok cmux = Some (Send_From c, cmux') \<and> mux_ok pinv ch circs cmux'
        \<and> \<not> last_cell_was_destroy cmux' \<and> (queue_len c = 0 \<or> write_ok \<longrightarrow>
              chanid_circid_map cmux' = ?m(k \<mapsto> e\<lparr>mi_cell_count := queue_len c - 1\<rparr>))"
    proof -
      consider (empty) "queue_len c = 0" | (fail) "queue_len c > 0" "\<not> write_ok" | (sent) "queue_len c > 0" "write_ok"
        by auto
      then show ?thesis
      proof cases
        case empty
        obtain y where "circuitmux_set_num_cells P circs x c 0 = Some y" "counters_ok y"
          "chanid_circid_map y = ?m(k \<mapsto> e\<lparr>mi_cell_count := 0\<rparr>)"
          "pinv (mux_policy_data y) own (active_data (chanid_circid_map y))" "last_cell_was_destroy y = False"
          using set_num_cells_ok [OF x, of 0] by (auto simp: x_def)
        then show ?thesis using empty map_ok_update [OF map e(2), of 0] by (auto simp: flush_one_def first intro!: okI)
      next
        case fail
        then show ?thesis using x by (auto simp: flush_one_def first x_def intro!: okI)
      next
        case sent
        obtain y where y: "circuitmux_notify_xmit_cells P circs x c 1 = Some y" "counters_ok y"
          "chanid_circid_map y = ?m(k \<mapsto> e\<lparr>mi_cell_count := mi_cell_count e - 1\<rparr>)"
          "pinv (mux_policy_data y) own (active_data (chanid_circid_map y))" "last_cell_was_destroy y = False"
          using xmit_ok [OF x, of 1] d(2) e by (auto simp: x_def)
        have my: "map_ok ch circs (chanid_circid_map y) own"
          "chanid_circid_map y k = Some (e\<lparr>mi_cell_count := mi_cell_count e - 1\<rparr>)"
          "own (mi_policy_data (e\<lparr>mi_cell_count := mi_cell_count e - 1\<rparr>)) = Some c"
          using map_ok_update [OF map e(2), of "mi_cell_count e - 1"] x(3) by (simp_all add: y(3))
        obtain z where "circuitmux_set_num_cells P circs y c (queue_len c - 1) = Some z" "counters_ok z"
          "chanid_circid_map z = ?m(k \<mapsto> e\<lparr>mi_cell_count := queue_len c - 1\<rparr>)"
          "pinv (mux_policy_data z) own (active_data (chanid_circid_map z))" "last_cell_was_destroy z = False"
          using set_num_cells_ok [OF my y(4,2), of "queue_len c - 1"] y(3,5) by auto
        then show ?thesis
          using sent y(1) map_ok_update [OF map e(2), of "queue_len c - 1"] by (auto simp: flush_one_def first intro!: okI)
      qed
    qed
    then show ?thesis using sel e(2,4) key by auto
  qed
qed

lemma exec_ok:
  assumes ok: "mux_ok pinv ch circs cmux" and keys: "keys_ok ch circs" and allowed: "mux_allowed ch circs cmux opn"
  shows "\<exists>cmux'. mux_exec P circs opn cmux = Some cmux' \<and> mux_ok pinv ch circs cmux'"
proof -
  let ?m = "chanid_circid_map cmux"
  obtain own where map: "map_ok ch circs ?m own" and pol: "pinv (mux_policy_data cmux) own (active_data ?m)"
    and ctr: "counters_ok cmux" using ok by (auto simp: mux_ok_def)
  show ?thesis
  proof (cases opn)
    case (Mux_attach c dir n)
    then obtain k where k: "attach_key ch (circs c) = Some (k, dir)" "snd k \<noteq> 0"
      using allowed by (auto split: option.splits)
    show ?thesis
    proof (cases "?m k")
      case None
      then show ?thesis using attach_new_ok [OF map None k(1) pol ctr k(2), of n] Mux_attach
        unfolding mux_ok_def by fastforce
    next
      case (Some e)
      note own = entry_owner [OF map keys k(1) Some]
      then show ?thesis
        using reattach_ok [OF map Some _ pol ctr k(2), of c n] map_ok_update [OF map Some, of n] Mux_attach
        unfolding mux_ok_def by fastforce
    qed
  next
    case (Mux_detach c)
    show ?thesis
    proof (cases "mux_attached ch circs cmux c")
      case True
      then obtain k dir e where k: "attach_key ch (circs c) = Some (k, dir)" "?m k = Some e"
        by (auto simp: mux_attached_def split: option.splits)
      then have "own (mi_policy_data e) = Some c" using entry_owner [OF map keys] by blast
      then show ?thesis
        using detach_ok [OF map k(2) _ pol ctr, of c] map_ok_remove [OF map k(2)] Mux_detach
        unfolding mux_ok_def by fastforce
    next
      case False
      then show ?thesis using detach_not_attached [OF map keys False] allowed Mux_detach ok by simp
    qed
  next
    case (Mux_set_cells c n)
    then obtain k dir e where k: "attach_key ch (circs c) = Some (k, dir)" "?m k = Some e"
      using allowed by (auto simp: mux_attached_def split: option.splits)
    then have "own (mi_policy_data e) = Some c" using entry_owner [OF map keys] by blast
    then show ?thesis
      using set_num_cells_ok [OF map k(2) _ pol ctr, of c n] map_ok_update [OF map k(2), of n] Mux_set_cells
      unfolding mux_ok_def by fastforce
  next
    case (Mux_append_destroy circ_id reason)
    then show ?thesis
      using map pol ctr by (auto simp: mux_ok_def counters_ok_def circuitmux_append_destroy_cell_def)
  next
    case (Mux_flush queue_len write_ok)
    then show ?thesis using flush_one_ok [OF ok, of queue_len write_ok] allowed by auto
  qed
qed

lemma reach_ok:
  assumes "pinv p Map.empty {}" and "mux_reach P env p ch circs cmux"
  shows "mux_ok pinv ch circs cmux"
  using assms(2)
proof (induction rule: mux_reach.induct)
  case (start circs)
  show ?case
    using assms(1) by (auto simp: mux_ok_def counters_ok_def circuitmux_alloc_def map_ok_def active_data_def
      intro!: exI [of _ Map.empty])
next
  case (op circs cmux opn cmux')
  then show ?case using exec_ok [OF op.IH mux_reach_keys [OF op.hyps(1)] op.hyps(2)] by auto
next
  case (circs circs cmux circs')
  then obtain own where map: "map_ok ch circs (chanid_circid_map cmux) own"
    and pol: "pinv (mux_policy_data cmux) own (active_data (chanid_circid_map cmux))" and ctr: "counters_ok cmux"
    by (auto simp: mux_ok_def)
  have "\<exists>c. own (mi_policy_data e) = Some c \<and> attach_key ch (circs' c) = Some (k, mi_direction e)"
    if e: "chanid_circid_map cmux k = Some e" for k e
  proof -
    obtain c where c: "own (mi_policy_data e) = Some c" "attach_key ch (circs c) = Some (k, mi_direction e)"
      using map_okD(2) [OF map e] by blast
    then have "mux_attached ch circs cmux c" using e by (simp add: mux_attached_def)
    then show ?thesis using c circs.hyps by auto
  qed
  then have "map_ok ch circs' (chanid_circid_map cmux) own"
    using map unfolding map_ok_def by blast
  then show ?case using pol ctr by (auto simp: mux_ok_def)
next
  case (env circs cmux q)
  then show ?case using env_ok by (fastforce simp: mux_ok_def counters_ok_def)
qed

end

end
