(* ===== verification/Circuitmux_Ewma.thy ===== *)
theory Circuitmux_Ewma
  imports Circuitmux_Props Pqueue "HOL-Library.Signed_Division"
begin

text \<open>
  The policy of the circuit multiplexers, EWMA (core/or/circuitmux_ewma.c): each active circuit is in a
  priority queue, ordered by an average of the cells it sent lately that fades with time.  The per-circuit
  data is kept in a store of allocated blocks; their \<open>heap_index\<close> fields are the \<open>pq_idx\<close> of the queue.
  Doubles are an abstract type with the operations the code uses as a parameter, so that what is proved
  does not depend on rounding.  The clock, in milliseconds, and the tick globals are part of the state.
  \<open>None\<close> is a failed assertion or the use of a block that was freed.
\<close>

record 'f double_ops =
  d_zero :: 'f
  d_add :: "'f \<Rightarrow> 'f \<Rightarrow> 'f"
  d_mul :: "'f \<Rightarrow> 'f \<Rightarrow> 'f"
  d_div :: "'f \<Rightarrow> 'f \<Rightarrow> 'f"
  d_neg :: "'f \<Rightarrow> 'f"
  d_pow :: "'f \<Rightarrow> 'f \<Rightarrow> 'f"
  d_less :: "'f \<Rightarrow> 'f \<Rightarrow> bool"
  d_of_int :: "int \<Rightarrow> 'f"

record 'f ewma_circ_data =
  cd_circ :: nat
  cd_cell_count :: 'f
  cd_last_adjusted_tick :: nat
  cd_is_for_p_chan :: bool

record 'f ewma_state =
  ew_store :: "nat \<Rightarrow> 'f ewma_circ_data option"
  ew_next :: nat
  active_circuit_pqueue :: "nat pqueue"
  last_recalibrated :: nat
  ewma_scale_factor :: 'f
  ewma_tick_len :: int
  start_of_current_tick :: int
  current_tick_num :: nat
  ew_now :: int

definition int32_of :: "int \<Rightarrow> int" where "int32_of i = (i + 2 ^ 31) mod 2 ^ 32 - 2 ^ 31"
definition u32_of :: "int \<Rightarrow> nat" where "u32_of i = nat (i mod 2 ^ 32)"

subsection \<open>Ticks\<close>

definition cell_ewma_get_tick :: "'f ewma_state \<Rightarrow> nat" where
  "cell_ewma_get_tick st =
     (let msec_diff = int32_of (ew_now st - start_of_current_tick st)
      in u32_of (int (current_tick_num st) + msec_diff sdiv (1000 * ewma_tick_len st)))"

definition cell_ewma_get_current_tick_and_fraction ::
  "'f double_ops \<Rightarrow> 'f ewma_state \<Rightarrow> nat \<times> 'f \<times> 'f ewma_state" where
  "cell_ewma_get_current_tick_and_fraction D st =
     (let msec_diff = int32_of (ew_now st - start_of_current_tick st);
          tick_msec = 1000 * ewma_tick_len st;
          (msec_diff, st) =
            (if msec_diff > tick_msec then
               let ticks_difference = msec_diff sdiv tick_msec in
               (msec_diff smod tick_msec,
                st\<lparr>start_of_current_tick := start_of_current_tick st + ticks_difference * tick_msec,
                   current_tick_num := u32_of (int (current_tick_num st) + ticks_difference)\<rparr>)
             else (msec_diff, st))
      in (current_tick_num st, d_div D (d_of_int D msec_diff) (d_mul D (d_of_int D 1000) (d_of_int D (ewma_tick_len st))), st))"

definition ewma_alloc_cmux_data :: "'f ewma_state \<Rightarrow> 'f ewma_state" where
  "ewma_alloc_cmux_data st =
     st\<lparr>active_circuit_pqueue := (active_circuit_pqueue st)\<lparr>pq_list := []\<rparr>, last_recalibrated := cell_ewma_get_tick st\<rparr>"

subsection \<open>Scaling\<close>

text \<open>\<open>(int)(to_tick - from_tick)\<close>, which wraps around.\<close>

definition get_scale_factor :: "'f double_ops \<Rightarrow> 'f ewma_state \<Rightarrow> nat \<Rightarrow> nat \<Rightarrow> 'f" where
  "get_scale_factor D st from_tick to_tick =
     d_pow D (ewma_scale_factor st) (d_of_int D (int32_of (int to_tick - int from_tick)))"

definition scale_single_cell_ewma :: "'f double_ops \<Rightarrow> 'f ewma_state \<Rightarrow> nat \<Rightarrow> 'f ewma_circ_data \<Rightarrow> 'f ewma_circ_data" where
  "scale_single_cell_ewma D st cur_tick e =
     e\<lparr>cd_cell_count := d_mul D (cd_cell_count e) (get_scale_factor D st (cd_last_adjusted_tick e) cur_tick),
       cd_last_adjusted_tick := cur_tick\<rparr>"

fun scale_loop ::
  "'f double_ops \<Rightarrow> 'f \<Rightarrow> nat \<Rightarrow> nat \<Rightarrow> nat list \<Rightarrow> (nat \<Rightarrow> 'f ewma_circ_data option) \<Rightarrow> (nat \<Rightarrow> 'f ewma_circ_data option) option" where
  "scale_loop D factor last_tick cur_tick [] store = Some store"
| "scale_loop D factor last_tick cur_tick (d # ds) store =
     (case store d of
        None \<Rightarrow> None
      | Some e \<Rightarrow>
          if cd_last_adjusted_tick e \<noteq> last_tick then None
          else scale_loop D factor last_tick cur_tick ds
            (store(d \<mapsto> e\<lparr>cd_cell_count := d_mul D (cd_cell_count e) factor, cd_last_adjusted_tick := cur_tick\<rparr>)))"

definition scale_active_circuits :: "'f double_ops \<Rightarrow> 'f ewma_state \<Rightarrow> nat \<Rightarrow> 'f ewma_state option" where
  "scale_active_circuits D st cur_tick =
     (let factor = get_scale_factor D st (last_recalibrated st) cur_tick in
      map_option (\<lambda>store. st\<lparr>ew_store := store, last_recalibrated := cur_tick\<rparr>)
        (scale_loop D factor (last_recalibrated st) cur_tick (pq_list (active_circuit_pqueue st)) (ew_store st)))"

subsection \<open>The queue of active circuits\<close>

definition compare_cell_ewma_counts :: "'f double_ops \<Rightarrow> (nat \<Rightarrow> 'f ewma_circ_data option) \<Rightarrow> nat \<Rightarrow> nat \<Rightarrow> int" where
  "compare_cell_ewma_counts D store e1 e2 =
     (case (store e1, store e2) of
        (Some e1, Some e2) \<Rightarrow>
          if d_less D (cd_cell_count e1) (cd_cell_count e2) then - 1
          else if d_less D (cd_cell_count e2) (cd_cell_count e1) then 1 else 0
      | _ \<Rightarrow> 0)"

definition add_cell_ewma :: "'f double_ops \<Rightarrow> 'f ewma_state \<Rightarrow> nat \<Rightarrow> 'f ewma_state option" where
  "add_cell_ewma D st d =
     (case ew_store st d of
        None \<Rightarrow> None
      | Some e \<Rightarrow>
          if pq_idx (active_circuit_pqueue st) d \<noteq> - 1 then None
          else let store = (ew_store st)(d \<mapsto> scale_single_cell_ewma D st (last_recalibrated st) e) in
            Some (st\<lparr>ew_store := store,
              active_circuit_pqueue :=
                smartlist_pqueue_add (compare_cell_ewma_counts D store) (active_circuit_pqueue st) d\<rparr>))"

definition remove_cell_ewma :: "'f double_ops \<Rightarrow> 'f ewma_state \<Rightarrow> nat \<Rightarrow> 'f ewma_state option" where
  "remove_cell_ewma D st d =
     (if pq_idx (active_circuit_pqueue st) d = - 1 then None
      else map_option (\<lambda>q. st\<lparr>active_circuit_pqueue := q\<rparr>)
        (smartlist_pqueue_remove (compare_cell_ewma_counts D (ew_store st)) (active_circuit_pqueue st) d))"

definition pop_first_cell_ewma :: "'f double_ops \<Rightarrow> 'f ewma_state \<Rightarrow> (nat \<times> 'f ewma_state) option" where
  "pop_first_cell_ewma D st =
     map_option (\<lambda>(d, q). (d, st\<lparr>active_circuit_pqueue := q\<rparr>))
       (smartlist_pqueue_pop (compare_cell_ewma_counts D (ew_store st)) (active_circuit_pqueue st))"

subsection \<open>The callbacks\<close>

definition ewma_alloc_circ_data ::
  "'f double_ops \<Rightarrow> 'f ewma_state \<Rightarrow> nat \<Rightarrow> cell_direction \<Rightarrow> nat \<Rightarrow> nat \<times> 'f ewma_state" where
  "ewma_alloc_circ_data D st circ direction cell_count =
     (let d = ew_next st in
      (d, st\<lparr>ew_store := (ew_store st)(d \<mapsto>
               \<lparr>cd_circ = circ, cd_cell_count = d_zero D, cd_last_adjusted_tick = cell_ewma_get_tick st,
                cd_is_for_p_chan = (direction = CELL_DIRECTION_IN)\<rparr>),
             ew_next := Suc d,
             active_circuit_pqueue := (active_circuit_pqueue st)\<lparr>pq_idx := (pq_idx (active_circuit_pqueue st))(d := - 1)\<rparr>\<rparr>))"

definition ewma_free_circ_data :: "'f ewma_state \<Rightarrow> nat \<Rightarrow> nat \<Rightarrow> 'f ewma_state" where
  "ewma_free_circ_data st circ d = st\<lparr>ew_store := (ew_store st)(d := None)\<rparr>"

definition ewma_notify_circ_active :: "'f double_ops \<Rightarrow> 'f ewma_state \<Rightarrow> nat \<Rightarrow> nat \<Rightarrow> 'f ewma_state option" where
  "ewma_notify_circ_active D st circ d = add_cell_ewma D st d"

definition ewma_notify_circ_inactive :: "'f double_ops \<Rightarrow> 'f ewma_state \<Rightarrow> nat \<Rightarrow> nat \<Rightarrow> 'f ewma_state option" where
  "ewma_notify_circ_inactive D st circ d = remove_cell_ewma D st d"

definition ewma_notify_xmit_cells :: "'f double_ops \<Rightarrow> 'f ewma_state \<Rightarrow> nat \<Rightarrow> nat \<Rightarrow> nat \<Rightarrow> 'f ewma_state option" where
  "ewma_notify_xmit_cells D st circ d n =
     (if n = 0 then None
      else let (tick, fractional_tick, st) = cell_ewma_get_current_tick_and_fraction D st in
      do {
        st \<leftarrow> (if tick \<noteq> last_recalibrated st then scale_active_circuits D st tick else Some st);
        let ewma_increment = d_mul D (d_of_int D (int n)) (d_pow D (ewma_scale_factor st) (d_neg D fractional_tick));
        e \<leftarrow> ew_store st d;
        let st = st\<lparr>ew_store := (ew_store st)(d \<mapsto> e\<lparr>cd_cell_count := d_add D (cd_cell_count e) ewma_increment\<rparr>)\<rparr>;
        (tmp, st) \<leftarrow> pop_first_cell_ewma D st;
        if tmp \<noteq> d then None else add_cell_ewma D st d
      })"

definition ewma_pick_active_circuit :: "'f ewma_state \<Rightarrow> nat option" where
  "ewma_pick_active_circuit st =
     (if pq_list (active_circuit_pqueue st) \<noteq> []
      then map_option cd_circ (ew_store st (pq_list (active_circuit_pqueue st) ! 0)) else None)"

text \<open>Two multiplexers of one relay, with their identities: their blocks are in one store here.\<close>

definition ewma_cmp_cmux ::
  "'f double_ops \<Rightarrow> (nat \<Rightarrow> 'f ewma_circ_data option) \<Rightarrow> nat \<times> nat list \<Rightarrow> nat \<times> nat list \<Rightarrow> int" where
  "ewma_cmp_cmux D store p1 p2 =
     (if fst p1 \<noteq> fst p2 then
        (case (snd p1, snd p2) of
           (ce1 # _, ce2 # _) \<Rightarrow> compare_cell_ewma_counts D store ce1 ce2
         | (_ # _, []) \<Rightarrow> - 1
         | ([], _ # _) \<Rightarrow> 1
         | ([], []) \<Rightarrow> 0)
      else 0)"

definition ewma_policy :: "'f double_ops \<Rightarrow> ('f ewma_state, nat) circuitmux_policy" where
  "ewma_policy D =
     \<lparr>alloc_circ_data = ewma_alloc_circ_data D, free_circ_data = ewma_free_circ_data,
      notify_circ_active = ewma_notify_circ_active D, notify_circ_inactive = ewma_notify_circ_inactive D,
      notify_set_n_cells = \<lambda>st _ _ _. Some st, notify_xmit_cells = ewma_notify_xmit_cells D,
      pick_active_circuit = ewma_pick_active_circuit\<rparr>"

subsection \<open>What the policy keeps\<close>

definition ewma_ok :: "'f ewma_state \<Rightarrow> (nat \<Rightarrow> nat option) \<Rightarrow> nat set \<Rightarrow> bool" where
  "ewma_ok st own A \<longleftrightarrow>
     own = map_option cd_circ \<circ> ew_store st
     \<and> idx_ok (active_circuit_pqueue st) \<and> set (pq_list (active_circuit_pqueue st)) = A
     \<and> A \<subseteq> dom (ew_store st) \<and> (\<forall>d \<in> dom (ew_store st). d < ew_next st)
     \<and> (\<forall>d. d \<notin> A \<longrightarrow> d \<in> dom (ew_store st) \<longrightarrow> pq_idx (active_circuit_pqueue st) d = - 1)
     \<and> (\<forall>d e. d \<in> A \<longrightarrow> ew_store st d = Some e \<longrightarrow> cd_last_adjusted_tick e = last_recalibrated st)"

lemma ewma_okD:
  assumes "ewma_ok st own A"
  shows "own = map_option cd_circ \<circ> ew_store st"
    and "idx_ok (active_circuit_pqueue st)" and "set (pq_list (active_circuit_pqueue st)) = A"
    and "A \<subseteq> dom (ew_store st)" and "d \<in> dom (ew_store st) \<Longrightarrow> d < ew_next st"
    and "d \<notin> A \<Longrightarrow> d \<in> dom (ew_store st) \<Longrightarrow> pq_idx (active_circuit_pqueue st) d = - 1"
    and "d \<in> A \<Longrightarrow> ew_store st d = Some e \<Longrightarrow> cd_last_adjusted_tick e = last_recalibrated st"
  using assms unfolding ewma_ok_def by blast+

lemma ewma_alloc_ok:
  assumes "ewma_ok st own A" and "ewma_alloc_circ_data D st circ dir n = (d, st')"
  shows "own d = None \<and> ewma_ok st' (own(d \<mapsto> circ)) A"
proof -
  have d: "d = ew_next st" using assms(2) by (auto simp: ewma_alloc_circ_data_def Let_def)
  have new: "d \<notin> dom (ew_store st)" using ewma_okD(5) [OF assms(1), of d] d by auto
  then have "d \<notin> set (pq_list (active_circuit_pqueue st))" using ewma_okD(3,4) [OF assms(1)] by auto
  then have "\<forall>i < length (pq_list (active_circuit_pqueue st)). pq_list (active_circuit_pqueue st) ! i \<noteq> d"
    by (metis nth_mem)
  moreover have "own d = None" using new ewma_okD(1) [OF assms(1)] by (auto simp: domIff)
  moreover have "d \<notin> A" using new ewma_okD(4) [OF assms(1)] by auto
  ultimately show ?thesis
    using assms new d unfolding ewma_ok_def
    by (auto simp: ewma_alloc_circ_data_def Let_def idx_ok_def fun_eq_iff less_Suc_eq split: if_splits)
qed

lemma ewma_free_ok:
  assumes "ewma_ok st own A" and "d \<notin> A"
  shows "ewma_ok (ewma_free_circ_data st circ d) (own(d := None)) A"
  using assms unfolding ewma_ok_def by (auto simp: ewma_free_circ_data_def fun_eq_iff)

lemma add_cell_ewma_ok:
  assumes "ewma_ok st own A" and "d \<in> dom (ew_store st)" and "d \<notin> A"
  shows "\<exists>st'. add_cell_ewma D st d = Some st' \<and> ewma_ok st' own (insert d A)"
proof -
  obtain e where e: "ew_store st d = Some e" using assms(2) by auto
  let ?q = "active_circuit_pqueue st"
  let ?store = "(ew_store st)(d \<mapsto> scale_single_cell_ewma D st (last_recalibrated st) e)"
  let ?cmp = "compare_cell_ewma_counts D ?store"
  have nd: "d \<notin> set (pq_list ?q)" using ewma_okD(3) [OF assms(1)] assms(3) by simp
  note f = pqueue_add_frame [OF ewma_okD(2) [OF assms(1)] nd, where compare = ?cmp]
  have set: "set (pq_list (smartlist_pqueue_add ?cmp ?q d)) = insert d A"
    using arg_cong [OF f(2), of set_mset] ewma_okD(3) [OF assms(1)] by simp
  have "ewma_ok (st\<lparr>ew_store := ?store, active_circuit_pqueue := smartlist_pqueue_add ?cmp ?q d\<rparr>) own (insert d A)"
    using assms f(1,3) set e ewma_okD(3) [OF assms(1)] unfolding ewma_ok_def
    by (auto simp: scale_single_cell_ewma_def fun_eq_iff)
  then show ?thesis
    using e ewma_okD(6) [OF assms(1,3,2)] by (auto simp: add_cell_ewma_def Let_def)
qed

lemma remove_cell_ewma_ok:
  assumes "ewma_ok st own A" and "d \<in> A"
  shows "\<exists>st'. remove_cell_ewma D st d = Some st' \<and> ewma_ok st' own (A - {d})"
proof -
  let ?q = "active_circuit_pqueue st"
  let ?cmp = "compare_cell_ewma_counts D (ew_store st)"
  have d: "d \<in> set (pq_list ?q)" using ewma_okD(3) [OF assms(1)] assms(2) by simp
  obtain q' where q': "smartlist_pqueue_remove ?cmp ?q d = Some q'" "idx_ok q'"
    "add_mset d (mset (pq_list q')) = mset (pq_list ?q)" "pq_idx q' d = - 1"
    "\<forall>x. x \<notin> set (pq_list ?q) \<longrightarrow> pq_idx q' x = pq_idx ?q x"
    using pqueue_remove_frame [OF ewma_okD(2) [OF assms(1)] d, of ?cmp] by blast
  obtain i where "i < length (pq_list ?q)" "pq_list ?q ! i = d" using d by (metis in_set_conv_nth)
  then have "pq_idx ?q d \<noteq> - 1" using ewma_okD(2) [OF assms(1)] by (auto simp: idx_ok_def)
  moreover have "set (pq_list q') = A - {d}"
  proof -
    have "count (add_mset d (mset (pq_list q'))) d \<le> 1"
      using idx_ok_distinct [OF ewma_okD(2) [OF assms(1)]] by (simp add: q'(3) distinct_count_atmost_1)
    then have "d \<notin> set (pq_list q')" by (simp add: count_list_0_iff)
    then show ?thesis using arg_cong [OF q'(3), of set_mset] ewma_okD(3) [OF assms(1)] by auto
  qed
  then have "ewma_ok (st\<lparr>active_circuit_pqueue := q'\<rparr>) own (A - {d})"
    using assms q'(2,4,5) unfolding ewma_ok_def by auto
  ultimately show ?thesis using q'(1) by (simp add: remove_cell_ewma_def)
qed

lemma scale_loop_ok:
  assumes "distinct ds" and "\<forall>d \<in> set ds. \<exists>e. store d = Some e \<and> cd_last_adjusted_tick e = last_tick"
  shows "\<exists>store'. scale_loop D factor last_tick cur_tick ds store = Some store'
    \<and> map_option cd_circ \<circ> store' = map_option cd_circ \<circ> store \<and> dom store' = dom store
    \<and> (\<forall>d e. d \<in> set ds \<longrightarrow> store' d = Some e \<longrightarrow> cd_last_adjusted_tick e = cur_tick)
    \<and> (\<forall>d. d \<notin> set ds \<longrightarrow> store' d = store d)"
  using assms
proof (induction ds arbitrary: store)
  case (Cons d ds)
  then obtain e where e: "store d = Some e" "cd_last_adjusted_tick e = last_tick" by auto
  let ?store = "store(d \<mapsto> e\<lparr>cd_cell_count := d_mul D (cd_cell_count e) factor, cd_last_adjusted_tick := cur_tick\<rparr>)"
  have dist: "distinct ds" using Cons.prems(1) by simp
  have all: "\<forall>d' \<in> set ds. \<exists>e. ?store d' = Some e \<and> cd_last_adjusted_tick e = last_tick" using Cons.prems by auto
  then obtain store' where *: "scale_loop D factor last_tick cur_tick ds ?store = Some store'"
    "map_option cd_circ \<circ> store' = map_option cd_circ \<circ> ?store" "dom store' = dom ?store"
    "\<forall>d e. d \<in> set ds \<longrightarrow> store' d = Some e \<longrightarrow> cd_last_adjusted_tick e = cur_tick"
    "\<forall>d. d \<notin> set ds \<longrightarrow> store' d = ?store d"
    using Cons.IH [OF dist all] by blast
  have "scale_loop D factor last_tick cur_tick (d # ds) store = Some store'" using e *(1) by simp
  moreover have "map_option cd_circ \<circ> store' = map_option cd_circ \<circ> store" "dom store' = dom store"
    unfolding *(2,3) using e by (auto simp: fun_eq_iff)
  moreover have "store' d = ?store d" using *(5) Cons.prems(1) by simp
  then have "\<forall>d' e'. d' \<in> set (d # ds) \<longrightarrow> store' d' = Some e' \<longrightarrow> cd_last_adjusted_tick e' = cur_tick"
    using *(4) by auto
  moreover have "\<forall>d'. d' \<notin> set (d # ds) \<longrightarrow> store' d' = store d'" using *(5) by simp
  ultimately show ?case by blast
qed simp

lemma scale_active_circuits_ok:
  assumes "ewma_ok st own A"
  shows "\<exists>st'. scale_active_circuits D st cur_tick = Some st' \<and> ewma_ok st' own A
    \<and> active_circuit_pqueue st' = active_circuit_pqueue st"
proof -
  let ?q = "active_circuit_pqueue st" and ?factor = "get_scale_factor D st (last_recalibrated st) cur_tick"
  have "\<forall>d \<in> set (pq_list ?q). \<exists>e. ew_store st d = Some e \<and> cd_last_adjusted_tick e = last_recalibrated st"
    using ewma_okD(3,4,7) [OF assms] by blast
  then obtain store' where s: "scale_loop D ?factor (last_recalibrated st) cur_tick (pq_list ?q) (ew_store st) = Some store'"
    "map_option cd_circ \<circ> store' = map_option cd_circ \<circ> ew_store st" "dom store' = dom (ew_store st)"
    "\<forall>d e. d \<in> A \<longrightarrow> store' d = Some e \<longrightarrow> cd_last_adjusted_tick e = cur_tick"
    using scale_loop_ok [OF idx_ok_distinct [OF ewma_okD(2) [OF assms]], of "ew_store st" "last_recalibrated st" D ?factor cur_tick]
      ewma_okD(3) [OF assms] by auto
  then show ?thesis using assms unfolding ewma_ok_def by (simp add: scale_active_circuits_def Let_def)
qed

lemma current_tick_same:
  assumes "cell_ewma_get_current_tick_and_fraction D st = (tick, frac, st')"
  shows "ew_store st' = ew_store st" and "active_circuit_pqueue st' = active_circuit_pqueue st"
    and "last_recalibrated st' = last_recalibrated st" and "ew_next st' = ew_next st"
  using assms by (auto simp: cell_ewma_get_current_tick_and_fraction_def Let_def split: if_splits)

lemma ewma_pick_ok:
  assumes "ewma_ok st own A" and "A \<noteq> {}"
  shows "pq_list (active_circuit_pqueue st) ! 0 \<in> A"
    and "own (pq_list (active_circuit_pqueue st) ! 0) = ewma_pick_active_circuit st"
    and "ewma_pick_active_circuit st \<noteq> None"
proof -
  have ne: "pq_list (active_circuit_pqueue st) \<noteq> []" using ewma_okD(3) [OF assms(1)] assms(2) by auto
  then show mem: "pq_list (active_circuit_pqueue st) ! 0 \<in> A"
    using ewma_okD(3) [OF assms(1)] by (metis length_greater_0_conv nth_mem)
  show "own (pq_list (active_circuit_pqueue st) ! 0) = ewma_pick_active_circuit st"
    using ne ewma_okD(1) [OF assms(1)] by (simp add: ewma_pick_active_circuit_def)
  show "ewma_pick_active_circuit st \<noteq> None"
    using ne mem ewma_okD(4) [OF assms(1)] by (auto simp: ewma_pick_active_circuit_def)
qed

lemma pop_first_ok:
  assumes "ewma_ok st own A" and "pq_list (active_circuit_pqueue st) \<noteq> []"
  defines "d \<equiv> pq_list (active_circuit_pqueue st) ! 0"
  shows "\<exists>st'. pop_first_cell_ewma D st = Some (d, st') \<and> ewma_ok st' own (A - {d})"
proof -
  let ?q = "active_circuit_pqueue st"
  obtain q' where q': "smartlist_pqueue_pop (compare_cell_ewma_counts D (ew_store st)) ?q = Some (d, q')" "idx_ok q'"
    "add_mset d (mset (pq_list q')) = mset (pq_list ?q)" "pq_idx q' d = - 1"
    "\<forall>x. x \<notin> set (pq_list ?q) \<longrightarrow> pq_idx q' x = pq_idx ?q x"
    using pqueue_pop_frame [OF ewma_okD(2) [OF assms(1)] assms(2)] d_def by blast
  have "count (add_mset d (mset (pq_list q'))) d \<le> 1"
    using idx_ok_distinct [OF ewma_okD(2) [OF assms(1)]] by (simp add: q'(3) distinct_count_atmost_1)
  then have "d \<notin> set (pq_list q')" by (simp add: count_list_0_iff)
  then have "set (pq_list q') = A - {d}"
    using arg_cong [OF q'(3), of set_mset] ewma_okD(3) [OF assms(1)] by auto
  then have "ewma_ok (st\<lparr>active_circuit_pqueue := q'\<rparr>) own (A - {d})"
    using assms(1) q'(2,4,5) unfolding ewma_ok_def by auto
  then show ?thesis using q'(1) by (simp add: pop_first_cell_ewma_def)
qed

lemma ewma_xmit_ok:
  assumes ok: "ewma_ok st own A" and own: "own d = Some circ" and "inj_on own (dom own)"
    and pk: "ewma_pick_active_circuit st = Some circ" and A: "d \<in> A" and n: "0 < n"
  shows "\<exists>st'. ewma_notify_xmit_cells D st circ d n = Some st' \<and> ewma_ok st' own A"
proof -
  have "A \<noteq> {}" using A by auto
  note head = ewma_pick_ok [OF ok this]
  have first: "pq_list (active_circuit_pqueue st) ! 0 = d"
    using head(2) pk own by (intro inj_onD [OF assms(3)]) auto
  obtain tick frac st1 where t: "cell_ewma_get_current_tick_and_fraction D st = (tick, frac, st1)" by (metis prod_cases3)
  note same = current_tick_same [OF t]
  have ok1: "ewma_ok st1 own A" using ok by (simp add: ewma_ok_def same)
  obtain st2 where st2: "(if tick \<noteq> last_recalibrated st1 then scale_active_circuits D st1 tick else Some st1) = Some st2"
    "ewma_ok st2 own A" "active_circuit_pqueue st2 = active_circuit_pqueue st"
    using scale_active_circuits_ok [OF ok1, of D tick] ok1 same(2) by (cases "tick = last_recalibrated st1") auto
  obtain e where e: "ew_store st2 d = Some e" using ewma_okD(4) [OF st2(2)] A by auto
  define st3 where "st3 = st2\<lparr>ew_store := (ew_store st2)(d \<mapsto> e\<lparr>cd_cell_count := d_add D (cd_cell_count e)
      (d_mul D (d_of_int D (int n)) (d_pow D (ewma_scale_factor st2) (d_neg D frac)))\<rparr>)\<rparr>"
  have ok3: "ewma_ok st3 own A"
    using st2(2) e unfolding ewma_ok_def st3_def by (auto simp: fun_eq_iff)
  have q3: "pq_list (active_circuit_pqueue st3) ! 0 = d" "pq_list (active_circuit_pqueue st3) \<noteq> []"
    using st2(3) first ewma_okD(3) [OF ok3] A by (auto simp: st3_def)
  obtain st4 where st4: "pop_first_cell_ewma D st3 = Some (d, st4)" "ewma_ok st4 own (A - {d})"
    using pop_first_ok [OF ok3 q3(2), of D] q3(1) by auto
  have "d \<in> dom (ew_store st4)" using ewma_okD(1) [OF st4(2)] own by auto
  then obtain st5 where "add_cell_ewma D st4 d = Some st5" "ewma_ok st5 own (insert d (A - {d}))"
    using add_cell_ewma_ok [OF st4(2), of d D] by auto
  then show ?thesis
    using n t st2(1) e st4(1) A unfolding ewma_notify_xmit_cells_def
    by (simp add: Let_def st3_def [symmetric] insert_absorb)
qed

text \<open>Between two calls the clock moves, and the other multiplexers share the tick and the options.\<close>

definition ewma_env :: "'f ewma_state \<Rightarrow> 'f ewma_state \<Rightarrow> bool" where
  "ewma_env st st' \<longleftrightarrow> ew_store st' = ew_store st \<and> ew_next st' = ew_next st
     \<and> active_circuit_pqueue st' = active_circuit_pqueue st \<and> last_recalibrated st' = last_recalibrated st"

interpretation ewma: policy_contract "ewma_policy D" ewma_ok ewma_env for D :: "'f double_ops"
proof unfold_locales
  fix p :: "'f ewma_state" and own A circ dir n d p'
  assume "ewma_ok p own A" "alloc_circ_data (ewma_policy D) p circ dir n = (d, p')"
  then show "own d = None \<and> ewma_ok p' (own(d \<mapsto> circ)) A"
    using ewma_alloc_ok [of p own A D circ dir n d p'] by (simp add: ewma_policy_def)
next
  fix p :: "'f ewma_state" and own A d circ
  assume "ewma_ok p own A" "own d = Some circ" "d \<notin> A"
  then show "ewma_ok (free_circ_data (ewma_policy D) p circ d) (own(d := None)) A"
    using ewma_free_ok by (simp add: ewma_policy_def)
next
  fix p :: "'f ewma_state" and own A d circ
  assume ok: "ewma_ok p own A" and own: "own d = Some circ" and A: "d \<notin> A"
  then have "d \<in> dom (ew_store p)" using ewma_okD(1) [OF ok] by auto
  then show "\<exists>p'. notify_circ_active (ewma_policy D) p circ d = Some p' \<and> ewma_ok p' own (insert d A)"
    using add_cell_ewma_ok [OF ok _ A] by (simp add: ewma_policy_def ewma_notify_circ_active_def)
next
  fix p :: "'f ewma_state" and own A d circ
  assume "ewma_ok p own A" "d \<in> A"
  then show "\<exists>p'. notify_circ_inactive (ewma_policy D) p circ d = Some p' \<and> ewma_ok p' own (A - {d})"
    using remove_cell_ewma_ok by (simp add: ewma_policy_def ewma_notify_circ_inactive_def)
next
  fix p :: "'f ewma_state" and own A d circ n
  assume "ewma_ok p own A"
  then show "\<exists>p'. notify_set_n_cells (ewma_policy D) p circ d n = Some p' \<and> ewma_ok p' own A"
    by (simp add: ewma_policy_def)
next
  fix p :: "'f ewma_state" and own A d circ n
  assume "ewma_ok p own A" "own d = Some circ" "d \<in> A" "inj_on own (dom own)"
    "pick_active_circuit (ewma_policy D) p = Some circ" "0 < (n::nat)"
  then show "\<exists>p'. notify_xmit_cells (ewma_policy D) p circ d n = Some p' \<and> ewma_ok p' own A"
    using ewma_xmit_ok by (simp add: ewma_policy_def)
next
  fix p :: "'f ewma_state" and own A
  assume ok: "ewma_ok p own A" and ne: "A \<noteq> {}"
  show "\<exists>d \<in> A. own d = pick_active_circuit (ewma_policy D) p \<and> own d \<noteq> None"
    using ewma_pick_ok [OF ok ne] by (intro bexI [of _ "pq_list (active_circuit_pqueue p) ! 0"]) (simp_all add: ewma_policy_def)
next
  fix p p' :: "'f ewma_state" and own A
  assume "ewma_env p p'" "ewma_ok p own A"
  then show "ewma_ok p' own A" by (simp add: ewma_env_def ewma_ok_def)
qed

subsection \<open>The multiplexer with this policy\<close>

text \<open>A channel's multiplexer: the policy's state starts with no block allocated.\<close>

definition cmux_reach ::
  "'f double_ops \<Rightarrow> 'f ewma_state \<Rightarrow> nat \<Rightarrow> (nat \<Rightarrow> mux_circuit) \<Rightarrow> ('f ewma_state, nat) circuitmux \<Rightarrow> bool" where
  "cmux_reach D st ch circs cmux \<longleftrightarrow>
     ew_store st = Map.empty \<and> mux_reach (ewma_policy D) ewma_env (ewma_alloc_cmux_data st) ch circs cmux"

lemma cmux_reach_ok: "cmux_reach D st ch circs cmux \<Longrightarrow> mux_ok ewma_ok ch circs cmux"
proof -
  assume *: "cmux_reach D st ch circs cmux"
  then have "ewma_ok (ewma_alloc_cmux_data st) Map.empty {}"
    by (auto simp: cmux_reach_def ewma_ok_def ewma_alloc_cmux_data_def idx_ok_def)
  then show ?thesis using * ewma.reach_ok by (auto simp: cmux_reach_def)
qed

lemma cmux_reach_keys: "cmux_reach D st ch circs cmux \<Longrightarrow> keys_ok ch circs"
  using mux_reach_keys by (auto simp: cmux_reach_def)

lemma cmux_reach_op:
  "cmux_reach D st ch circs cmux \<Longrightarrow> mux_allowed ch circs cmux opn \<Longrightarrow>
     mux_exec (ewma_policy D) circs opn cmux = Some cmux' \<Longrightarrow> cmux_reach D st ch circs cmux'"
  unfolding cmux_reach_def by (blast intro: mux_reach.op)

text \<open>Sample circuits and arithmetic for the closed examples: circuit 7 leaves by channel 1, circuit 8 came by it.\<close>

definition int_ops :: "int double_ops" where
  "int_ops = \<lparr>d_zero = 0, d_add = (+), d_mul = (*), d_div = (div), d_neg = uminus, d_pow = (\<lambda>a b. a ^ nat b),
     d_less = (<), d_of_int = (\<lambda>i. i)\<rparr>"

definition sample_circs :: "nat \<Rightarrow> mux_circuit" where
  "sample_circs c =
     (if c = 7 then \<lparr>mc_n_chan = Some 1, mc_n_circ_id = 5, mc_is_or = False, mc_p_chan = None, mc_p_circ_id = 0\<rparr>
      else if c = 8 then \<lparr>mc_n_chan = Some 2, mc_n_circ_id = 5, mc_is_or = True, mc_p_chan = Some 1, mc_p_circ_id = 6\<rparr>
      else \<lparr>mc_n_chan = None, mc_n_circ_id = 0, mc_is_or = False, mc_p_chan = None, mc_p_circ_id = 0\<rparr>)"

definition sample_ewma :: "int ewma_state" where
  "sample_ewma = \<lparr>ew_store = Map.empty, ew_next = 0, active_circuit_pqueue = \<lparr>pq_list = [], pq_idx = \<lambda>_. 0\<rparr>,
     last_recalibrated = 0, ewma_scale_factor = 2, ewma_tick_len = 10, start_of_current_tick = 0, current_tick_num = 3,
     ew_now = 0\<rparr>"

definition sample_run :: "mux_op list \<Rightarrow> (int ewma_state, nat) circuitmux option" where
  "sample_run ops = foldl (\<lambda>r opn. Option.bind r (mux_exec (ewma_policy int_ops) sample_circs opn))
     (Some (circuitmux_alloc (ewma_alloc_cmux_data sample_ewma))) ops"

lemma sample_keys: "keys_ok 1 sample_circs"
  by (auto simp: keys_ok_def attach_key_def sample_circs_def Let_def split: if_splits)

lemma sample_start: "cmux_reach int_ops sample_ewma 1 sample_circs (circuitmux_alloc (ewma_alloc_cmux_data sample_ewma))"
  using mux_reach.start [OF sample_keys] by (simp add: cmux_reach_def sample_ewma_def)

lemmas sample_eval = sample_run_def circuitmux_alloc_def ewma_alloc_cmux_data_def sample_ewma_def
  circuitmux_attach_circuit_def sample_circs_def n_key_def p_key_def ewma_policy_def ewma_alloc_circ_data_def Let_def
  circuitmux_make_circuit_active_def find_attached_def circuitmux_find_map_entry_def lookup_key_def
  ewma_notify_circ_active_def add_cell_ewma_def smartlist_pqueue_add_def smartlist_add_def UPDATE_IDX_def

lemma sample_reach:
  "\<exists>cmux. sample_run [Mux_attach 7 CELL_DIRECTION_OUT 2, Mux_append_destroy 9 1] = Some cmux
     \<and> cmux_reach int_ops sample_ewma 1 sample_circs cmux
     \<and> tot (\<lambda>n. n) (chanid_circid_map cmux) = 2 \<and> n_active_circuits cmux = 1
     \<and> destroy_cell_queue cmux = [(9, 1)] \<and> last_cell_was_destroy cmux = False"
proof -
  let ?start = "circuitmux_alloc (ewma_alloc_cmux_data sample_ewma)"
  have allowed: "mux_allowed 1 sample_circs ?start (Mux_attach 7 CELL_DIRECTION_OUT 2)"
    by (simp add: attach_key_def sample_circs_def)
  obtain cmux1 where run: "mux_exec (ewma_policy int_ops) sample_circs (Mux_attach 7 CELL_DIRECTION_OUT 2) ?start = Some cmux1"
    "tot (\<lambda>n. n) (chanid_circid_map cmux1) = 2" "n_active_circuits cmux1 = 1"
    "destroy_cell_queue cmux1 = []" "last_cell_was_destroy cmux1 = False"
    by (simp add: sample_eval tot_def add32_def)
  note r1 = cmux_reach_op [OF sample_start allowed run(1)]
  define cmux2 where "cmux2 = circuitmux_append_destroy_cell cmux1 9 1"
  have "mux_exec (ewma_policy int_ops) sample_circs (Mux_append_destroy 9 1) cmux1 = Some cmux2"
    by (simp add: cmux2_def)
  moreover have "mux_allowed 1 sample_circs cmux1 (Mux_append_destroy 9 1)" by simp
  ultimately have "cmux_reach int_ops sample_ewma 1 sample_circs cmux2"
    using cmux_reach_op [OF r1] by blast
  then show ?thesis
    using run by (simp add: sample_run_def cmux2_def circuitmux_append_destroy_cell_def)
qed

subsection \<open>Properties\<close>

text \<open>
  Detaching a circuit with neither a next nor a previous channel fails the assertion on the direction.
\<close>

lemma detach_without_channel:
  "n_key (circs c) = None \<Longrightarrow> p_key (circs c) = None \<Longrightarrow> mux_exec P circs (Mux_detach c) cmux = None"
  by (simp add: circuitmux_detach_circuit_def detach_search_def)

text \<open>
  C2: Let a multiplexer be called as follows: a circuit is attached in a direction in which it has this channel
  and a nonzero circuit ID; a circuit is detached only while it has a next or a previous channel; cell
  counts are set only for attached circuits; a flush comes while fewer than 2^32 cells are queued;
  attached circuits keep their channels and IDs, no two circuits share an ID on the channel, and none has
  both its sides on it.  Then in any
  order of such calls, with the arithmetic of doubles as it may be, no assertion of the multiplexer or of its
  policy fails, the policy never uses a block that was freed, and the circuit that is told to have sent
  is the one at the head of the policy's queue.  The condition on detaching is needed, although the comment calls
  the detaching of a circuit that is not attached a no-op: in every such state, exactly the circuits
  without any channel make it fail.
\<close>

theorem cmux_never_asserts:
  assumes "cmux_reach D st ch circs cmux" and "mux_allowed ch circs cmux opn"
  shows "mux_exec (ewma_policy D) circs opn cmux \<noteq> None
    \<and> (\<forall>c. mux_exec (ewma_policy D) circs (Mux_detach c) cmux = None \<longleftrightarrow> n_key (circs c) = None \<and> p_key (circs c) = None)"
proof -
  have allowed: "mux_exec (ewma_policy D) circs opn' cmux \<noteq> None" if "mux_allowed ch circs cmux opn'" for opn'
    using ewma.exec_ok [OF cmux_reach_ok cmux_reach_keys] assms(1) that by (metis option.distinct(1))
  have "mux_allowed ch circs cmux (Mux_detach c)" if "\<not> (n_key (circs c) = None \<and> p_key (circs c) = None)" for c
    using that by simp
  then show ?thesis using allowed assms(2) detach_without_channel [of circs _ "ewma_policy D" cmux] by blast
qed

theorem cmux_never_asserts_witness:
  "\<exists>cmux. sample_run [Mux_attach 7 CELL_DIRECTION_OUT 2, Mux_append_destroy 9 1] = Some cmux
     \<and> mux_exec (ewma_policy int_ops) sample_circs (Mux_flush (\<lambda>_. 2) False) cmux \<noteq> None
     \<and> mux_exec (ewma_policy int_ops) sample_circs (Mux_detach 7) cmux \<noteq> None
     \<and> mux_exec (ewma_policy int_ops) sample_circs (Mux_detach 9) cmux = None"
proof -
  obtain cmux where s: "sample_run [Mux_attach 7 CELL_DIRECTION_OUT 2, Mux_append_destroy 9 1] = Some cmux"
    "cmux_reach int_ops sample_ewma 1 sample_circs cmux" "tot (\<lambda>n. n) (chanid_circid_map cmux) = 2"
    using sample_reach by blast
  have "mux_allowed 1 sample_circs cmux (Mux_flush (\<lambda>_. 2) False)" using s(3) by simp
  note r = cmux_never_asserts [OF s(2) this]
  have detach: "(mux_exec (ewma_policy int_ops) sample_circs (Mux_detach c) cmux = None) =
      (n_key (sample_circs c) = None \<and> p_key (sample_circs c) = None)" for c using r by blast
  have "mux_exec (ewma_policy int_ops) sample_circs (Mux_detach 7) cmux \<noteq> None"
    "mux_exec (ewma_policy int_ops) sample_circs (Mux_detach 9) cmux = None"
    unfolding detach by (simp_all add: sample_circs_def n_key_def p_key_def)
  then show ?thesis using s(1) conjunct1 [OF r] by (intro exI [of _ cmux] conjI)
qed

text \<open>
  C13: after any calls as in C2, the counters of a multiplexer are exact: the circuits attached, those with cells and
  the cells queued are those of its map, modulo the width of the counters, and at least the DESTROY cells
  that wait are counted (more if some could not be written).
\<close>

theorem cmux_counters_exact:
  assumes "cmux_reach D st ch circs cmux"
  shows "n_circuits cmux = card (dom (chanid_circid_map cmux)) mod 2 ^ 32
    \<and> n_active_circuits cmux = card {k. \<exists>e. chanid_circid_map cmux k = Some e \<and> mi_cell_count e > 0} mod 2 ^ 32
    \<and> n_cells cmux = (\<Sum>k \<in> dom (chanid_circid_map cmux). mi_cell_count (the (chanid_circid_map cmux k))) mod 2 ^ 32
    \<and> int (length (destroy_cell_queue cmux)) \<le> destroy_ctr cmux"
proof -
  let ?m = "chanid_circid_map cmux"
  have ok: "counters_ok cmux" "finite (dom ?m)"
    using cmux_reach_ok [OF assms] map_okD(1) by (auto simp: mux_ok_def)
  have "tot is_active ?m = (\<Sum>k \<in> dom ?m. if mi_cell_count (the (?m k)) > 0 then 1 else 0)"
    unfolding tot_def by (rule sum.cong) auto
  also have "\<dots> = card {k \<in> dom ?m. mi_cell_count (the (?m k)) > 0}"
    using ok(2) by (simp add: sum.If_cases Int_def)
  also have "{k \<in> dom ?m. mi_cell_count (the (?m k)) > 0} = {k. \<exists>e. ?m k = Some e \<and> mi_cell_count e > 0}" by auto
  finally have act: "tot is_active ?m = card {k. \<exists>e. ?m k = Some e \<and> mi_cell_count e > 0}" .
  have "tot (\<lambda>n. n) ?m = (\<Sum>k \<in> dom ?m. mi_cell_count (the (?m k)))"
    unfolding tot_def by (rule sum.cong) auto
  then show ?thesis using ok(1) act by (simp add: counters_ok_def)
qed

theorem cmux_counters_exact_witness:
  "\<exists>cmux. sample_run [Mux_attach 7 CELL_DIRECTION_OUT 2, Mux_append_destroy 9 1] = Some cmux
     \<and> n_circuits cmux = card (dom (chanid_circid_map cmux)) mod 2 ^ 32"
  using sample_reach cmux_counters_exact by blast

text \<open>
  C14: while fewer than 2^32 cells are queued, a round of the flushing loop sends something exactly when a
  cell or a DESTROY cell waits; a cell is one of an attached circuit that has some, whose count becomes
  that of its queue; and the two kinds alternate: after a DESTROY cell comes a relay cell if some circuit
  is active, after a relay cell a DESTROY cell if one waits.
\<close>

theorem cmux_flush_alternates:
  assumes "cmux_reach D st ch circs cmux" and "tot (\<lambda>n. n) (chanid_circid_map cmux) < 2 ^ 32"
  shows "\<exists>choice cmux'. flush_one (ewma_policy D) circs queue_len write_ok cmux = Some (choice, cmux')
    \<and> (choice = Send_Nothing \<longleftrightarrow> destroy_cell_queue cmux = [] \<and> n_active_circuits cmux = 0)
    \<and> (choice = Send_Destroy \<longleftrightarrow> destroy_cell_queue cmux \<noteq> []
         \<and> (\<not> last_cell_was_destroy cmux \<or> n_active_circuits cmux = 0))
    \<and> (choice = Send_Nothing \<or> last_cell_was_destroy cmux' = (choice = Send_Destroy))
    \<and> (\<forall>c. choice = Send_From c \<longrightarrow> (\<exists>k dir e. attach_key ch (circs c) = Some (k, dir)
         \<and> chanid_circid_map cmux k = Some e \<and> mi_cell_count e > 0
         \<and> (queue_len c = 0 \<or> write_ok \<longrightarrow>
              chanid_circid_map cmux' = (chanid_circid_map cmux)(k \<mapsto> e\<lparr>mi_cell_count := queue_len c - 1\<rparr>))))"
  using ewma.flush_one_ok [OF cmux_reach_ok [OF assms(1)] assms(2), where queue_len = queue_len and write_ok = write_ok]
  by blast

theorem cmux_flush_alternates_witness:
  "\<exists>cmux cmux'. sample_run [Mux_attach 7 CELL_DIRECTION_OUT 2, Mux_append_destroy 9 1] = Some cmux
     \<and> flush_one (ewma_policy int_ops) sample_circs (\<lambda>_. 2) True cmux = Some (Send_Destroy, cmux')"
proof -
  obtain cmux where c: "sample_run [Mux_attach 7 CELL_DIRECTION_OUT 2, Mux_append_destroy 9 1] = Some cmux"
    "cmux_reach int_ops sample_ewma 1 sample_circs cmux" "tot (\<lambda>n. n) (chanid_circid_map cmux) = 2"
    "destroy_cell_queue cmux = [(9, 1)]" "last_cell_was_destroy cmux = False" using sample_reach by blast
  have "tot (\<lambda>n. n) (chanid_circid_map cmux) < 2 ^ 32" by (simp add: c(3))
  from cmux_flush_alternates [OF c(2) this, of "\<lambda>_. 2" True] c show ?thesis by auto
qed

end
