(* ===== verification/Congestion_Control.thy ===== *)
theory Congestion_Control
  imports Sendme Parse_Int
begin

text \<open>
  Congestion control of a circuit: TOR_VEGAS (core/or/congestion_control_vegas.c), the round-trip and
  bandwidth-delay estimates it uses (core/or/congestion_control_common.c), and the consensus parameters they
  are configured by (feature/nodelist/networkstatus.c).  The object \<open>vegas_cc\<close> extends the fields that the
  SENDME model reads.  Unsigned 64-bit arithmetic wraps around: \<open>add64\<close>, \<open>sub64\<close>, \<open>mul64\<close>; narrower
  fields are truncated where they are stored.  The statistics, which nothing reads back, are left out.
  \<open>None\<close> is a failed assertion or the use of an empty list.  The divisors \<open>sendme_inc\<close> and
  \<open>cwnd_inc_rate\<close> are positive whenever the object was made by \<open>congestion_control_new\<close>.
\<close>

definition u64 :: "nat \<Rightarrow> nat" where "u64 n = n mod 2 ^ 64"
definition add64 :: "nat \<Rightarrow> nat \<Rightarrow> nat" where "add64 a b = u64 (a + b)"
definition mul64 :: "nat \<Rightarrow> nat \<Rightarrow> nat" where "mul64 a b = u64 (a * b)"
definition sub64 :: "nat \<Rightarrow> nat \<Rightarrow> nat" where "sub64 a b = nat ((int a - int b) mod 2 ^ 64)"

subsection \<open>Consensus parameters\<close>

fun find_net_param :: "cstring list \<Rightarrow> cstring \<Rightarrow> int \<Rightarrow> int" where
  "find_net_param [] param_name default_val = default_val"
| "find_net_param (p # net_params) param_name default_val =
     (if take (length param_name) p = param_name \<and> cur (drop (length param_name) p) = CHR ''='' then
        let r = tor_parse_long (drop (length param_name + 1) p) 10 (- (2 ^ 31)) (2 ^ 31 - 1) False in
        if pr_ok r then pr_val r else find_net_param net_params param_name default_val
      else find_net_param net_params param_name default_val)"

definition get_net_param_from_list :: "cstring list \<Rightarrow> cstring \<Rightarrow> int \<Rightarrow> int \<Rightarrow> int \<Rightarrow> int option" where
  "get_net_param_from_list net_params param_name default_val min_val max_val =
     (if \<not> (max_val > min_val \<and> min_val \<le> default_val \<and> max_val \<ge> default_val) then None
      else let res = find_net_param net_params param_name default_val in
        Some (if res < min_val then min_val else if res > max_val then max_val else res))"

text \<open>\<open>ns\<close> is the parameter list of the latest consensus, if there is one.\<close>

definition networkstatus_get_param :: "cstring list option \<Rightarrow> cstring \<Rightarrow> int \<Rightarrow> int \<Rightarrow> int \<Rightarrow> int option" where
  "networkstatus_get_param ns param_name default_val min_val max_val =
     (case ns of
        None \<Rightarrow> Some default_val
      | Some net_params \<Rightarrow> get_net_param_from_list net_params param_name default_val min_val max_val)"

text \<open>As a nonnegative number.\<close>

definition get_param :: "cstring list option \<Rightarrow> cstring \<Rightarrow> nat \<Rightarrow> nat \<Rightarrow> nat \<Rightarrow> nat option" where
  "get_param ns param_name default_val min_val max_val =
     map_option nat (networkstatus_get_param ns param_name (int default_val) (int min_val) (int max_val))"

definition INT16_MAX :: nat where "INT16_MAX = 32767"
definition TLS_RECORD_MAX_CELLS :: nat where "TLS_RECORD_MAX_CELLS = (16 * 1024) div 514"
definition OUTBUF_CELLS :: nat where "OUTBUF_CELLS = 2 * TLS_RECORD_MAX_CELLS"
definition SENDME_INC_DFLT :: nat where "SENDME_INC_DFLT = TLS_RECORD_MAX_CELLS"
definition CIRCWINDOW_INIT :: nat where "CIRCWINDOW_INIT = 4 * SENDME_INC_DFLT"

record cc_globals =
  cwnd_max :: nat
  n_ewma_cwnd_pct :: nat
  n_ewma_max :: nat
  n_ewma_ss :: nat
  rtt_reset_pct :: nat
  gl_sendme_inc :: nat
  gl_cc_alg :: nat
  cwnd_full_gap :: nat
  cwnd_full_minpct :: nat
  cwnd_full_per_cwnd :: nat

definition CC_ALG_SENDME :: nat where "CC_ALG_SENDME = 0"
definition CC_ALG_VEGAS :: nat where "CC_ALG_VEGAS = 2"

text \<open>The static variables as they are initialised.\<close>

definition cc_globals_init :: cc_globals where
  "cc_globals_init =
     \<lparr>cwnd_max = INT32_MAX, n_ewma_cwnd_pct = 50, n_ewma_max = 10, n_ewma_ss = 2, rtt_reset_pct = 100,
      gl_sendme_inc = SENDME_INC_DFLT, gl_cc_alg = CC_ALG_VEGAS,
      cwnd_full_gap = 4, cwnd_full_minpct = 25, cwnd_full_per_cwnd = 1\<rparr>"

text \<open>The cell queue and connection watermarks, which the algorithm does not use, are left out.\<close>

definition congestion_control_new_consensus_params :: "cstring list option \<Rightarrow> cc_globals \<Rightarrow> cc_globals option" where
  "congestion_control_new_consensus_params ns gl =
     do {
       v \<leftarrow> get_param ns ''cc_cwnd_max'' INT32_MAX 500 INT32_MAX;
       let gl = gl\<lparr>cwnd_max := v\<rparr>;
       v \<leftarrow> get_param ns ''cc_rtt_reset_pct'' 100 0 100;
       let gl = gl\<lparr>rtt_reset_pct := v mod 256\<rparr>;
       v \<leftarrow> get_param ns ''cc_sendme_inc'' SENDME_INC_DFLT 1 254;
       let gl = gl\<lparr>gl_sendme_inc := v mod 256\<rparr>;
       v \<leftarrow> get_param ns ''cc_alg'' CC_ALG_VEGAS 0 3;
       let gl = gl\<lparr>gl_cc_alg := (if v \<noteq> CC_ALG_SENDME \<and> v \<noteq> CC_ALG_VEGAS then CC_ALG_VEGAS else v)\<rparr>;
       v \<leftarrow> get_param ns ''cc_ewma_cwnd_pct'' 50 1 255;
       let gl = gl\<lparr>n_ewma_cwnd_pct := v mod 256\<rparr>;
       v \<leftarrow> get_param ns ''cc_ewma_max'' 10 2 INT32_MAX;
       let gl = gl\<lparr>n_ewma_max := v mod 256\<rparr>;
       v \<leftarrow> get_param ns ''cc_ewma_ss'' 2 2 INT32_MAX;
       Some (gl\<lparr>n_ewma_ss := v mod 256\<rparr>)
     }"

definition congestion_control_validate_sendme_increment :: "cc_globals \<Rightarrow> nat \<Rightarrow> bool" where
  "congestion_control_validate_sendme_increment gl sendme_inc =
     (if sendme_inc = 0 then False
      else \<not> (int sendme_inc > int (gl_sendme_inc gl) + 1 \<or> int sendme_inc < int (gl_sendme_inc gl) - 1))"

subsection \<open>The congestion control object of a circuit\<close>

record vegas_params =
  ss_cwnd_cap :: nat
  ss_cwnd_max :: nat
  vp_gamma :: nat
  vp_alpha :: nat
  vp_beta :: nat
  vp_delta :: nat

record vegas_cc = congestion_control +
  pending_timestamps :: "nat list"
  ewma_rtt_usec :: nat
  min_rtt_usec :: nat
  max_rtt_usec :: nat
  cc_bdp :: nat
  next_cc_event :: nat
  next_cwnd_event :: nat
  cwnd_full :: bool
  blocked_chan :: bool
  cwnd_inc_pct_ss :: nat
  cwnd_inc :: nat
  cwnd_min :: nat
  cwnd_inc_rate :: nat
  cc_alg :: nat
  cc_vegas :: vegas_params

datatype cc_path = CC_PATH_EXIT | CC_PATH_ONION | CC_PATH_ONION_SOS | CC_PATH_ONION_VG | CC_PATH_SBWS

definition CWND_UPDATE_RATE :: "vegas_cc \<Rightarrow> nat" where
  "CWND_UPDATE_RATE cc =
     (if cc_in_slow_start cc then 1
      else add64 (cc_cwnd cc) (cwnd_inc_rate cc * cc_sendme_inc cc div 2) div (cwnd_inc_rate cc * cc_sendme_inc cc))"

definition SENDME_PER_CWND :: "vegas_cc \<Rightarrow> nat" where
  "SENDME_PER_CWND cc = add64 (cc_cwnd cc) (cc_sendme_inc cc div 2) div cc_sendme_inc cc"

definition CWND_INC :: "vegas_cc \<Rightarrow> nat" where "CWND_INC cc = cwnd_inc cc"

text \<open>The names, defaults of alpha, beta, gamma and delta, and of the cap, by the kind of path.\<close>

definition vegas_defaults :: "cc_path \<Rightarrow> cstring \<times> nat \<times> nat \<times> nat \<times> nat \<times> nat" where
  "vegas_defaults path =
     (case path of
        CC_PATH_SBWS \<Rightarrow> (''sbws'', 2 * OUTBUF_CELLS - TLS_RECORD_MAX_CELLS, 2 * OUTBUF_CELLS + TLS_RECORD_MAX_CELLS,
          2 * OUTBUF_CELLS, 4 * OUTBUF_CELLS, 400)
      | CC_PATH_EXIT \<Rightarrow> (''exit'', 3 * OUTBUF_CELLS, 4 * OUTBUF_CELLS, 3 * OUTBUF_CELLS, 5 * OUTBUF_CELLS, 600)
      | CC_PATH_ONION_SOS \<Rightarrow> (''exit'', 3 * OUTBUF_CELLS, 4 * OUTBUF_CELLS, 3 * OUTBUF_CELLS, 5 * OUTBUF_CELLS, 600)
      | _ \<Rightarrow> (''onion'', 3 * OUTBUF_CELLS, 6 * OUTBUF_CELLS, 4 * OUTBUF_CELLS, 7 * OUTBUF_CELLS, 475))"

definition congestion_control_vegas_set_params ::
  "cstring list option \<Rightarrow> cc_globals \<Rightarrow> vegas_cc \<Rightarrow> cc_path \<Rightarrow> (vegas_cc \<times> cc_globals) option" where
  "congestion_control_vegas_set_params ns gl cc path =
     (if cc_alg cc \<noteq> CC_ALG_VEGAS then None
      else
        let (suffix, alpha, beta, gamma, delta, cap) = vegas_defaults path in
        do {
          v_cap \<leftarrow> get_param ns (''cc_sscap_'' @ suffix) cap 100 INT32_MAX;
          v_max \<leftarrow> get_param ns ''cc_ss_max'' 5000 500 INT32_MAX;
          v_alpha \<leftarrow> get_param ns (''cc_vegas_alpha_'' @ suffix) alpha 0 1000;
          v_beta \<leftarrow> get_param ns (''cc_vegas_beta_'' @ suffix) beta 0 1000;
          v_gamma \<leftarrow> get_param ns (''cc_vegas_gamma_'' @ suffix) gamma 0 1000;
          v_delta \<leftarrow> get_param ns (''cc_vegas_delta_'' @ suffix) delta 0 INT32_MAX;
          v_minpct \<leftarrow> get_param ns ''cc_cwnd_full_minpct'' 25 0 100;
          v_gap \<leftarrow> get_param ns ''cc_cwnd_full_gap'' 4 0 INT16_MAX;
          v_per \<leftarrow> get_param ns ''cc_cwnd_full_per_cwnd'' 1 0 1;
          Some (cc\<lparr>cc_vegas := \<lparr>ss_cwnd_cap = v_cap, ss_cwnd_max = v_max, vp_gamma = v_gamma mod 2 ^ 16,
                     vp_alpha = v_alpha mod 2 ^ 16, vp_beta = v_beta mod 2 ^ 16, vp_delta = v_delta mod 2 ^ 16\<rparr>\<rparr>,
                gl\<lparr>cwnd_full_minpct := v_minpct, cwnd_full_gap := v_gap, cwnd_full_per_cwnd := v_per\<rparr>)
        })"

text \<open>\<open>sendme_inc_cells\<close> is what was negotiated; \<open>always\<close> is the option AlwaysCongestionControl.\<close>

definition congestion_control_init_params ::
  "cstring list option \<Rightarrow> bool \<Rightarrow> cc_globals \<Rightarrow> vegas_cc \<Rightarrow> nat \<Rightarrow> cc_path \<Rightarrow> (vegas_cc \<times> cc_globals) option" where
  "congestion_control_init_params ns always gl cc sendme_inc_cells path =
     do {
       v_cwnd \<leftarrow> get_param ns ''cc_cwnd_init'' CIRCWINDOW_INIT SENDME_INC_DFLT 10000;
       v_pct \<leftarrow> get_param ns ''cc_cwnd_inc_pct_ss'' 100 1 500;
       v_inc \<leftarrow> get_param ns ''cc_cwnd_inc'' 1 1 1000;
       v_rate \<leftarrow> get_param ns ''cc_cwnd_inc_rate'' SENDME_INC_DFLT 1 250;
       v_min \<leftarrow> get_param ns ''cc_cwnd_min'' CIRCWINDOW_INIT SENDME_INC_DFLT 1000;
       let cc = cc\<lparr>cc_sendme_inc := sendme_inc_cells, cc_cwnd := v_cwnd, cwnd_inc_pct_ss := v_pct, cwnd_inc := v_inc,
                   cwnd_inc_rate := v_rate, cwnd_min := v_min,
                   cc_alg := (if gl_cc_alg gl = CC_ALG_SENDME \<and> always then CC_ALG_VEGAS else gl_cc_alg gl)\<rparr>;
       if cc_alg cc = CC_ALG_VEGAS then congestion_control_vegas_set_params ns gl cc path
       else Some (cc, gl)
     }"

definition cc_zero :: vegas_cc where
  "cc_zero =
     \<lparr>cc_sendme_inc = 0, cc_inflight = 0, cc_cwnd = 0, cc_in_slow_start = False, pending_timestamps = [],
      ewma_rtt_usec = 0, min_rtt_usec = 0, max_rtt_usec = 0, cc_bdp = 0, next_cc_event = 0, next_cwnd_event = 0,
      cwnd_full = False, blocked_chan = False, cwnd_inc_pct_ss = 0, cwnd_inc = 0, cwnd_min = 0, cwnd_inc_rate = 0,
      cc_alg = 0,
      cc_vegas = \<lparr>ss_cwnd_cap = 0, ss_cwnd_max = 0, vp_gamma = 0, vp_alpha = 0, vp_beta = 0, vp_delta = 0\<rparr>\<rparr>"

definition congestion_control_new ::
  "cstring list option \<Rightarrow> bool \<Rightarrow> cc_globals \<Rightarrow> nat \<Rightarrow> cc_path \<Rightarrow> (vegas_cc \<times> cc_globals) option" where
  "congestion_control_new ns always gl sendme_inc_cells path =
     do {
       (cc, gl) \<leftarrow> congestion_control_init_params ns always gl (cc_zero\<lparr>cc_in_slow_start := True\<rparr>) sendme_inc_cells path;
       Some (cc\<lparr>next_cc_event := CWND_UPDATE_RATE cc mod 2 ^ 16\<rparr>, gl)
     }"

subsection \<open>Round-trip times\<close>

definition enqueue_timestamp :: "nat list \<Rightarrow> nat \<Rightarrow> nat list" where
  "enqueue_timestamp timestamps_u64 timestamp_usec = timestamps_u64 @ [timestamp_usec]"

definition dequeue_timestamp :: "nat list \<Rightarrow> (nat \<times> nat list) option" where
  "dequeue_timestamp timestamps = (case timestamps of [] \<Rightarrow> None | t # ts \<Rightarrow> Some (t, ts))"

definition congestion_control_note_cell_sent :: "nat \<Rightarrow> circuit \<Rightarrow> crypt_path option \<Rightarrow> vegas_cc \<Rightarrow> vegas_cc option" where
  "congestion_control_note_cell_sent now_usec circ cpath cc =
     (case circuit_sent_cell_for_sendme circ cpath of
        None \<Rightarrow> None
      | Some False \<Rightarrow> Some (cc\<lparr>cc_inflight := add64 (cc_inflight cc) 1\<rparr>)
      | Some True \<Rightarrow> Some (cc\<lparr>cc_inflight := add64 (cc_inflight cc) 1,
           pending_timestamps := enqueue_timestamp (pending_timestamps cc) now_usec\<rparr>))"

definition n_count_ewma :: "nat \<Rightarrow> nat \<Rightarrow> nat \<Rightarrow> nat" where
  "n_count_ewma curr_val prev_val N =
     (if prev_val = 0 then curr_val
      else add64 (mul64 2 curr_val) (mul64 (sub64 N 1) prev_val) div (N + 1))"

definition percent_max_mix :: "nat \<Rightarrow> nat \<Rightarrow> nat \<Rightarrow> nat" where
  "percent_max_mix a b pct_max =
     (let mx = max a b; mn = min a b in
      if pct_max > 100 then mx
      else add64 (mul64 pct_max mx div 100) (mul64 (100 - pct_max) mn div 100))"

definition n_ewma_count :: "cc_globals \<Rightarrow> vegas_cc \<Rightarrow> nat" where
  "n_ewma_count gl cc =
     max (if cc_in_slow_start cc then n_ewma_ss gl
          else min (mul64 (CWND_UPDATE_RATE cc) (n_ewma_cwnd_pct gl) div 100) (n_ewma_max gl)) 2"

definition time_delta_should_use_heuristics :: "vegas_cc \<Rightarrow> bool" where
  "time_delta_should_use_heuristics cc = (\<not> cc_in_slow_start cc \<and> ewma_rtt_usec cc \<noteq> 0)"

definition DELTA_DISCREPENCY_RATIO_MAX :: nat where "DELTA_DISCREPENCY_RATIO_MAX = 5000"

text \<open>The result and the new value of the flag \<open>is_monotime_clock_broken\<close>.\<close>

definition time_delta_stalled_or_jumped :: "bool \<Rightarrow> vegas_cc \<Rightarrow> nat \<Rightarrow> nat \<Rightarrow> bool \<times> bool" where
  "time_delta_stalled_or_jumped broken cc old_delta new_delta =
     (if new_delta = 0 then (True, True)
      else if \<not> time_delta_should_use_heuristics cc then (False, broken)
      else if old_delta > mul64 new_delta DELTA_DISCREPENCY_RATIO_MAX then (broken, broken)
      else if new_delta > mul64 old_delta DELTA_DISCREPENCY_RATIO_MAX then (True, broken)
      else (False, False))"

definition new_min_rtt :: "cc_globals \<Rightarrow> vegas_cc \<Rightarrow> nat" where
  "new_min_rtt gl cc =
     (if min_rtt_usec cc = 0 then ewma_rtt_usec cc
      else if cc_cwnd cc = cwnd_min cc \<and> \<not> cc_in_slow_start cc
           then percent_max_mix (ewma_rtt_usec cc) (min_rtt_usec cc) (rtt_reset_pct gl)
      else if ewma_rtt_usec cc < min_rtt_usec cc then ewma_rtt_usec cc
      else min_rtt_usec cc)"

definition congestion_control_update_circuit_rtt ::
  "cc_globals \<Rightarrow> bool \<Rightarrow> vegas_cc \<Rightarrow> nat \<Rightarrow> (nat \<times> bool \<times> vegas_cc) option" where
  "congestion_control_update_circuit_rtt gl broken cc now_usec =
     (case dequeue_timestamp (pending_timestamps cc) of
        None \<Rightarrow> None
      | Some (sent_at_timestamp, ts) \<Rightarrow>
          let cc = cc\<lparr>pending_timestamps := ts\<rparr>;
              rtt = sub64 now_usec sent_at_timestamp;
              (fishy, broken) = time_delta_stalled_or_jumped broken cc (ewma_rtt_usec cc) rtt
          in if fishy then Some (0, broken, cc)
             else
               let cc = cc\<lparr>ewma_rtt_usec := n_count_ewma rtt (ewma_rtt_usec cc) (n_ewma_count gl cc)\<rparr>;
                   cc = (if rtt > max_rtt_usec cc then cc\<lparr>max_rtt_usec := rtt\<rparr> else cc)
               in Some (rtt, broken, cc\<lparr>min_rtt_usec := new_min_rtt gl cc\<rparr>))"

subsection \<open>The bandwidth-delay product\<close>

text \<open>\<open>chan_q\<close> and \<open>blocked_on_chan\<close>: the cells in the circuit's queue on its channel, and whether it is blocked.\<close>

definition congestion_control_update_circuit_bdp :: "vegas_cc \<Rightarrow> nat \<Rightarrow> bool \<Rightarrow> nat \<Rightarrow> bool \<times> vegas_cc" where
  "congestion_control_update_circuit_bdp cc chan_q blocked_on_chan curr_rtt_usec =
     (if ewma_rtt_usec cc = 0 then
        let cwnd = (if blocked_on_chan then
                      if chan_q \<ge> cc_cwnd cc then cwnd_min cc else max (cc_cwnd cc - chan_q) (cwnd_min cc)
                    else cc_cwnd cc)
        in (blocked_on_chan, cc\<lparr>blocked_chan := blocked_on_chan, cc_bdp := cwnd\<rparr>)
      else
        let cc = cc\<lparr>cc_bdp := mul64 (cc_cwnd cc) (min_rtt_usec cc) div ewma_rtt_usec cc\<rparr>;
            cc = (if blocked_on_chan then
                    if \<not> blocked_chan cc then cc\<lparr>next_cc_event := 0, blocked_chan := True\<rparr> else cc
                  else if blocked_chan cc then cc\<lparr>blocked_chan := False, next_cc_event := 0\<rparr> else cc)
        in (blocked_on_chan \<or> curr_rtt_usec \<noteq> 0, cc))"

definition congestion_control_update_circuit_estimates ::
  "cc_globals \<Rightarrow> bool \<Rightarrow> vegas_cc \<Rightarrow> nat \<Rightarrow> nat \<Rightarrow> bool \<Rightarrow> (bool \<times> bool \<times> vegas_cc) option" where
  "congestion_control_update_circuit_estimates gl broken cc now_usec chan_q blocked_on_chan =
     (case congestion_control_update_circuit_rtt gl broken cc now_usec of
        None \<Rightarrow> None
      | Some (curr_rtt_usec, broken, cc) \<Rightarrow>
          let (updated, cc) = congestion_control_update_circuit_bdp cc chan_q blocked_on_chan curr_rtt_usec
          in Some (updated, broken, cc))"

subsection \<open>TOR_VEGAS\<close>

definition vegas_bdp :: "vegas_cc \<Rightarrow> nat" where "vegas_bdp cc = cc_bdp cc"

definition rfc3742_ss_inc :: "vegas_cc \<Rightarrow> nat" where
  "rfc3742_ss_inc cc =
     (if cc_cwnd cc \<le> ss_cwnd_cap (cc_vegas cc)
      then add64 (cwnd_inc_pct_ss cc * cc_sendme_inc cc) 50 div 100
      else max (add64 (mul64 (cc_sendme_inc cc) (ss_cwnd_cap (cc_vegas cc))) (cc_cwnd cc) div mul64 2 (cc_cwnd cc)) 1)"

definition congestion_control_vegas_exit_slow_start :: "vegas_cc \<Rightarrow> vegas_cc" where
  "congestion_control_vegas_exit_slow_start cc = cc\<lparr>cc_in_slow_start := False\<rparr>"

definition cwnd_became_full :: "cc_globals \<Rightarrow> vegas_cc \<Rightarrow> bool" where
  "cwnd_became_full gl cc \<longleftrightarrow> add64 (cc_inflight cc) (cwnd_full_gap gl * cc_sendme_inc cc) \<ge> cc_cwnd cc"

definition cwnd_became_nonfull :: "cc_globals \<Rightarrow> vegas_cc \<Rightarrow> bool" where
  "cwnd_became_nonfull gl cc \<longleftrightarrow> mul64 100 (cc_inflight cc) < mul64 (cwnd_full_minpct gl) (cc_cwnd cc)"

definition cwnd_full_reset :: "cc_globals \<Rightarrow> vegas_cc \<Rightarrow> bool" where
  "cwnd_full_reset gl cc =
     (if cwnd_full_per_cwnd gl \<noteq> 0 then next_cwnd_event cc = SENDME_PER_CWND cc
      else next_cc_event cc = CWND_UPDATE_RATE cc)"

definition vegas_slow_start :: "vegas_cc \<Rightarrow> nat \<Rightarrow> vegas_cc" where
  "vegas_slow_start cc queue_use =
     (let cc =
        (if queue_use < vp_gamma (cc_vegas cc) \<and> \<not> blocked_chan cc then
           if cwnd_full cc then
             let inc = rfc3742_ss_inc cc;
                 cc = cc\<lparr>cc_cwnd := add64 (cc_cwnd cc) inc\<rparr>
             in if mul64 inc (SENDME_PER_CWND cc) \<le> CWND_INC cc * cwnd_inc_rate cc
                then congestion_control_vegas_exit_slow_start cc else cc
           else cc
         else congestion_control_vegas_exit_slow_start
           (cc\<lparr>cc_cwnd := add64 (vegas_bdp cc) (vp_gamma (cc_vegas cc))\<rparr>))
      in if cc_cwnd cc \<ge> ss_cwnd_max (cc_vegas cc)
         then congestion_control_vegas_exit_slow_start (cc\<lparr>cc_cwnd := ss_cwnd_max (cc_vegas cc)\<rparr>)
         else cc)"

definition vegas_steady_state :: "vegas_cc \<Rightarrow> nat \<Rightarrow> vegas_cc" where
  "vegas_steady_state cc queue_use =
     (let cc =
        (if queue_use > vp_delta (cc_vegas cc)
         then cc\<lparr>cc_cwnd := sub64 (add64 (vegas_bdp cc) (vp_delta (cc_vegas cc))) (CWND_INC cc)\<rparr>
         else if queue_use > vp_beta (cc_vegas cc) \<or> blocked_chan cc
         then cc\<lparr>cc_cwnd := sub64 (cc_cwnd cc) (CWND_INC cc)\<rparr>
         else if cwnd_full cc \<and> queue_use < vp_alpha (cc_vegas cc)
         then cc\<lparr>cc_cwnd := add64 (cc_cwnd cc) (CWND_INC cc)\<rparr>
         else cc)
      in cc\<lparr>cc_cwnd := max (cc_cwnd cc) (cwnd_min cc)\<rparr>)"

text \<open>The parts of the rest of the function, in its order.\<close>

definition vegas_queue_use :: "vegas_cc \<Rightarrow> nat" where
  "vegas_queue_use cc = (if vegas_bdp cc > cc_cwnd cc then 0 else cc_cwnd cc - vegas_bdp cc)"

definition vegas_mark_full :: "cc_globals \<Rightarrow> vegas_cc \<Rightarrow> vegas_cc" where
  "vegas_mark_full gl cc =
     (if cwnd_became_full gl cc then cc\<lparr>cwnd_full := True\<rparr>
      else if cwnd_became_nonfull gl cc then cc\<lparr>cwnd_full := False\<rparr> else cc)"

definition vegas_update_window :: "vegas_cc \<Rightarrow> nat \<Rightarrow> vegas_cc" where
  "vegas_update_window cc queue_use =
     (if cc_in_slow_start cc then vegas_slow_start cc queue_use
      else if next_cc_event cc = 0 then vegas_steady_state cc queue_use else cc)"

definition vegas_reset_events :: "cc_globals \<Rightarrow> vegas_cc \<Rightarrow> vegas_cc" where
  "vegas_reset_events gl cc =
     (let cc = (if next_cwnd_event cc = 0 then cc\<lparr>next_cwnd_event := SENDME_PER_CWND cc mod 2 ^ 16\<rparr> else cc);
          cc = (if next_cc_event cc = 0 then cc\<lparr>next_cc_event := CWND_UPDATE_RATE cc mod 2 ^ 16\<rparr> else cc)
      in if cwnd_full_reset gl cc then cc\<lparr>cwnd_full := False\<rparr> else cc)"

definition vegas_ack :: "vegas_cc \<Rightarrow> vegas_cc" where
  "vegas_ack cc = cc\<lparr>cc_inflight := sub64 (cc_inflight cc) (cc_sendme_inc cc)\<rparr>"

definition congestion_control_vegas_process_sendme ::
  "cc_globals \<Rightarrow> bool \<Rightarrow> vegas_cc \<Rightarrow> nat \<Rightarrow> nat \<Rightarrow> bool \<Rightarrow> (bool \<times> vegas_cc) option" where
  "congestion_control_vegas_process_sendme gl broken cc now_usec chan_q blocked_on_chan =
     (if cc_alg cc \<noteq> CC_ALG_VEGAS then None
      else
        let cc = cc\<lparr>next_cc_event := next_cc_event cc - 1, next_cwnd_event := next_cwnd_event cc - 1\<rparr> in
        case congestion_control_update_circuit_estimates gl broken cc now_usec chan_q blocked_on_chan of
          None \<Rightarrow> None
        | Some (False, broken, cc) \<Rightarrow> Some (broken, vegas_ack cc)
        | Some (True, broken, cc) \<Rightarrow>
            let queue_use = vegas_queue_use cc;
                cc = vegas_mark_full gl cc;
                cc = vegas_update_window cc queue_use
            in Some (broken, vegas_ack (vegas_reset_events gl cc)))"

text \<open>What conflux is told of the round-trip time is up to the caller.\<close>

definition congestion_control_dispatch_cc_alg ::
  "cc_globals \<Rightarrow> bool \<Rightarrow> vegas_cc \<Rightarrow> nat \<Rightarrow> nat \<Rightarrow> bool \<Rightarrow> (bool \<times> vegas_cc) option" where
  "congestion_control_dispatch_cc_alg gl broken cc now_usec chan_q blocked_on_chan =
     (case congestion_control_vegas_process_sendme gl broken cc now_usec chan_q blocked_on_chan of
        None \<Rightarrow> None
      | Some (broken, cc) \<Rightarrow>
          Some (broken, if cc_cwnd cc > cwnd_max gl then cc\<lparr>cc_cwnd := cwnd_max gl\<rparr> else cc))"

subsection \<open>Arithmetic and parameters\<close>

lemma u64_small: "n < 2 ^ 64 \<Longrightarrow> u64 n = n"
  by (simp add: u64_def)

lemma add64_small: "a + b < 2 ^ 64 \<Longrightarrow> add64 a b = a + b"
  by (simp add: add64_def u64_small)

lemma mul64_small: "a * b < 2 ^ 64 \<Longrightarrow> mul64 a b = a * b"
  by (simp add: mul64_def u64_small)

lemma sub64_small: "b \<le> a \<Longrightarrow> a < 2 ^ 64 \<Longrightarrow> sub64 a b = a - b"
proof -
  assume "b \<le> a" "a < 2 ^ 64"
  then have "(int a - int b) mod 2 ^ 64 = int (a - b)"
    by (subst mod_pos_pos_trivial) (simp_all add: of_nat_diff)
  then show ?thesis by (simp add: sub64_def)
qed

lemma less64: "add64 a b < 2 ^ 64" "mul64 a b < 2 ^ 64" "sub64 a b < 2 ^ 64"
  by (simp_all add: add64_def mul64_def sub64_def u64_def nat_less_iff)

lemma n_count_ewma_bounds:
  assumes "x \<le> M" and "y \<le> M" and "M < 2 ^ 32" and "2 \<le> N" and "N < 2 ^ 16"
  shows "n_count_ewma x y N \<le> M" and "0 < x \<Longrightarrow> 0 < n_count_ewma x y N"
proof -
  have N1: "sub64 N 1 = N - 1" using assms(4,5) by (intro sub64_small) simp_all
  have y1: "(N - 1) * y \<le> (N - 1) * M" using assms(2) by (intro mult_left_mono) simp_all
  have "(N - 1) * y \<le> 2 ^ 16 * 2 ^ 32" using assms(2,3,5) by (intro mult_mono) simp_all
  then have small: "2 * x + (N - 1) * y < 2 ^ 64" using assms(1,3) by simp
  have "mul64 2 x = 2 * x" "mul64 (N - 1) y = (N - 1) * y"
    using small by (intro mul64_small; linarith)+
  then have eq: "y \<noteq> 0 \<Longrightarrow> n_count_ewma x y N = (2 * x + (N - 1) * y) div (N + 1)"
    using add64_small [OF small] by (simp only: n_count_ewma_def N1 if_False)
  have "2 * x + (N - 1) * y \<le> 2 * M + (N - 1) * M" using y1 assms(1) by linarith
  also have "\<dots> = (N + 1) * M" using assms(4) by (simp add: algebra_simps diff_mult_distrib)
  finally have "(2 * x + (N - 1) * y) div (N + 1) \<le> M"
    by (metis Suc_eq_plus1 div_le_mono nonzero_mult_div_cancel_left zero_less_Suc less_numeral_extra(3))
  then show "n_count_ewma x y N \<le> M"
    using eq assms(1) by (cases "y = 0") (simp_all add: n_count_ewma_def)
  assume "0 < x"
  show "0 < n_count_ewma x y N"
  proof (cases "y = 0")
    case True
    then show ?thesis using \<open>0 < x\<close> by (simp add: n_count_ewma_def)
  next
    case False
    have "(N - 1) * 1 \<le> (N - 1) * y" using False by (intro mult_left_mono) simp_all
    then have "N + 1 \<le> 2 * x + (N - 1) * y" using \<open>0 < x\<close> assms(4) by linarith
    then show ?thesis using eq [OF False] by (simp add: div_greater_zero_iff)
  qed
qed

lemma get_param_range:
  assumes "lo \<le> d" and "d \<le> hi" and "lo < hi"
  shows "\<exists>v. get_param ns n d lo hi = Some v \<and> lo \<le> v \<and> v \<le> hi"
proof -
  obtain v where "networkstatus_get_param ns n (int d) (int lo) (int hi) = Some v" "int lo \<le> v" "v \<le> int hi"
    using assms by (cases ns) (auto simp: networkstatus_get_param_def get_net_param_from_list_def Let_def)
  then show ?thesis by (intro exI [of _ "nat v"]) (auto simp: get_param_def)
qed

end
