(* ===== verification/Congestion_Protocol.thy ===== *)
theory Congestion_Protocol
  imports Congestion_Control
begin

text \<open>
  A sender under TOR_VEGAS: it sends a cell when its window is open, and handles the SENDMEs that come
  back.  For SENDME increments of at least 2 and round-trip times below 2^32 microseconds, the window keeps
  its bounds under every parameter that the code takes from a consensus, no counter underflows, and a
  closed window is always one that a SENDME on its way will open.
\<close>

subsection \<open>Arithmetic\<close>

lemma percent_max_mix_bound:
  assumes "a < 2 ^ 32" and "b < 2 ^ 32" and "p \<le> 100"
  shows "percent_max_mix a b p < 2 ^ 32"
proof -
  let ?x = "max a b" and ?n = "min a b"
  have "p * ?x \<le> 100 * (2 ^ 32 - 1)" using assms by (intro mult_mono) auto
  then have px: "mul64 p ?x = p * ?x" by (intro mul64_small) simp
  have "(100 - p) * ?n \<le> 100 * (2 ^ 32 - 1)" using assms by (intro mult_mono) auto
  then have pn: "mul64 (100 - p) ?n = (100 - p) * ?n" by (intro mul64_small) simp
  have "(100 - p) * ?n \<le> (100 - p) * ?x" by (intro mult_left_mono) auto
  moreover have "p * ?x + (100 - p) * ?x = 100 * ?x" using assms(3) by (simp flip: add_mult_distrib)
  ultimately have "p * ?x + (100 - p) * ?n \<le> 100 * ?x" by linarith
  then have "(p * ?x) div 100 + ((100 - p) * ?n) div 100 \<le> ?x" by linarith
  moreover have "?x < 2 ^ 32" using assms by simp
  ultimately have "(p * ?x) div 100 + ((100 - p) * ?n) div 100 < 2 ^ 32" by linarith
  then have "add64 ((p * ?x) div 100) (((100 - p) * ?n) div 100) < 2 ^ 32"
    by (subst add64_small) simp_all
  then show ?thesis using assms(3) by (simp only: percent_max_mix_def Let_def px pn not_less [symmetric] if_False)
qed

subsection \<open>The consensus parameters\<close>

lemmas cc_consts = INT32_MAX_def INT16_MAX_def SENDME_INC_DFLT_def TLS_RECORD_MAX_CELLS_def CC_ALG_VEGAS_def
  CC_ALG_SENDME_def CIRCWINDOW_INIT_def OUTBUF_CELLS_def

text \<open>What is fixed when a circuit is made.\<close>

definition globals_ok :: "cc_globals \<Rightarrow> bool" where
  "globals_ok gl \<longleftrightarrow> 500 \<le> cwnd_max gl \<and> cwnd_max gl \<le> INT32_MAX \<and> n_ewma_cwnd_pct gl \<le> 255 \<and> n_ewma_max gl \<le> 255
     \<and> n_ewma_ss gl \<le> 255 \<and> rtt_reset_pct gl \<le> 100 \<and> cwnd_full_gap gl \<le> INT16_MAX \<and> cwnd_full_minpct gl \<le> 100"

definition params_ok :: "vegas_cc \<Rightarrow> bool" where
  "params_ok cc \<longleftrightarrow> cc_alg cc = CC_ALG_VEGAS \<and> 2 \<le> cc_sendme_inc cc \<and> cc_sendme_inc cc \<le> 255
     \<and> 1 \<le> cwnd_inc_rate cc \<and> cwnd_inc_rate cc \<le> 250 \<and> 1 \<le> cwnd_inc cc \<and> cwnd_inc cc \<le> 1000
     \<and> 31 \<le> cwnd_min cc \<and> cwnd_min cc \<le> 1000 \<and> cwnd_inc_pct_ss cc \<le> 500
     \<and> 100 \<le> ss_cwnd_cap (cc_vegas cc) \<and> ss_cwnd_cap (cc_vegas cc) \<le> INT32_MAX
     \<and> 500 \<le> ss_cwnd_max (cc_vegas cc) \<and> ss_cwnd_max (cc_vegas cc) \<le> INT32_MAX
     \<and> vp_gamma (cc_vegas cc) \<le> 1000 \<and> vp_beta (cc_vegas cc) \<le> 1000 \<and> vp_alpha (cc_vegas cc) \<le> 1000
     \<and> vp_delta (cc_vegas cc) < 2 ^ 16"

lemma new_consensus_params_ok:
  assumes "globals_ok gl"
  shows "\<exists>gl'. congestion_control_new_consensus_params ns gl = Some gl' \<and> globals_ok gl'
    \<and> 1 \<le> gl_sendme_inc gl' \<and> gl_sendme_inc gl' \<le> 254 \<and> gl_cc_alg gl' \<in> {CC_ALG_SENDME, CC_ALG_VEGAS}"
proof -
  obtain v1 where 1: "get_param ns ''cc_cwnd_max'' INT32_MAX 500 INT32_MAX = Some v1" "500 \<le> v1" "v1 \<le> INT32_MAX"
    using get_param_range [of 500 INT32_MAX INT32_MAX ns "''cc_cwnd_max''"] by (auto simp: cc_consts)
  obtain v2 where 2: "get_param ns ''cc_rtt_reset_pct'' 100 0 100 = Some v2" "v2 \<le> 100"
    using get_param_range [of 0 100 100 ns "''cc_rtt_reset_pct''"] by (auto simp: cc_consts)
  obtain v3 where 3: "get_param ns ''cc_sendme_inc'' SENDME_INC_DFLT 1 254 = Some v3" "1 \<le> v3" "v3 \<le> 254"
    using get_param_range [of 1 SENDME_INC_DFLT 254 ns "''cc_sendme_inc''"] by (auto simp: cc_consts)
  obtain v4 where 4: "get_param ns ''cc_alg'' CC_ALG_VEGAS 0 3 = Some v4"
    using get_param_range [of 0 CC_ALG_VEGAS 3 ns "''cc_alg''"] by (auto simp: cc_consts)
  obtain v5 where 5: "get_param ns ''cc_ewma_cwnd_pct'' 50 1 255 = Some v5" "v5 \<le> 255"
    using get_param_range [of 1 50 255 ns "''cc_ewma_cwnd_pct''"] by (auto simp: cc_consts)
  obtain v6 where 6: "get_param ns ''cc_ewma_max'' 10 2 INT32_MAX = Some v6"
    using get_param_range [of 2 10 INT32_MAX ns "''cc_ewma_max''"] by (auto simp: cc_consts)
  obtain v7 where 7: "get_param ns ''cc_ewma_ss'' 2 2 INT32_MAX = Some v7"
    using get_param_range [of 2 2 INT32_MAX ns "''cc_ewma_ss''"] by (auto simp: cc_consts)
  have "v < 256" if "v = (w :: nat) mod 256" for v w using that by simp
  then show ?thesis
    using assms 1 2 3 4 5 6 7
    by (simp add: congestion_control_new_consensus_params_def globals_ok_def Let_def less_Suc_eq_le [symmetric])
qed

lemma congestion_control_new_ok:
  assumes gl: "globals_ok gl" and alg: "gl_cc_alg gl = CC_ALG_VEGAS \<or> gl_cc_alg gl = CC_ALG_SENDME \<and> always"
    and inc: "2 \<le> inc" "inc \<le> 255"
  shows "\<exists>cc gl'. congestion_control_new ns always gl inc path = Some (cc, gl') \<and> globals_ok gl'
    \<and> cwnd_max gl' = cwnd_max gl \<and> params_ok cc \<and> cc_sendme_inc cc = inc
    \<and> 31 \<le> cc_cwnd cc \<and> cc_cwnd cc \<le> 10000 \<and> cc_inflight cc = 0 \<and> pending_timestamps cc = []
    \<and> ewma_rtt_usec cc = 0 \<and> min_rtt_usec cc = 0 \<and> cc_in_slow_start cc"
proof -
  obtain suffix alpha beta gamma delta cap where defaults: "vegas_defaults path = (suffix, alpha, beta, gamma, delta, cap)"
    by (metis prod_cases6)
  have dr: "alpha \<le> 1000" "beta \<le> 1000" "gamma \<le> 1000" "delta \<le> INT32_MAX" "100 \<le> cap" "cap \<le> INT32_MAX"
    using defaults by (cases path; simp add: vegas_defaults_def cc_consts)+
  obtain w1 where w1: "get_param ns ''cc_cwnd_init'' CIRCWINDOW_INIT SENDME_INC_DFLT 10000 = Some w1" "31 \<le> w1" "w1 \<le> 10000"
    using get_param_range [of SENDME_INC_DFLT CIRCWINDOW_INIT 10000 ns "''cc_cwnd_init''"] by (auto simp: cc_consts)
  obtain w2 where w2: "get_param ns ''cc_cwnd_inc_pct_ss'' 100 1 500 = Some w2" "w2 \<le> 500"
    using get_param_range [of 1 100 500 ns "''cc_cwnd_inc_pct_ss''"] by auto
  obtain w3 where w3: "get_param ns ''cc_cwnd_inc'' 1 1 1000 = Some w3" "1 \<le> w3" "w3 \<le> 1000"
    using get_param_range [of 1 1 1000 ns "''cc_cwnd_inc''"] by auto
  obtain w4 where w4: "get_param ns ''cc_cwnd_inc_rate'' SENDME_INC_DFLT 1 250 = Some w4" "1 \<le> w4" "w4 \<le> 250"
    using get_param_range [of 1 SENDME_INC_DFLT 250 ns "''cc_cwnd_inc_rate''"] by (auto simp: cc_consts)
  obtain w5 where w5: "get_param ns ''cc_cwnd_min'' CIRCWINDOW_INIT SENDME_INC_DFLT 1000 = Some w5" "31 \<le> w5" "w5 \<le> 1000"
    using get_param_range [of SENDME_INC_DFLT CIRCWINDOW_INIT 1000 ns "''cc_cwnd_min''"] by (auto simp: cc_consts)
  obtain v1 where v1: "get_param ns (''cc_sscap_'' @ suffix) cap 100 INT32_MAX = Some v1" "100 \<le> v1" "v1 \<le> INT32_MAX"
    using get_param_range [of 100 cap INT32_MAX ns "''cc_sscap_'' @ suffix"] dr by (auto simp: cc_consts)
  obtain v2 where v2: "get_param ns ''cc_ss_max'' 5000 500 INT32_MAX = Some v2" "500 \<le> v2" "v2 \<le> INT32_MAX"
    using get_param_range [of 500 5000 INT32_MAX ns "''cc_ss_max''"] by (auto simp: cc_consts)
  obtain v3 where v3: "get_param ns (''cc_vegas_alpha_'' @ suffix) alpha 0 1000 = Some v3" "v3 \<le> 1000"
    using get_param_range [of 0 alpha 1000 ns "''cc_vegas_alpha_'' @ suffix"] dr by auto
  obtain v4 where v4: "get_param ns (''cc_vegas_beta_'' @ suffix) beta 0 1000 = Some v4" "v4 \<le> 1000"
    using get_param_range [of 0 beta 1000 ns "''cc_vegas_beta_'' @ suffix"] dr by auto
  obtain v5 where v5: "get_param ns (''cc_vegas_gamma_'' @ suffix) gamma 0 1000 = Some v5" "v5 \<le> 1000"
    using get_param_range [of 0 gamma 1000 ns "''cc_vegas_gamma_'' @ suffix"] dr by auto
  obtain v6 where v6: "get_param ns (''cc_vegas_delta_'' @ suffix) delta 0 INT32_MAX = Some v6"
    using get_param_range [of 0 delta INT32_MAX ns "''cc_vegas_delta_'' @ suffix"] dr by (auto simp: cc_consts)
  obtain v7 where v7: "get_param ns ''cc_cwnd_full_minpct'' 25 0 100 = Some v7" "v7 \<le> 100"
    using get_param_range [of 0 25 100 ns "''cc_cwnd_full_minpct''"] by auto
  obtain v8 where v8: "get_param ns ''cc_cwnd_full_gap'' 4 0 INT16_MAX = Some v8" "v8 \<le> INT16_MAX"
    using get_param_range [of 0 4 INT16_MAX ns "''cc_cwnd_full_gap''"] by (auto simp: cc_consts)
  obtain v9 where v9: "get_param ns ''cc_cwnd_full_per_cwnd'' 1 0 1 = Some v9"
    using get_param_range [of 0 1 1 ns "''cc_cwnd_full_per_cwnd''"] by auto
  have vegas: "(if gl_cc_alg gl = CC_ALG_SENDME \<and> always then CC_ALG_VEGAS else gl_cc_alg gl) = CC_ALG_VEGAS"
    using alg by (auto simp: cc_consts)
  have trunc: "v mod 2 ^ 16 = v" if "v \<le> 1000" for v :: nat using that by simp
  show ?thesis
    using gl inc w1 w2 w3 w4 w5 v1 v2 v3 v4 v5 v6 v7 v8 v9 vegas trunc [OF v3(2)] trunc [OF v4(2)] trunc [OF v5(2)]
    by (simp add: congestion_control_new_def congestion_control_init_params_def congestion_control_vegas_set_params_def
      defaults globals_ok_def params_ok_def cc_zero_def Let_def)
qed

subsection \<open>Handling a SENDME\<close>

definition same_params :: "vegas_cc \<Rightarrow> vegas_cc \<Rightarrow> bool" where
  "same_params cc cc' \<longleftrightarrow> cc_alg cc' = cc_alg cc \<and> cc_sendme_inc cc' = cc_sendme_inc cc \<and> cwnd_inc_rate cc' = cwnd_inc_rate cc
     \<and> cwnd_inc cc' = cwnd_inc cc \<and> cwnd_min cc' = cwnd_min cc \<and> cwnd_inc_pct_ss cc' = cwnd_inc_pct_ss cc
     \<and> cc_vegas cc' = cc_vegas cc"

lemma same_params_ok: "same_params cc cc' \<Longrightarrow> params_ok cc' = params_ok cc"
  by (simp add: same_params_def params_ok_def)

lemma same_params_trans: "same_params a b \<Longrightarrow> same_params b c \<Longrightarrow> same_params a c"
  by (simp add: same_params_def)

lemma n_ewma_count_range: "globals_ok gl \<Longrightarrow> 2 \<le> n_ewma_count gl cc \<and> n_ewma_count gl cc < 2 ^ 16"
  by (auto simp: n_ewma_count_def globals_ok_def min_def max_def)

lemma update_rtt_ok:
  assumes "globals_ok gl" and "pending_timestamps cc = t # ts" and "sub64 now t < 2 ^ 32"
    and "ewma_rtt_usec cc < 2 ^ 32" and "min_rtt_usec cc < 2 ^ 32"
  shows "\<exists>rtt broken' cc'. congestion_control_update_circuit_rtt gl broken cc now = Some (rtt, broken', cc')
    \<and> same_params cc cc' \<and> cc_cwnd cc' = cc_cwnd cc \<and> cc_inflight cc' = cc_inflight cc
    \<and> cc_in_slow_start cc' = cc_in_slow_start cc \<and> pending_timestamps cc' = ts
    \<and> ewma_rtt_usec cc' < 2 ^ 32 \<and> min_rtt_usec cc' < 2 ^ 32"
proof -
  let ?rtt = "sub64 now t" and ?cc = "cc\<lparr>pending_timestamps := ts\<rparr>"
  obtain fishy broken' where f: "time_delta_stalled_or_jumped broken ?cc (ewma_rtt_usec cc) ?rtt = (fishy, broken')"
    by (metis surj_pair)
  let ?e = "n_count_ewma ?rtt (ewma_rtt_usec cc) (n_ewma_count gl ?cc)"
  have "?e \<le> 2 ^ 32 - 1"
    using n_ewma_count_range [OF assms(1), of ?cc] assms(3,4) by (intro n_count_ewma_bounds(1)) auto
  then have e: "?e < 2 ^ 32" by simp
  have m: "new_min_rtt gl x < 2 ^ 32" if "ewma_rtt_usec x = ?e" "min_rtt_usec x = min_rtt_usec cc" for x
    using that e assms(1,5) percent_max_mix_bound [OF e assms(5), of "rtt_reset_pct gl"]
    by (auto simp: new_min_rtt_def globals_ok_def)
  show ?thesis
  proof (cases fishy)
    case True
    then show ?thesis
      using assms f by (simp add: congestion_control_update_circuit_rtt_def dequeue_timestamp_def Let_def same_params_def)
  next
    case False
    then show ?thesis
      using assms(2) f e m
      by (simp add: congestion_control_update_circuit_rtt_def dequeue_timestamp_def Let_def same_params_def)
  qed
qed

lemma update_bdp_ok:
  assumes "cc_cwnd cc \<le> 2 ^ 31" and "min_rtt_usec cc < 2 ^ 32" and "cwnd_min cc \<le> 1000"
    and "congestion_control_update_circuit_bdp cc chan_q blocked rtt = (u, cc')"
  shows "same_params cc cc' \<and> cc_cwnd cc' = cc_cwnd cc \<and> cc_inflight cc' = cc_inflight cc
    \<and> cc_in_slow_start cc' = cc_in_slow_start cc \<and> pending_timestamps cc' = pending_timestamps cc
    \<and> ewma_rtt_usec cc' = ewma_rtt_usec cc \<and> min_rtt_usec cc' = min_rtt_usec cc \<and> blocked_chan cc' = blocked
    \<and> cc_bdp cc' < 2 ^ 63"
proof -
  have "cc_cwnd cc * min_rtt_usec cc \<le> 2 ^ 31 * (2 ^ 32 - 1)" using assms(1,2) by (intro mult_mono) auto
  then have p: "cc_cwnd cc * min_rtt_usec cc < 2 ^ 63" by simp
  then have "mul64 (cc_cwnd cc) (min_rtt_usec cc) div e < 2 ^ 63" for e
    using div_le_dividend [of "cc_cwnd cc * min_rtt_usec cc" e] by (subst mul64_small) (simp, linarith)
  then show ?thesis
    using assms(1,3,4) by (auto simp: congestion_control_update_circuit_bdp_def Let_def same_params_def split: if_splits)
qed

lemma update_estimates_ok:
  assumes "globals_ok gl" and "pending_timestamps cc = t # ts" and "sub64 now t < 2 ^ 32"
    and "ewma_rtt_usec cc < 2 ^ 32" and "min_rtt_usec cc < 2 ^ 32" and "cc_cwnd cc \<le> 2 ^ 31" and "cwnd_min cc \<le> 1000"
  shows "\<exists>u broken' cc'. congestion_control_update_circuit_estimates gl broken cc now chan_q blocked = Some (u, broken', cc')
    \<and> same_params cc cc' \<and> cc_cwnd cc' = cc_cwnd cc \<and> cc_inflight cc' = cc_inflight cc
    \<and> cc_in_slow_start cc' = cc_in_slow_start cc \<and> pending_timestamps cc' = ts
    \<and> ewma_rtt_usec cc' < 2 ^ 32 \<and> min_rtt_usec cc' < 2 ^ 32 \<and> blocked_chan cc' = blocked \<and> cc_bdp cc' < 2 ^ 63"
proof -
  obtain rtt broken' cc1 where r: "congestion_control_update_circuit_rtt gl broken cc now = Some (rtt, broken', cc1)"
    "same_params cc cc1" "cc_cwnd cc1 = cc_cwnd cc" "cc_inflight cc1 = cc_inflight cc"
    "cc_in_slow_start cc1 = cc_in_slow_start cc" "pending_timestamps cc1 = ts"
    "ewma_rtt_usec cc1 < 2 ^ 32" "min_rtt_usec cc1 < 2 ^ 32"
    using update_rtt_ok [OF assms(1-5)] by blast
  obtain u cc2 where b: "congestion_control_update_circuit_bdp cc1 chan_q blocked rtt = (u, cc2)" by (metis surj_pair)
  have "cc_cwnd cc1 \<le> 2 ^ 31" "cwnd_min cc1 \<le> 1000" using r assms(6,7) by (simp_all add: same_params_def)
  note b' = update_bdp_ok [OF this(1) r(8) this(2) b]
  then show ?thesis
    using r b same_params_trans [OF r(2)] by (simp add: congestion_control_update_circuit_estimates_def)
qed

lemma rfc3742_bound:
  assumes "params_ok cc" and "cc_cwnd cc \<le> 2 ^ 31"
  shows "rfc3742_ss_inc cc \<le> 2 ^ 40"
proof -
  have p: "cwnd_inc_pct_ss cc * cc_sendme_inc cc \<le> 500 * 255"
    using assms(1) by (intro mult_mono) (auto simp: params_ok_def)
  then have 1: "add64 (cwnd_inc_pct_ss cc * cc_sendme_inc cc) 50 div 100 \<le> 2 ^ 40"
    by (subst add64_small) simp_all
  have c: "cc_sendme_inc cc * ss_cwnd_cap (cc_vegas cc) \<le> 255 * INT32_MAX"
    using assms(1) by (intro mult_mono) (auto simp: params_ok_def)
  then have m: "mul64 (cc_sendme_inc cc) (ss_cwnd_cap (cc_vegas cc)) = cc_sendme_inc cc * ss_cwnd_cap (cc_vegas cc)"
    by (intro mul64_small) (simp add: INT32_MAX_def)
  have "add64 (cc_sendme_inc cc * ss_cwnd_cap (cc_vegas cc)) (cc_cwnd cc) \<le> 2 ^ 40"
    using c assms(2) by (subst add64_small) (simp_all add: INT32_MAX_def)
  then have "add64 (mul64 (cc_sendme_inc cc) (ss_cwnd_cap (cc_vegas cc))) (cc_cwnd cc) div x \<le> 2 ^ 40" for x
    unfolding m using div_le_dividend le_trans by blast
  then show ?thesis using 1 by (simp add: rfc3742_ss_inc_def)
qed

text \<open>A window that is at least \<open>lb\<close> stays so.\<close>

lemma vegas_slow_start_ok:
  assumes "params_ok cc" and "cc_cwnd cc \<le> 2 ^ 31" and "cc_bdp cc < 2 ^ 63"
    and "lb \<le> cc_cwnd cc" and "lb \<le> vp_gamma (cc_vegas cc)" and "lb \<le> 500"
  shows "lb \<le> cc_cwnd (vegas_slow_start cc q)"
proof -
  have g: "vp_gamma (cc_vegas cc) \<le> 1000" and mx: "500 \<le> ss_cwnd_max (cc_vegas cc)"
    using assms(1) by (simp_all add: params_ok_def)
  have "add64 (vegas_bdp cc) (vp_gamma (cc_vegas cc)) = cc_bdp cc + vp_gamma (cc_vegas cc)"
    using assms(3) g by (subst add64_small) (simp_all add: vegas_bdp_def)
  moreover have "add64 (cc_cwnd cc) (rfc3742_ss_inc cc) = cc_cwnd cc + rfc3742_ss_inc cc"
    using assms(2) rfc3742_bound [OF assms(1,2)] by (intro add64_small) simp
  ultimately show ?thesis
    using assms(4-6) mx by (auto simp: vegas_slow_start_def Let_def congestion_control_vegas_exit_slow_start_def)
qed

lemma vegas_steady_state_ok: "lb \<le> cwnd_min cc \<Longrightarrow> lb \<le> cc_cwnd (vegas_steady_state cc q)"
  by (simp add: vegas_steady_state_def Let_def le_max_iff_disj)

lemma vegas_update_same:
  "same_params cc (vegas_update_window cc q)" "cc_inflight (vegas_update_window cc q) = cc_inflight cc"
  "pending_timestamps (vegas_update_window cc q) = pending_timestamps cc"
  "ewma_rtt_usec (vegas_update_window cc q) = ewma_rtt_usec cc"
  "min_rtt_usec (vegas_update_window cc q) = min_rtt_usec cc"
  by (simp_all add: vegas_update_window_def vegas_slow_start_def vegas_steady_state_def Let_def
      congestion_control_vegas_exit_slow_start_def same_params_def)

text \<open>What holds of the object between events, with \<open>lb\<close> a lower bound of the window.\<close>

definition cc_inv :: "cc_globals \<Rightarrow> nat \<Rightarrow> vegas_cc \<Rightarrow> bool" where
  "cc_inv gl lb cc \<longleftrightarrow> params_ok cc \<and> lb \<le> cc_cwnd cc \<and> cc_cwnd cc \<le> max 10000 (cwnd_max gl)
     \<and> cc_inflight cc \<le> max 10000 (cwnd_max gl)
     \<and> length (pending_timestamps cc) = cc_inflight cc div cc_sendme_inc cc
     \<and> ewma_rtt_usec cc < 2 ^ 32 \<and> min_rtt_usec cc < 2 ^ 32"

definition low_bound :: "nat \<Rightarrow> vegas_cc \<Rightarrow> bool" where
  "low_bound lb cc \<longleftrightarrow> lb \<le> vp_gamma (cc_vegas cc) \<and> lb \<le> cwnd_min cc \<and> lb \<le> 500"

lemma same_low_bound: "same_params cc cc' \<Longrightarrow> low_bound lb cc' = low_bound lb cc"
  by (simp add: same_params_def low_bound_def)

lemma process_sendme_ok:
  assumes gl: "globals_ok gl" and inv: "cc_inv gl lb cc" and low: "low_bound lb cc"
    and ts: "pending_timestamps cc = t # ts" and rtt: "sub64 now t < 2 ^ 32"
  shows "\<exists>broken' cc'. congestion_control_vegas_process_sendme gl broken cc now chan_q blocked = Some (broken', cc')
    \<and> same_params cc cc' \<and> lb \<le> cc_cwnd cc' \<and> cc_inflight cc' = cc_inflight cc - cc_sendme_inc cc
    \<and> pending_timestamps cc' = ts \<and> ewma_rtt_usec cc' < 2 ^ 32 \<and> min_rtt_usec cc' < 2 ^ 32"
proof -
  let ?cc0 = "cc\<lparr>next_cc_event := next_cc_event cc - 1, next_cwnd_event := next_cwnd_event cc - 1\<rparr>"
  have par: "params_ok cc" and w: "lb \<le> cc_cwnd cc" "cc_cwnd cc \<le> 2 ^ 31"
    using inv gl by (auto simp: cc_inv_def globals_ok_def INT32_MAX_def)
  obtain u broken' cc1 where e: "congestion_control_update_circuit_estimates gl broken ?cc0 now chan_q blocked = Some (u, broken', cc1)"
    "same_params ?cc0 cc1" "cc_cwnd cc1 = cc_cwnd cc" "cc_inflight cc1 = cc_inflight cc"
    "pending_timestamps cc1 = ts" "ewma_rtt_usec cc1 < 2 ^ 32" "min_rtt_usec cc1 < 2 ^ 32" "cc_bdp cc1 < 2 ^ 63"
    using update_estimates_ok [OF gl, of ?cc0 t ts now broken chan_q blocked] ts rtt inv w(2) par
    by (auto simp: cc_inv_def params_ok_def)
  have s1: "same_params cc cc1" using e(2) by (simp add: same_params_def)
  have inc: "cc_sendme_inc cc \<le> cc_inflight cc"
    using inv ts div_greater_zero_iff [of "cc_inflight cc" "cc_sendme_inc cc"] by (auto simp: cc_inv_def)
  have "cc_inflight cc < 2 ^ 64" using inv gl by (auto simp: cc_inv_def globals_ok_def INT32_MAX_def)
  note ack = sub64_small [OF inc this]
  show ?thesis
  proof (cases u)
    case False
    have "congestion_control_vegas_process_sendme gl broken cc now chan_q blocked = Some (broken', vegas_ack cc1)"
      using e(1) False par by (simp add: congestion_control_vegas_process_sendme_def params_ok_def)
    then show ?thesis
      using e s1 w ack by (auto simp: vegas_ack_def same_params_def)
  next
    case True
    define q where "q = vegas_queue_use cc1"
    define cc2 where "cc2 = vegas_mark_full gl cc1"
    define cc3 where "cc3 = vegas_update_window cc2 q"
    define cc6 where "cc6 = vegas_reset_events gl cc3"
    have run: "congestion_control_vegas_process_sendme gl broken cc now chan_q blocked = Some (broken', vegas_ack cc6)"
      using e(1) True par
      by (simp add: congestion_control_vegas_process_sendme_def params_ok_def Let_def q_def cc2_def cc3_def cc6_def)
    have s2: "same_params cc1 cc2" "cc_cwnd cc2 = cc_cwnd cc1" "cc_inflight cc2 = cc_inflight cc1"
      "pending_timestamps cc2 = pending_timestamps cc1" "ewma_rtt_usec cc2 = ewma_rtt_usec cc1"
      "min_rtt_usec cc2 = min_rtt_usec cc1" "cc_bdp cc2 = cc_bdp cc1"
      by (simp_all add: cc2_def vegas_mark_full_def same_params_def)
    have s3: "same_params cc2 cc3" "cc_inflight cc3 = cc_inflight cc2" "pending_timestamps cc3 = pending_timestamps cc2"
      "ewma_rtt_usec cc3 = ewma_rtt_usec cc2" "min_rtt_usec cc3 = min_rtt_usec cc2"
      by (simp_all only: cc3_def vegas_update_same)
    have s6: "same_params cc3 cc6" "cc_cwnd cc6 = cc_cwnd cc3" "cc_inflight cc6 = cc_inflight cc3"
      "pending_timestamps cc6 = pending_timestamps cc3" "ewma_rtt_usec cc6 = ewma_rtt_usec cc3"
      "min_rtt_usec cc6 = min_rtt_usec cc3"
      by (simp_all add: cc6_def vegas_reset_events_def Let_def same_params_def)
    have s12: "same_params cc cc2" by (rule same_params_trans [OF s1 s2(1)])
    have s16: "same_params cc cc6" by (rule same_params_trans [OF s12 same_params_trans [OF s3(1) s6(1)]])
    have "params_ok cc2" using par same_params_ok [OF s12] by simp
    moreover have "low_bound lb cc2" using low same_low_bound [OF s12] by simp
    ultimately have "lb \<le> cc_cwnd cc3"
      using vegas_slow_start_ok [of cc2 lb q] vegas_steady_state_ok [of lb cc2 q] w e(3,8) s2(2,7)
      by (auto simp: cc3_def vegas_update_window_def low_bound_def)
    then show ?thesis
      using run e s1 s2 s3 s6 s16 ack by (auto simp: vegas_ack_def same_params_def)
  qed
qed

lemma dispatch_ok:
  assumes gl: "globals_ok gl" and inv: "cc_inv gl lb cc" and low: "low_bound lb cc"
    and ts: "pending_timestamps cc = t # ts" and rtt: "sub64 now t < 2 ^ 32"
  shows "\<exists>broken' cc'. congestion_control_dispatch_cc_alg gl broken cc now chan_q blocked = Some (broken', cc')
    \<and> cc_inv gl lb cc' \<and> same_params cc cc' \<and> cc_inflight cc' = cc_inflight cc - cc_sendme_inc cc
    \<and> pending_timestamps cc' = ts"
proof -
  obtain broken' cc1 where p: "congestion_control_vegas_process_sendme gl broken cc now chan_q blocked = Some (broken', cc1)"
    "same_params cc cc1" "lb \<le> cc_cwnd cc1" "cc_inflight cc1 = cc_inflight cc - cc_sendme_inc cc"
    "pending_timestamps cc1 = ts" "ewma_rtt_usec cc1 < 2 ^ 32" "min_rtt_usec cc1 < 2 ^ 32"
    using process_sendme_ok [OF assms] by blast
  let ?cc2 = "if cc_cwnd cc1 > cwnd_max gl then cc1\<lparr>cc_cwnd := cwnd_max gl\<rparr> else cc1"
  have inc: "2 \<le> cc_sendme_inc cc" using inv by (simp add: cc_inv_def params_ok_def)
  have len: "Suc (length ts) = cc_inflight cc div cc_sendme_inc cc" using inv ts by (simp add: cc_inv_def)
  then have "cc_sendme_inc cc \<le> cc_inflight cc" by (metis div_less nat.distinct(1) not_less)
  then have "cc_inflight cc div cc_sendme_inc cc = Suc ((cc_inflight cc - cc_sendme_inc cc) div cc_sendme_inc cc)"
    using inc by (intro le_div_geq) simp_all
  then have "length ts = cc_inflight cc1 div cc_sendme_inc cc1"
    using len p(2,4) by (simp add: same_params_def)
  moreover have "params_ok cc1" using inv same_params_ok [OF p(2)] by (simp add: cc_inv_def)
  moreover have "lb \<le> cwnd_max gl" using gl low by (simp add: globals_ok_def low_bound_def)
  ultimately have "cc_inv gl lb ?cc2"
    using p inv gl by (auto simp: cc_inv_def params_ok_def)
  moreover have "same_params cc ?cc2" using p(2) by (simp add: same_params_def)
  ultimately show ?thesis using p by (auto simp: congestion_control_dispatch_cc_alg_def)
qed

subsection \<open>The sender\<close>

text \<open>The circuit with this congestion control object, which the functions of the SENDME model read.\<close>

definition with_cc :: "circuit \<Rightarrow> vegas_cc \<Rightarrow> circuit" where
  "with_cc circ cc = circ\<lparr>c_ccontrol := Some (congestion_control.truncate cc)\<rparr>"

definition cc_window :: "circuit \<Rightarrow> vegas_cc \<Rightarrow> int" where
  "cc_window circ cc = congestion_control_get_package_window (with_cc circ cc) None"

lemma cc_window_pos: "0 < cc_window circ cc \<longleftrightarrow> cc_inflight cc < cc_cwnd cc"
  by (auto simp: cc_window_def congestion_control_get_package_window_def with_cc_def congestion_control.truncate_def INT32_MAX_def)

text \<open>
  A SENDME comes only for cells that were sent (others are refused, as the SENDME model shows), and within
  2^32 microseconds.
\<close>

inductive cc_reach :: "cc_globals \<Rightarrow> circuit \<Rightarrow> vegas_cc \<Rightarrow> vegas_cc \<Rightarrow> bool" for gl circ cc0 where
  start: "cc_reach gl circ cc0 cc0"
| sent: "cc_reach gl circ cc0 cc \<Longrightarrow> 0 < cc_window circ cc
    \<Longrightarrow> congestion_control_note_cell_sent now (with_cc circ cc) None cc = Some cc' \<Longrightarrow> cc_reach gl circ cc0 cc'"
| acked: "cc_reach gl circ cc0 cc \<Longrightarrow> pending_timestamps cc = t # ts \<Longrightarrow> sub64 now t < 2 ^ 32
    \<Longrightarrow> congestion_control_dispatch_cc_alg gl broken cc now chan_q blocked = Some (broken', cc')
    \<Longrightarrow> cc_reach gl circ cc0 cc'"

lemma note_cell_sent_ok:
  assumes "cc_inv gl lb cc" and "globals_ok gl" and "0 < cc_window circ cc"
  shows "\<exists>cc'. congestion_control_note_cell_sent now (with_cc circ cc) None cc = Some cc' \<and> cc_inv gl lb cc'
    \<and> same_params cc cc' \<and> cc_inflight cc' = cc_inflight cc + 1 \<and> cc_cwnd cc' = cc_cwnd cc"
proof -
  let ?i = "cc_inflight cc" and ?n = "cc_sendme_inc cc"
  have n: "2 \<le> ?n" and len: "length (pending_timestamps cc) = ?i div ?n"
    using assms(1) by (simp_all add: cc_inv_def params_ok_def)
  have i: "?i < max 10000 (cwnd_max gl)" using assms(1,3) cc_window_pos by (fastforce simp: cc_inv_def)
  then have "?i < 2 ^ 32" using assms(2) by (auto simp: globals_ok_def INT32_MAX_def)
  then have add: "add64 ?i 1 = ?i + 1" by (intro add64_small) simp
  have due: "circuit_sent_cell_for_sendme (with_cc circ cc) None = Some ((?i + 1) mod ?n = 0)"
    using n by (simp add: circuit_sent_cell_for_sendme_def with_cc_def congestion_control.truncate_def)
  have step: "(?i + 1) div ?n = ?i div ?n + (if (?i + 1) mod ?n = 0 then 1 else 0)"
    by (simp add: div_Suc)
  let ?cc' = "cc\<lparr>cc_inflight := ?i + 1, pending_timestamps :=
     (if (?i + 1) mod ?n = 0 then enqueue_timestamp (pending_timestamps cc) now else pending_timestamps cc)\<rparr>"
  have "congestion_control_note_cell_sent now (with_cc circ cc) None cc = Some ?cc'"
    by (simp add: congestion_control_note_cell_sent_def due add del: One_nat_def)
  moreover have "cc_inv gl lb ?cc'"
    using assms(1) len step i by (simp add: cc_inv_def params_ok_def enqueue_timestamp_def)
  ultimately show ?thesis by (simp add: same_params_def)
qed

lemma cc_reach_inv:
  assumes "cc_reach gl circ cc0 cc" and "globals_ok gl" and "cc_inv gl lb cc0" and "low_bound lb cc0"
  shows "cc_inv gl lb cc \<and> same_params cc0 cc"
  using assms
proof (induction rule: cc_reach.induct)
  case start
  then show ?case by (simp add: same_params_def)
next
  case (sent cc now cc')
  then show ?case using note_cell_sent_ok [of gl lb cc circ now] same_params_trans by fastforce
next
  case (acked cc t ts now broken chan_q blocked broken' cc')
  then have "cc_inv gl lb cc" "same_params cc0 cc" by simp_all
  moreover have "low_bound lb cc" using acked.prems(3) same_low_bound calculation(2) by simp
  ultimately show ?case
    using dispatch_ok [of gl lb cc t ts now broken chan_q blocked] acked.hyps acked.prems(1) same_params_trans by fastforce
qed

lemma new_inv:
  assumes "globals_ok gl" and "gl_cc_alg gl = CC_ALG_VEGAS \<or> gl_cc_alg gl = CC_ALG_SENDME \<and> always"
    and "2 \<le> inc" and "inc \<le> 255" and "congestion_control_new ns always gl inc path = Some (cc0, gl')"
    and "lb \<le> cc_cwnd cc0"
  shows "globals_ok gl'" and "cc_inv gl' lb cc0" and "cc_sendme_inc cc0 = inc" and "31 \<le> cc_cwnd cc0"
    and "31 \<le> cwnd_min cc0"
  using congestion_control_new_ok [OF assms(1-4), of ns path] assms(5,6)
  by (auto simp: cc_inv_def params_ok_def)

text \<open>Handling the SENDMEs that are due, one after the other.\<close>

inductive cc_acks :: "cc_globals \<Rightarrow> nat \<Rightarrow> vegas_cc \<Rightarrow> vegas_cc \<Rightarrow> bool" for gl where
  none: "cc_acks gl 0 cc cc"
| one: "pending_timestamps cc = t # ts \<Longrightarrow> sub64 now t < 2 ^ 32
    \<Longrightarrow> congestion_control_dispatch_cc_alg gl broken cc now chan_q blocked = Some (broken', cc')
    \<Longrightarrow> cc_acks gl n cc' cc'' \<Longrightarrow> cc_acks gl (Suc n) cc cc''"

lemma cc_acks_inv:
  assumes "cc_acks gl n cc cc'" and "globals_ok gl" and "cc_inv gl lb cc" and "low_bound lb cc"
  shows "cc_inv gl lb cc' \<and> same_params cc cc' \<and> length (pending_timestamps cc') + n = length (pending_timestamps cc)"
  using assms
proof (induction rule: cc_acks.induct)
  case (none cc)
  then show ?case by (simp add: same_params_def)
next
  case (one cc t ts now broken chan_q blocked broken' cc' n cc'')
  then have d: "cc_inv gl lb cc'" "same_params cc cc'" "pending_timestamps cc' = ts"
    using dispatch_ok [of gl lb cc t ts now broken chan_q blocked] by auto
  then have "low_bound lb cc'" using one.prems(3) same_low_bound by simp
  then show ?case using one.IH one.prems(1) d one.hyps(1) same_params_trans [OF d(2)] by auto
qed

text \<open>Sending cells at one time, from a circuit that has none in flight.\<close>

lemma send_many:
  assumes "cc_reach gl circ cc0 cc" and "cc_inflight cc = 0" and "pending_timestamps cc = []"
    and "2 \<le> cc_sendme_inc cc" and "n \<le> cc_cwnd cc" and "cc_cwnd cc < 2 ^ 32"
  shows "cc_reach gl circ cc0 (cc\<lparr>cc_inflight := n, pending_timestamps := replicate (n div cc_sendme_inc cc) now\<rparr>)"
  using assms(5)
proof (induction n)
  case 0
  have "cc\<lparr>cc_inflight := 0, pending_timestamps := []\<rparr> = cc" using assms(2,3) by simp
  then show ?case using assms(1) by simp
next
  case (Suc n)
  let ?k = "cc_sendme_inc cc"
  let ?cc = "cc\<lparr>cc_inflight := n, pending_timestamps := replicate (n div ?k) now\<rparr>"
  have add: "add64 n 1 = Suc n" using Suc.prems assms(6) by (subst add64_small) simp_all
  have due: "circuit_sent_cell_for_sendme (with_cc circ ?cc) None = Some ((n + 1) mod ?k = 0)"
    using assms(4) by (simp add: circuit_sent_cell_for_sendme_def with_cc_def congestion_control.truncate_def)
  have step: "Suc n div ?k = n div ?k + (if Suc n mod ?k = 0 then 1 else 0)" by (simp add: div_Suc)
  have "congestion_control_note_cell_sent now (with_cc circ ?cc) None ?cc =
      Some (cc\<lparr>cc_inflight := Suc n, pending_timestamps := replicate (Suc n div ?k) now\<rparr>)"
    using add step by (simp add: congestion_control_note_cell_sent_def due enqueue_timestamp_def replicate_append_same)
  moreover have "0 < cc_window circ ?cc" using Suc.prems by (simp add: cc_window_pos)
  ultimately show ?case using Suc cc_reach.sent by simp
qed

subsection \<open>Properties\<close>

text \<open>
  C12: Let the SENDME increment be between 2 and 255 (the consensus may also set it to 1, for which the
  code records no timestamp for the first cell although its SENDME will come: that case is left out), let
  every SENDME be handled less than 2^32 microseconds, more than an hour, after the cell that it answers,
  and let the global parameters be in their ranges, as new_consensus_params_ok shows that every consensus
  leaves them.  Then, whatever else the consensus sets for the circuit and however the channel behaves, the window of a
  sender stays between the smaller of gamma and 31 cells and the larger of 10000 and cc_cwnd_max; the
  number of cells in flight never underflows, a timestamp is pending for every SENDME that is due, and
  handling a SENDME then ends without a failed assertion.
\<close>

theorem vegas_window_bounds:
  assumes "globals_ok gl" and "gl_cc_alg gl = CC_ALG_VEGAS \<or> gl_cc_alg gl = CC_ALG_SENDME \<and> always"
    and "2 \<le> inc" and "inc \<le> 255" and "congestion_control_new ns always gl inc path = Some (cc0, gl')"
    and "cc_reach gl' circ cc0 cc"
  shows "min 31 (vp_gamma (cc_vegas cc0)) \<le> cc_cwnd cc \<and> cc_cwnd cc \<le> max 10000 (cwnd_max gl')
    \<and> cc_inflight cc \<le> max 10000 (cwnd_max gl') \<and> length (pending_timestamps cc) = cc_inflight cc div inc
    \<and> (\<forall>now broken chan_q blocked. pending_timestamps cc \<noteq> [] \<longrightarrow> sub64 now (hd (pending_timestamps cc)) < 2 ^ 32 \<longrightarrow>
         congestion_control_dispatch_cc_alg gl' broken cc now chan_q blocked \<noteq> None)"
proof -
  let ?lb = "min 31 (vp_gamma (cc_vegas cc0))"
  note new = new_inv [OF assms(1-5)]
  have "?lb \<le> cc_cwnd cc0" using new(4) [of 0] by simp
  then have inv0: "cc_inv gl' ?lb cc0" using new(2) by blast
  have low: "low_bound ?lb cc0" using new(5) [of 0] by (simp add: low_bound_def min_le_iff_disj)
  have gl': "globals_ok gl'" using new(1) [of 0] by simp
  have r: "cc_inv gl' ?lb cc" "same_params cc0 cc" using cc_reach_inv [OF assms(6) gl' inv0 low] by simp_all
  have lowcc: "low_bound ?lb cc" using low same_low_bound [OF r(2)] by simp
  have "congestion_control_dispatch_cc_alg gl' broken cc now chan_q blocked \<noteq> None"
    if ne: "pending_timestamps cc \<noteq> []" "sub64 now (hd (pending_timestamps cc)) < 2 ^ 32" for now broken chan_q blocked
  proof -
    obtain t ts where t: "pending_timestamps cc = t # ts" using ne(1) by (cases "pending_timestamps cc") auto
    then show ?thesis using dispatch_ok [OF gl' r(1) lowcc t, of now broken chan_q blocked] ne(2) by auto
  qed
  moreover have "cc_sendme_inc cc = inc" using new(3) [of 0] r(2) by (simp add: same_params_def)
  ultimately show ?thesis using r(1) by (simp add: cc_inv_def)
qed

definition default_cc :: "(vegas_cc \<times> cc_globals) option" where
  "default_cc = congestion_control_new None False cc_globals_init 31 CC_PATH_EXIT"

lemmas cc_eval = default_cc_def congestion_control_new_def congestion_control_init_params_def congestion_control_vegas_set_params_def
  get_param_def networkstatus_get_param_def vegas_defaults_def cc_zero_def cc_globals_init_def cc_consts Let_def
  CWND_UPDATE_RATE_def

lemma default_cc_eq:
  "\<exists>cc0 gl'. default_cc = Some (cc0, gl') \<and> cc_cwnd cc0 = 124 \<and> cwnd_min cc0 = 124 \<and> vp_gamma (cc_vegas cc0) = 186
     \<and> cc_sendme_inc cc0 = 31"
  by (simp add: cc_eval)

lemma init_ok: "globals_ok cc_globals_init" "gl_cc_alg cc_globals_init = CC_ALG_VEGAS"
  by (simp_all add: globals_ok_def cc_globals_init_def cc_consts)

text \<open>
  C3: when the SENDME increment is at least 2, gamma, cc_cwnd_min and the initial window are at least the
  increment, and every SENDME is handled within 2^32 microseconds of its cell, a sender never stalls: a closed window always waits for a SENDME that is due, and when all that are due have come, in
  whatever state of the channel, the window is open.
\<close>

theorem vegas_never_stalls:
  assumes "globals_ok gl" and "gl_cc_alg gl = CC_ALG_VEGAS \<or> gl_cc_alg gl = CC_ALG_SENDME \<and> always"
    and "2 \<le> inc" and "inc \<le> 255" and "congestion_control_new ns always gl inc path = Some (cc0, gl')"
    and "inc \<le> cc_cwnd cc0" and "inc \<le> cwnd_min cc0" and "inc \<le> vp_gamma (cc_vegas cc0)"
    and "cc_reach gl' circ cc0 cc"
  shows "(cc_window circ cc \<le> 0 \<longrightarrow> pending_timestamps cc \<noteq> [])
    \<and> (\<forall>cc'. cc_acks gl' (length (pending_timestamps cc)) cc cc' \<longrightarrow> 0 < cc_window circ cc')"
proof -
  note new = new_inv [OF assms(1-6)]
  have low: "low_bound inc cc0" using assms(4,7,8) by (simp add: low_bound_def)
  have r: "cc_inv gl' inc cc" "same_params cc0 cc" using cc_reach_inv [OF assms(9) new(1,2) low] by simp_all
  have lowcc: "low_bound inc cc" using low same_low_bound [OF r(2)] by simp
  have inc: "cc_sendme_inc cc = inc" using new(3) r(2) by (simp add: same_params_def)
  have "pending_timestamps cc \<noteq> []" if "cc_window circ cc \<le> 0"
  proof -
    have "inc \<le> cc_inflight cc" using that cc_window_pos [of circ cc] r(1) by (simp add: cc_inv_def not_less)
    then have "0 < cc_inflight cc div inc" using assms(3) by (simp add: div_greater_zero_iff)
    then show ?thesis using r(1) inc by (auto simp: cc_inv_def)
  qed
  moreover have "0 < cc_window circ cc'" if acks: "cc_acks gl' (length (pending_timestamps cc)) cc cc'" for cc'
  proof -
    have a: "cc_inv gl' inc cc'" "same_params cc cc'" "pending_timestamps cc' = []"
      using cc_acks_inv [OF acks new(1) r(1) lowcc] by simp_all
    then have "cc_inflight cc' div inc = 0" using inc by (simp add: cc_inv_def same_params_def)
    then have "cc_inflight cc' < inc" using assms(3) by (simp add: div_eq_0_iff)
    then show ?thesis using a(1) by (simp add: cc_window_pos cc_inv_def)
  qed
  ultimately show ?thesis by blast
qed

theorem vegas_never_stalls_witness:
  "\<forall>circ. \<exists>cc0 gl' cc. default_cc = Some (cc0, gl') \<and> cc_reach gl' circ cc0 cc \<and> cc_window circ cc = 0
     \<and> pending_timestamps cc \<noteq> []"
proof
  fix circ
  obtain cc0 gl' where d: "default_cc = Some (cc0, gl')" "cc_cwnd cc0 = 124" "cwnd_min cc0 = 124"
    "vp_gamma (cc_vegas cc0) = 186" "cc_sendme_inc cc0 = 31" using default_cc_eq by blast
  have new: "congestion_control_new None False cc_globals_init 31 CC_PATH_EXIT = Some (cc0, gl')"
    using d(1) by (simp add: default_cc_def)
  have z: "cc_inflight cc0 = 0" "pending_timestamps cc0 = []"
    using congestion_control_new_ok [OF init_ok(1) disjI1 [OF init_ok(2)], of 31 None False CC_PATH_EXIT] new by auto
  let ?cc = "cc0\<lparr>cc_inflight := 124, pending_timestamps := replicate (124 div cc_sendme_inc cc0) 5\<rparr>"
  have r: "cc_reach gl' circ cc0 ?cc"
    by (rule send_many) (use d z cc_reach.start in simp_all)
  have w: "cc_window circ ?cc = 0"
    using d by (simp add: cc_window_def congestion_control_get_package_window_def with_cc_def congestion_control.truncate_def)
  then have "pending_timestamps ?cc \<noteq> []"
    using vegas_never_stalls [OF init_ok(1) disjI1 [OF init_ok(2)] _ _ new _ _ _ r] d by simp
  then show "\<exists>cc0 gl' cc. default_cc = Some (cc0, gl') \<and> cc_reach gl' circ cc0 cc \<and> cc_window circ cc = 0
     \<and> pending_timestamps cc \<noteq> []" using d(1) r w by blast
qed



text \<open>A circuit under the consensus \<open>cc_cwnd_inc=1000\<close>, with what changes in the run below as arguments.\<close>

definition wide_cc ::
  "nat \<Rightarrow> nat \<Rightarrow> bool \<Rightarrow> nat list \<Rightarrow> nat \<Rightarrow> nat \<Rightarrow> nat \<Rightarrow> nat \<Rightarrow> bool \<Rightarrow> bool \<Rightarrow> vegas_cc" where
  "wide_cc inflight cwnd ss ts rtt bdp cc_event cwnd_event full blocked =
     \<lparr>cc_sendme_inc = 31, cc_inflight = inflight, cc_cwnd = cwnd, cc_in_slow_start = ss, pending_timestamps = ts,
      ewma_rtt_usec = rtt, min_rtt_usec = rtt, max_rtt_usec = rtt, cc_bdp = bdp, next_cc_event = cc_event,
      next_cwnd_event = cwnd_event, cwnd_full = full, blocked_chan = blocked, cwnd_inc_pct_ss = 100, cwnd_inc = 1000,
      cwnd_min = 124, cwnd_inc_rate = 31, cc_alg = CC_ALG_VEGAS,
      cc_vegas = \<lparr>ss_cwnd_cap = 600, ss_cwnd_max = 5000, vp_gamma = 186, vp_alpha = 186, vp_beta = 248, vp_delta = 310\<rparr>\<rparr>"

lemma parse_1000:
  "tor_parse_long ''1000'' 10 (- 2147483648) 2147483647 False = \<lparr>pr_ok = True, pr_val = 1000, pr_next = None\<rparr>"
proof -
  have "''1000'' = decimal 1000"
    by (simp add: decimal.simps [of 1000] decimal.simps [of 100] decimal.simps [of 10] decimal.simps [of "Suc 0"] digit_char_def char_of_def bit_Suc_0_iff)
  moreover have "decimal 1000 \<noteq> []" unfolding calculation [symmetric] by simp
  ultimately show ?thesis
    using strtox_decimal [of "[]" 1000]
    by (simp add: tor_parse_long_def strtol_def CHECK_STRTOX_RESULT_def LONG_MAX_def LONG_MIN_def)
qed

lemma wide_inc_new:
  "congestion_control_new (Some [''cc_cwnd_inc=1000'']) False cc_globals_init 31 CC_PATH_EXIT
     = Some (wide_cc 0 124 True [] 0 0 1 0 False False, cc_globals_init)"
  by (simp add: cc_eval get_net_param_from_list_def wide_cc_def parse_1000)

lemmas word_eval = add64_def sub64_def mul64_def u64_def

lemma wide_rtt:
  "congestion_control_update_circuit_estimates cc_globals_init False (wide_cc 62 124 True [0, 0] 0 0 0 0 False False) 1000 0 True
     = Some (True, False, wide_cc 62 124 True [0] 1000 124 0 0 False True)"
  "congestion_control_update_circuit_estimates cc_globals_init False (wide_cc 31 310 False [0] 1000 124 0 9 False True) 1000 0 True
     = Some (True, False, wide_cc 31 310 False [] 1000 310 0 9 False True)"
  by (simp_all add: congestion_control_update_circuit_estimates_def congestion_control_update_circuit_rtt_def dequeue_timestamp_def
      congestion_control_update_circuit_bdp_def time_delta_stalled_or_jumped_def time_delta_should_use_heuristics_def
      n_ewma_count_def n_count_ewma_def new_min_rtt_def CWND_UPDATE_RATE_def DELTA_DISCREPENCY_RATIO_MAX_def
      cc_globals_init_def wide_cc_def word_eval)

lemma wide_first:
  "congestion_control_dispatch_cc_alg cc_globals_init False (wide_cc 62 124 True [0, 0] 0 0 1 0 False False) 1000 0 True
     = Some (False, wide_cc 31 310 False [0] 1000 124 0 10 False True)"
proof -
  have "(wide_cc 62 124 True [0, 0] 0 0 1 0 False False)\<lparr>next_cc_event := 0, next_cwnd_event := 0\<rparr> =
      wide_cc 62 124 True [0, 0] 0 0 0 0 False False" by (simp add: wide_cc_def)
  moreover have "next_cc_event (wide_cc 62 124 True [0, 0] 0 0 1 0 False False) = 1"
    "next_cwnd_event (wide_cc 62 124 True [0, 0] 0 0 1 0 False False) = 0"
    "cc_alg (wide_cc 62 124 True [0, 0] 0 0 1 0 False False) = CC_ALG_VEGAS" by (simp_all add: wide_cc_def)
  moreover have "vegas_queue_use (wide_cc 62 124 True [0] 1000 124 0 0 False True) = 0"
    by (simp add: vegas_queue_use_def vegas_bdp_def wide_cc_def)
  moreover have "vegas_mark_full cc_globals_init (wide_cc 62 124 True [0] 1000 124 0 0 False True) =
      wide_cc 62 124 True [0] 1000 124 0 0 True True"
    by (simp add: vegas_mark_full_def cwnd_became_full_def cc_globals_init_def wide_cc_def word_eval)
  moreover have "vegas_update_window (wide_cc 62 124 True [0] 1000 124 0 0 True True) 0 =
      wide_cc 62 310 False [0] 1000 124 0 0 True True"
    by (simp add: vegas_update_window_def vegas_slow_start_def congestion_control_vegas_exit_slow_start_def vegas_bdp_def
        wide_cc_def word_eval)
  moreover have "vegas_reset_events cc_globals_init (wide_cc 62 310 False [0] 1000 124 0 0 True True) =
      wide_cc 62 310 False [0] 1000 124 0 10 False True"
    by (simp add: vegas_reset_events_def cwnd_full_reset_def SENDME_PER_CWND_def CWND_UPDATE_RATE_def cc_globals_init_def
        wide_cc_def word_eval)
  moreover have "vegas_ack (wide_cc 62 310 False [0] 1000 124 0 10 False True) = wide_cc 31 310 False [0] 1000 124 0 10 False True"
    by (simp add: vegas_ack_def wide_cc_def word_eval)
  moreover have "cc_cwnd (wide_cc 31 310 False [0] 1000 124 0 10 False True) = 310" by (simp add: wide_cc_def)
  ultimately show ?thesis
    by (simp add: congestion_control_dispatch_cc_alg_def congestion_control_vegas_process_sendme_def wide_rtt)
      (simp add: cc_globals_init_def cc_consts)
qed

lemma wide_second:
  "\<exists>cc'. congestion_control_dispatch_cc_alg cc_globals_init False (wide_cc 31 310 False [0] 1000 124 0 10 False True) 1000 0 True
     = Some (False, cc') \<and> cc_cwnd cc' = 2147483647"
proof -
  have "(wide_cc 31 310 False [0] 1000 124 0 10 False True)\<lparr>next_cc_event := 0, next_cwnd_event := 9\<rparr> =
      wide_cc 31 310 False [0] 1000 124 0 9 False True" by (simp add: wide_cc_def)
  moreover have "next_cc_event (wide_cc 31 310 False [0] 1000 124 0 10 False True) = 0"
    "next_cwnd_event (wide_cc 31 310 False [0] 1000 124 0 10 False True) = 10"
    "cc_alg (wide_cc 31 310 False [0] 1000 124 0 10 False True) = CC_ALG_VEGAS" by (simp_all add: wide_cc_def)
  moreover have "vegas_queue_use (wide_cc 31 310 False [] 1000 310 0 9 False True) = 0"
    by (simp add: vegas_queue_use_def vegas_bdp_def wide_cc_def)
  moreover have "vegas_mark_full cc_globals_init (wide_cc 31 310 False [] 1000 310 0 9 False True) =
      wide_cc 31 310 False [] 1000 310 0 9 False True"
    by (simp add: vegas_mark_full_def cwnd_became_full_def cwnd_became_nonfull_def cc_globals_init_def wide_cc_def word_eval)
  moreover have "cc_cwnd (vegas_update_window (wide_cc 31 310 False [] 1000 310 0 9 False True) 0) = 18446744073709550926"
    by (simp add: vegas_update_window_def vegas_steady_state_def CWND_INC_def wide_cc_def word_eval)
  moreover have "cc_cwnd (vegas_ack (vegas_reset_events cc_globals_init x)) = cc_cwnd x" for x
    by (simp add: vegas_ack_def vegas_reset_events_def Let_def)
  moreover have "cwnd_max cc_globals_init = 2147483647" by (simp add: cc_globals_init_def INT32_MAX_def)
  ultimately show ?thesis
    by (simp add: congestion_control_dispatch_cc_alg_def congestion_control_vegas_process_sendme_def wide_rtt)
qed

text \<open>62 cells are sent, and the first SENDME ends slow start.\<close>

lemma wide_run:
  "cc_reach cc_globals_init circ (wide_cc 0 124 True [] 0 0 1 0 False False) (wide_cc 31 310 False [0] 1000 124 0 10 False True)"
proof -
  let ?cc0 = "wide_cc 0 124 True [] 0 0 1 0 False False" and ?cc1 = "wide_cc 62 124 True [0, 0] 0 0 1 0 False False"
  have "cc_reach cc_globals_init circ ?cc0 (?cc0\<lparr>cc_inflight := 62, pending_timestamps := replicate (62 div cc_sendme_inc ?cc0) 0\<rparr>)"
    by (rule send_many [OF cc_reach.start]) (simp_all add: wide_cc_def)
  moreover have "?cc0\<lparr>cc_inflight := 62, pending_timestamps := replicate (62 div cc_sendme_inc ?cc0) 0\<rparr> = ?cc1"
    by (simp add: wide_cc_def numeral_2_eq_2)
  ultimately have r1: "cc_reach cc_globals_init circ ?cc0 ?cc1" by simp
  have "pending_timestamps ?cc1 = [0, 0]" "sub64 1000 0 < 2 ^ 32" by (simp_all add: wide_cc_def sub64_def)
  then show ?thesis using cc_reach.acked [OF r1 _ _ wide_first] by blast
qed

theorem vegas_window_bounds_witness:
  "\<forall>circ. \<exists>cc. cc_reach cc_globals_init circ (wide_cc 0 124 True [] 0 0 1 0 False False) cc
     \<and> cc_inflight cc = 31 \<and> pending_timestamps cc = [0] \<and> 31 \<le> cc_cwnd cc \<and> cc_cwnd cc \<le> 2147483647
     \<and> congestion_control_dispatch_cc_alg cc_globals_init False cc 1000 0 True \<noteq> None"
proof
  fix circ
  let ?cc = "wide_cc 31 310 False [0] 1000 124 0 10 False True"
  have cc: "pending_timestamps ?cc = [0]" "cc_inflight ?cc = 31"
    "vp_gamma (cc_vegas (wide_cc 0 124 True [] 0 0 1 0 False False)) = 186" by (simp_all add: wide_cc_def)
  have b: "min 31 186 \<le> cc_cwnd ?cc \<and> cc_cwnd ?cc \<le> max 10000 (cwnd_max cc_globals_init)
    \<and> cc_inflight ?cc \<le> max 10000 (cwnd_max cc_globals_init) \<and> length (pending_timestamps ?cc) = cc_inflight ?cc div 31
    \<and> (\<forall>now broken chan_q blocked. pending_timestamps ?cc \<noteq> [] \<longrightarrow> sub64 now (hd (pending_timestamps ?cc)) < 2 ^ 32 \<longrightarrow>
         congestion_control_dispatch_cc_alg cc_globals_init broken ?cc now chan_q blocked \<noteq> None)"
    using vegas_window_bounds [OF init_ok(1) disjI1 [OF init_ok(2)] _ _ wide_inc_new wide_run] unfolding cc(3) by simp
  have "sub64 1000 (hd (pending_timestamps ?cc)) < 2 ^ 32" by (simp add: cc sub64_def)
  then have "congestion_control_dispatch_cc_alg cc_globals_init False ?cc 1000 0 True \<noteq> None"
    using b cc(1) by (auto simp del: not_None_eq)
  moreover have "31 \<le> cc_cwnd ?cc" "cc_cwnd ?cc \<le> 2147483647"
    using b by (simp_all add: cc_globals_init_def INT32_MAX_def)
  ultimately show "\<exists>cc. cc_reach cc_globals_init circ (wide_cc 0 124 True [] 0 0 1 0 False False) cc
     \<and> cc_inflight cc = 31 \<and> pending_timestamps cc = [0] \<and> 31 \<le> cc_cwnd cc \<and> cc_cwnd cc \<le> 2147483647
     \<and> congestion_control_dispatch_cc_alg cc_globals_init False cc 1000 0 True \<noteq> None"
    using wide_run cc(1,2) by blast
qed

text \<open>
  C19: the consensus may set cc_cwnd_inc up to 1000, above the window: then a congestion signal wraps the
  window around to cc_cwnd_max.  Here it is 310 cells when the blocked channel is signalled again.
\<close>

theorem vegas_window_wraps:
  "\<exists>cc0 gl cc cc'. congestion_control_new (Some [''cc_cwnd_inc=1000'']) False cc_globals_init 31 CC_PATH_EXIT = Some (cc0, gl)
     \<and> cc_reach gl circ cc0 cc \<and> cc_cwnd cc = 310 \<and> \<not> cc_in_slow_start cc
     \<and> congestion_control_dispatch_cc_alg gl False cc 1000 0 True = Some (False, cc') \<and> cc_cwnd cc' = 2147483647
     \<and> cc_reach gl circ cc0 cc'"
proof -
  let ?cc0 = "wide_cc 0 124 True [] 0 0 1 0 False False" and ?cc2 = "wide_cc 31 310 False [0] 1000 124 0 10 False True"
  have r2: "cc_reach cc_globals_init circ ?cc0 ?cc2" by (rule wide_run)
  have "pending_timestamps ?cc2 = [0]" "sub64 1000 0 < 2 ^ 32" by (simp_all add: wide_cc_def sub64_def)
  obtain cc' where c: "congestion_control_dispatch_cc_alg cc_globals_init False ?cc2 1000 0 True = Some (False, cc')"
    "cc_cwnd cc' = 2147483647" using wide_second by blast
  have "cc_reach cc_globals_init circ ?cc0 cc'"
    using cc_reach.acked [OF r2 \<open>pending_timestamps ?cc2 = [0]\<close> \<open>sub64 1000 0 < 2 ^ 32\<close> c(1)] .
  moreover have "cc_cwnd ?cc2 = 310" "\<not> cc_in_slow_start ?cc2" by (simp_all add: wide_cc_def)
  ultimately show ?thesis using wide_inc_new r2 c by blast
qed

text \<open>
  The estimate may exceed the window, which the code comments as something that should not happen any
  more: at the minimal window the least round-trip time is not lowered to a new average.
\<close>

lemma vegas_bdp_exceeds_cwnd:
  "\<exists>cc'. congestion_control_update_circuit_estimates cc_globals_init False (wide_cc 31 124 False [600] 1000 124 5 5 False False) 1000 0 False
     = Some (True, False, cc') \<and> cc_cwnd cc' = 124 \<and> vegas_bdp cc' = 206"
  by (simp add: congestion_control_update_circuit_estimates_def congestion_control_update_circuit_rtt_def dequeue_timestamp_def
      congestion_control_update_circuit_bdp_def time_delta_stalled_or_jumped_def time_delta_should_use_heuristics_def
      n_ewma_count_def n_count_ewma_def new_min_rtt_def CWND_UPDATE_RATE_def DELTA_DISCREPENCY_RATIO_MAX_def
      percent_max_mix_def vegas_bdp_def cc_globals_init_def wide_cc_def word_eval)

end
