(* ===== verification/Flow_Control.thy ===== *)
theory Flow_Control
  imports Conflux Congestion_Control Token_Bucket
begin

text \<open>
  Flow control of the streams of a circuit with congestion control
  (core/or/congestion_control_flow.c, trunnel/flow_control_cells.c, \<open>edge_uses_cpath\<close> of
  core/or/conflux_util.c).  The end whose outbuf fills up sends XOFF, the other end stops
  reading; XON resumes it and carries a rate.  The record of an edge connection extends that of
  theory \<open>Sendme\<close>.  Its 32-bit and 8-bit fields are numbers, with the wrap-around written out.
  \<open>fe_cells_out\<close> collects the commands and payloads handed to \<open>connection_edge_send_command\<close>; \<open>send\<close> tells
  whether it returned 0.  Each place that reads the clock has its own reading.  Statistics, controller events
  and logging are left out, and so is the null pointer for a connection, which the callers exclude.
\<close>

definition u32n :: "nat \<Rightarrow> nat" where "u32n n = n mod 2 ^ 32"
definition u8n :: "nat \<Rightarrow> nat" where "u8n n = n mod 2 ^ 8"

definition CELL_PAYLOAD_SIZE :: nat where "CELL_PAYLOAD_SIZE = 509"
definition MAX_EXPECTED_CELL_BURST :: nat where "MAX_EXPECTED_CELL_BURST = 32"
definition XOFF_GRACE_PERIOD_USEC :: nat where "XOFF_GRACE_PERIOD_USEC = 5000"
definition XON_COUNT_SCALE_AT :: nat where "XON_COUNT_SCALE_AT = 200"
definition XOFF_COUNT_SCALE_AT :: nat where "XOFF_COUNT_SCALE_AT = 200"
definition ONE_MEGABYTE :: nat where "ONE_MEGABYTE = 2 ^ 20"
definition TOTAL_XMIT_SCALE_AT :: nat where "TOTAL_XMIT_SCALE_AT = 10 * ONE_MEGABYTE"

subsection \<open>Parameters\<close>

record flow_params =
  xoff_client :: nat
  xoff_exit :: nat
  xon_change_pct :: nat
  xon_ewma_cnt :: nat
  xon_rate_bytes :: nat

definition flow_control_new_consensus_params :: "cstring list option \<Rightarrow> flow_params option" where
  "flow_control_new_consensus_params ns = do {
     client \<leftarrow> get_param ns ''cc_xoff_client'' 500 1 10000;
     exit \<leftarrow> get_param ns ''cc_xoff_exit'' 500 1 10000;
     change \<leftarrow> get_param ns ''cc_xon_change_pct'' 25 1 99;
     per_xon \<leftarrow> get_param ns ''cc_xon_rate'' 500 1 5000;
     cnt \<leftarrow> get_param ns ''cc_xon_ewma_cnt'' 2 2 100;
     Some \<lparr>xoff_client = u32n (client * RELAY_PAYLOAD_SIZE), xoff_exit = u32n (exit * RELAY_PAYLOAD_SIZE),
           xon_change_pct = u32n change, xon_ewma_cnt = u32n cnt,
           xon_rate_bytes = u32n (per_xon * RELAY_PAYLOAD_SIZE)\<rparr>
   }"

subsection \<open>Cells\<close>

record xon_cell =
  xon_version :: nat
  xon_kbps_ewma :: nat

text \<open>A negative code, or the written bytes.\<close>

definition xoff_cell_encode :: "nat \<Rightarrow> nat \<Rightarrow> int + bytes" where
  "xoff_cell_encode avail version =
     (if version \<noteq> 0 then Inl (- 1) else if avail < 1 then Inl (- 2) else Inr [of_nat version])"

definition xon_cell_encode :: "nat \<Rightarrow> xon_cell \<Rightarrow> int + bytes" where
  "xon_cell_encode avail obj =
     (if xon_version obj \<noteq> 0 then Inl (- 1)
      else if avail < 1 then Inl (- 2)
      else if avail - 1 < 4 then Inl (- 2)
      else Inr (of_nat (xon_version obj) # htonl (xon_kbps_ewma obj)))"

text \<open>A negative code, or the cell and the number of bytes used.\<close>

definition xoff_cell_parse :: "bytes \<Rightarrow> int + (nat \<times> nat)" where
  "xoff_cell_parse input =
     (if length input < 1 then Inl (- 2)
      else if unat (input ! 0) \<noteq> 0 then Inl (- 1)
      else Inr (unat (input ! 0), 1))"

definition xon_cell_parse :: "bytes \<Rightarrow> int + (xon_cell \<times> nat)" where
  "xon_cell_parse input =
     (if length input < 1 then Inl (- 2)
      else if unat (input ! 0) \<noteq> 0 then Inl (- 1)
      else if length (drop 1 input) < 4 then Inl (- 2)
      else Inr (\<lparr>xon_version = unat (input ! 0), xon_kbps_ewma = ntohl (drop 1 input)\<rparr>, 5))"

subsection \<open>State\<close>

text \<open>
  Of the circuit of a stream: whether it is an origin circuit, whether it has congestion control and, when
  it is in a conflux set, the addresses of the last hops of the legs.  A hop of a path is its address and
  whether it has congestion control.
\<close>

record edge_circuit =
  ec_origin :: bool
  ec_ccontrol :: bool
  ec_conflux :: "nat list option"

record flow_edge = edge_connection +
  fe_is_ap :: bool
  fe_hs_ident :: bool
  fe_on_circuit :: "edge_circuit option"
  fe_cpath_layer :: "(nat \<times> bool) option"
  fe_outbuf_len :: nat
  fe_reading :: bool
  fe_read_blocked_on_bw :: bool
  fe_bucket :: token_bucket_rw
  drain_start_usec :: nat
  xoff_grace_period_start_usec :: nat
  drained_bytes :: nat
  prev_drained_bytes :: nat
  ewma_drain_rate :: nat
  ewma_rate_last_sent :: nat
  total_bytes_xmit :: nat
  num_xoff_recv :: nat
  num_xon_recv :: nat
  xoff_sent :: bool
  fe_cells_out :: "(nat \<times> bytes) list"

text \<open>The readings of the clock at the places that take one, and whether it is reliable.\<close>

record flow_clock =
  clk_reliable :: bool
  clk_xoff :: nat
  clk_scale :: nat
  clk_start :: nat
  clk_rate :: nat

definition edge_uses_flow_control :: "flow_edge \<Rightarrow> bool" where
  "edge_uses_flow_control stream =
     ((case fe_on_circuit stream of Some c \<Rightarrow> ec_ccontrol c | None \<Rightarrow> False)
      \<or> (case fe_cpath_layer stream of Some h \<Rightarrow> snd h | None \<Rightarrow> False))"

definition conn_uses_flow_control :: "flow_edge option \<Rightarrow> bool" where
  "conn_uses_flow_control conn_as_edge =
     (case conn_as_edge of Some edge \<Rightarrow> edge_uses_flow_control edge | None \<Rightarrow> False)"

definition edge_uses_cpath :: "flow_edge \<Rightarrow> nat option \<Rightarrow> bool" where
  "edge_uses_cpath conn cpath =
     (case fe_on_circuit conn of
        None \<Rightarrow> False
      | Some circ \<Rightarrow>
          if ec_origin circ then
            (case ec_conflux circ of
               Some last_hops \<Rightarrow> (case cpath of Some h \<Rightarrow> h \<in> set last_hops | None \<Rightarrow> False)
             | None \<Rightarrow> cpath = map_option fst (fe_cpath_layer conn))
          else cpath = None)"

text \<open>\<open>connection_stop_reading\<close> and \<open>connection_start_reading\<close>, for connections that have a read event and are
  not linked to another; packaging what is left in the inbuf is an operation of its own below.\<close>

definition connection_stop_reading :: "flow_edge \<Rightarrow> flow_edge" where
  "connection_stop_reading conn = conn\<lparr>fe_reading := False\<rparr>"

definition connection_start_reading :: "flow_edge \<Rightarrow> flow_edge" where
  "connection_start_reading conn = (if e_xoff_received conn then conn else conn\<lparr>fe_reading := True\<rparr>)"

subsection \<open>Sending XOFF and XON\<close>

type_synonym edge_send = "nat \<Rightarrow> bytes \<Rightarrow> bool"

definition circuit_send_stream_xoff :: "edge_send \<Rightarrow> flow_edge \<Rightarrow> flow_edge" where
  "circuit_send_stream_xoff send stream =
     (case xoff_cell_encode CELL_PAYLOAD_SIZE 0 of
        Inl _ \<Rightarrow> stream
      | Inr payload \<Rightarrow>
          let stream = stream\<lparr>fe_cells_out := fe_cells_out stream @ [(RELAY_COMMAND_XOFF, payload)]\<rparr> in
          if send RELAY_COMMAND_XOFF payload then stream\<lparr>xoff_sent := True\<rparr> else stream)"

definition compute_drain_rate :: "flow_clock \<Rightarrow> flow_edge \<Rightarrow> nat" where
  "compute_drain_rate clk stream =
     (if \<not> clk_reliable clk then 0
      else
        let delta = sub64 (clk_rate clk) (drain_start_usec stream) in
        if delta = 0 then 0
        else if prev_drained_bytes stream > INT32_MAX div 1000
              \<or> prev_drained_bytes stream div delta > INT32_MAX div 1000
        then INT32_MAX
        else u32n (max 1 (u32n (prev_drained_bytes stream * 1000) div delta)))"

definition circuit_send_stream_xon :: "edge_send \<Rightarrow> flow_edge \<Rightarrow> flow_edge" where
  "circuit_send_stream_xon send stream =
     (case xon_cell_encode CELL_PAYLOAD_SIZE \<lparr>xon_version = 0, xon_kbps_ewma = ewma_drain_rate stream\<rparr> of
        Inl _ \<Rightarrow> stream
      | Inr payload \<Rightarrow>
          let stream = stream\<lparr>ewma_rate_last_sent := ewma_drain_rate stream,
                              fe_cells_out := fe_cells_out stream @ [(RELAY_COMMAND_XON, payload)]\<rparr> in
          if send RELAY_COMMAND_XON payload then stream\<lparr>xoff_sent := False\<rparr> else stream)"

subsection \<open>Deciding about XON\<close>

definition stream_drain_rate_changed :: "flow_params \<Rightarrow> flow_clock \<Rightarrow> flow_edge \<Rightarrow> bool" where
  "stream_drain_rate_changed p clk stream =
     (if \<not> clk_reliable clk then False
      else if ewma_rate_last_sent stream = 0 then False
      else if ewma_drain_rate stream >
          mul64 (add64 100 (xon_change_pct p)) (ewma_rate_last_sent stream) div 100 then True
      else if ewma_drain_rate stream <
          mul64 (sub64 100 (xon_change_pct p)) (ewma_rate_last_sent stream) div 100 then True
      else False)"

text \<open>\<open>flow_control_decide_xon\<close>, in the order of its parts.\<close>

definition xon_count_drained :: "flow_clock \<Rightarrow> nat \<Rightarrow> flow_edge \<Rightarrow> flow_edge" where
  "xon_count_drained clk n_written stream =
     (let stream =
        (if drained_bytes stream \<ge> sub64 Conflux.UINT32_MAX n_written then
           let stream = stream\<lparr>drained_bytes := drained_bytes stream div 2\<rparr> in
           if drain_start_usec stream \<noteq> 0 then
             stream\<lparr>drain_start_usec :=
               sub64 (clk_scale clk) (sub64 (clk_scale clk) (drain_start_usec stream) div 2)\<rparr>
           else stream
         else stream)
      in stream\<lparr>drained_bytes := u32n (drained_bytes stream + n_written)\<rparr>)"

definition xon_check_clock :: "flow_clock \<Rightarrow> flow_edge \<Rightarrow> flow_edge" where
  "xon_check_clock clk stream =
     (if \<not> clk_reliable clk then stream\<lparr>drain_start_usec := 0, drained_bytes := 0\<rparr>
      else if drain_start_usec stream = 0 \<and> fe_outbuf_len stream > 0 then
        stream\<lparr>drain_start_usec := clk_start clk, drained_bytes := 0\<rparr>
      else stream)"

definition xon_update_rate :: "flow_params \<Rightarrow> flow_clock \<Rightarrow> flow_edge \<Rightarrow> flow_edge" where
  "xon_update_rate p clk stream =
     (if drain_start_usec stream \<noteq> 0 \<and> drained_bytes stream > xon_rate_bytes p then
        let stream = (if prev_drained_bytes stream = 0
                      then stream\<lparr>prev_drained_bytes := drained_bytes stream\<rparr> else stream);
            drain_rate = compute_drain_rate clk stream;
            stream = stream\<lparr>prev_drained_bytes := drained_bytes stream\<rparr> in
        if drain_rate \<noteq> 0 then
          stream\<lparr>ewma_drain_rate := u32n (n_count_ewma drain_rate (ewma_drain_rate stream) (xon_ewma_cnt p)),
                 drained_bytes := 0, drain_start_usec := 0\<rparr>
        else stream
      else stream)"

definition xon_consider_sending :: "flow_params \<Rightarrow> flow_clock \<Rightarrow> edge_send \<Rightarrow> flow_edge \<Rightarrow> flow_edge" where
  "xon_consider_sending p clk send stream =
     (if \<not> xoff_sent stream then
        if stream_drain_rate_changed p clk stream then circuit_send_stream_xon send stream else stream
      else if fe_outbuf_len stream = 0 then circuit_send_stream_xon send stream
      else stream)"

definition xon_queue_empty :: "flow_params \<Rightarrow> flow_edge \<Rightarrow> flow_edge" where
  "xon_queue_empty p stream =
     (if fe_outbuf_len stream = 0 then
        let stream = stream\<lparr>drain_start_usec := 0\<rparr> in
        if drained_bytes stream \<ge> xon_rate_bytes p \<and> ewma_rate_last_sent stream \<noteq> 0 then
          stream\<lparr>ewma_drain_rate := min INT32_MAX (u32n (2 * ewma_drain_rate stream)),
                 prev_drained_bytes := drained_bytes stream, drained_bytes := 0\<rparr>
        else stream
      else stream)"

definition flow_control_decide_xon ::
  "flow_params \<Rightarrow> flow_clock \<Rightarrow> edge_send \<Rightarrow> flow_edge \<Rightarrow> nat \<Rightarrow> flow_edge" where
  "flow_control_decide_xon p clk send stream n_written =
     xon_queue_empty p (xon_consider_sending p clk send (xon_update_rate p clk
       (xon_check_clock clk (xon_count_drained clk n_written stream))))"

subsection \<open>Deciding about XOFF\<close>

definition buffer_limit_xoff :: "flow_params \<Rightarrow> flow_edge \<Rightarrow> nat" where
  "buffer_limit_xoff p stream = (if fe_is_ap stream \<or> fe_hs_ident stream then xoff_client p else xoff_exit p)"

definition xoff_check_outbuf :: "flow_params \<Rightarrow> flow_clock \<Rightarrow> edge_send \<Rightarrow> flow_edge \<Rightarrow> flow_edge" where
  "xoff_check_outbuf p clk send stream =
     (if fe_outbuf_len stream > buffer_limit_xoff p stream then
        if \<not> xoff_sent stream then
          if xoff_grace_period_start_usec stream = 0 then
            stream\<lparr>xoff_grace_period_start_usec := clk_xoff clk\<rparr>
          else if clk_xoff clk > add64 (xoff_grace_period_start_usec stream) XOFF_GRACE_PERIOD_USEC then
            (circuit_send_stream_xoff send stream)\<lparr>ewma_drain_rate := 0, xoff_grace_period_start_usec := 0\<rparr>
          else stream
        else stream
      else stream\<lparr>xoff_grace_period_start_usec := 0\<rparr>)"

definition flow_control_decide_xoff ::
  "flow_params \<Rightarrow> flow_clock \<Rightarrow> edge_send \<Rightarrow> flow_edge \<Rightarrow> int \<times> flow_edge" where
  "flow_control_decide_xoff p clk send stream =
     (if \<not> edge_uses_flow_control stream then (- 1, stream)
      else
        let total_buffered = fe_outbuf_len stream;
            stream = xoff_check_outbuf p clk send stream in
        (0, if total_buffered > MAX_EXPECTED_CELL_BURST * RELAY_PAYLOAD_SIZE
            then flow_control_decide_xon p clk send stream 0 else stream))"

subsection \<open>Receiving XOFF and XON\<close>

text \<open>The scaling that the two handlers and \<open>flow_control_note_sent_data\<close> share.\<close>

definition scale_down_counts :: "flow_edge \<Rightarrow> flow_edge" where
  "scale_down_counts conn =
     conn\<lparr>total_bytes_xmit := total_bytes_xmit conn div 2, num_xoff_recv := num_xoff_recv conn div 2,
          num_xon_recv := num_xon_recv conn div 2\<rparr>"

definition xoff_limit :: "flow_params \<Rightarrow> flow_edge \<Rightarrow> nat" where
  "xoff_limit p conn = (if fe_hs_ident conn then xoff_client p else xoff_exit p)"

definition xon_limit :: "flow_params \<Rightarrow> flow_edge \<Rightarrow> nat" where
  "xon_limit p conn =
     (if fe_hs_ident conn then min (xoff_client p) (xon_rate_bytes p) else min (xoff_exit p) (xon_rate_bytes p))"

text \<open>Whether the cell is valid, and the connection after it.\<close>

definition circuit_process_stream_xoff :: "flow_params \<Rightarrow> flow_edge \<Rightarrow> nat option \<Rightarrow> bool \<times> flow_edge" where
  "circuit_process_stream_xoff p conn layer_hint =
     (if \<not> edge_uses_cpath conn layer_hint then (False, conn)
      else if \<not> edge_uses_flow_control conn then (False, conn)
      else if e_xoff_received conn then (False, conn)
      else
        let conn = (if num_xoff_recv conn = XOFF_COUNT_SCALE_AT then scale_down_counts conn else conn);
            conn = conn\<lparr>num_xoff_recv := u8n (num_xoff_recv conn + 1)\<rparr>;
            retval = (if fe_is_ap conn \<or> fe_hs_ident conn
                      then \<not> total_bytes_xmit conn < u32n (xoff_limit p conn * num_xoff_recv conn)
                      else True)
        in (retval, (connection_stop_reading conn)\<lparr>e_xoff_received := True\<rparr>))"

definition xon_rate :: "nat \<Rightarrow> nat" where
  "xon_rate kbps = (let r = kbps * 1000 in if r = 0 \<or> INT32_MAX < r then INT32_MAX else r)"

definition xon_resume :: "flow_edge \<Rightarrow> flow_edge" where
  "xon_resume conn =
     (if e_xoff_received conn then connection_start_reading (conn\<lparr>e_xoff_received := False\<rparr>) else conn)"

definition circuit_process_stream_xon ::
  "flow_params \<Rightarrow> flow_edge \<Rightarrow> nat option \<Rightarrow> bytes \<Rightarrow> bool \<times> flow_edge" where
  "circuit_process_stream_xon p conn layer_hint payload =
     (if \<not> edge_uses_cpath conn layer_hint then (False, conn)
      else if \<not> edge_uses_flow_control conn then (False, conn)
      else (case xon_cell_parse payload of
        Inl _ \<Rightarrow> (False, conn)
      | Inr (xon, _) \<Rightarrow>
          let conn = (if num_xon_recv conn = XON_COUNT_SCALE_AT then scale_down_counts conn else conn);
              conn = conn\<lparr>num_xon_recv := u8n (num_xon_recv conn + 1)\<rparr>;
              retval = (if fe_is_ap conn \<or> fe_hs_ident conn
                        then \<not> total_bytes_xmit conn < u32n (xon_limit p conn * num_xon_recv conn)
                        else True);
              r = of_nat (xon_rate (xon_kbps_ewma xon));
              conn = conn\<lparr>fe_bucket := token_bucket_rw_adjust (fe_bucket conn) r r\<rparr>
          in (retval, xon_resume conn)))"

definition flow_control_note_sent_data :: "flow_edge \<Rightarrow> nat \<Rightarrow> flow_edge" where
  "flow_control_note_sent_data stream len =
     (let stream = (if total_bytes_xmit stream \<ge> sub64 TOTAL_XMIT_SCALE_AT len
                    then scale_down_counts stream else stream)
      in stream\<lparr>total_bytes_xmit := u32n (total_bytes_xmit stream + len)\<rparr>)"

subsection \<open>Where the rest of the relay calls it\<close>

text \<open>A new edge connection: all zero but for the bucket, which does not limit.\<close>

definition flow_edge_new ::
  "bool \<Rightarrow> bool \<Rightarrow> edge_circuit option \<Rightarrow> (nat \<times> bool) option \<Rightarrow> 32 word \<Rightarrow> flow_edge" where
  "flow_edge_new is_ap hs_ident circ cpath stamp =
     (let conn = \<lparr>e_package_window = 0, e_deliver_window = 0, e_uses_flow_control = False,
        e_outbuf_too_full = False, e_has_circuit = circ \<noteq> None, e_xoff_received = False,
        fe_is_ap = is_ap, fe_hs_ident = hs_ident, fe_on_circuit = circ, fe_cpath_layer = cpath,
        fe_outbuf_len = 0, fe_reading = False, fe_read_blocked_on_bw = False,
        fe_bucket = token_bucket_rw_init (of_nat INT32_MAX) (of_nat INT32_MAX) stamp,
        drain_start_usec = 0, xoff_grace_period_start_usec = 0, drained_bytes = 0, prev_drained_bytes = 0,
        ewma_drain_rate = 0, ewma_rate_last_sent = 0, total_bytes_xmit = 0, num_xoff_recv = 0,
        num_xon_recv = 0, xoff_sent = False, fe_cells_out = []\<rparr>
      in conn\<lparr>e_uses_flow_control := edge_uses_flow_control conn\<rparr>)"

text \<open>A DATA cell of a stream arrives; \<open>None\<close> closes the circuit.\<close>

definition edge_data_received ::
  "flow_params \<Rightarrow> flow_clock \<Rightarrow> edge_send \<Rightarrow> nat \<Rightarrow> flow_edge \<Rightarrow> flow_edge option" where
  "edge_data_received p clk send rh_length conn =
     (let (window, conn) = sendme_stream_data_received (flow_control_decide_xoff p clk send) conn in
      if window < 0 then None else Some (conn\<lparr>fe_outbuf_len := fe_outbuf_len conn + rh_length\<rparr>))"

text \<open>A DATA cell was packaged.\<close>

definition edge_data_packaged :: "nat \<Rightarrow> flow_edge \<Rightarrow> flow_edge" where
  "edge_data_packaged len conn =
     (let (window, conn) = sendme_note_stream_data_packaged flow_control_note_sent_data conn len in
      if window < 0 then connection_stop_reading conn else conn)"

text \<open>The socket took \<open>n_written\<close> bytes of the outbuf.\<close>

definition edge_flushed :: "flow_params \<Rightarrow> flow_clock \<Rightarrow> edge_send \<Rightarrow> nat \<Rightarrow> flow_edge \<Rightarrow> flow_edge" where
  "edge_flushed p clk send n_written conn =
     (let conn = conn\<lparr>fe_outbuf_len := fe_outbuf_len conn - n_written\<rparr> in
      if conn_uses_flow_control (Some conn) then flow_control_decide_xon p clk send conn n_written else conn)"

definition connection_read_bw_exhausted :: "flow_edge \<Rightarrow> flow_edge" where
  "connection_read_bw_exhausted conn =
     (if \<not> e_xoff_received conn then connection_stop_reading (conn\<lparr>fe_read_blocked_on_bw := True\<rparr>) else conn)"

definition reenable_blocked_connection :: "flow_edge \<Rightarrow> flow_edge" where
  "reenable_blocked_connection conn =
     (if fe_read_blocked_on_bw conn \<and> \<not> e_xoff_received conn then connection_start_reading conn
      else conn)\<lparr>fe_read_blocked_on_bw := False\<rparr>"

end
