(* ===== verification/Flow_Protocol.thy ===== *)
theory Flow_Protocol
  imports Flow_Control
begin

text \<open>
  The two ends of one direction of a stream under flow control: the source packages data and obeys XOFF
  and XON, the sink buffers the data and sends them.  Cells travel in order, in both directions.
  The clock readings, the amounts the socket of the sink takes and the bandwidth limits of the source are
  those of an arbitrary environment; \<open>connection_edge_send_command\<close> succeeds, as it does while the
  circuit is open.
\<close>

subsection \<open>The system\<close>

text \<open>
  \<open>n_packaged\<close>, \<open>n_flushed\<close>, \<open>n_xoff\<close> and \<open>n_xon\<close> count the bytes packaged at the source and flushed at the
  sink, and the cells sent by the sink; \<open>n_refused\<close> counts the cells that the source reported as
  invalid.
\<close>

record flow_system =
  src :: flow_edge
  snk :: flow_edge
  data :: "nat list"
  ctl :: "(nat \<times> bytes) list"
  n_packaged :: nat
  n_flushed :: nat
  n_xoff :: nat
  n_xon :: nat
  n_refused :: nat

definition send_ok :: edge_send where "send_ok command payload = True"

definition count_cmd :: "nat \<Rightarrow> (nat \<times> bytes) list \<Rightarrow> nat" where
  "count_cmd c cells = length (filter (\<lambda>cell. fst cell = c) cells)"

text \<open>The cells that the sink sent go onto the circuit.\<close>

definition collect :: "flow_edge \<Rightarrow> flow_system \<Rightarrow> flow_system" where
  "collect conn s =
     s\<lparr>snk := conn\<lparr>fe_cells_out := []\<rparr>, ctl := ctl s @ fe_cells_out conn,
       n_xoff := n_xoff s + count_cmd RELAY_COMMAND_XOFF (fe_cells_out conn),
       n_xon := n_xon s + count_cmd RELAY_COMMAND_XON (fe_cells_out conn)\<rparr>"

text \<open>A cell arrives at the source; \<open>body\<close> is its payload with the padding of the relay cell.\<close>

definition flow_cell_received :: "flow_params \<Rightarrow> nat option \<Rightarrow> nat \<Rightarrow> bytes \<Rightarrow> flow_edge \<Rightarrow> bool \<times> flow_edge" where
  "flow_cell_received p layer_hint command body conn =
     (if command = RELAY_COMMAND_XOFF then circuit_process_stream_xoff p conn layer_hint
      else circuit_process_stream_xon p conn layer_hint body)"

inductive flow_step :: "flow_params \<Rightarrow> nat option \<Rightarrow> flow_system \<Rightarrow> flow_system \<Rightarrow> bool"
  for p :: flow_params and hint :: "nat option" where
  package: "0 < len \<Longrightarrow> len \<le> RELAY_PAYLOAD_SIZE \<Longrightarrow>
    flow_step p hint s (s\<lparr>src := edge_data_packaged len (src s), data := data s @ [len],
                          n_packaged := n_packaged s + len\<rparr>)"
| arrive: "data s = len # rest \<Longrightarrow> edge_data_received p clk send_ok len (snk s) = Some conn \<Longrightarrow>
    flow_step p hint s (collect conn (s\<lparr>data := rest\<rparr>))"
| flush: "n \<le> fe_outbuf_len (snk s) \<Longrightarrow>
    flow_step p hint s (collect (edge_flushed p clk send_ok n (snk s)) (s\<lparr>n_flushed := n_flushed s + n\<rparr>))"
| control: "ctl s = (command, payload) # rest \<Longrightarrow>
    flow_cell_received p hint command (payload @ padding) (src s) = (valid, conn) \<Longrightarrow>
    flow_step p hint s (s\<lparr>src := conn, ctl := rest, n_refused := n_refused s + (if valid then 0 else 1)\<rparr>)"
| block: "flow_step p hint s (s\<lparr>src := connection_read_bw_exhausted (src s)\<rparr>)"
| unblock: "flow_step p hint s (s\<lparr>src := reenable_blocked_connection (src s)\<rparr>)"
| resume: "flow_step p hint s (s\<lparr>src := connection_start_reading (src s)\<rparr>)"

subsection \<open>Bounds\<close>

definition flow_params_ok :: "flow_params \<Rightarrow> bool" where
  "flow_params_ok p \<longleftrightarrow> RELAY_PAYLOAD_SIZE \<le> xoff_client p \<and> xoff_client p \<le> 10000 * RELAY_PAYLOAD_SIZE
     \<and> RELAY_PAYLOAD_SIZE \<le> xoff_exit p \<and> xoff_exit p \<le> 10000 * RELAY_PAYLOAD_SIZE
     \<and> 1 \<le> xon_change_pct p \<and> xon_change_pct p \<le> 99 \<and> 2 \<le> xon_ewma_cnt p \<and> xon_ewma_cnt p \<le> 100
     \<and> RELAY_PAYLOAD_SIZE \<le> xon_rate_bytes p \<and> xon_rate_bytes p \<le> 5000 * RELAY_PAYLOAD_SIZE"

lemma flow_consensus_params_ok:
  "\<exists>p. flow_control_new_consensus_params ns = Some p \<and> flow_params_ok p"
proof -
  obtain a where a: "get_param ns ''cc_xoff_client'' 500 1 10000 = Some a" "1 \<le> a" "a \<le> 10000"
    using get_param_range [of 1 500 10000 ns "''cc_xoff_client''"] by auto
  obtain b where b: "get_param ns ''cc_xoff_exit'' 500 1 10000 = Some b" "1 \<le> b" "b \<le> 10000"
    using get_param_range [of 1 500 10000 ns "''cc_xoff_exit''"] by auto
  obtain c where c: "get_param ns ''cc_xon_change_pct'' 25 1 99 = Some c" "1 \<le> c" "c \<le> 99"
    using get_param_range [of 1 25 99 ns "''cc_xon_change_pct''"] by auto
  obtain d where d: "get_param ns ''cc_xon_rate'' 500 1 5000 = Some d" "1 \<le> d" "d \<le> 5000"
    using get_param_range [of 1 500 5000 ns "''cc_xon_rate''"] by auto
  obtain e where e: "get_param ns ''cc_xon_ewma_cnt'' 2 2 100 = Some e" "2 \<le> e" "e \<le> 100"
    using get_param_range [of 2 2 100 ns "''cc_xon_ewma_cnt''"] by auto
  show ?thesis using a b c d e
    by (simp add: flow_control_new_consensus_params_def flow_params_ok_def u32n_def RELAY_PAYLOAD_SIZE_def)
qed

text \<open>What never changes in an edge connection.\<close>

definition edge_ident :: "flow_edge \<Rightarrow> bool \<times> bool \<times> edge_circuit option \<times> (nat \<times> bool) option \<times> bool" where
  "edge_ident e = (fe_is_ap e, fe_hs_ident e, fe_on_circuit e, fe_cpath_layer e, e_uses_flow_control e)"

definition rates_ok :: "flow_edge \<Rightarrow> bool" where
  "rates_ok e \<longleftrightarrow> ewma_drain_rate e \<le> INT32_MAX \<and> ewma_rate_last_sent e \<le> INT32_MAX
     \<and> drained_bytes e < 2 ^ 32 \<and> prev_drained_bytes e < 2 ^ 32"

definition counts_ok :: "flow_edge \<Rightarrow> bool" where
  "counts_ok e \<longleftrightarrow> total_bytes_xmit e < TOTAL_XMIT_SCALE_AT \<and> num_xoff_recv e \<le> XOFF_COUNT_SCALE_AT
     \<and> num_xon_recv e \<le> XON_COUNT_SCALE_AT"

definition reading_ok :: "flow_edge \<Rightarrow> bool" where
  "reading_ok e \<longleftrightarrow> (e_xoff_received e \<longrightarrow> \<not> fe_reading e)"

definition edge_ok :: "flow_edge \<Rightarrow> bool" where
  "edge_ok e \<longleftrightarrow> rates_ok e \<and> counts_ok e \<and> reading_ok e \<and> rw_ok (fe_bucket e)
     \<and> e_uses_flow_control e = edge_uses_flow_control e"

lemmas flow_consts = RELAY_PAYLOAD_SIZE_def CELL_PAYLOAD_SIZE_def INT32_MAX_def XOFF_COUNT_SCALE_AT_def
  XON_COUNT_SCALE_AT_def TOTAL_XMIT_SCALE_AT_def ONE_MEGABYTE_def

lemmas edge_ok_defs = edge_ok_def rates_ok_def counts_ok_def reading_ok_def edge_uses_flow_control_def

lemma xon_rate_range: "1000 \<le> xon_rate k \<and> xon_rate k \<le> INT32_MAX"
  by (auto simp: xon_rate_def INT32_MAX_def Let_def)

lemma send_xoff_eq:
  "circuit_send_stream_xoff send e =
     e\<lparr>fe_cells_out := fe_cells_out e @ [(RELAY_COMMAND_XOFF, [0])],
       xoff_sent := xoff_sent e \<or> send RELAY_COMMAND_XOFF [0]\<rparr>"
  by (cases e) (simp add: circuit_send_stream_xoff_def xoff_cell_encode_def CELL_PAYLOAD_SIZE_def Let_def)

lemma send_xon_eq:
  "circuit_send_stream_xon send e =
     e\<lparr>ewma_rate_last_sent := ewma_drain_rate e,
       fe_cells_out := fe_cells_out e @ [(RELAY_COMMAND_XON, 0 # htonl (ewma_drain_rate e))],
       xoff_sent := xoff_sent e \<and> \<not> send RELAY_COMMAND_XON (0 # htonl (ewma_drain_rate e))\<rparr>"
  by (cases e) (simp add: circuit_send_stream_xon_def xon_cell_encode_def CELL_PAYLOAD_SIZE_def Let_def)

lemma xon_parse: "k < 2 ^ 32 \<Longrightarrow> xon_cell_parse (0 # htonl k @ pad) = Inr (\<lparr>xon_version = 0, xon_kbps_ewma = k\<rparr>, 5)"
  using ntohl_htonl [of k pad] by (simp add: xon_cell_parse_def) (simp add: htonl_def)

lemma xon_parse_unpadded: "k < 2 ^ 32 \<Longrightarrow> xon_cell_parse (0 # htonl k) = Inr (\<lparr>xon_version = 0, xon_kbps_ewma = k\<rparr>, 5)"
  using xon_parse [of k "[]"] by simp

lemma drain_rate_bound: "compute_drain_rate clk e \<le> INT32_MAX"
proof -
  have m: "u32n (max 1 x) \<le> INT32_MAX" if "x \<le> INT32_MAX" for x
    using that by (auto simp: u32n_def INT32_MAX_def max_def intro: order_trans [OF mod_less_eq_dividend])
  have "u32n (k * 1000) div d \<le> INT32_MAX" if "\<not> k > INT32_MAX div 1000" for k d
  proof -
    have "u32n (k * 1000) \<le> INT32_MAX" using that by (simp add: u32n_def INT32_MAX_def)
    then show ?thesis using div_le_dividend order_trans by blast
  qed
  then show ?thesis using m by (simp add: compute_drain_rate_def Let_def)
qed

text \<open>The stages of \<open>flow_control_decide_xon\<close> keep the bounds and what never changes.\<close>

lemma count_drained_ok:
  "edge_ok e \<Longrightarrow> edge_ok (xon_count_drained clk n e)"
  "edge_ident (xon_count_drained clk n e) = edge_ident e"
  by (auto simp: xon_count_drained_def Let_def edge_ok_defs edge_ident_def u32n_def)

lemma check_clock_ok:
  "edge_ok e \<Longrightarrow> edge_ok (xon_check_clock clk e)"
  "edge_ident (xon_check_clock clk e) = edge_ident e"
  by (auto simp: xon_check_clock_def edge_ok_defs edge_ident_def)

lemma update_rate_ok:
  "flow_params_ok p \<Longrightarrow> edge_ok e \<Longrightarrow> edge_ok (xon_update_rate p clk e)"
  "edge_ident (xon_update_rate p clk e) = edge_ident e"
proof -
  assume p: "flow_params_ok p" and e: "edge_ok e"
  have "u32n (n_count_ewma (compute_drain_rate clk e') (ewma_drain_rate e) (xon_ewma_cnt p)) \<le> INT32_MAX" for e'
  proof -
    have "n_count_ewma (compute_drain_rate clk e') (ewma_drain_rate e) (xon_ewma_cnt p) \<le> INT32_MAX"
      using p e by (intro n_count_ewma_bounds(1) drain_rate_bound)
        (auto simp: flow_params_ok_def edge_ok_defs INT32_MAX_def)
    then show ?thesis by (simp add: u32n_def INT32_MAX_def)
  qed
  then show "edge_ok (xon_update_rate p clk e)"
    using e by (auto simp: xon_update_rate_def Let_def edge_ok_defs)
qed (auto simp: xon_update_rate_def Let_def edge_ident_def)

lemma consider_sending_ok:
  "edge_ok e \<Longrightarrow> edge_ok (xon_consider_sending p clk send e)"
  "edge_ident (xon_consider_sending p clk send e) = edge_ident e"
  by (auto simp: xon_consider_sending_def send_xon_eq edge_ok_defs edge_ident_def)

lemma queue_empty_ok:
  "edge_ok e \<Longrightarrow> edge_ok (xon_queue_empty p e)"
  "edge_ident (xon_queue_empty p e) = edge_ident e"
  by (auto simp: xon_queue_empty_def Let_def edge_ok_defs edge_ident_def)

lemmas stage_ok = count_drained_ok check_clock_ok update_rate_ok consider_sending_ok queue_empty_ok

lemma decide_xon_ok:
  "flow_params_ok p \<Longrightarrow> edge_ok e \<Longrightarrow> edge_ok (flow_control_decide_xon p clk send e n)"
  "edge_ident (flow_control_decide_xon p clk send e n) = edge_ident e"
  by (simp_all add: flow_control_decide_xon_def stage_ok)

lemma check_outbuf_ok:
  "edge_ok e \<Longrightarrow> edge_ok (xoff_check_outbuf p clk send e)"
  "edge_ident (xoff_check_outbuf p clk send e) = edge_ident e"
  by (auto simp: xoff_check_outbuf_def send_xoff_eq edge_ok_defs edge_ident_def)

lemma decide_xoff_ok:
  "flow_params_ok p \<Longrightarrow> edge_ok e \<Longrightarrow> edge_ok (snd (flow_control_decide_xoff p clk send e))"
  "edge_ident (snd (flow_control_decide_xoff p clk send e)) = edge_ident e"
  by (simp_all add: flow_control_decide_xoff_def Let_def decide_xon_ok check_outbuf_ok)

lemma scale_down_ok: "counts_ok e \<Longrightarrow> counts_ok (scale_down_counts e)"
  by (auto simp: counts_ok_def scale_down_counts_def)

lemma process_xoff_ok:
  "edge_ok e \<Longrightarrow> edge_ok (snd (circuit_process_stream_xoff p e hint))"
  "edge_ident (snd (circuit_process_stream_xoff p e hint)) = edge_ident e"
  by (auto simp: circuit_process_stream_xoff_def Let_def edge_ok_defs edge_ident_def scale_down_counts_def
      connection_stop_reading_def u8n_def flow_consts)

lemma process_xon_ok:
  "edge_ok e \<Longrightarrow> edge_ok (snd (circuit_process_stream_xon p e hint body))"
  "edge_ident (snd (circuit_process_stream_xon p e hint body)) = edge_ident e"
  by (auto simp: circuit_process_stream_xon_def Let_def edge_ok_defs edge_ident_def scale_down_counts_def
      xon_resume_def connection_start_reading_def u8n_def flow_consts rw_adjust_ok split: sum.split)

lemma note_sent_data_ok:
  "len \<le> RELAY_PAYLOAD_SIZE \<Longrightarrow> edge_ok e \<Longrightarrow> edge_ok (flow_control_note_sent_data e len)"
  "edge_ident (flow_control_note_sent_data e len) = edge_ident e"
proof -
  assume len: "len \<le> RELAY_PAYLOAD_SIZE" and e: "edge_ok e"
  have "sub64 TOTAL_XMIT_SCALE_AT len = TOTAL_XMIT_SCALE_AT - len"
    using len by (intro sub64_small) (simp_all add: flow_consts)
  then show "edge_ok (flow_control_note_sent_data e len)"
    using len e by (auto simp: flow_control_note_sent_data_def Let_def edge_ok_defs scale_down_counts_def u32n_def flow_consts)
qed (auto simp: flow_control_note_sent_data_def Let_def edge_ident_def scale_down_counts_def)

subsection \<open>What the cells of the sink cost\<close>

text \<open>
  The sink has flushed \<open>D\<close> bytes and sent \<open>X\<close> XOFFs and \<open>N\<close> XONs.  Every XOFF needs more than \<open>L\<close> bytes
  in the outbuf, and between two of them the outbuf was empty.  Every XON needs either an XOFF
  before it or a new rate; a rate is only computed after more than \<open>xon_rate_bytes\<close> bytes, or doubled after
  at least so many.  \<open>credit\<close> is 1 when an XON may be sent for a rate that was already paid for,
  \<open>carry\<close> counts the drained bytes that can still pay for one.
\<close>

definition credit :: "flow_edge \<Rightarrow> nat" where
  "credit e = (if (if xoff_sent e then ewma_drain_rate e \<noteq> 0
                   else ewma_drain_rate e \<noteq> ewma_rate_last_sent e \<and> ewma_rate_last_sent e \<noteq> 0) then 1 else 0)"

definition carry :: "flow_edge \<Rightarrow> nat" where
  "carry e = (if ewma_rate_last_sent e \<noteq> 0 \<or> drain_start_usec e \<noteq> 0 \<or> (xoff_sent e \<and> ewma_drain_rate e \<noteq> 0)
              then drained_bytes e else 0)"

definition sink_inv :: "nat \<Rightarrow> nat \<Rightarrow> flow_edge \<Rightarrow> nat \<Rightarrow> nat \<Rightarrow> nat \<Rightarrow> bool" where
  "sink_inv L m e D X N \<longleftrightarrow>
     L * X \<le> D + (if xoff_sent e then fe_outbuf_len e else 0)
     \<and> m * (N + credit e) + carry e \<le> D
     \<and> (xoff_sent e \<longrightarrow> m * (N + 1) \<le> D + fe_outbuf_len e)"

lemmas sink_defs = sink_inv_def credit_def carry_def

lemma sink_count_drained:
  "sink_inv L m e D X N \<Longrightarrow> n \<le> fe_outbuf_len e \<Longrightarrow>
   sink_inv L m (xon_count_drained clk n (e\<lparr>fe_outbuf_len := fe_outbuf_len e - n\<rparr>)) (D + n) X N"
proof -
  assume inv: "sink_inv L m e D X N" and n: "n \<le> fe_outbuf_len e"
  let ?e = "xon_count_drained clk n (e\<lparr>fe_outbuf_len := fe_outbuf_len e - n\<rparr>)"
  have start: "drain_start_usec ?e \<noteq> 0 \<longrightarrow> drain_start_usec e \<noteq> 0"
    and drained: "drained_bytes ?e \<le> drained_bytes e + n"
    and same: "credit ?e = credit e" "ewma_rate_last_sent ?e = ewma_rate_last_sent e" "xoff_sent ?e = xoff_sent e"
      "ewma_drain_rate ?e = ewma_drain_rate e" "fe_outbuf_len ?e = fe_outbuf_len e - n"
    by (auto simp: xon_count_drained_def Let_def credit_def u32n_def intro: order_trans [OF mod_less_eq_dividend])
  then have "carry ?e \<le> carry e + n" by (auto simp: carry_def)
  then show ?thesis using inv n same by (auto simp: sink_inv_def)
qed

lemma sink_inv_mono:
  assumes "sink_inv L m e D X N" and "credit e' \<le> credit e" and "carry e' \<le> carry e"
    and "xoff_sent e' = xoff_sent e" and "fe_outbuf_len e' = fe_outbuf_len e"
  shows "sink_inv L m e' D X N"
proof -
  have "m * (N + credit e') \<le> m * (N + credit e)" by (rule mult_le_mono2) (simp add: assms(2))
  then have "m * (N + credit e') + carry e' \<le> D" using assms(1,3) unfolding sink_inv_def by linarith
  then show ?thesis using assms(1,4,5) by (cases "xoff_sent e") (simp_all add: sink_inv_def)
qed

text \<open>Enough drained bytes pay for one XON.\<close>

lemma sink_inv_paid:
  assumes "sink_inv L m e D X N" and "m \<le> carry e" and "carry e' = 0"
    and "xoff_sent e' = xoff_sent e" and "fe_outbuf_len e' = fe_outbuf_len e"
  shows "sink_inv L m e' D X N"
proof -
  have "m * N \<le> m * (N + credit e)" by simp
  then have "m * N + m \<le> D" using assms(1,2) unfolding sink_inv_def by linarith
  then have "m * (N + credit e') \<le> D" by (simp add: credit_def)
  then show ?thesis using assms by (cases "xoff_sent e") (simp_all add: sink_inv_def)
qed

lemma sink_check_clock: "sink_inv L m e D X N \<Longrightarrow> sink_inv L m (xon_check_clock clk e) D X N"
  by (erule sink_inv_mono) (auto simp: xon_check_clock_def credit_def carry_def)

lemma sink_update_rate:
  assumes "sink_inv L m e D X N" and "m \<le> xon_rate_bytes p"
  shows "sink_inv L m (xon_update_rate p clk e) D X N"
proof (cases "carry (xon_update_rate p clk e) = 0 \<and> m \<le> carry e")
  case True
  then show ?thesis using assms(1)
    by (elim sink_inv_paid conjE) (auto simp: xon_update_rate_def Let_def)
next
  case False
  then show ?thesis using assms
    by (elim sink_inv_mono) (auto simp: xon_update_rate_def Let_def carry_def credit_def)
qed

lemma sink_queue_empty:
  assumes "sink_inv L m e D X N" and "m \<le> xon_rate_bytes p" and "xoff_sent e \<longrightarrow> 0 < fe_outbuf_len e"
  shows "sink_inv L m (xon_queue_empty p e) D X N"
proof (cases "carry (xon_queue_empty p e) = 0 \<and> m \<le> carry e")
  case True
  then show ?thesis using assms(1)
    by (elim sink_inv_paid conjE) (auto simp: xon_queue_empty_def Let_def)
next
  case False
  then show ?thesis using assms
    by (elim sink_inv_mono) (auto simp: xon_queue_empty_def Let_def carry_def credit_def)
qed

lemma rate_changed_differs:
  assumes "stream_drain_rate_changed p clk e" and "flow_params_ok p" and "edge_ok e"
  shows "ewma_rate_last_sent e \<noteq> 0" and "ewma_drain_rate e \<noteq> ewma_rate_last_sent e"
proof -
  let ?c = "xon_change_pct p" and ?l = "ewma_rate_last_sent e"
  have c: "?c \<le> 99" "?l \<le> 2147483647" using assms(2,3) by (auto simp: flow_params_ok_def edge_ok_defs INT32_MAX_def)
  have s: "add64 100 ?c = 100 + ?c" "sub64 100 ?c = 100 - ?c" using c by (simp_all add: add64_small sub64_small)
  have "(100 + ?c) * ?l \<le> 199 * 2147483647" "(100 - ?c) * ?l \<le> 100 * 2147483647" using c by (intro mult_mono; simp)+
  then have m: "mul64 (100 + ?c) ?l = (100 + ?c) * ?l" "mul64 (100 - ?c) ?l = (100 - ?c) * ?l"
    by (simp_all add: mul64_small)
  have "100 * ?l \<le> (100 + ?c) * ?l" "(100 - ?c) * ?l \<le> 100 * ?l" by (intro mult_right_mono; simp)+
  then have "?l \<le> (100 + ?c) * ?l div 100" "(100 - ?c) * ?l div 100 \<le> ?l" by linarith+
  then show "?l \<noteq> 0" "ewma_drain_rate e \<noteq> ?l"
    using assms(1) by (auto simp: stream_drain_rate_changed_def s m split: if_splits)
qed

text \<open>Sending an XON for an XOFF that has been drained, or for a new rate.\<close>

lemma sink_send_drained:
  "sink_inv L m e D X N \<Longrightarrow> xoff_sent e \<Longrightarrow> fe_outbuf_len e = 0 \<Longrightarrow>
     sink_inv L m ((circuit_send_stream_xon send_ok e)\<lparr>drain_start_usec := 0\<rparr>) D X (N + 1)"
  by (cases "ewma_drain_rate e = 0") (simp_all add: send_xon_eq send_ok_def sink_defs)

lemma sink_send_changed:
  "sink_inv L m e D X N \<Longrightarrow> \<not> xoff_sent e \<Longrightarrow> ewma_rate_last_sent e \<noteq> 0 \<Longrightarrow>
     ewma_drain_rate e \<noteq> ewma_rate_last_sent e \<Longrightarrow> sink_inv L m (circuit_send_stream_xon send_ok e) D X (N + 1)"
  by (simp add: send_xon_eq send_ok_def sink_defs)

lemma queue_empty_start:
  "fe_outbuf_len e = 0 \<Longrightarrow> xon_queue_empty p (e\<lparr>drain_start_usec := 0\<rparr>) = xon_queue_empty p e"
  by (simp add: xon_queue_empty_def)

lemma queue_empty_frame:
  "fe_cells_out (xon_queue_empty p e) = fe_cells_out e" "xoff_sent (xon_queue_empty p e) = xoff_sent e"
  "fe_outbuf_len (xon_queue_empty p e) = fe_outbuf_len e"
  by (simp_all add: xon_queue_empty_def Let_def)

lemma sink_send:
  fixes clk :: flow_clock
  assumes "sink_inv L m e D X N" and "flow_params_ok p" and "edge_ok e" and "m \<le> xon_rate_bytes p"
  defines "e' \<equiv> xon_queue_empty p (xon_consider_sending p clk send_ok e)"
  shows "\<exists>k. fe_cells_out e' = fe_cells_out e @ replicate k (RELAY_COMMAND_XON, 0 # htonl (ewma_drain_rate e))
    \<and> sink_inv L m e' D X (N + k) \<and> (xoff_sent e' \<longleftrightarrow> xoff_sent e \<and> k = 0) \<and> (xoff_sent e' \<longrightarrow> 0 < fe_outbuf_len e')"
proof (cases "if xoff_sent e then fe_outbuf_len e = 0 else stream_drain_rate_changed p clk e")
  case True
  let ?e1 = "circuit_send_stream_xon send_ok e"
  have e': "e' = xon_queue_empty p ?e1" using True by (auto simp: e'_def xon_consider_sending_def split: if_splits)
  have "sink_inv L m e' D X (N + 1)"
  proof (cases "xoff_sent e")
    case True
    with \<open>if xoff_sent e then _ else _\<close> have O: "fe_outbuf_len e = 0" by simp
    then have "e' = xon_queue_empty p (?e1\<lparr>drain_start_usec := 0\<rparr>)"
      by (simp add: e' queue_empty_start send_xon_eq)
    then show ?thesis using sink_queue_empty [OF sink_send_drained [OF assms(1) True O] assms(4)]
      by (simp add: send_xon_eq send_ok_def)
  next
    case False
    with True have "stream_drain_rate_changed p clk e" by simp
    from sink_send_changed [OF assms(1) False rate_changed_differs [OF this assms(2,3)]]
    show ?thesis unfolding e' using assms(4) by (intro sink_queue_empty) (simp_all add: send_xon_eq send_ok_def)
  qed
  then show ?thesis
    by (intro exI [of _ 1]) (simp add: e' queue_empty_frame send_xon_eq send_ok_def)
next
  case False
  then have "e' = xon_queue_empty p e" by (auto simp: e'_def xon_consider_sending_def)
  moreover have "xoff_sent e \<longrightarrow> 0 < fe_outbuf_len e" using False by auto
  ultimately show ?thesis using sink_queue_empty [OF assms(1,4)]
    by (intro exI [of _ 0]) (simp add: queue_empty_frame)
qed

text \<open>The cells that a sink sends.\<close>

definition cell_ok :: "nat \<times> bytes \<Rightarrow> bool" where
  "cell_ok cell \<longleftrightarrow> cell = (RELAY_COMMAND_XOFF, [0])
     \<or> (\<exists>k. k < 2 ^ 32 \<and> cell = (RELAY_COMMAND_XON, 0 # htonl k))"

text \<open>Whether an XOFF is in force after the cells; \<open>None\<close> when one follows another without an XON.\<close>

fun xoff_after :: "bool \<Rightarrow> (nat \<times> bytes) list \<Rightarrow> bool option" where
  "xoff_after b [] = Some b"
| "xoff_after b (cell # cells) =
     (if fst cell = RELAY_COMMAND_XOFF then if b then None else xoff_after True cells else xoff_after False cells)"

lemma xoff_after_append:
  "xoff_after b (xs @ ys) = (case xoff_after b xs of None \<Rightarrow> None | Some c \<Rightarrow> xoff_after c ys)"
  by (induction b xs rule: xoff_after.induct) auto

lemma commands_differ [simp]: "RELAY_COMMAND_XOFF \<noteq> RELAY_COMMAND_XON" "RELAY_COMMAND_XON \<noteq> RELAY_COMMAND_XOFF"
  by (simp_all add: RELAY_COMMAND_XOFF_def RELAY_COMMAND_XON_def)

lemma count_cmd_simps [simp]:
  "count_cmd c [] = 0" "count_cmd c (cell # cells) = (if fst cell = c then 1 else 0) + count_cmd c cells"
  "count_cmd c (xs @ ys) = count_cmd c xs + count_cmd c ys"
  by (simp_all add: count_cmd_def)

text \<open>What a call of the sink does: the cells it sends, their cost and the outstanding XOFF.\<close>

definition sink_call :: "nat \<Rightarrow> nat \<Rightarrow> flow_edge \<Rightarrow> flow_edge \<Rightarrow> nat \<Rightarrow> nat \<Rightarrow> nat \<Rightarrow> (nat \<times> bytes) list \<Rightarrow> bool" where
  "sink_call L m e e' D X N cells \<longleftrightarrow>
     fe_cells_out e' = fe_cells_out e @ cells \<and> list_all cell_ok cells
     \<and> xoff_after (xoff_sent e) cells = Some (xoff_sent e')
     \<and> sink_inv L m e' D (X + count_cmd RELAY_COMMAND_XOFF cells) (N + count_cmd RELAY_COMMAND_XON cells)
     \<and> fe_outbuf_len e' = fe_outbuf_len e"

lemma stages_frame:
  "fe_cells_out (xon_count_drained clk n e) = fe_cells_out e"
  "fe_cells_out (xon_check_clock clk e) = fe_cells_out e"
  "fe_cells_out (xon_update_rate p clk e) = fe_cells_out e"
  "xoff_sent (xon_count_drained clk n e) = xoff_sent e"
  "xoff_sent (xon_check_clock clk e) = xoff_sent e"
  "xoff_sent (xon_update_rate p clk e) = xoff_sent e"
  "fe_outbuf_len (xon_count_drained clk n e) = fe_outbuf_len e"
  "fe_outbuf_len (xon_check_clock clk e) = fe_outbuf_len e"
  "fe_outbuf_len (xon_update_rate p clk e) = fe_outbuf_len e"
  "fe_outbuf_len (xon_consider_sending p clk send e) = fe_outbuf_len e"
  "fe_outbuf_len (xon_queue_empty p e) = fe_outbuf_len e"
  by (simp_all add: xon_count_drained_def xon_check_clock_def xon_update_rate_def xon_consider_sending_def
      xon_queue_empty_def send_xon_eq Let_def)

lemma decide_xon_call:
  fixes clk :: flow_clock
  assumes "sink_inv L m e D X N" and "flow_params_ok p" and "edge_ok e" and "m \<le> xon_rate_bytes p"
    and "n \<le> fe_outbuf_len e"
  defines "e0 \<equiv> e\<lparr>fe_outbuf_len := fe_outbuf_len e - n\<rparr>"
  defines "e' \<equiv> flow_control_decide_xon p clk send_ok e0 n"
  shows "\<exists>cells. sink_call L m e0 e' (D + n) X N cells \<and> (xoff_sent e' \<longrightarrow> 0 < fe_outbuf_len e')"
proof -
  let ?s = "xon_update_rate p clk (xon_check_clock clk (xon_count_drained clk n e0))"
  have e0: "edge_ok e0" using assms(3) by (simp add: e0_def edge_ok_defs)
  have s: "edge_ok ?s" using assms(2) e0 by (simp add: stage_ok)
  have inv: "sink_inv L m ?s (D + n) X N"
    using sink_count_drained [OF assms(1,5)] assms(4) unfolding e0_def
    by (intro sink_update_rate sink_check_clock) auto
  obtain k where k: "fe_cells_out e' = fe_cells_out ?s @ replicate k (RELAY_COMMAND_XON, 0 # htonl (ewma_drain_rate ?s))"
    "sink_inv L m e' (D + n) X (N + k)" "xoff_sent e' \<longleftrightarrow> xoff_sent ?s \<and> k = 0" "xoff_sent e' \<longrightarrow> 0 < fe_outbuf_len e'"
    using sink_send [OF inv assms(2) s assms(4), of clk] unfolding e'_def flow_control_decide_xon_def by blast
  have small: "ewma_drain_rate ?s < 2 ^ 32" using s by (auto simp: edge_ok_defs INT32_MAX_def)
  let ?cells = "replicate k (RELAY_COMMAND_XON, 0 # htonl (ewma_drain_rate ?s))"
  have "xoff_after b ?cells = Some (b \<and> k = 0)" for b by (induction k arbitrary: b) auto
  moreover have "count_cmd RELAY_COMMAND_XON ?cells = k" "count_cmd RELAY_COMMAND_XOFF ?cells = 0"
    by (auto simp: count_cmd_def)
  moreover have "list_all cell_ok ?cells" using small by (auto simp: list_all_iff cell_ok_def)
  ultimately have "sink_call L m e0 e' (D + n) X N ?cells"
    using k by (simp add: sink_call_def stages_frame) (simp add: e'_def flow_control_decide_xon_def stages_frame)
  then show ?thesis using k(4) by blast
qed

lemma sink_send_xoff:
  assumes "sink_inv L m e D X N" and "\<not> xoff_sent e" and "L < fe_outbuf_len e" and "m \<le> L"
  shows "sink_inv L m ((circuit_send_stream_xoff send_ok e)\<lparr>ewma_drain_rate := 0, xoff_grace_period_start_usec := g\<rparr>) D (X + 1) N"
proof -
  have "m * N \<le> m * (N + credit e)" by simp
  then have "m * N + carry e \<le> D" using assms(1) unfolding sink_inv_def by linarith
  moreover have "L * X \<le> D" using assms(1,2) by (simp add: sink_inv_def)
  ultimately show ?thesis using assms(2-4)
    by (auto simp: send_xoff_eq send_ok_def sink_inv_def credit_def carry_def split: if_splits)
qed

lemma sink_inv_grace [simp]:
  "sink_inv L m (e\<lparr>xoff_grace_period_start_usec := g\<rparr>) D X N = sink_inv L m e D X N"
  by (simp add: sink_inv_def credit_def carry_def)

lemma check_outbuf_call:
  assumes "sink_inv L m e D X N" and "xoff_sent e \<longrightarrow> 0 < fe_outbuf_len e" and "L = buffer_limit_xoff p e" and "m \<le> L"
  shows "\<exists>cells. sink_call L m e (xoff_check_outbuf p clk send_ok e) D X N cells
    \<and> (xoff_sent (xoff_check_outbuf p clk send_ok e) \<longrightarrow> 0 < fe_outbuf_len e)"
proof (cases "fe_outbuf_len e > L \<and> \<not> xoff_sent e \<and> xoff_grace_period_start_usec e \<noteq> 0
    \<and> clk_xoff clk > add64 (xoff_grace_period_start_usec e) XOFF_GRACE_PERIOD_USEC")
  case True
  then have e': "xoff_check_outbuf p clk send_ok e =
      (circuit_send_stream_xoff send_ok e)\<lparr>ewma_drain_rate := 0, xoff_grace_period_start_usec := 0\<rparr>"
    using assms(3) by (simp add: xoff_check_outbuf_def)
  have "sink_call L m e (xoff_check_outbuf p clk send_ok e) D X N [(RELAY_COMMAND_XOFF, [0])]"
    using sink_send_xoff [OF assms(1) _ _ assms(4), of 0] True
    by (simp add: e' sink_call_def cell_ok_def) (simp add: send_xoff_eq send_ok_def)
  then show ?thesis using True by (intro exI [of _ "[(RELAY_COMMAND_XOFF, [0])]"]) auto
next
  case False
  then have "\<exists>g. xoff_check_outbuf p clk send_ok e = e\<lparr>xoff_grace_period_start_usec := g\<rparr>"
    using assms(3) by (cases e) (auto simp: xoff_check_outbuf_def)
  then obtain g where e': "xoff_check_outbuf p clk send_ok e = e\<lparr>xoff_grace_period_start_usec := g\<rparr>" by blast
  have "sink_call L m e (xoff_check_outbuf p clk send_ok e) D X N []"
    using assms(1) by (simp add: sink_call_def e' sink_inv_grace)
  then show ?thesis using assms(2) by (intro exI [of _ "[]"]) (simp add: e')
qed

lemma sink_call_trans:
  assumes "sink_call L m e e1 D X N cs" and "sink_call L m e1 e2 D (X + count_cmd RELAY_COMMAND_XOFF cs) (N + count_cmd RELAY_COMMAND_XON cs) ds"
  shows "sink_call L m e e2 D X N (cs @ ds)"
  using assms by (simp add: sink_call_def xoff_after_append add.assoc)

lemma data_received_call:
  assumes "sink_inv L m e D X N" and "xoff_sent e \<longrightarrow> 0 < fe_outbuf_len e" and "L = buffer_limit_xoff p e" and "m \<le> L"
    and "flow_params_ok p" and "edge_ok e" and "m \<le> xon_rate_bytes p" and "edge_uses_flow_control e"
  shows "\<exists>e' cells. edge_data_received p clk send_ok len e = Some e' \<and> fe_outbuf_len e' = fe_outbuf_len e + len
    \<and> sink_call L m (e\<lparr>fe_outbuf_len := fe_outbuf_len e + len\<rparr>) e' D X N cells
    \<and> edge_ok e' \<and> edge_ident e' = edge_ident e \<and> (xoff_sent e' \<longrightarrow> 0 < fe_outbuf_len e')"
proof -
  let ?e1 = "xoff_check_outbuf p clk send_ok e"
  obtain cs where cs: "sink_call L m e ?e1 D X N cs" "xoff_sent ?e1 \<longrightarrow> 0 < fe_outbuf_len e"
    using check_outbuf_call [OF assms(1-4)] by blast
  have e1: "edge_ok ?e1" "edge_ident ?e1 = edge_ident e" using assms(6) by (simp_all add: check_outbuf_ok)
  define e2 where "e2 = (if fe_outbuf_len e > MAX_EXPECTED_CELL_BURST * RELAY_PAYLOAD_SIZE
    then flow_control_decide_xon p clk send_ok ?e1 0 else ?e1)"
  have e2: "edge_ok e2" "edge_ident e2 = edge_ident e" using e1 assms(5) by (simp_all add: e2_def decide_xon_ok)
  have "\<exists>ds. sink_call L m ?e1 e2 D (X + count_cmd RELAY_COMMAND_XOFF cs) (N + count_cmd RELAY_COMMAND_XON cs) ds
    \<and> (xoff_sent e2 \<longrightarrow> 0 < fe_outbuf_len e)"
  proof (cases "fe_outbuf_len e > MAX_EXPECTED_CELL_BURST * RELAY_PAYLOAD_SIZE")
    case True
    have "sink_inv L m ?e1 D (X + count_cmd RELAY_COMMAND_XOFF cs) (N + count_cmd RELAY_COMMAND_XON cs)"
      using cs(1) by (simp add: sink_call_def)
    from decide_xon_call [OF this assms(5) e1(1) assms(7), of 0 clk] True show ?thesis by (auto simp: e2_def)
  next
    case False
    then have "sink_call L m ?e1 e2 D (X + count_cmd RELAY_COMMAND_XOFF cs) (N + count_cmd RELAY_COMMAND_XON cs) []"
      using cs(1) by (simp add: sink_call_def e2_def)
    then show ?thesis using False cs(2) by (auto simp: e2_def)
  qed
  then obtain ds where "sink_call L m e e2 D X N (cs @ ds)" "xoff_sent e2 \<longrightarrow> 0 < fe_outbuf_len e"
    using cs(1) sink_call_trans by blast
  moreover have "edge_data_received p clk send_ok len e = Some (e2\<lparr>fe_outbuf_len := fe_outbuf_len e2 + len\<rparr>)"
    using assms(6,8) by (simp add: edge_data_received_def sendme_stream_data_received_def edge_ok_def
        flow_control_decide_xoff_def Let_def e2_def)
  moreover have "edge_ok (e2\<lparr>fe_outbuf_len := fe_outbuf_len e2 + len\<rparr>)"
    "edge_ident (e2\<lparr>fe_outbuf_len := fe_outbuf_len e2 + len\<rparr>) = edge_ident e"
    using e2 by (auto simp: edge_ok_defs edge_ident_def)
  ultimately show ?thesis by (auto simp: sink_call_def sink_defs split: if_splits)
qed

subsection \<open>The system\<close>

text \<open>
  The ends of a stream: a client and an exit, or a client and an onion service (both with an
  \<open>hs_ident\<close>).  The source knows the hop that the cells come from.
\<close>

definition ends_match :: "nat option \<Rightarrow> flow_system \<Rightarrow> bool" where
  "ends_match hint s \<longleftrightarrow> fe_is_ap (src s) \<noteq> fe_is_ap (snk s) \<and> fe_hs_ident (src s) = fe_hs_ident (snk s)
     \<and> edge_uses_cpath (src s) hint \<and> edge_uses_flow_control (src s) \<and> edge_uses_flow_control (snk s)"

definition flow_init :: "nat option \<Rightarrow> flow_system \<Rightarrow> bool" where
  "flow_init hint s \<longleftrightarrow> ends_match hint s
     \<and> (\<exists>ap hs c h stamp. src s = flow_edge_new ap hs c h stamp) \<and> (\<exists>ap hs c h stamp. snk s = flow_edge_new ap hs c h stamp)
     \<and> data s = [] \<and> ctl s = [] \<and> n_packaged s = 0 \<and> n_flushed s = 0 \<and> n_xoff s = 0 \<and> n_xon s = 0 \<and> n_refused s = 0"

inductive flow_reach :: "flow_params \<Rightarrow> nat option \<Rightarrow> flow_system \<Rightarrow> bool"
  for p :: flow_params and hint :: "nat option" where
  init: "flow_init hint s \<Longrightarrow> flow_reach p hint s"
| step: "flow_reach p hint s \<Longrightarrow> flow_step p hint s s' \<Longrightarrow> flow_reach p hint s'"

text \<open>\<open>sink_limit\<close> is the smallest number of bytes that an XOFF or an XON stands for.\<close>

definition sink_limit :: "flow_params \<Rightarrow> flow_system \<Rightarrow> nat" where
  "sink_limit p s = min (buffer_limit_xoff p (snk s)) (xon_rate_bytes p)"

definition not_scaled :: "flow_params \<Rightarrow> flow_system \<Rightarrow> bool" where
  "not_scaled p s \<longleftrightarrow> n_packaged s < TOTAL_XMIT_SCALE_AT \<and> n_packaged s < XOFF_COUNT_SCALE_AT * sink_limit p s"

text \<open>As long as nothing was scaled down, the counters of the source are those of the sink, less the cells on their way.\<close>

definition counts_inv :: "flow_params \<Rightarrow> flow_system \<Rightarrow> bool" where
  "counts_inv p s \<longleftrightarrow> (not_scaled p s \<longrightarrow>
     total_bytes_xmit (src s) = n_packaged s \<and> n_refused s = 0
     \<and> num_xoff_recv (src s) + count_cmd RELAY_COMMAND_XOFF (ctl s) = n_xoff s
     \<and> num_xon_recv (src s) + count_cmd RELAY_COMMAND_XON (ctl s) = n_xon s)"

definition flow_inv :: "flow_params \<Rightarrow> nat option \<Rightarrow> flow_system \<Rightarrow> bool" where
  "flow_inv p hint s \<longleftrightarrow> ends_match hint s \<and> edge_ok (src s) \<and> edge_ok (snk s) \<and> fe_cells_out (snk s) = []
     \<and> list_all cell_ok (ctl s) \<and> xoff_after (e_xoff_received (src s)) (ctl s) = Some (xoff_sent (snk s))
     \<and> (xoff_sent (snk s) \<longrightarrow> 0 < fe_outbuf_len (snk s))
     \<and> n_packaged s = n_flushed s + fe_outbuf_len (snk s) + sum_list (data s)
     \<and> sink_inv (buffer_limit_xoff p (snk s)) (sink_limit p s) (snk s) (n_flushed s) (n_xoff s) (n_xon s)
     \<and> counts_inv p s"

lemma edge_ident_cong:
  fixes e e' :: flow_edge
  shows "edge_ident e' = edge_ident e \<Longrightarrow> fe_is_ap e' = fe_is_ap e \<and> fe_hs_ident e' = fe_hs_ident e
     \<and> edge_uses_flow_control e' = edge_uses_flow_control e \<and> edge_uses_cpath e' hint = edge_uses_cpath e hint
     \<and> buffer_limit_xoff p e' = buffer_limit_xoff p e \<and> xoff_limit p e' = xoff_limit p e \<and> xon_limit p e' = xon_limit p e"
  by (simp add: edge_ident_def edge_uses_flow_control_def edge_uses_cpath_def buffer_limit_xoff_def
      xoff_limit_def xon_limit_def cong: option.case_cong)

text \<open>Steps of the sink: cells in flight may leave, bytes may be flushed.\<close>

lemma sink_step_inv:
  assumes inv: "flow_inv p hint s" and call: "sink_call (buffer_limit_xoff p (snk s)) (sink_limit p s) e0 e' (n_flushed s + n) (n_xoff s) (n_xon s) cells"
    and e: "fe_cells_out e0 = []" "xoff_sent e0 = xoff_sent (snk s)" "edge_ok e'" "edge_ident e' = edge_ident (snk s)"
      "xoff_sent e' \<longrightarrow> 0 < fe_outbuf_len e'"
    and bytes: "n_flushed s + fe_outbuf_len (snk s) + sum_list (data s) = n_flushed s + n + fe_outbuf_len e' + sum_list ds"
  shows "flow_inv p hint (collect e' (s\<lparr>n_flushed := n_flushed s + n, data := ds\<rparr>))"
proof -
  let ?s = "collect e' (s\<lparr>n_flushed := n_flushed s + n, data := ds\<rparr>)"
  have same: "buffer_limit_xoff p (snk ?s) = buffer_limit_xoff p (snk s)" "sink_limit p ?s = sink_limit p s"
    "ends_match hint ?s"
    using edge_ident_cong [OF e(4), of hint p] inv
    by (auto simp: collect_def sink_limit_def flow_inv_def ends_match_def edge_uses_flow_control_def buffer_limit_xoff_def)
  have out: "fe_cells_out e' = cells" using call e(1) by (simp add: sink_call_def)
  have "edge_ok (snk ?s)" using e(3) by (simp add: collect_def edge_ok_defs)
  moreover have "sink_inv L m (snk ?s) D X N = sink_inv L m e' D X N" for L m D X N
    by (simp add: collect_def sink_defs)
  ultimately show ?thesis
    using inv call e bytes same(3) unfolding flow_inv_def same(1,2) counts_inv_def not_scaled_def
    by (auto simp: sink_call_def collect_def out xoff_after_append count_cmd_simps)
qed

text \<open>Steps of the source that only change what the counters do not count.\<close>

lemma source_step_inv:
  assumes inv: "flow_inv p hint s" and e: "edge_ok e'" "edge_ident e' = edge_ident (src s)"
    "e_xoff_received e' = e_xoff_received (src s)" "total_bytes_xmit e' = total_bytes_xmit (src s)"
    "num_xoff_recv e' = num_xoff_recv (src s)" "num_xon_recv e' = num_xon_recv (src s)"
  shows "flow_inv p hint (s\<lparr>src := e'\<rparr>)"
  using inv e edge_ident_cong [OF e(2), of hint p]
  by (simp add: flow_inv_def ends_match_def sink_limit_def counts_inv_def not_scaled_def)

lemma package_inv:
  assumes inv: "flow_inv p hint s" and len: "len \<le> RELAY_PAYLOAD_SIZE"
  shows "flow_inv p hint (s\<lparr>src := edge_data_packaged len (src s), data := data s @ [len], n_packaged := n_packaged s + len\<rparr>)"
proof -
  let ?e = "flow_control_note_sent_data (src s) len" and ?e' = "edge_data_packaged len (src s)"
  have src: "edge_ok (src s)" "edge_uses_flow_control (src s)" using inv by (simp_all add: flow_inv_def ends_match_def)
  have e: "edge_ok ?e" "edge_ident ?e = edge_ident (src s)" using note_sent_data_ok len src by blast+
  have e': "?e' = (if e_xoff_received ?e then connection_stop_reading ?e else ?e)"
    using src by (simp add: edge_data_packaged_def sendme_note_stream_data_packaged_def edge_ok_def Let_def)
  have ok: "edge_ok ?e'" "edge_ident ?e' = edge_ident (src s)" "e_xoff_received ?e' = e_xoff_received (src s)"
    using e by (auto simp: e' connection_stop_reading_def edge_ok_defs edge_ident_def flow_control_note_sent_data_def
        Let_def scale_down_counts_def)
  have "sub64 TOTAL_XMIT_SCALE_AT len = TOTAL_XMIT_SCALE_AT - len"
    using len by (intro sub64_small) (simp_all add: flow_consts)
  then have counts: "total_bytes_xmit ?e' = total_bytes_xmit (src s) + len \<and> num_xoff_recv ?e' = num_xoff_recv (src s)
      \<and> num_xon_recv ?e' = num_xon_recv (src s)" if "total_bytes_xmit (src s) + len < TOTAL_XMIT_SCALE_AT"
    using that by (auto simp: e' connection_stop_reading_def flow_control_note_sent_data_def Let_def u32n_def flow_consts)
  show ?thesis
    using inv ok counts edge_ident_cong [OF ok(2), of hint p]
    by (auto simp: flow_inv_def ends_match_def sink_limit_def counts_inv_def not_scaled_def)
qed

lemma limits_agree:
  assumes "flow_inv p hint s" and "fe_is_ap (src s) \<or> fe_hs_ident (src s)"
  shows "xoff_limit p (src s) = buffer_limit_xoff p (snk s)" and "xon_limit p (src s) = sink_limit p s"
  using assms by (auto simp: flow_inv_def ends_match_def xoff_limit_def xon_limit_def buffer_limit_xoff_def sink_limit_def)

lemma sink_share: "flow_inv p hint s \<Longrightarrow> not_scaled p s \<Longrightarrow>
    buffer_limit_xoff p (snk s) * n_xoff s \<le> n_packaged s \<and> sink_limit p s * n_xon s \<le> n_packaged s
    \<and> n_xoff s < XOFF_COUNT_SCALE_AT \<and> n_xon s < XON_COUNT_SCALE_AT"
proof -
  assume inv: "flow_inv p hint s" and small: "not_scaled p s"
  let ?L = "buffer_limit_xoff p (snk s)" and ?m = "sink_limit p s"
  have sink: "?L * n_xoff s \<le> n_flushed s + fe_outbuf_len (snk s)" "?m * (n_xon s + credit (snk s)) \<le> n_flushed s"
    "n_packaged s = n_flushed s + fe_outbuf_len (snk s) + sum_list (data s)"
    using inv by (auto simp: flow_inv_def sink_inv_def split: if_splits)
  have "?m * n_xon s \<le> ?m * (n_xon s + credit (snk s))" by simp
  then have xon: "?m * n_xon s \<le> n_packaged s" using sink by linarith
  have xoff: "?L * n_xoff s \<le> n_packaged s" using sink by linarith
  have less: "n_packaged s < ?m * 200" using small by (simp add: not_scaled_def XOFF_COUNT_SCALE_AT_def mult.commute)
  have "?m * n_xoff s \<le> ?L * n_xoff s" by (rule mult_le_mono1) (simp add: sink_limit_def)
  then have "?m * n_xoff s < ?m * 200" using xoff less by (meson le_less_trans)
  moreover have "?m * n_xon s < ?m * 200" using xon less by (meson le_less_trans)
  ultimately have "n_xoff s < 200" "n_xon s < 200" by (meson mult_less_cancel1)+
  then show ?thesis using xoff xon by (simp add: XOFF_COUNT_SCALE_AT_def XON_COUNT_SCALE_AT_def)
qed

text \<open>The source obeys a cell, and it accepts it while nothing was scaled down.\<close>

lemma control_xoff:
  assumes inv: "flow_inv p hint s" and ctl: "ctl s = (RELAY_COMMAND_XOFF, payload) # rest"
    and r: "circuit_process_stream_xoff p (src s) hint = (valid, conn)"
  shows "e_xoff_received conn \<and> \<not> e_xoff_received (src s)
    \<and> (not_scaled p s \<longrightarrow> valid \<and> total_bytes_xmit conn = total_bytes_xmit (src s)
        \<and> num_xoff_recv conn = num_xoff_recv (src s) + 1 \<and> num_xon_recv conn = num_xon_recv (src s))"
proof -
  have free: "\<not> e_xoff_received (src s)" using inv ctl by (auto simp: flow_inv_def split: if_splits)
  have uses: "edge_uses_cpath (src s) hint" "edge_uses_flow_control (src s)"
    using inv by (simp_all add: flow_inv_def ends_match_def)
  have obeyed: "e_xoff_received conn" using r uses free
    by (auto simp: circuit_process_stream_xoff_def Let_def connection_stop_reading_def)
  have "valid \<and> total_bytes_xmit conn = total_bytes_xmit (src s)
      \<and> num_xoff_recv conn = num_xoff_recv (src s) + 1 \<and> num_xon_recv conn = num_xon_recv (src s)" if small: "not_scaled p s"
  proof -
    have c: "total_bytes_xmit (src s) = n_packaged s" "num_xoff_recv (src s) + 1 \<le> n_xoff s"
      using inv small ctl by (auto simp: flow_inv_def counts_inv_def)
    have share: "buffer_limit_xoff p (snk s) * n_xoff s \<le> n_packaged s" "n_xoff s < XOFF_COUNT_SCALE_AT"
      using sink_share [OF inv small] by simp_all
    have n: "num_xoff_recv (src s) \<noteq> XOFF_COUNT_SCALE_AT" "u8n (num_xoff_recv (src s) + 1) = num_xoff_recv (src s) + 1"
      using c share by (auto simp: u8n_def XOFF_COUNT_SCALE_AT_def)
    have "u32n (xoff_limit p (src s) * (num_xoff_recv (src s) + 1)) \<le> total_bytes_xmit (src s)"
      if "fe_is_ap (src s) \<or> fe_hs_ident (src s)"
    proof -
      have "buffer_limit_xoff p (snk s) * (num_xoff_recv (src s) + 1) \<le> buffer_limit_xoff p (snk s) * n_xoff s"
        using c(2) by (rule mult_le_mono2)
      then have "xoff_limit p (src s) * (num_xoff_recv (src s) + 1) \<le> total_bytes_xmit (src s)"
        using share(1) c(1) limits_agree(1) [OF inv that] by simp
      then show ?thesis unfolding u32n_def using mod_less_eq_dividend order_trans by blast
    qed
    then have "\<not> total_bytes_xmit (src s) < u32n (xoff_limit p (src s) * (num_xoff_recv (src s) + 1))"
      if "fe_is_ap (src s) \<or> fe_hs_ident (src s)" using that by (simp add: not_less)
    moreover have "circuit_process_stream_xoff p (src s) hint =
        (if fe_is_ap (src s) \<or> fe_hs_ident (src s)
         then \<not> total_bytes_xmit (src s) < u32n (xoff_limit p (src s) * (num_xoff_recv (src s) + 1)) else True,
         (src s)\<lparr>num_xoff_recv := num_xoff_recv (src s) + 1, fe_reading := False, e_xoff_received := True\<rparr>)"
      using uses free n by (simp add: circuit_process_stream_xoff_def Let_def connection_stop_reading_def xoff_limit_def)
    ultimately show ?thesis using r by auto
  qed
  then show ?thesis using free obeyed by blast
qed

lemma control_xon:
  assumes inv: "flow_inv p hint s" and ctl: "ctl s = (RELAY_COMMAND_XON, payload) # rest"
    and r: "circuit_process_stream_xon p (src s) hint (payload @ padding) = (valid, conn)"
  shows "\<not> e_xoff_received conn
    \<and> (not_scaled p s \<longrightarrow> valid \<and> total_bytes_xmit conn = total_bytes_xmit (src s)
        \<and> num_xon_recv conn = num_xon_recv (src s) + 1 \<and> num_xoff_recv conn = num_xoff_recv (src s))"
proof -
  obtain k where k: "payload = 0 # htonl k" "k < 2 ^ 32"
    using inv ctl by (auto simp: flow_inv_def cell_ok_def)
  have uses: "edge_uses_cpath (src s) hint" "edge_uses_flow_control (src s)"
    using inv by (simp_all add: flow_inv_def ends_match_def)
  have parse: "xon_cell_parse (payload @ padding) = Inr (\<lparr>xon_version = 0, xon_kbps_ewma = k\<rparr>, 5)"
    using k xon_parse by simp
  have obeyed: "\<not> e_xoff_received conn" using r uses
    by (auto simp: circuit_process_stream_xon_def parse Let_def xon_resume_def connection_start_reading_def split: if_splits)
  have "valid \<and> total_bytes_xmit conn = total_bytes_xmit (src s)
      \<and> num_xon_recv conn = num_xon_recv (src s) + 1 \<and> num_xoff_recv conn = num_xoff_recv (src s)" if small: "not_scaled p s"
  proof -
    have c: "total_bytes_xmit (src s) = n_packaged s" "num_xon_recv (src s) + 1 \<le> n_xon s"
      using inv small ctl by (auto simp: flow_inv_def counts_inv_def)
    have share: "sink_limit p s * n_xon s \<le> n_packaged s" "n_xon s < XON_COUNT_SCALE_AT"
      using sink_share [OF inv small] by simp_all
    have n: "num_xon_recv (src s) \<noteq> XON_COUNT_SCALE_AT" "u8n (num_xon_recv (src s) + 1) = num_xon_recv (src s) + 1"
      using c share by (auto simp: u8n_def XON_COUNT_SCALE_AT_def)
    have "u32n (xon_limit p (src s) * (num_xon_recv (src s) + 1)) \<le> total_bytes_xmit (src s)"
      if "fe_is_ap (src s) \<or> fe_hs_ident (src s)"
    proof -
      have "sink_limit p s * (num_xon_recv (src s) + 1) \<le> sink_limit p s * n_xon s"
        using c(2) by (rule mult_le_mono2)
      then have "xon_limit p (src s) * (num_xon_recv (src s) + 1) \<le> total_bytes_xmit (src s)"
        using share(1) c(1) limits_agree(2) [OF inv that] by simp
      then show ?thesis unfolding u32n_def using mod_less_eq_dividend order_trans by blast
    qed
    then have "\<not> total_bytes_xmit (src s) < u32n (xon_limit p (src s) * (num_xon_recv (src s) + 1))"
      if "fe_is_ap (src s) \<or> fe_hs_ident (src s)" using that by (simp add: not_less)
    moreover have "fst (circuit_process_stream_xon p (src s) hint (payload @ padding)) =
        (if fe_is_ap (src s) \<or> fe_hs_ident (src s)
         then \<not> total_bytes_xmit (src s) < u32n (xon_limit p (src s) * (num_xon_recv (src s) + 1)) else True)"
      using uses n by (simp add: circuit_process_stream_xon_def parse Let_def xon_limit_def)
    ultimately have "valid" using r by auto
    moreover have "total_bytes_xmit conn = total_bytes_xmit (src s) \<and> num_xon_recv conn = num_xon_recv (src s) + 1
        \<and> num_xoff_recv conn = num_xoff_recv (src s)"
      using r uses n
      by (auto simp: circuit_process_stream_xon_def parse Let_def xon_resume_def connection_start_reading_def split: if_splits)
    ultimately show ?thesis by blast
  qed
  then show ?thesis using obeyed by blast
qed

lemma cell_received_ok:
  "edge_ok e \<Longrightarrow> edge_ok (snd (flow_cell_received p hint command body e))"
  "edge_ident (snd (flow_cell_received p hint command body e)) = edge_ident e"
  by (simp_all add: flow_cell_received_def process_xoff_ok process_xon_ok)

lemma control_inv:
  assumes inv: "flow_inv p hint s" and ctl: "ctl s = (command, payload) # rest"
    and r: "flow_cell_received p hint command (payload @ padding) (src s) = (valid, conn)"
  shows "flow_inv p hint (s\<lparr>src := conn, ctl := rest, n_refused := n_refused s + (if valid then 0 else 1)\<rparr>)"
    and "e_xoff_received conn = (command = RELAY_COMMAND_XOFF)"
proof -
  have ok: "edge_ok conn" "edge_ident conn = edge_ident (src s)"
    using inv cell_received_ok [where e = "src s" and p = p and hint = hint and command = command and body = "payload @ padding"] r by (simp_all add: flow_inv_def)
  have cmd: "command = RELAY_COMMAND_XOFF \<or> command = RELAY_COMMAND_XON"
    using inv ctl by (auto simp: flow_inv_def cell_ok_def)
  have obey: "e_xoff_received conn = (command = RELAY_COMMAND_XOFF)"
    and free: "command = RELAY_COMMAND_XOFF \<Longrightarrow> \<not> e_xoff_received (src s)"
    and counts: "not_scaled p s \<Longrightarrow> valid \<and> total_bytes_xmit conn = total_bytes_xmit (src s)
        \<and> num_xoff_recv conn = num_xoff_recv (src s) + (if command = RELAY_COMMAND_XOFF then 1 else 0)
        \<and> num_xon_recv conn = num_xon_recv (src s) + (if command = RELAY_COMMAND_XON then 1 else 0)"
    using cmd control_xoff [OF inv, of payload rest valid conn] control_xon [OF inv, of payload rest padding valid conn] ctl r
    by (auto simp: flow_cell_received_def)
  show "e_xoff_received conn = (command = RELAY_COMMAND_XOFF)" by (rule obey)
  have after: "xoff_after (e_xoff_received conn) rest = xoff_after (e_xoff_received (src s)) (ctl s)"
    using ctl obey free by auto
  let ?s = "s\<lparr>src := conn, ctl := rest, n_refused := n_refused s + (if valid then 0 else 1)\<rparr>"
  have "counts_inv p ?s"
    using inv counts ctl by (auto simp: flow_inv_def counts_inv_def not_scaled_def sink_limit_def)
  then show "flow_inv p hint ?s"
    using inv ok after ctl edge_ident_cong [OF ok(2), of hint p]
    by (simp add: flow_inv_def ends_match_def sink_limit_def)
qed

lemma arrive_inv:
  assumes p: "flow_params_ok p" and inv: "flow_inv p hint s" and d: "data s = len # rest"
  shows "\<exists>conn. edge_data_received p clk send_ok len (snk s) = Some conn \<and> flow_inv p hint (collect conn (s\<lparr>data := rest\<rparr>))"
proof -
  let ?e0 = "(snk s)\<lparr>fe_outbuf_len := fe_outbuf_len (snk s) + len\<rparr>"
  have facts: "sink_inv (buffer_limit_xoff p (snk s)) (sink_limit p s) (snk s) (n_flushed s) (n_xoff s) (n_xon s)"
    "xoff_sent (snk s) \<longrightarrow> 0 < fe_outbuf_len (snk s)" "edge_ok (snk s)" "edge_uses_flow_control (snk s)" "fe_cells_out (snk s) = []"
    using inv by (simp_all add: flow_inv_def ends_match_def)
  obtain conn cells where c: "edge_data_received p clk send_ok len (snk s) = Some conn"
    "fe_outbuf_len conn = fe_outbuf_len (snk s) + len"
    "sink_call (buffer_limit_xoff p (snk s)) (sink_limit p s) ?e0 conn (n_flushed s) (n_xoff s) (n_xon s) cells"
    "edge_ok conn" "edge_ident conn = edge_ident (snk s)" "xoff_sent conn \<longrightarrow> 0 < fe_outbuf_len conn"
    using data_received_call [OF facts(1,2) refl _ p facts(3) _ facts(4), of clk len] by (auto simp: sink_limit_def)
  have "flow_inv p hint (collect conn (s\<lparr>n_flushed := n_flushed s + 0, data := rest\<rparr>))"
    using c facts(5) d by (intro sink_step_inv [OF inv, of ?e0]) simp_all
  then show ?thesis using c(1) by simp
qed

lemma flush_inv:
  fixes clk :: flow_clock
  assumes p: "flow_params_ok p" and inv: "flow_inv p hint s" and n: "n \<le> fe_outbuf_len (snk s)"
  defines "conn \<equiv> edge_flushed p clk send_ok n (snk s)"
  shows "flow_inv p hint (collect conn (s\<lparr>n_flushed := n_flushed s + n\<rparr>))" and "fe_outbuf_len conn = fe_outbuf_len (snk s) - n"
proof -
  let ?e0 = "(snk s)\<lparr>fe_outbuf_len := fe_outbuf_len (snk s) - n\<rparr>"
  have facts: "sink_inv (buffer_limit_xoff p (snk s)) (sink_limit p s) (snk s) (n_flushed s) (n_xoff s) (n_xon s)"
    "edge_ok (snk s)" "edge_uses_flow_control (snk s)" "fe_cells_out (snk s) = []"
    using inv by (simp_all add: flow_inv_def ends_match_def)
  have e0: "edge_ok ?e0" "edge_ident ?e0 = edge_ident (snk s)" using facts(2) by (auto simp: edge_ok_defs edge_ident_def)
  have conn: "conn = flow_control_decide_xon p clk send_ok ?e0 n"
    using edge_ident_cong [OF e0(2), of hint p] facts(3) by (simp add: conn_def edge_flushed_def conn_uses_flow_control_def)
  obtain cells where c: "sink_call (buffer_limit_xoff p (snk s)) (sink_limit p s) ?e0 conn (n_flushed s + n) (n_xoff s) (n_xon s) cells"
    "xoff_sent conn \<longrightarrow> 0 < fe_outbuf_len conn"
    using decide_xon_call [OF facts(1) p facts(2) _ n, of clk] unfolding conn by (auto simp: sink_limit_def)
  have o: "fe_outbuf_len conn = fe_outbuf_len (snk s) - n" using c(1) by (simp add: sink_call_def)
  then show "fe_outbuf_len conn = fe_outbuf_len (snk s) - n" .
  have "edge_ok conn" "edge_ident conn = edge_ident (snk s)" using decide_xon_ok p e0 unfolding conn by simp_all
  then have "flow_inv p hint (collect conn (s\<lparr>n_flushed := n_flushed s + n, data := data s\<rparr>))"
    using c facts(4) o n by (intro sink_step_inv [OF inv, of ?e0]) simp_all
  then show "flow_inv p hint (collect conn (s\<lparr>n_flushed := n_flushed s + n\<rparr>))" by simp
qed

text \<open>What the bandwidth limits and the resumed circuit change at the source.\<close>

definition only_reading :: "flow_edge \<Rightarrow> flow_edge \<Rightarrow> bool" where
  "only_reading e e' \<longleftrightarrow> (\<exists>r b. e' = e\<lparr>fe_reading := r, fe_read_blocked_on_bw := b\<rparr> \<and> (e_xoff_received e \<longrightarrow> r = fe_reading e))"

lemma reading_only:
  "only_reading e (connection_read_bw_exhausted e)" "only_reading e (reenable_blocked_connection e)"
  "only_reading e (connection_start_reading e)"
  by (cases e; auto simp: only_reading_def connection_read_bw_exhausted_def reenable_blocked_connection_def
      connection_start_reading_def connection_stop_reading_def)+

lemma reading_steps:
  assumes "flow_inv p hint s" and "only_reading (src s) e'"
  shows "flow_inv p hint (s\<lparr>src := e'\<rparr>)"
proof -
  obtain r b where e': "e' = (src s)\<lparr>fe_reading := r, fe_read_blocked_on_bw := b\<rparr>"
    "e_xoff_received (src s) \<longrightarrow> r = fe_reading (src s)" using assms(2) by (auto simp: only_reading_def)
  have "edge_ok (src s)" using assms(1) by (simp add: flow_inv_def)
  then have "edge_ok e'" using e' by (simp add: edge_ok_defs)
  moreover have "edge_ident e' = edge_ident (src s)" by (simp add: e'(1) edge_ident_def)
  ultimately show ?thesis by (intro source_step_inv [OF assms(1)]) (simp_all add: e'(1))
qed

lemma flow_step_inv:
  assumes "flow_step p hint s s'" and "flow_params_ok p" and "flow_inv p hint s"
  shows "flow_inv p hint s'"
  using assms
proof (induction rule: flow_step.induct)
  case (arrive s len rest clk conn)
  then show ?case using arrive_inv [OF arrive.prems arrive.hyps(1), of clk] by auto
next
  case (control s command payload rest padding valid conn)
  then show ?case by (blast intro: control_inv(1))
qed (auto intro: package_inv flush_inv(1) reading_steps [OF _ reading_only(1)]
    reading_steps [OF _ reading_only(2)] reading_steps [OF _ reading_only(3)])

lemma new_edge_ok: "edge_ok (flow_edge_new ap hs c h stamp)"
proof -
  have "rw_ok (token_bucket_rw_init r b now)" for r b now
    using rw_adjust_ok unfolding token_bucket_rw_init_def rw_ok_def [of "token_bucket_rw_adjust _ _ _"]
    by (blast intro: rw_reset_ok)
  then show ?thesis
    by (simp add: flow_edge_new_def Let_def edge_ok_defs TOTAL_XMIT_SCALE_AT_def ONE_MEGABYTE_def)
qed

lemma flow_reach_inv:
  assumes "flow_reach p hint s" and "flow_params_ok p"
  shows "flow_inv p hint s"
  using assms
proof (induction rule: flow_reach.induct)
  case (init s)
  obtain a1 a2 a3 a4 a5 b1 b2 b3 b4 b5 where e: "src s = flow_edge_new a1 a2 a3 a4 a5" "snk s = flow_edge_new b1 b2 b3 b4 b5"
    using init(1) unfolding flow_init_def by blast
  then have "edge_ok (src s)" "edge_ok (snk s)" using new_edge_ok by simp_all
  then show ?case using init(1) e
    by (simp add: flow_inv_def flow_init_def counts_inv_def sink_inv_def credit_def carry_def)
      (simp add: flow_edge_new_def Let_def)
qed (blast intro: flow_step_inv)

subsection \<open>Progress\<close>

text \<open>
  What the network and the socket of the sink do of themselves, with nothing packaged: a data cell arrives,
  the socket takes some bytes, a flow-control cell arrives.  The bandwidth limits and the resumed circuit
  leave the source alone, so that only the handling of XOFF and XON changes whether it reads.
\<close>

inductive flow_progress :: "flow_params \<Rightarrow> nat option \<Rightarrow> flow_system \<Rightarrow> flow_system \<Rightarrow> bool"
  for p :: flow_params and hint :: "nat option" where
  arrives: "data s = len # rest \<Longrightarrow> edge_data_received p clk send_ok len (snk s) = Some conn \<Longrightarrow>
    flow_progress p hint s (collect conn (s\<lparr>data := rest\<rparr>))"
| flushes: "0 < n \<Longrightarrow> n \<le> fe_outbuf_len (snk s) \<Longrightarrow>
    flow_progress p hint s (collect (edge_flushed p clk send_ok n (snk s)) (s\<lparr>n_flushed := n_flushed s + n\<rparr>))"
| obeys: "ctl s = (command, payload) # rest \<Longrightarrow>
    flow_cell_received p hint command (payload @ padding) (src s) = (valid, conn) \<Longrightarrow>
    flow_progress p hint s (s\<lparr>src := conn, ctl := rest, n_refused := n_refused s + (if valid then 0 else 1)\<rparr>)"

inductive_cases progress_cases: "flow_progress p hint s s'"

lemma progress_is_step: "flow_progress p hint s s' \<Longrightarrow> flow_step p hint s s'"
  by (induction rule: flow_progress.induct) (rule flow_step.arrive flow_step.flush flow_step.control; assumption)+

lemma progress_packages_nothing: "flow_progress p hint s s' \<Longrightarrow> n_packaged s' = n_packaged s"
  by (erule progress_cases) (simp_all add: collect_def)

text \<open>Every such event takes a data cell, or bytes of the outbuf, or a flow-control cell away.\<close>

definition flow_order :: "(flow_system \<times> flow_system) set" where
  "flow_order = inv_image (less_than <*lex*> less_than <*lex*> less_than)
     (\<lambda>s. (length (data s), fe_outbuf_len (snk s), length (ctl s)))"

lemma flow_order_wf: "wf flow_order"
  by (simp add: flow_order_def wf_inv_image wf_lex_prod wf_less_than)

lemma progress_descends:
  assumes "flow_params_ok p" "flow_inv p hint s" "flow_progress p hint s s'"
  shows "(s', s) \<in> flow_order"
  using assms(3)
proof (cases rule: flow_progress.cases)
  case (flushes n clk)
  then show ?thesis using flush_inv(2) [OF assms(1,2), of n clk] by (simp add: flow_order_def collect_def)
qed (simp_all add: flow_order_def collect_def)

lemma progress_finite:
  assumes "flow_params_ok p" "flow_inv p hint (f 0)" and run: "\<forall>i. flow_progress p hint (f i) (f (Suc i))"
  shows False
proof -
  have "flow_inv p hint (f i)" for i
  proof (induction i)
    case (Suc i)
    then show ?case using flow_step_inv [OF progress_is_step assms(1)] run by blast
  qed (rule assms(2))
  then have "\<forall>i. (f (Suc i), f i) \<in> flow_order" using progress_descends [OF assms(1)] run by blast
  then show False using flow_order_wf by (auto simp: wf_iff_no_infinite_down_chain)
qed

text \<open>A source that reads, or that was told to stop, stays one of the two: the XON that ends the stop resumes it.\<close>

definition reads_or_stopped :: "flow_edge \<Rightarrow> bool" where
  "reads_or_stopped e \<longleftrightarrow> e_xoff_received e \<or> fe_reading e"

lemma xon_resumes:
  assumes inv: "flow_inv p hint s" and ctl: "ctl s = (RELAY_COMMAND_XON, payload) # rest" and reads: "reads_or_stopped (src s)"
    and r: "circuit_process_stream_xon p (src s) hint (payload @ padding) = (valid, conn)"
  shows "fe_reading conn"
proof -
  obtain k where k: "payload = 0 # htonl k" "k < 2 ^ 32"
    using inv ctl by (auto simp: flow_inv_def cell_ok_def)
  have "edge_uses_cpath (src s) hint" "edge_uses_flow_control (src s)"
    using inv by (simp_all add: flow_inv_def ends_match_def)
  moreover have "xon_cell_parse (payload @ padding) = Inr (\<lparr>xon_version = 0, xon_kbps_ewma = k\<rparr>, 5)"
    using k xon_parse by simp
  ultimately show ?thesis using r reads
    by (auto simp: circuit_process_stream_xon_def Let_def xon_resume_def connection_start_reading_def reads_or_stopped_def
        scale_down_counts_def split: if_splits)
qed

lemma progress_reads:
  assumes "flow_inv p hint s" "flow_progress p hint s s'" "reads_or_stopped (src s)"
  shows "reads_or_stopped (src s')"
  using assms(2)
proof (cases rule: flow_progress.cases)
  case (obeys command payload rest padding valid conn)
  have "command = RELAY_COMMAND_XOFF \<or> command = RELAY_COMMAND_XON"
    using assms(1) obeys(2) by (auto simp: flow_inv_def cell_ok_def)
  then have "reads_or_stopped conn"
    using control_xoff [OF assms(1), of payload rest valid conn] xon_resumes [OF assms(1) _ assms(3), of payload rest padding valid conn] obeys
    by (auto simp: flow_cell_received_def reads_or_stopped_def)
  then show ?thesis using obeys by simp
qed (use assms(3) in \<open>simp_all add: collect_def\<close>)

lemma progress_run:
  assumes "rtranclp (flow_progress p hint) s s'" "flow_params_ok p" "flow_inv p hint s"
  shows "flow_inv p hint s' \<and> n_packaged s' = n_packaged s \<and> (reads_or_stopped (src s) \<longrightarrow> reads_or_stopped (src s'))"
  using assms
proof (induction rule: rtranclp_induct)
  case (step s' s'')
  then show ?case
    using flow_step_inv [OF progress_is_step assms(2)] progress_packages_nothing progress_reads by fastforce
qed simp

text \<open>What is left when nothing can happen any more.\<close>

lemma progress_rest:
  assumes "flow_params_ok p" "flow_inv p hint s" and rest: "\<not> (\<exists>t. flow_progress p hint s t)"
  shows "data s = [] \<and> ctl s = [] \<and> fe_outbuf_len (snk s) = 0"
proof -
  have "data s = []"
    using arrive_inv [OF assms(1,2)] rest flow_progress.arrives by (cases "data s") blast+
  moreover have "fe_outbuf_len (snk s) = 0"
    using rest flow_progress.flushes [of "fe_outbuf_len (snk s)" s] by auto
  moreover have "ctl s = []"
  proof (rule ccontr)
    assume "ctl s \<noteq> []"
    then obtain command payload cells where c: "ctl s = (command, payload) # cells" by (cases "ctl s") auto
    obtain valid conn where "flow_cell_received p hint command (payload @ []) (src s) = (valid, conn)" by fastforce
    then show False using flow_progress.obeys [OF c] rest by blast
  qed
  ultimately show ?thesis by blast
qed

subsection \<open>Running it\<close>

datatype flow_event = Package nat | Arrive flow_clock | Flush nat flow_clock | Control | Resume

fun flow_exec :: "flow_params \<Rightarrow> nat option \<Rightarrow> flow_event \<Rightarrow> flow_system \<Rightarrow> flow_system option" where
  "flow_exec p hint (Package len) s =
     (if 0 < len \<and> len \<le> RELAY_PAYLOAD_SIZE
      then Some (s\<lparr>src := edge_data_packaged len (src s), data := data s @ [len], n_packaged := n_packaged s + len\<rparr>)
      else None)"
| "flow_exec p hint (Arrive clk) s =
     (case data s of [] \<Rightarrow> None
      | len # rest \<Rightarrow> map_option (\<lambda>conn. collect conn (s\<lparr>data := rest\<rparr>)) (edge_data_received p clk send_ok len (snk s)))"
| "flow_exec p hint (Flush n clk) s =
     (if n \<le> fe_outbuf_len (snk s)
      then Some (collect (edge_flushed p clk send_ok n (snk s)) (s\<lparr>n_flushed := n_flushed s + n\<rparr>)) else None)"
| "flow_exec p hint Control s =
     (case ctl s of [] \<Rightarrow> None
      | (command, payload) # rest \<Rightarrow>
          (case flow_cell_received p hint command (payload @ []) (src s) of (valid, conn) \<Rightarrow>
             Some (s\<lparr>src := conn, ctl := rest, n_refused := n_refused s + (if valid then 0 else 1)\<rparr>)))"
| "flow_exec p hint Resume s = Some (s\<lparr>src := connection_start_reading (src s)\<rparr>)"

fun flow_run :: "flow_params \<Rightarrow> nat option \<Rightarrow> flow_event list \<Rightarrow> flow_system \<Rightarrow> flow_system option" where
  "flow_run p hint [] s = Some s"
| "flow_run p hint (e # es) s = (case flow_exec p hint e s of None \<Rightarrow> None | Some s \<Rightarrow> flow_run p hint es s)"

lemma flow_exec_step: "flow_exec p hint e s = Some s' \<Longrightarrow> flow_step p hint s s'"
proof (cases e)
  case Control
  assume "flow_exec p hint e s = Some s'"
  with Control obtain command payload rest valid conn where "ctl s = (command, payload) # rest"
    "flow_cell_received p hint command (payload @ []) (src s) = (valid, conn)"
    "s' = s\<lparr>src := conn, ctl := rest, n_refused := n_refused s + (if valid then 0 else 1)\<rparr>"
    by (auto simp del: if_split split: list.splits prod.splits)
  then show ?thesis by (simp only: flow_step.control)
qed (auto intro: flow_step.intros split: if_splits list.splits)

lemma flow_run_reach: "flow_reach p hint s \<Longrightarrow> flow_run p hint es s = Some s' \<Longrightarrow> flow_reach p hint s'"
  by (induction p hint es s rule: flow_run.induct) (auto intro: flow_reach.step flow_exec_step split: option.splits)

lemma flow_run_append:
  "flow_run p hint (es @ es') s = (case flow_run p hint es s of None \<Rightarrow> None | Some s \<Rightarrow> flow_run p hint es' s)"
  by (induction p hint es s rule: flow_run.induct) (auto split: option.splits)

lemma flush_control_progress:
  assumes "0 < n" and run: "flow_run p hint [Flush n clk, Control] s = Some s'"
  shows "rtranclp (flow_progress p hint) s s'"
proof -
  obtain s1 where s1: "flow_exec p hint (Flush n clk) s = Some s1" "flow_exec p hint Control s1 = Some s'"
    using run by (auto simp del: flow_exec.simps split: option.splits)
  have "flow_progress p hint s s1" using s1(1) assms(1) by (auto intro: flow_progress.flushes split: if_splits)
  moreover obtain command payload rest valid conn where "ctl s1 = (command, payload) # rest"
    "flow_cell_received p hint command (payload @ []) (src s1) = (valid, conn)"
    "s' = s1\<lparr>src := conn, ctl := rest, n_refused := n_refused s1 + (if valid then 0 else 1)\<rparr>"
    using s1(2) by (auto simp del: if_split split: list.splits prod.splits)
  then have "flow_progress p hint s1 s'" by (simp only: flow_progress.obeys)
  ultimately show ?thesis by (meson converse_rtranclp_into_rtranclp rtranclp.rtrancl_refl)
qed

text \<open>A client that downloads from an exit, with an XOFF limit of one cell.\<close>

definition sample_params :: flow_params where
  "sample_params = \<lparr>xoff_client = 498, xoff_exit = 498, xon_change_pct = 25, xon_ewma_cnt = 2, xon_rate_bytes = 498\<rparr>"

definition sample_stream :: flow_system where
  "sample_stream =
     \<lparr>src = flow_edge_new True False (Some \<lparr>ec_origin = True, ec_ccontrol = False, ec_conflux = None\<rparr>) (Some (7, True)) 0,
      snk = flow_edge_new False False (Some \<lparr>ec_origin = False, ec_ccontrol = True, ec_conflux = None\<rparr>) None 0,
      data = [], ctl = [], n_packaged = 0, n_flushed = 0, n_xoff = 0, n_xon = 0, n_refused = 0\<rparr>"

definition sample_clock :: "nat \<Rightarrow> flow_clock" where
  "sample_clock t = \<lparr>clk_reliable = True, clk_xoff = t, clk_scale = t, clk_start = t, clk_rate = t\<rparr>"

lemma sample_params_ok: "flow_params_ok sample_params"
  by (simp add: sample_params_def flow_params_ok_def RELAY_PAYLOAD_SIZE_def)

lemma sample_init: "flow_reach sample_params (Some 7) sample_stream"
  by (rule flow_reach.init) (auto simp: flow_init_def ends_match_def sample_stream_def flow_edge_new_def
      edge_uses_cpath_def edge_uses_flow_control_def Let_def)

lemmas flow_eval = sample_params_def sample_stream_def sample_clock_def flow_edge_new_def edge_uses_cpath_def
  edge_uses_flow_control_def edge_data_packaged_def sendme_note_stream_data_packaged_def
  flow_control_note_sent_data_def edge_data_received_def sendme_stream_data_received_def flow_control_decide_xoff_def
  xoff_check_outbuf_def buffer_limit_xoff_def send_xoff_eq send_xon_eq send_ok_def collect_def u32n_def u8n_def
  flow_control_decide_xon_def xon_count_drained_def xon_check_clock_def xon_update_rate_def xon_consider_sending_def
  xon_queue_empty_def stream_drain_rate_changed_def compute_drain_rate_def edge_flushed_def conn_uses_flow_control_def
  sub64_def add64_def mul64_def u64_def n_count_ewma_def MAX_EXPECTED_CELL_BURST_def XOFF_GRACE_PERIOD_USEC_def
  flow_cell_received_def circuit_process_stream_xoff_def circuit_process_stream_xon_def xoff_limit_def xon_limit_def
  xon_resume_def connection_start_reading_def connection_stop_reading_def Conflux.UINT32_MAX_def flow_consts

text \<open>The outbuf of the exit fills up, the client obeys the XOFF, the outbuf is flushed and the XON resumes it.\<close>

definition sample_events :: "flow_event list" where
  "sample_events = [Package 498, Package 498, Package 498, Package 498, Arrive (sample_clock 10),
     Arrive (sample_clock 20), Arrive (sample_clock 30), Arrive (sample_clock 6000), Control]"

definition stopped_at :: "flow_system \<Rightarrow> bool" where
  "stopped_at s \<longleftrightarrow> n_packaged s = 1992 \<and> n_xoff s = 1 \<and> ctl s = [] \<and> e_xoff_received (src s) \<and> xoff_sent (snk s)
     \<and> \<not> fe_is_ap (snk s) \<and> \<not> fe_hs_ident (snk s)"

lemma sample_run: "\<exists>s. flow_run sample_params (Some 7) sample_events sample_stream = Some s \<and> stopped_at s"
  by (simp add: flow_eval sample_events_def stopped_at_def)

definition resumed_at :: "flow_system \<Rightarrow> bool" where
  "resumed_at s \<longleftrightarrow> n_packaged s = 1992 \<and> n_xoff s = 1 \<and> n_xon s = 1 \<and> data s = [] \<and> ctl s = []
     \<and> fe_outbuf_len (snk s) = 0 \<and> fe_reading (src s) \<and> \<not> fe_is_ap (snk s) \<and> \<not> fe_hs_ident (snk s)"

lemma sample_run_on: "\<exists>s. flow_run sample_params (Some 7) (sample_events @ [Flush 1992 (sample_clock 7000), Control])
    sample_stream = Some s \<and> resumed_at s"
  by (simp add: flow_eval sample_events_def resumed_at_def xon_parse_unpadded Let_def)

text \<open>C4: Two honest ends of a stream never take each other for attackers: while fewer bytes were sent than
  the counters take before they are scaled down, the source accepts every XOFF and every XON of the sink,
  whatever the clock readings and however the sink's socket takes the data.  For every XOFF the
  sink had more than the limit in its outbuf, which it emptied before the next one; every XON answers an
  XOFF or a new rate, and a rate is only formed from enough bytes; so the bytes sent always cover the
  limits that the source checks.\<close>

theorem flow_honest_cells_accepted:
  assumes "flow_params_ok p" "flow_reach p hint s"
    and "n_packaged s < TOTAL_XMIT_SCALE_AT" "n_packaged s < XOFF_COUNT_SCALE_AT * sink_limit p s"
  shows "n_refused s = 0"
  using flow_reach_inv [OF assms(2,1)] assms(3,4) by (simp add: flow_inv_def counts_inv_def not_scaled_def)

theorem flow_honest_cells_accepted_witness:
  "\<exists>s. flow_reach sample_params (Some 7) s \<and> n_xoff s = 1 \<and> n_xon s = 1 \<and> ctl s = [] \<and> n_refused s = 0"
proof -
  obtain s where s: "flow_run sample_params (Some 7) (sample_events @ [Flush 1992 (sample_clock 7000), Control])
    sample_stream = Some s" "resumed_at s" using sample_run_on by blast
  have r: "flow_reach sample_params (Some 7) s" by (rule flow_run_reach [OF sample_init s(1)])
  have "n_refused s = 0"
    using s(2) by (intro flow_honest_cells_accepted [OF sample_params_ok r])
      (simp_all add: resumed_at_def flow_consts sink_limit_def buffer_limit_xoff_def sample_params_def)
  then show ?thesis using r s(2) by (auto simp: resumed_at_def)
qed

text \<open>C11: The two ends agree: an outstanding XOFF always has data in the outbuf behind it, whose
  flushing will send the XON; the source obeys the next cell in flight whatever its padding, never finds an
  XOFF on top of another, and when no cell is in flight the flags of both ends are the same; a
  source that was told to stop does not read.\<close>

theorem flow_ends_agree:
  assumes "flow_params_ok p" "flow_reach p hint s"
  shows "(xoff_sent (snk s) \<longrightarrow> 0 < fe_outbuf_len (snk s))
    \<and> (e_xoff_received (src s) \<longrightarrow> \<not> fe_reading (src s))
    \<and> (case ctl s of
         [] \<Rightarrow> e_xoff_received (src s) = xoff_sent (snk s)
       | (command, payload) # rest \<Rightarrow>
           e_xoff_received (snd (flow_cell_received p hint command (payload @ padding) (src s)))
             = (command = RELAY_COMMAND_XOFF)
           \<and> \<not> (command = RELAY_COMMAND_XOFF \<and> e_xoff_received (src s)))"
proof -
  have inv: "flow_inv p hint s" by (rule flow_reach_inv [OF assms(2,1)])
  then have flags: "xoff_sent (snk s) \<longrightarrow> 0 < fe_outbuf_len (snk s)" "e_xoff_received (src s) \<longrightarrow> \<not> fe_reading (src s)"
    "xoff_after (e_xoff_received (src s)) (ctl s) = Some (xoff_sent (snk s))"
    by (simp_all add: flow_inv_def edge_ok_defs)
  show ?thesis
  proof (cases "ctl s")
    case (Cons cell rest)
    obtain command payload where cell: "cell = (command, payload)" by (cases cell)
    obtain valid conn where r: "flow_cell_received p hint command (payload @ padding) (src s) = (valid, conn)"
      by (cases "flow_cell_received p hint command (payload @ padding) (src s)")
    show ?thesis using flags control_inv(2) [OF inv _ r, of rest] r by (auto simp: Cons cell split: if_splits)
  qed (use flags in auto)
qed

theorem flow_ends_agree_witness:
  "\<exists>s. flow_reach sample_params (Some 7) s \<and> ctl s = [] \<and> e_xoff_received (src s) \<and> 0 < fe_outbuf_len (snk s)"
proof -
  obtain s where s: "flow_run sample_params (Some 7) sample_events sample_stream = Some s" "stopped_at s"
    using sample_run by blast
  have r: "flow_reach sample_params (Some 7) s" by (rule flow_run_reach [OF sample_init s(1)])
  then show ?thesis using flow_ends_agree [OF sample_params_ok r] s(2) by (auto simp: stopped_at_def)
qed

text \<open>C10: A stream never stalls.  Let nothing more be packaged, and let the data cells arrive, the socket of
  the sink take the outbuf in whatever portions and the flow-control cells arrive with whatever padding, in
  any order and at any clock readings; nothing else touches the reading of the source.  From every reachable
  state this comes to an end after finitely many events, and whenever it does, all that was packaged has been
  flushed, no XOFF is in force, and a source that was reading or that was stopped by an XOFF is reading: the
  handling of the last XON has resumed it.\<close>

theorem flow_never_stalls:
  assumes "flow_params_ok p" "flow_reach p hint s"
  shows "\<not> (\<exists>f. f 0 = s \<and> (\<forall>i. flow_progress p hint (f i) (f (Suc i))))
    \<and> (\<forall>s'. rtranclp (flow_progress p hint) s s' \<and> \<not> (\<exists>t. flow_progress p hint s' t) \<longrightarrow>
         data s' = [] \<and> ctl s' = [] \<and> fe_outbuf_len (snk s') = 0
         \<and> n_packaged s' = n_packaged s \<and> n_flushed s' = n_packaged s \<and> \<not> e_xoff_received (src s')
         \<and> (e_xoff_received (src s) \<or> fe_reading (src s) \<longrightarrow> fe_reading (src s')))"
proof -
  have inv: "flow_inv p hint s" by (rule flow_reach_inv [OF assms(2,1)])
  have "\<not> (\<exists>f. f 0 = s \<and> (\<forall>i. flow_progress p hint (f i) (f (Suc i))))"
    using progress_finite [OF assms(1)] inv by blast
  moreover have "data s' = [] \<and> ctl s' = [] \<and> fe_outbuf_len (snk s') = 0
      \<and> n_packaged s' = n_packaged s \<and> n_flushed s' = n_packaged s \<and> \<not> e_xoff_received (src s')
      \<and> (e_xoff_received (src s) \<or> fe_reading (src s) \<longrightarrow> fe_reading (src s'))"
    if run: "rtranclp (flow_progress p hint) s s'" and rest: "\<not> (\<exists>t. flow_progress p hint s' t)" for s'
  proof -
    have r: "flow_inv p hint s'" "n_packaged s' = n_packaged s" "reads_or_stopped (src s) \<longrightarrow> reads_or_stopped (src s')"
      using progress_run [OF run assms(1) inv] by blast+
    have "data s' = []" "ctl s' = []" "fe_outbuf_len (snk s') = 0" using progress_rest [OF assms(1) r(1) rest] by blast+
    moreover from this have "n_flushed s' = n_packaged s'" "\<not> e_xoff_received (src s')"
      using r(1) by (simp_all add: flow_inv_def)
    ultimately show ?thesis using r(2,3) unfolding reads_or_stopped_def by simp
  qed
  ultimately show ?thesis by blast
qed

theorem flow_never_stalls_witness:
  "\<exists>s s'. flow_reach sample_params (Some 7) s \<and> e_xoff_received (src s) \<and> n_packaged s = 1992
     \<and> rtranclp (flow_progress sample_params (Some 7)) s s' \<and> \<not> (\<exists>t. flow_progress sample_params (Some 7) s' t)
     \<and> n_flushed s' = 1992 \<and> fe_reading (src s')"
proof -
  obtain s where s: "flow_run sample_params (Some 7) sample_events sample_stream = Some s" "stopped_at s"
    using sample_run by blast
  have r: "flow_reach sample_params (Some 7) s" by (rule flow_run_reach [OF sample_init s(1)])
  obtain s' where s': "flow_run sample_params (Some 7) [Flush 1992 (sample_clock 7000), Control] s = Some s'" "resumed_at s'"
    using sample_run_on s(1) by (auto simp: flow_run_append simp del: flow_run.simps)
  have p: "rtranclp (flow_progress sample_params (Some 7)) s s'" by (rule flush_control_progress [OF _ s'(1)]) simp
  have e: "\<not> (\<exists>t. flow_progress sample_params (Some 7) s' t)"
    using s'(2) by (auto simp: resumed_at_def elim: progress_cases)
  have before: "e_xoff_received (src s)" "n_packaged s = 1992" using s(2) by (simp_all add: stopped_at_def)
  have "n_flushed s' = n_packaged s" "e_xoff_received (src s) \<or> fe_reading (src s) \<longrightarrow> fe_reading (src s')"
    using conjunct2 [OF flow_never_stalls [OF sample_params_ok r]] p e by blast+
  then show ?thesis using r p e before by auto
qed

text \<open>C18: Bounds.  Whatever the consensus says, the parameters are in range.  Then every operation keeps the
  fields of a stream in their ranges: the rates at most INT32_MAX, so that doubling one does not wrap;
  the counts at most 200 and the bytes below 10 MB, so that the products that the dropmark checks
  compare with them do not wrap; the bucket well formed, the rate set from an XON between 1000 and
  INT32_MAX.\<close>

theorem flow_edge_bounds:
  assumes "edge_ok e" "len \<le> RELAY_PAYLOAD_SIZE"
  shows "\<exists>p. flow_control_new_consensus_params ns = Some p \<and> flow_params_ok p
    \<and> edge_ok (snd (flow_control_decide_xoff p clk send e)) \<and> edge_ok (flow_control_decide_xon p clk send e n)
    \<and> edge_ok (snd (circuit_process_stream_xoff p e hint)) \<and> edge_ok (snd (circuit_process_stream_xon p e hint body))
    \<and> edge_ok (flow_control_note_sent_data e len)
    \<and> 2 * ewma_drain_rate e < 2 ^ 32 \<and> total_bytes_xmit e + len < 2 ^ 32
    \<and> xoff_limit p e * (num_xoff_recv e + 1) < 2 ^ 32 \<and> xon_limit p e * (num_xon_recv e + 1) < 2 ^ 32
    \<and> 1000 \<le> xon_rate kbps \<and> xon_rate kbps \<le> INT32_MAX"
proof -
  obtain p where p: "flow_control_new_consensus_params ns = Some p" "flow_params_ok p" using flow_consensus_params_ok by blast
  have b: "xoff_limit p e \<le> 4980000" "xon_limit p e \<le> 4980000" "num_xoff_recv e + 1 \<le> 201" "num_xon_recv e + 1 \<le> 201"
    using p(2) assms(1) by (auto simp: flow_params_ok_def edge_ok_defs xoff_limit_def xon_limit_def flow_consts)
  have "xoff_limit p e * (num_xoff_recv e + 1) \<le> 4980000 * 201" "xon_limit p e * (num_xon_recv e + 1) \<le> 4980000 * 201"
    using mult_le_mono [OF b(1,3)] mult_le_mono [OF b(2,4)] by blast+
  moreover have "2 * ewma_drain_rate e < 2 ^ 32" "total_bytes_xmit e + len < 2 ^ 32"
    using assms by (auto simp: edge_ok_defs flow_consts)
  ultimately show ?thesis
    using p assms xon_rate_range by (intro exI [of _ p]) (simp add: decide_xoff_ok decide_xon_ok process_xoff_ok process_xon_ok note_sent_data_ok)
qed

theorem flow_edge_bounds_witness:
  "edge_ok (flow_control_note_sent_data (flow_edge_new True False None None 0) 498)"
proof -
  have "498 \<le> RELAY_PAYLOAD_SIZE" by (simp add: RELAY_PAYLOAD_SIZE_def)
  from flow_edge_bounds [OF new_edge_ok [of True False None None 0] this] show ?thesis by blast
qed

end
