(* ===== verification/Util_String.thy ===== *)
theory Util_String
  imports Ctype "HOL-Library.Sublist"
begin

text \<open>
  String helpers of the C library and of lib/string/util_string.c.  A C string has no NUL
  in it, a pointer into it is the rest of the string, an end pointer \<open>eos\<close> is its distance
  from there.  Characters to find or to put in its place are not NUL.  The standard fixes only the sign of what \<open>strcmp\<close> and \<open>memcmp\<close> return;
  the model returns -1, 0 or 1.  The functions that write into their argument return it.
\<close>

subsection \<open>The C library\<close>

fun strcmp :: "cstring \<Rightarrow> cstring \<Rightarrow> int" where
  "strcmp [] [] = 0"
| "strcmp [] (_ # _) = - 1"
| "strcmp (_ # _) [] = 1"
| "strcmp (a # s) (b # t) =
     (if a = b then strcmp s t else if (of_char a :: nat) < of_char b then - 1 else 1)"

definition strncmp :: "cstring \<Rightarrow> cstring \<Rightarrow> nat \<Rightarrow> int" where
  "strncmp s t n = strcmp (take n s) (take n t)"

definition strcasecmp :: "cstring \<Rightarrow> cstring \<Rightarrow> int" where
  "strcasecmp s t = strcmp (map TOR_TOLOWER s) (map TOR_TOLOWER t)"

definition strncasecmp :: "cstring \<Rightarrow> cstring \<Rightarrow> nat \<Rightarrow> int" where
  "strncasecmp s t n = strcasecmp (take n s) (take n t)"

text \<open>\<open>memcmp\<close> on two regions of the same length.\<close>

fun memcmp :: "bytes \<Rightarrow> bytes \<Rightarrow> int" where
  "memcmp (a # s) (b # t) = (if a = b then memcmp s t else if a < b then - 1 else 1)"
| "memcmp _ _ = 0"

text \<open>\<open>strlcpy\<close> into a buffer of \<open>n\<close> bytes: the string it holds afterwards.\<close>

definition strlcpy :: "cstring \<Rightarrow> nat \<Rightarrow> cstring" where
  "strlcpy s n = take (n - 1) s"

subsection \<open>util_string.c\<close>

text \<open>The fallback of \<open>tor_memmem\<close>: the offset of the first occurrence; an empty needle asserts.\<close>

function memmem_loop :: "bytes \<Rightarrow> bytes \<Rightarrow> nat \<Rightarrow> nat option" where
  "memmem_loop haystack needle p =
     (let last_start = length haystack - length needle
      in case memchr (take (last_start + 1 - p) (drop p haystack)) (hd needle) of
           None \<Rightarrow> None
         | Some k \<Rightarrow>
             if memeq (drop (p + k) haystack) needle (length needle) then Some (p + k)
             else if last_start < p + k + 1 then None
             else memmem_loop haystack needle (p + k + 1))"
  by pat_completeness auto
termination
  by (relation "measure (\<lambda>(h, n, p). Suc (length h) - p)") auto

declare memmem_loop.simps [simp del]

definition tor_memmem :: "bytes \<Rightarrow> bytes \<Rightarrow> nat option option" where
  "tor_memmem haystack needle =
     (if needle = [] then None
      else if length needle > length haystack then Some None
      else Some (memmem_loop haystack needle 0))"

fun fast_mem_is_zero :: "bytes \<Rightarrow> nat \<Rightarrow> bool" where
  "fast_mem_is_zero mem len =
     (if len \<ge> 32 then
        (if memcmp (take 32 mem) (replicate 32 0) \<noteq> 0 then False
         else fast_mem_is_zero (drop 32 mem) (len - 32))
      else if len \<noteq> 0 then memeq mem (replicate 32 0) len
      else True)"

declare fast_mem_is_zero.simps [simp del]

fun tor_strstrip :: "cstring \<Rightarrow> cstring \<Rightarrow> cstring" where
  "tor_strstrip [] strip = []"
| "tor_strstrip (c # s) strip = (if c \<in> set strip then tor_strstrip s strip else c # tor_strstrip s strip)"

definition tor_strlower :: "cstring \<Rightarrow> cstring" where
  "tor_strlower s = map TOR_TOLOWER s"

definition tor_strupper :: "cstring \<Rightarrow> cstring" where
  "tor_strupper s = map TOR_TOUPPER s"

definition tor_strreplacechar :: "cstring \<Rightarrow> char \<Rightarrow> char \<Rightarrow> cstring" where
  "tor_strreplacechar s old replacement = map (\<lambda>c. if c = old then replacement else c) s"

definition tor_strisprint :: "cstring \<Rightarrow> bool" where
  "tor_strisprint s = list_all TOR_ISPRINT s"

definition tor_strisnonupper :: "cstring \<Rightarrow> bool" where
  "tor_strisnonupper s = list_all (\<lambda>c. \<not> TOR_ISUPPER c) s"

definition tor_strisspace :: "cstring \<Rightarrow> bool" where
  "tor_strisspace s = list_all TOR_ISSPACE s"

fun strcmp_opt :: "cstring option \<Rightarrow> cstring option \<Rightarrow> int" where
  "strcmp_opt None None = 0"
| "strcmp_opt None (Some _) = - 1"
| "strcmp_opt (Some _) None = 1"
| "strcmp_opt (Some s1) (Some s2) = strcmp s1 s2"

definition strcmpstart :: "cstring \<Rightarrow> cstring \<Rightarrow> int" where
  "strcmpstart s1 s2 = strncmp s1 s2 (length s2)"

definition strcasecmpstart :: "cstring \<Rightarrow> cstring \<Rightarrow> int" where
  "strcasecmpstart s1 s2 = strncasecmp s1 s2 (length s2)"

definition fast_memcmpstart :: "bytes \<Rightarrow> bytes \<Rightarrow> int" where
  "fast_memcmpstart mem pre =
     (if length mem < length pre then - 1 else memcmp (take (length pre) mem) pre)"

definition strcmpend :: "cstring \<Rightarrow> cstring \<Rightarrow> int" where
  "strcmpend s1 s2 =
     (let n1 = length s1; n2 = length s2
      in if n2 > n1 then strcmp s1 s2 else strncmp (drop (n1 - n2) s1) s2 n2)"

definition strcasecmpend :: "cstring \<Rightarrow> cstring \<Rightarrow> int" where
  "strcasecmpend s1 s2 =
     (let n1 = length s1; n2 = length s2
      in if n2 > n1 then strcasecmp s1 s2 else strncasecmp (drop (n1 - n2) s1) s2 n2)"

definition is_ws :: "char \<Rightarrow> bool" where
  "is_ws c \<longleftrightarrow> c = CHR '' '' \<or> c = CHR 0x09 \<or> c = CHR 0x0A \<or> c = CHR 0x0D"

function eat_whitespace :: "cstring \<Rightarrow> cstring" where
  "eat_whitespace [] = []"
| "eat_whitespace (c # s) =
     (if is_ws c then eat_whitespace s
      else if c = CHR ''#'' then eat_whitespace (dropWhile (\<lambda>c. c \<noteq> CHR 0x0A) s)
      else c # s)"
  by pat_completeness auto
termination
  by (relation "measure length") (auto simp: le_imp_less_Suc length_dropWhile_le)

function eat_whitespace_eos :: "cstring \<Rightarrow> nat \<Rightarrow> cstring" where
  "eat_whitespace_eos s n =
     (if n = 0 \<or> s = [] then s
      else if is_ws (hd s) then eat_whitespace_eos (tl s) (n - 1)
      else if hd s = CHR ''#'' then
        (let k = length (takeWhile (\<lambda>c. c \<noteq> CHR 0x0A) (take (n - 1) (tl s)))
         in eat_whitespace_eos (drop k (tl s)) (n - 1 - k))
      else s)"
  by pat_completeness auto
termination
  by (relation "measure snd") auto

declare eat_whitespace_eos.simps [simp del]

definition is_ws_no_nl :: "char \<Rightarrow> bool" where
  "is_ws_no_nl c \<longleftrightarrow> c = CHR '' '' \<or> c = CHR 0x09 \<or> c = CHR 0x0D"

definition eat_whitespace_no_nl :: "cstring \<Rightarrow> cstring" where
  "eat_whitespace_no_nl s = dropWhile is_ws_no_nl s"

definition eat_whitespace_eos_no_nl :: "cstring \<Rightarrow> nat \<Rightarrow> cstring" where
  "eat_whitespace_eos_no_nl s n = drop (length (takeWhile is_ws_no_nl (take n s))) s"

text \<open>The offset at which \<open>find_whitespace\<close> stops.\<close>

definition find_whitespace :: "cstring \<Rightarrow> nat" where
  "find_whitespace s = length (takeWhile (\<lambda>c. \<not> (is_ws c \<or> c = CHR ''#'')) s)"

definition find_whitespace_eos :: "cstring \<Rightarrow> nat \<Rightarrow> nat" where
  "find_whitespace_eos s n = length (takeWhile (\<lambda>c. \<not> (is_ws c \<or> c = CHR ''#'')) (take n s))"

function find_str_at_start_of_line :: "cstring \<Rightarrow> cstring \<Rightarrow> cstring option" where
  "find_str_at_start_of_line haystack needle =
     (if strncmp haystack needle (length needle) = 0 then Some haystack
      else case dropWhile (\<lambda>c. c \<noteq> CHR 0x0A) haystack of
        [] \<Rightarrow> None
      | _ # rest \<Rightarrow> if rest = [] then None else find_str_at_start_of_line rest needle)"
  by pat_completeness auto
termination
proof (relation "measure (length \<circ> fst)", goal_cases)
  case (2 haystack needle a list)
  then have "length (a # list) \<le> length haystack"
    by (metis length_dropWhile_le)
  then show ?case by simp
qed simp

declare find_str_at_start_of_line.simps [simp del]

definition string_is_C_identifier :: "cstring \<Rightarrow> bool" where
  "string_is_C_identifier s =
     (if s = [] then False
      else list_all (\<lambda>i. if i = 0 then TOR_ISALPHA (s ! i) \<or> s ! i = CHR ''_''
                         else TOR_ISALPHA (s ! i) \<or> TOR_ISDIGIT (s ! i) \<or> s ! i = CHR ''_'')
             [0..<length s])"

subsection \<open>What they compute\<close>

lemma strcmp_zero [simp]: "strcmp s t = 0 \<longleftrightarrow> s = t"
  by (induction s t rule: strcmp.induct) auto

lemma strcmp_values: "strcmp s t \<in> {- 1, 0, 1}"
  by (induction s t rule: strcmp.induct) auto

lemma strcmp_anti: "strcmp t s = - strcmp s t"
  by (induction s t rule: strcmp.induct) auto

lemma strcmp_trans: "strcmp s t \<le> 0 \<Longrightarrow> strcmp t u \<le> 0 \<Longrightarrow> strcmp s u \<le> 0"
proof (induction s t arbitrary: u rule: strcmp.induct)
  case (4 a s b t)
  then show ?case by (cases u) (auto split: if_splits)
next
  case (1)
  then show ?case by (cases u) auto
next
  case (2 b t)
  then show ?case by (cases u) auto
next
  case (3 a s)
  then show ?case by simp
qed

lemma memcmp_zero: "length s = length t \<Longrightarrow> memcmp s t = 0 \<longleftrightarrow> s = t"
  by (induction s t rule: list_induct2) auto

lemma memcmp_values: "memcmp s t \<in> {- 1, 0, 1}"
  by (induction s t rule: memcmp.induct) auto

lemma memcmp_anti: "memcmp t s = - memcmp s t"
  by (induction s t rule: memcmp.induct) (auto simp: not_less less_le_not_le)

lemma memcmp_trans:
  "length s = length t \<Longrightarrow> length t = length u \<Longrightarrow> memcmp s t \<le> 0 \<Longrightarrow> memcmp t u \<le> 0 \<Longrightarrow> memcmp s u \<le> 0"
  by (induction s t u rule: list_induct3) (auto split: if_splits)

lemma strcmpstart_iff [simp]: "strcmpstart s p = 0 \<longleftrightarrow> prefix p s"
  by (auto simp: strcmpstart_def strncmp_def prefix_def) (metis append_take_drop_id)

lemma strcasecmpstart_iff:
  "strcasecmpstart s p = 0 \<longleftrightarrow> prefix (tor_strlower p) (tor_strlower s)"
proof -
  have "strcasecmpstart s p = 0 \<longleftrightarrow> take (length p) (tor_strlower s) = tor_strlower p"
    by (simp add: strcasecmpstart_def strncasecmp_def strcasecmp_def tor_strlower_def take_map)
  then show ?thesis
    by (metis append_eq_conv_conj length_map prefix_def tor_strlower_def)
qed

lemma tor_strstrip_filter: "tor_strstrip s strip = filter (\<lambda>c. c \<notin> set strip) s"
  by (induction s) auto

lemma fast_mem_is_zero_iff:
  "len \<le> length mem \<Longrightarrow> fast_mem_is_zero mem len \<longleftrightarrow> (\<forall>i<len. mem ! i = 0)"
proof (induction mem len rule: fast_mem_is_zero.induct)
  case (1 mem len)
  show ?case
  proof (cases "len \<ge> 32")
    case True
    have zero: "memcmp (take 32 mem) (replicate 32 0) = 0 \<longleftrightarrow> (\<forall>i<32. mem ! i = 0)"
      using True "1.prems" by (auto simp: memcmp_zero list_eq_iff_nth_eq)
    have "(\<forall>i<len. mem ! i = 0) \<longleftrightarrow> (\<forall>i<32. mem ! i = 0) \<and> (\<forall>i<len - 32. mem ! (32 + i) = 0)"
      using True by (auto, metis add_diff_inverse_nat diff_less_mono linorder_not_less)
    with True "1.prems" "1.IH" zero show ?thesis
      by (subst fast_mem_is_zero.simps) auto
  next
    case False
    then show ?thesis
      using "1.prems"
      by (subst fast_mem_is_zero.simps) (auto simp: memeq_def list_eq_iff_nth_eq)
  qed
qed

lemma eat_whitespace_le: "length (eat_whitespace s) \<le> length s"
proof (induction s rule: eat_whitespace.induct)
  case (2 c s)
  then show ?case
    using length_dropWhile_le [of "\<lambda>c. c \<noteq> CHR 0x0A" s] by (auto simp: le_SucI)
qed simp

lemma eat_whitespace_stops:
  "eat_whitespace s = [] \<or> \<not> is_ws (hd (eat_whitespace s)) \<and> hd (eat_whitespace s) \<noteq> CHR ''#''"
  by (induction s rule: eat_whitespace.induct) auto

lemma eat_whitespace_id: "s = [] \<or> \<not> is_ws (hd s) \<and> hd s \<noteq> CHR ''#'' \<Longrightarrow> eat_whitespace s = s"
  by (cases s) auto

lemma find_whitespace_le: "find_whitespace s \<le> length s"
  by (simp add: find_whitespace_def length_takeWhile_le)

lemma find_whitespace_append:
  "(\<And>c. c \<in> set s \<Longrightarrow> \<not> is_ws c \<and> c \<noteq> CHR ''#'') \<Longrightarrow> t = [] \<or> is_ws (hd t) \<or> hd t = CHR ''#'' \<Longrightarrow>
   find_whitespace (s @ t) = length s"
  unfolding find_whitespace_def by (subst takeWhile_all_stop) auto

end
