(* ===== verification/Utf8.thy ===== *)
theory Utf8
  imports Util_String
begin

text \<open>
  UTF-8 validation (lib/string/util_string.c): \<open>string_is_utf8\<close> and its helpers, on bytes
  that are words, with the 32-bit accumulator of the code point.  A null pointer is \<open>None\<close>.
  The reference is the encoder of the Unicode standard, in arithmetic: the strings that are
  accepted are exactly the concatenated encodings of Unicode scalar values.
\<close>

unbundle bit_operations_syntax

definition TOP_BITS :: "nat \<Rightarrow> byte" where
  "TOP_BITS x = push_bit (8 - x) 0xFF"

definition LOW_BITS :: "nat \<Rightarrow> byte" where
  "LOW_BITS x = drop_bit (8 - x) 0xFF"

definition bytes_in_char :: "byte \<Rightarrow> nat" where
  "bytes_in_char b =
     (if TOP_BITS 1 AND b = 0 then 1
      else if TOP_BITS 3 AND b = TOP_BITS 2 then 2
      else if TOP_BITS 4 AND b = TOP_BITS 3 then 3
      else if TOP_BITS 5 AND b = TOP_BITS 4 then 4
      else 0)"

definition is_continuation_byte :: "byte \<Rightarrow> bool" where
  "is_continuation_byte b = (b AND TOP_BITS 2 = TOP_BITS 1)"

text \<open>The loop over the continuation bytes; \<open>None\<close> is the early return.\<close>

fun codepoint_loop :: "bytes \<Rightarrow> 32 word \<Rightarrow> 32 word option" where
  "codepoint_loop [] codepoint = Some codepoint"
| "codepoint_loop (c # cs) codepoint =
     (if \<not> is_continuation_byte c then None
      else codepoint_loop cs (push_bit 6 codepoint OR ucast (c AND LOW_BITS 6)))"

definition validate_char :: "bytes \<Rightarrow> nat \<Rightarrow> bool" where
  "validate_char c len =
     (if len = 1 then True
      else case codepoint_loop (take (len - 1) (tl c)) (ucast (hd c AND LOW_BITS (7 - len))) of
        None \<Rightarrow> False
      | Some codepoint \<Rightarrow>
          if len = 2 \<and> codepoint \<le> 0x7f then False
          else if len = 3 \<and> codepoint \<le> 0x7ff then False
          else if len = 4 \<and> codepoint \<le> 0xffff then False
          else if codepoint \<ge> 0xd800 \<and> codepoint \<le> 0xdfff then False
          else codepoint \<le> 0x10ffff)"

text \<open>The scan from position \<open>i\<close> on; the argument is the rest of the bytes.\<close>

function string_is_utf8_loop :: "bytes \<Rightarrow> bool" where
  "string_is_utf8_loop str =
     (if str = [] then True
      else let num_bytes = bytes_in_char (hd str)
           in if num_bytes = 0 then False
              else if num_bytes > length str then False
              else if \<not> validate_char str num_bytes then False
              else string_is_utf8_loop (drop num_bytes str))"
  by pat_completeness auto
termination
  by (relation "measure length") auto

declare string_is_utf8_loop.simps [simp del]

definition string_is_utf8 :: "bytes option \<Rightarrow> nat \<Rightarrow> bool" where
  "string_is_utf8 str len =
     (case str of None \<Rightarrow> len = 0 | Some s \<Rightarrow> string_is_utf8_loop (take len s))"

text \<open>The two escapes are U+FEFF and U+FFFE in UTF-8.\<close>

definition string_is_utf8_no_bom :: "bytes option \<Rightarrow> nat \<Rightarrow> bool" where
  "string_is_utf8_no_bom str len =
     (if (case str of None \<Rightarrow> False
          | Some s \<Rightarrow> len \<ge> 3 \<and> (take 3 s = [0xEF, 0xBB, 0xBF] \<or> take 3 s = [0xEF, 0xBF, 0xBE]))
      then False else string_is_utf8 str len)"

subsection \<open>The reference: the encoder of Unicode scalar values\<close>

definition scalar_value :: "nat \<Rightarrow> bool" where
  "scalar_value u \<longleftrightarrow> u \<le> 0x10FFFF \<and> \<not> (0xD800 \<le> u \<and> u \<le> 0xDFFF)"

definition utf8_units :: "nat \<Rightarrow> nat list" where
  "utf8_units u =
     (if u < 0x80 then [u]
      else if u < 0x800 then [0xC0 + u div 64, 0x80 + u mod 64]
      else if u < 0x10000 then [0xE0 + u div 4096, 0x80 + u div 64 mod 64, 0x80 + u mod 64]
      else [0xF0 + u div 262144, 0x80 + u div 4096 mod 64, 0x80 + u div 64 mod 64, 0x80 + u mod 64])"

definition utf8_encode :: "nat \<Rightarrow> bytes" where
  "utf8_encode u = map word_of_nat (utf8_units u)"

subsection \<open>The bit operations as arithmetic\<close>

lemma byte_range: "unat (b :: byte) < 256"
  using unsigned_less [of b] by simp

lemma byte_ones: "(0xFF :: byte) = mask 8" "(63 :: byte) = mask 6"
  by (simp_all add: mask_eq_exp_minus_1)

lemma and_TOP_BITS: "n \<le> 8 \<Longrightarrow> TOP_BITS n AND b = push_bit (8 - n) (drop_bit (8 - n) b)"
  unfolding TOP_BITS_def byte_ones by (rule bit_eqI) (auto simp: bit_simps)

lemma and_LOW_BITS: "n \<le> 8 \<Longrightarrow> unat (b AND LOW_BITS n) = unat b mod 2 ^ n"
proof -
  assume n: "n \<le> 8"
  have "b AND LOW_BITS n = take_bit n b"
    unfolding LOW_BITS_def byte_ones using n by (intro bit_eqI) (auto simp: bit_simps)
  then show ?thesis by (simp only: unsigned_take_bit_eq) (simp only: take_bit_eq_mod)
qed

lemma TOP_BITS_values:
  "TOP_BITS 1 = 0x80" "TOP_BITS 2 = 0xC0" "TOP_BITS 3 = 0xE0" "TOP_BITS 4 = 0xF0"
  by (simp_all add: TOP_BITS_def)

lemma top_value:
  assumes "n \<le> 8" "m * 2 ^ (8 - n) < 256"
  shows "TOP_BITS n AND b = word_of_nat (m * 2 ^ (8 - n)) \<longleftrightarrow> unat b div 2 ^ (8 - n) = m"
proof -
  have le: "unat b div 2 ^ (8 - n) * 2 ^ (8 - n) < 256"
    using byte_range [of b] by (meson div_times_less_eq_dividend le_less_trans)
  have drop: "unat (drop_bit (8 - n) b) = unat b div 2 ^ (8 - n)"
    by (simp only: unat_drop_bit_eq) (simp only: drop_bit_eq_div)
  have "unat (TOP_BITS n AND b) = unat b div 2 ^ (8 - n) * 2 ^ (8 - n)"
    using le by (simp only: and_TOP_BITS [OF assms(1)] unsigned_push_bit_eq drop) (simp add: push_bit_eq_mult take_bit_eq_mod)
  moreover have "unat (word_of_nat (m * 2 ^ (8 - n)) :: byte) = m * 2 ^ (8 - n)"
    using assms(2) by (simp only: unat_of_nat) (simp add: take_bit_eq_mod)
  ultimately show ?thesis by (simp only: word_unat_eq_iff) simp
qed

lemma bytes_in_char_unat:
  "bytes_in_char b =
     (if unat b < 128 then 1 else if unat b < 192 then 0 else if unat b < 224 then 2
      else if unat b < 240 then 3 else if unat b < 248 then 4 else 0)"
proof -
  have 1: "TOP_BITS 1 AND b = 0 \<longleftrightarrow> unat b div 128 = 0"
    using top_value [of 1 0 b] by simp
  have 2: "TOP_BITS 3 AND b = TOP_BITS 2 \<longleftrightarrow> unat b div 32 = 6"
    using top_value [of 3 6 b] by (simp add: TOP_BITS_values)
  have 3: "TOP_BITS 4 AND b = TOP_BITS 3 \<longleftrightarrow> unat b div 16 = 14"
    using top_value [of 4 14 b] by (simp add: TOP_BITS_values)
  have 4: "TOP_BITS 5 AND b = TOP_BITS 4 \<longleftrightarrow> unat b div 8 = 30"
    using top_value [of 5 30 b] by (simp add: TOP_BITS_values)
  show ?thesis
    unfolding bytes_in_char_def 1 2 3 4 using byte_range [of b] by auto
qed

lemma is_continuation_byte_unat: "is_continuation_byte b \<longleftrightarrow> unat b div 64 = 2"
  using top_value [of 2 2 b] unfolding is_continuation_byte_def TOP_BITS_values by (simp add: and.commute)

lemma codepoint_step:
  assumes "unat (cp :: 32 word) < 2 ^ 20"
  shows "unat (push_bit 6 cp OR ucast (c AND LOW_BITS 6)) = unat cp * 64 + unat c mod 64"
proof -
  have "push_bit 6 cp AND ucast (c AND LOW_BITS 6) = 0"
    unfolding LOW_BITS_def byte_ones by (intro bit_eqI) (auto simp: bit_simps)
  then have "push_bit 6 cp OR ucast (c AND LOW_BITS 6) = push_bit 6 cp + ucast (c AND LOW_BITS 6)"
    by (rule disjunctive_add_eq_or [symmetric])
  moreover have "unat (push_bit 6 cp) = unat cp * 64"
    using assms by (simp only: unsigned_push_bit_eq) (simp add: push_bit_eq_mult take_bit_eq_mod)
  moreover have "unat (ucast (c AND LOW_BITS 6) :: 32 word) = unat c mod 64"
  proof -
    have "unat (c AND LOW_BITS 6) = unat c mod 64"
      using and_LOW_BITS [of 6 c] by simp
    then show ?thesis
      by (simp add: unsigned_ucast_eq take_bit_eq_mod)
  qed
  ultimately show ?thesis
    using assms by (simp add: unat_word_ariths)
qed

lemma codepoint_loop_value:
  "(unat cp + 1) * 64 ^ length cs \<le> 2 ^ 26 \<Longrightarrow>
   (case codepoint_loop cs cp of
      None \<Rightarrow> \<not> list_all is_continuation_byte cs
    | Some w \<Rightarrow> list_all is_continuation_byte cs \<and>
        unat w = foldl (\<lambda>v c. v * 64 + unat c mod 64) (unat cp) cs)"
proof (induction cs arbitrary: cp)
  case (Cons c cs)
  let ?n = "unat cp * 64 + unat c mod 64"
  have "(1 :: nat) \<le> 64 ^ length cs" by simp
  then have "(unat cp + 1) * 64 * 1 \<le> (unat cp + 1) * 64 * 64 ^ length cs"
    by (rule mult_le_mono2)
  also have "\<dots> \<le> 2 ^ 26" using Cons.prems by (simp add: algebra_simps)
  finally have small: "unat cp < 2 ^ 20" by simp
  have "unat c mod 64 < 64" by simp
  then have "?n + 1 \<le> (unat cp + 1) * 64" by (simp add: Suc_le_eq)
  then have "(?n + 1) * 64 ^ length cs \<le> ((unat cp + 1) * 64) * 64 ^ length cs"
    by (rule mult_le_mono1)
  also have "\<dots> = (unat cp + 1) * 64 ^ length (c # cs)"
    by (simp only: length_Cons power_Suc mult.assoc)
  also note Cons.prems
  finally have "(?n + 1) * 64 ^ length cs \<le> 2 ^ 26" .
  with Cons.IH [of "push_bit 6 cp OR ucast (c AND LOW_BITS 6)"] show ?case
    by (simp add: codepoint_step [OF small] split: option.splits)
qed simp

lemma units_bytes: "x \<in> set (utf8_units u) \<Longrightarrow> u \<le> 0x10FFFF \<Longrightarrow> x < 256"
  by (auto simp: utf8_units_def split: if_splits)

lemma utf8_encode_unat:
  assumes "u \<le> 0x10FFFF"
  shows "str = utf8_encode u \<longleftrightarrow> map unat str = utf8_units u"
proof -
  have "map unat (utf8_encode u) = utf8_units u"
    using units_bytes [OF _ assms]
    by (auto simp: utf8_encode_def unat_of_nat take_bit_eq_mod intro!: map_idI)
  then show ?thesis
    by (metis inj_map_eq_map injI word_unat_eq_iff)
qed

text \<open>The value the accumulator has after the continuation bytes \<open>cs\<close>.\<close>

definition utf8_value :: "byte \<Rightarrow> bytes \<Rightarrow> nat" where
  "utf8_value c cs = foldl (\<lambda>v c. v * 64 + unat c mod 64) (unat c mod 2 ^ (6 - length cs)) cs"

lemma validate_char_value:
  assumes "2 \<le> n" "n \<le> 4" "n \<le> length (c # cs)"
  defines "ds \<equiv> take (n - 1) cs"
  shows "validate_char (c # cs) n \<longleftrightarrow> list_all is_continuation_byte ds
     \<and> (n = 2 \<longrightarrow> 0x7f < utf8_value c ds) \<and> (n = 3 \<longrightarrow> 0x7ff < utf8_value c ds)
     \<and> (n = 4 \<longrightarrow> 0xffff < utf8_value c ds) \<and> scalar_value (utf8_value c ds)"
proof -
  let ?cp = "ucast (c AND LOW_BITS (7 - n)) :: 32 word"
  have len: "length ds = n - 1" using assms by simp
  have "unat c mod 2 ^ (7 - n) < 4294967296"
    using byte_range [of c] mod_less_eq_dividend [of "unat c" "2 ^ (7 - n)"] by linarith
  then have cp: "unat ?cp = unat c mod 2 ^ (7 - n)"
    using and_LOW_BITS [of "7 - n" c] by (simp only: unsigned_ucast_eq) (simp add: take_bit_eq_mod)
  have "unat c mod 2 ^ (7 - n) < 2 ^ (7 - n)" by simp
  then have "(unat ?cp + 1) * 64 ^ length ds \<le> 2 ^ (7 - n) * 64 ^ (n - 1)"
    unfolding cp len by (intro mult_right_mono) (simp_all add: Suc_le_eq)
  also have "\<dots> \<le> 2 ^ 26"
  proof -
    have "n \<in> {2, 3, 4}" using assms(1,2) by auto
    then show ?thesis by auto
  qed
  finally have bound: "(unat ?cp + 1) * 64 ^ length ds \<le> 2 ^ 26" .
  have "7 - n = 6 - length ds" using len assms(1) by simp
  then have val: "foldl (\<lambda>v c. v * 64 + unat c mod 64) (unat ?cp) ds = utf8_value c ds"
    unfolding cp utf8_value_def by simp
  show ?thesis
  proof (cases "codepoint_loop ds ?cp")
    case None
    then have "\<not> list_all is_continuation_byte ds"
      using codepoint_loop_value [OF bound] by simp
    with None show ?thesis
      using assms(1) by (simp add: validate_char_def ds_def)
  next
    case (Some w)
    then have w: "list_all is_continuation_byte ds" "unat w = utf8_value c ds"
      using codepoint_loop_value [OF bound] val by simp_all
    have "validate_char (c # cs) n \<longleftrightarrow> \<not> (n = 2 \<and> w \<le> 0x7f) \<and> \<not> (n = 3 \<and> w \<le> 0x7ff)
        \<and> \<not> (n = 4 \<and> w \<le> 0xffff) \<and> \<not> (w \<ge> 0xd800 \<and> w \<le> 0xdfff) \<and> w \<le> 0x10ffff"
      using Some assms(1) by (simp add: validate_char_def ds_def)
    then show ?thesis
      unfolding scalar_value_def w(2) [symmetric] using w(1) by (auto simp: word_le_nat_alt not_le)
  qed
qed

text \<open>The first character of a string: accepted exactly when it is an encoding.\<close>

lemma take_units:
  assumes "scalar_value u"
  shows "take n (c # cs) = utf8_encode u \<longleftrightarrow> take n (unat c # map unat cs) = utf8_units u"
  using utf8_encode_unat [of u "take n (c # cs)"] assms
  by (simp add: scalar_value_def take_map [symmetric])

lemma digits64: "z < 64 \<Longrightarrow> (w * 64 + z) div 64 = w" "z < 64 \<Longrightarrow> (w * 64 + z) mod 64 = (z::nat)"
  by auto

lemma low_bits:
  "x < 32 \<Longrightarrow> (192 + x) mod 32 = x" "x < 16 \<Longrightarrow> (224 + x) mod 16 = x"
  "x < 8 \<Longrightarrow> (240 + x) mod 8 = x" "x < 64 \<Longrightarrow> (128 + x) mod 64 = (x::nat)"
  using mod_mult_self3 [of 6 32 x] mod_mult_self3 [of 14 16 x] mod_mult_self3 [of 30 8 x]
    mod_mult_self3 [of 2 64 x] by simp_all

lemma join64: "(u::nat) div 64 * 64 + u mod 64 = u"
  by simp

lemma big64: "B * 64 \<le> w * 64 + z \<Longrightarrow> z < 64 \<Longrightarrow> B \<le> (w::nat)"
  using div_le_mono [of "B * 64" "w * 64 + z" 64] by simp

lemma utf8_units_64:
  "utf8_units u =
     (if u < 0x80 then [u]
      else if u div 64 < 0x20 then [0xC0 + u div 64, 0x80 + u mod 64]
      else if u div 64 div 64 < 0x10 then [0xE0 + u div 64 div 64, 0x80 + u div 64 mod 64, 0x80 + u mod 64]
      else [0xF0 + u div 64 div 64 div 64, 0x80 + u div 64 div 64 mod 64, 0x80 + u div 64 mod 64, 0x80 + u mod 64])"
  unfolding utf8_units_def by (simp add: div_mult2_eq [symmetric] less_mult_imp_div_less div_less_iff_less_mult)

lemma units_cases:
  fixes a b c d :: nat
  shows "[a, b] = (if P then [u] else if Q then [k, l] else if R then [m, n, o'] else [p, q, r, s]) \<longleftrightarrow>
      \<not> P \<and> Q \<and> a = k \<and> b = l"
    and "[a, b, c] = (if P then [u] else if Q then [k, l] else if R then [m, n, o'] else [p, q, r, s]) \<longleftrightarrow>
      \<not> P \<and> \<not> Q \<and> R \<and> a = m \<and> b = n \<and> c = o'"
    and "[a, b, c, d] = (if P then [u] else if Q then [k, l] else if R then [m, n, o'] else [p, q, r, s]) \<longleftrightarrow>
      \<not> P \<and> \<not> Q \<and> \<not> R \<and> a = p \<and> b = q \<and> c = r \<and> d = s"
  by auto

lemma continuation_split: "is_continuation_byte d \<longleftrightarrow> (\<exists>y<64. unat d = 128 + y)"
proof
  assume "is_continuation_byte d"
  then show "\<exists>y<64. unat d = 128 + y"
    using div_mult_mod_eq [of "unat d" 64]
    by (intro exI [of _ "unat d mod 64"]) (simp add: is_continuation_byte_unat)
qed (auto simp: is_continuation_byte_unat)

text \<open>
  The lead byte carries \<open>x\<close>, the continuation bytes \<open>ys\<close>: the numbers whose encoding
  they are.
\<close>

lemma first_char_2:
  assumes c: "unat c = 192 + x" "x < 32"
  shows "validate_char (c # d # cs) 2 \<longleftrightarrow> (\<exists>u. scalar_value u \<and> [unat c, unat d] = utf8_units u)"
proof (intro iffI, goal_cases)
  case 1
  then have "is_continuation_byte d"
    using validate_char_value [of 2 c "d # cs"] by simp
  then obtain y where d: "unat d = 128 + y" "y < 64" by (auto simp: continuation_split)
  have "utf8_value c [d] = x * 64 + y"
    using c d by (simp add: utf8_value_def low_bits)
  with 1 have "127 < x * 64 + y" "scalar_value (x * 64 + y)"
    using validate_char_value [of 2 c "d # cs"] by simp_all
  then show ?case
    using c d by (intro exI [of _ "x * 64 + y"]) (simp add: utf8_units_64 digits64)
next
  case 2
  then obtain u where u: "scalar_value u" "0x80 \<le> u" "u div 64 = x" "unat d = 128 + u mod 64"
    using c unfolding utf8_units_64 units_cases by (elim exE conjE) (simp only: not_less add_left_cancel)
  then have "utf8_value c [d] = u"
    using c join64 [of u] by (simp add: utf8_value_def low_bits)
  moreover have "is_continuation_byte d"
    using u by (auto simp: continuation_split)
  ultimately show ?case
    using validate_char_value [of 2 c "d # cs"] u by simp
qed

lemma first_char_3:
  assumes c: "unat c = 224 + x" "x < 16"
  shows "validate_char (c # d # e # cs) 3 \<longleftrightarrow>
    (\<exists>u. scalar_value u \<and> [unat c, unat d, unat e] = utf8_units u)"
proof (intro iffI, goal_cases)
  case 1
  then have "is_continuation_byte d" "is_continuation_byte e"
    using validate_char_value [of 3 c "d # e # cs"] by simp_all
  then obtain y z where d: "unat d = 128 + y" "y < 64" and e: "unat e = 128 + z" "z < 64"
    by (auto simp: continuation_split)
  have "utf8_value c [d, e] = (x * 64 + y) * 64 + z"
    using c d e by (simp add: utf8_value_def low_bits)
  with 1 have big: "0x7ff < (x * 64 + y) * 64 + z" and sv: "scalar_value ((x * 64 + y) * 64 + z)"
    using validate_char_value [of 3 c "d # e # cs"] by (simp_all only: simp_thms list.size) simp_all
  from big have "\<not> x * 64 + y < 0x20" "\<not> (x * 64 + y) * 64 + z < 0x80"
    using big64 [of 32 "x * 64 + y" z] e by simp_all
  then show ?case
    using big sv c d e by (intro exI [of _ "(x * 64 + y) * 64 + z"])
      (simp only: utf8_units_64 digits64 simp_thms list.simps, simp)
next
  case 2
  then obtain u where u: "scalar_value u" "0x20 \<le> u div 64" "u div 64 div 64 = x"
      "unat d = 128 + u div 64 mod 64" "unat e = 128 + u mod 64"
    using c unfolding utf8_units_64 units_cases by (elim exE conjE) (simp only: not_less add_left_cancel)
  then have "utf8_value c [d, e] = (u div 64 div 64 * 64 + u div 64 mod 64) * 64 + u mod 64"
    using c by (simp add: utf8_value_def low_bits)
  then have "utf8_value c [d, e] = u"
    by (simp only: join64)
  moreover have "is_continuation_byte d" "is_continuation_byte e"
    using u by (auto simp: continuation_split)
  moreover have "0x7ff < u" using u(2) by linarith
  ultimately show ?case
    using validate_char_value [of 3 c "d # e # cs"] u(1) by simp
qed

lemma first_char_4:
  assumes c: "unat c = 240 + x" "x < 8"
  shows "validate_char (c # d # e # f # cs) 4 \<longleftrightarrow>
    (\<exists>u. scalar_value u \<and> [unat c, unat d, unat e, unat f] = utf8_units u)"
proof (intro iffI, goal_cases)
  case 1
  then have "is_continuation_byte d" "is_continuation_byte e" "is_continuation_byte f"
    using validate_char_value [of 4 c "d # e # f # cs"] by simp_all
  then obtain y z t where d: "unat d = 128 + y" "y < 64" and e: "unat e = 128 + z" "z < 64"
      and f: "unat f = 128 + t" "t < 64"
    by (auto simp: continuation_split)
  let ?u = "((x * 64 + y) * 64 + z) * 64 + t"
  have "utf8_value c [d, e, f] = ?u"
    using c d e f by (simp add: utf8_value_def low_bits)
  with 1 have big: "0xffff < ?u" and sv: "scalar_value ?u"
    using validate_char_value [of 4 c "d # e # f # cs"] by (simp_all only: simp_thms list.size) simp_all
  from big have "1024 \<le> (x * 64 + y) * 64 + z" "\<not> ?u < 0x80"
    using big64 [of 1024 "(x * 64 + y) * 64 + z" t] f by simp_all
  moreover from this have "\<not> x * 64 + y < 0x10"
    using big64 [of 16 "x * 64 + y" z] e by simp
  ultimately have "\<not> x * 64 + y < 0x10" "\<not> (x * 64 + y) * 64 + z < 0x20" "\<not> ?u < 0x80"
    by simp_all
  then show ?case
    using sv c d e f by (intro exI [of _ ?u])
      (simp only: utf8_units_64 digits64 simp_thms list.simps, simp)
next
  case 2
  then obtain u where u: "scalar_value u" "0x10 \<le> u div 64 div 64" "u div 64 div 64 div 64 = x"
      "unat d = 128 + u div 64 div 64 mod 64" "unat e = 128 + u div 64 mod 64" "unat f = 128 + u mod 64"
    using c unfolding utf8_units_64 units_cases by (elim exE conjE) (simp only: not_less add_left_cancel)
  then have "utf8_value c [d, e, f] =
      ((u div 64 div 64 div 64 * 64 + u div 64 div 64 mod 64) * 64 + u div 64 mod 64) * 64 + u mod 64"
    using c by (simp add: utf8_value_def low_bits)
  then have "utf8_value c [d, e, f] = u"
    by (simp only: join64)
  moreover have "is_continuation_byte d" "is_continuation_byte e" "is_continuation_byte f"
    using u by (auto simp: continuation_split)
  moreover have "0xffff < u" using u(2) by linarith
  ultimately show ?case
    using validate_char_value [of 4 c "d # e # f # cs"] u(1) by simp
qed

lemma offset_range: "(\<exists>x<k. n = a + x) \<longleftrightarrow> a \<le> n \<and> n < a + (k::nat)"
  by (auto intro: exI [of _ "n - a"])

lemma bytes_in_char_cases:
  "bytes_in_char c = 1 \<longleftrightarrow> unat c < 128"
  "bytes_in_char c = 2 \<longleftrightarrow> (\<exists>x<32. unat c = 192 + x)"
  "bytes_in_char c = 3 \<longleftrightarrow> (\<exists>x<16. unat c = 224 + x)"
  "bytes_in_char c = 4 \<longleftrightarrow> (\<exists>x<8. unat c = 240 + x)"
  "bytes_in_char c \<le> 4"
  by (auto simp: bytes_in_char_unat offset_range split: if_splits)

lemma first_char:
  assumes "bytes_in_char c = n" "n \<noteq> 0" "n \<le> length (c # cs)"
  shows "validate_char (c # cs) n \<longleftrightarrow> (\<exists>u. scalar_value u \<and> take n (c # cs) = utf8_encode u)"
proof -
  have eq: "(\<exists>u. scalar_value u \<and> take n (c # cs) = utf8_encode u) \<longleftrightarrow>
      (\<exists>u. scalar_value u \<and> take n (unat c # map unat cs) = utf8_units u)"
    by (intro ex_cong1 conj_cong refl take_units)
  have "n \<in> {1, 2, 3, 4}"
    using assms(1,2) bytes_in_char_cases(5) [of c] by auto
  then consider "n = 1" | "n = 2" | "n = 3" | "n = 4" by auto
  then show ?thesis
  proof cases
    case 1
    with assms(1) have "unat c < 128" using bytes_in_char_cases(1) [of c] by simp
    then have "scalar_value (unat c)" "[unat c] = utf8_units (unat c)"
      by (simp_all add: scalar_value_def utf8_units_def)
    then have "\<exists>u. scalar_value u \<and> take n (unat c # map unat cs) = utf8_units u"
      using 1 by auto
    then show ?thesis unfolding eq by (simp add: 1 validate_char_def)
  next
    case 2
    then obtain d ds where "cs = d # ds" using assms(3) by (cases cs) auto
    with 2 show ?thesis
      using assms(1) first_char_2 unfolding eq by (auto simp: bytes_in_char_cases)
  next
    case 3
    then obtain d e ds where "cs = d # e # ds"
      using assms(3) by (cases cs; cases "tl cs") auto
    moreover obtain x where "unat c = 224 + x" "x < 16"
      using assms(1) 3 bytes_in_char_cases(3) [of c] by blast
    ultimately show ?thesis
      using first_char_3 [of c x d e ds] unfolding eq unfolding 3 by simp
  next
    case 4
    then obtain d e f ds where "cs = d # e # f # ds"
      using assms(3) by (cases cs; cases "tl cs"; cases "tl (tl cs)") auto
    with 4 show ?thesis
      using assms(1) first_char_4 unfolding eq by (auto simp: bytes_in_char_cases)
  qed
qed

lemma encoded_lead:
  assumes "scalar_value u"
  shows "utf8_encode u \<noteq> []" "bytes_in_char (hd (utf8_encode u)) = length (utf8_encode u)"
proof -
  have "u \<le> 0x10FFFF" using assms by (simp add: scalar_value_def)
  then have "map unat (utf8_encode u) = utf8_units u"
    using utf8_encode_unat by blast
  then have "utf8_encode u \<noteq> [] \<and> unat (hd (utf8_encode u)) = hd (utf8_units u)"
    by (cases "utf8_encode u") (auto simp: utf8_units_def split: if_splits)
  moreover have "length (utf8_encode u) = length (utf8_units u)"
    by (simp add: utf8_encode_def)
  ultimately show "utf8_encode u \<noteq> []" "bytes_in_char (hd (utf8_encode u)) = length (utf8_encode u)"
    using \<open>u \<le> 0x10FFFF\<close> by (auto simp: bytes_in_char_unat utf8_units_def div_less_iff_less_mult)
qed

lemma utf8_loop_encoded:
  "\<forall>u \<in> set us. scalar_value u \<Longrightarrow> string_is_utf8_loop (concat (map utf8_encode us))"
proof (induction us)
  case Nil
  then show ?case by (simp add: string_is_utf8_loop.simps)
next
  case (Cons u us)
  then have u: "scalar_value u" by simp
  obtain c cs where e: "utf8_encode u = c # cs"
    using encoded_lead(1) [OF u] by (cases "utf8_encode u") auto
  let ?rest = "concat (map utf8_encode us)"
  have n: "bytes_in_char c = Suc (length cs)"
    using encoded_lead(2) [OF u] e by simp
  have "validate_char (c # cs @ ?rest) (Suc (length cs))"
    using first_char [of c _ "cs @ ?rest", OF n] u e by auto
  then show ?case
    using Cons n e by (subst string_is_utf8_loop.simps) simp
qed

lemma utf8_loop_decoded:
  "string_is_utf8_loop s \<Longrightarrow> \<exists>us. (\<forall>u \<in> set us. scalar_value u) \<and> s = concat (map utf8_encode us)"
proof (induction s rule: string_is_utf8_loop.induct)
  case (1 s)
  show ?case
  proof (cases s)
    case Nil
    then show ?thesis by (intro exI [of _ "[]"]) simp
  next
    case (Cons c cs)
    let ?n = "bytes_in_char c"
    have n: "?n \<noteq> 0" "?n \<le> length s" "validate_char s ?n" "string_is_utf8_loop (drop ?n s)"
      using "1.prems" Cons by (subst (asm) string_is_utf8_loop.simps, simp add: Let_def split: if_splits)+
    then obtain us where us: "\<forall>u \<in> set us. scalar_value u" "drop ?n s = concat (map utf8_encode us)"
      using "1.IH" [of ?n] Cons by auto
    obtain u where "scalar_value u" "take ?n s = utf8_encode u"
      using first_char [of c ?n cs] n Cons by auto
    with us show ?thesis
      by (intro exI [of _ "u # us"]) (simp, metis append_take_drop_id)
  qed
qed

text \<open>C24: string_is_utf8 accepts a byte string exactly when it is the concatenation of the UTF-8
  encodings of Unicode scalar values: no overlong form, no surrogate, nothing above U+10FFFF and no
  truncated character passes, and no well-formed string is refused.\<close>

theorem string_is_utf8_exact:
  "string_is_utf8 (Some str) len \<longleftrightarrow>
     (\<exists>us. list_all scalar_value us \<and> take len str = concat (map utf8_encode us))"
  using utf8_loop_encoded utf8_loop_decoded
  by (fastforce simp: string_is_utf8_def list_all_iff)

end
