(* ===== verification/Scanf.thy ===== *)
theory Scanf
  imports Parse_Int
begin

text \<open>
  The minimal sscanf (lib/string/scanf.c).  The variable arguments are the list of what was
  stored, in the order of the conversions; the result is the return value with that list.
  \<open>unsigned long\<close> values are numbers up to \<open>ULONG_MAX\<close> (LP64).  The arithmetic of
  \<open>double\<close> is a record of operations, a parameter.  Null pointers are outside the model.
\<close>

definition MAX_SCANF_WIDTH :: int where "MAX_SCANF_WIDTH = 9999"
definition UINT_MAX :: int where "UINT_MAX = 4294967295"
definition INT_MAX :: int where "INT_MAX = 2147483647"
definition INT_MIN :: int where "INT_MIN = - 2147483648"

definition digit_to_num :: "char \<Rightarrow> int" where
  "digit_to_num d = int (of_char d) - 48"

subsection \<open>The scanners\<close>

definition scan_digit :: "int \<Rightarrow> char \<Rightarrow> bool" where
  "scan_digit base c = (if base = 16 then TOR_ISXDIGIT c else TOR_ISDIGIT c)"

definition scan_num :: "int \<Rightarrow> char \<Rightarrow> int" where
  "scan_num base c = (if base = 16 then hex_decode_digit c else digit_to_num c)"

text \<open>\<open>None\<close> is the overflow return; otherwise the result, the digits scanned and the rest.\<close>

fun scan_unsigned_loop :: "int \<Rightarrow> int \<Rightarrow> cstring \<Rightarrow> int \<Rightarrow> int \<Rightarrow> (int \<times> int \<times> cstring) option" where
  "scan_unsigned_loop base width [] result scanned = Some (result, scanned, [])"
| "scan_unsigned_loop base width (c # s) result scanned =
     (if scan_digit base c \<and> scanned < width then
        (let digit = scan_num base c
         in if result > (ULONG_MAX - digit) div base then None
            else scan_unsigned_loop base width s (result * base + digit) (scanned + 1))
      else Some (result, scanned, c # s))"

definition scan_unsigned :: "cstring \<Rightarrow> int \<Rightarrow> int \<Rightarrow> (int \<times> cstring) option" where
  "scan_unsigned buf width base =
     (case scan_unsigned_loop base (if width < 0 then MAX_SCANF_WIDTH else width) buf 0 0 of
        None \<Rightarrow> None
      | Some (result, scanned, rest) \<Rightarrow> if scanned = 0 then None else Some (result, rest))"

definition scan_signed :: "cstring \<Rightarrow> int \<Rightarrow> (int \<times> cstring) option" where
  "scan_signed buf width =
     (let width = (if width < 0 then MAX_SCANF_WIDTH else width);
          neg = (cur buf = CHR ''-'');
          (buf, width) = (if neg then (tl buf, width - 1) else (buf, width))
      in case scan_unsigned buf width 10 of
           None \<Rightarrow> None
         | Some (result, rest) \<Rightarrow>
             if neg \<and> result > 0 then
               (if result > LONG_MAX + 1 then None
                else if result = LONG_MAX + 1 then Some (LONG_MIN, rest)
                else Some (- result, rest))
             else if result > LONG_MAX then None
             else Some (result, rest))"

record 'd double_ops =
  d_of_int :: "int \<Rightarrow> 'd"
  d_add :: "'d \<Rightarrow> 'd \<Rightarrow> 'd"
  d_mul :: "'d \<Rightarrow> 'd \<Rightarrow> 'd"
  d_div :: "'d \<Rightarrow> 'd \<Rightarrow> 'd"
  d_neg :: "'d \<Rightarrow> 'd"

fun scan_double_digits ::
  "'d double_ops \<Rightarrow> int \<Rightarrow> cstring \<Rightarrow> 'd \<Rightarrow> 'd \<Rightarrow> int \<Rightarrow> 'd \<times> 'd \<times> int \<times> cstring" where
  "scan_double_digits ops width [] v denom scanned = (v, denom, scanned, [])"
| "scan_double_digits ops width (c # s) v denom scanned =
     (if TOR_ISDIGIT c \<and> scanned < width
      then scan_double_digits ops width s
             (d_add ops (d_mul ops v (d_of_int ops 10)) (d_of_int ops (digit_to_num c)))
             (d_mul ops denom (d_of_int ops 10)) (scanned + 1)
      else (v, denom, scanned, c # s))"

definition scan_double :: "'d double_ops \<Rightarrow> cstring \<Rightarrow> int \<Rightarrow> ('d \<times> cstring) option" where
  "scan_double ops buf width =
     (let width = (if width < 0 then MAX_SCANF_WIDTH else width);
          neg = (cur buf = CHR ''-'');
          buf = (if neg then tl buf else buf);
          (result, _, scanned, buf) = scan_double_digits ops width buf (d_of_int ops 0) (d_of_int ops 1) 0;
          (result, scanned, buf) =
            (if cur buf = CHR ''.'' then
               (let (fracval, denominator, scanned, buf) =
                      scan_double_digits ops width (tl buf) (d_of_int ops 0) (d_of_int ops 1) (scanned + 1)
                in (d_add ops result (d_div ops fracval denominator), scanned, buf))
             else (result, scanned, buf))
      in if scanned = 0 then None
         else Some (if neg then d_neg ops result else result, buf))"

fun scan_string_loop :: "int \<Rightarrow> cstring \<Rightarrow> int \<Rightarrow> cstring \<times> cstring" where
  "scan_string_loop width [] scanned = ([], [])"
| "scan_string_loop width (c # s) scanned =
     (if \<not> TOR_ISSPACE c \<and> scanned < width
      then (let (out, rest) = scan_string_loop width s (scanned + 1) in (c # out, rest))
      else ([], c # s))"

definition scan_string :: "cstring \<Rightarrow> int \<Rightarrow> (cstring \<times> cstring) option" where
  "scan_string buf width = (if width < 0 then None else Some (scan_string_loop width buf 0))"

subsection \<open>The pattern\<close>

datatype 'd scanned =
  SUnsigned int | SUnsignedLong int | SInt int | SLong int | SDouble 'd | SString cstring | SChar char

text \<open>The width after a \<open>%\<close>, -1 when there is none; \<open>None\<close> is the return of -1.\<close>

fun width_loop :: "cstring \<Rightarrow> int \<Rightarrow> (int \<times> cstring) option" where
  "width_loop [] width = Some (width, [])"
| "width_loop (c # s) width =
     (if TOR_ISDIGIT c
      then (let width = width * 10 + digit_to_num c
            in if width > MAX_SCANF_WIDTH then None else width_loop s width)
      else Some (width, c # s))"

definition scan_width :: "cstring \<Rightarrow> (int \<times> cstring) option" where
  "scan_width pattern =
     (if TOR_ISDIGIT (cur pattern)
      then (case width_loop (tl pattern) (digit_to_num (cur pattern)) of
              None \<Rightarrow> None
            | Some (width, rest) \<Rightarrow> if width = 0 then None else Some (width, rest))
      else Some (- 1, pattern))"

text \<open>
  One conversion: a malformed pattern (return -1), no match (return \<open>n_matched\<close>), or
  what it stores, if anything, and the rest of the input.
\<close>

datatype 'd conversion = Malformed | No_match | Matched "'d scanned list" cstring

definition convert_with :: "('a \<Rightarrow> bool) \<Rightarrow> ('a \<Rightarrow> 'd scanned) \<Rightarrow> ('a \<times> cstring) option \<Rightarrow> 'd conversion" where
  "convert_with in_range store r =
     (case r of None \<Rightarrow> No_match
      | Some (v, rest) \<Rightarrow> if in_range v then Matched [store v] rest else No_match)"

definition convert_directive ::
  "'d double_ops \<Rightarrow> char \<Rightarrow> bool \<Rightarrow> int \<Rightarrow> cstring \<Rightarrow> 'd conversion" where
  "convert_directive ops d longmod width buf =
     (if d = CHR ''u'' \<or> d = CHR ''x'' then
        (if buf = [] then No_match
         else convert_with (\<lambda>u. longmod \<or> u \<le> UINT_MAX) (if longmod then SUnsignedLong else SUnsigned)
                (scan_unsigned buf width (if d = CHR ''u'' then 10 else 16)))
      else if d = CHR ''f'' then
        (if \<not> longmod then Malformed
         else if buf = [] then No_match
         else convert_with (\<lambda>_. True) SDouble (scan_double ops buf width))
      else if d = CHR ''d'' then
        convert_with (\<lambda>l. longmod \<or> INT_MIN \<le> l \<and> l \<le> INT_MAX) (if longmod then SLong else SInt)
          (scan_signed buf width)
      else if d = CHR ''s'' then
        (if longmod then Malformed
         else if width < 0 then Malformed
         else convert_with (\<lambda>_. True) SString (scan_string buf width))
      else if d = CHR ''c'' then
        (if longmod then Malformed
         else if width \<noteq> - 1 then Malformed
         else if buf = [] then No_match
         else Matched [SChar (hd buf)] (tl buf))
      else if d = CHR ''%'' then
        (if cur buf \<noteq> CHR ''%'' then No_match
         else if longmod then Malformed
         else Matched [] (tl buf))
      else Malformed)"

lemma width_loop_shorter: "width_loop s w = Some (v, rest) \<Longrightarrow> length rest \<le> length s"
  by (induction s w rule: width_loop.induct) (auto simp: Let_def split: if_splits)

lemma scan_width_shorter: "scan_width s = Some (v, rest) \<Longrightarrow> length rest \<le> length s"
  by (cases s) (auto simp: scan_width_def dest!: width_loop_shorter split: if_splits option.splits)

text \<open>After a conversion the pattern goes on behind its letter, \<open>tl\<close> of what is left.\<close>

definition after_longmod :: "cstring \<Rightarrow> bool \<times> cstring" where
  "after_longmod pattern =
     (if cur pattern = CHR ''l'' then (True, tl pattern) else (False, pattern))"

lemma after_longmod_shorter: "length (snd (after_longmod s)) \<le> length s"
  by (simp add: after_longmod_def)

function vsscanf_loop ::
  "'d double_ops \<Rightarrow> cstring \<Rightarrow> cstring \<Rightarrow> 'd scanned list \<Rightarrow> int \<Rightarrow> int \<times> 'd scanned list" where
  "vsscanf_loop ops buf [] outs n_matched = (n_matched, outs)"
| "vsscanf_loop ops buf (p # pattern) outs n_matched =
     (if p \<noteq> CHR ''%'' then
        (if buf \<noteq> [] \<and> hd buf = p then vsscanf_loop ops (tl buf) pattern outs n_matched
         else (n_matched, outs))
      else case scan_width pattern of
        None \<Rightarrow> (- 1, outs)
      | Some (width, pattern1) \<Rightarrow>
          (let (longmod, pattern2) = after_longmod pattern1
           in case convert_directive ops (cur pattern2) longmod width buf of
                Malformed \<Rightarrow> (- 1, outs)
              | No_match \<Rightarrow> (n_matched, outs)
              | Matched out rest \<Rightarrow>
                  vsscanf_loop ops rest (tl pattern2) (outs @ out) (n_matched + int (length out))))"
  by pat_completeness auto
termination
proof (relation "measure (\<lambda>(ops, buf, pattern, outs, n). length pattern)", goal_cases)
  case (3 ops buf p pattern outs n a width pattern1 x longmod pattern2 out rest)
  then have "length pattern2 \<le> length pattern1" "length pattern1 \<le> length pattern"
    using after_longmod_shorter [of pattern1] by (metis snd_conv, auto simp: scan_width_shorter)
  then show ?case by simp
qed auto

definition tor_sscanf :: "'d double_ops \<Rightarrow> cstring \<Rightarrow> cstring \<Rightarrow> int \<times> 'd scanned list" where
  "tor_sscanf ops buf pattern = vsscanf_loop ops buf pattern [] 0"

subsection \<open>What the scanners read\<close>

lemma digit_to_num_val: "TOR_ISDIGIT c \<Longrightarrow> digit_to_num c = int (digit_val c)"
  by (auto simp: digit_to_num_def digit_val_def TOR_ISDIGIT_iff byte_between_def Let_def)

text \<open>The characters a scan may take: the leading digits, at most the width.\<close>

definition scan_text :: "int \<Rightarrow> int \<Rightarrow> cstring \<Rightarrow> cstring" where
  "scan_text base width s =
     take (nat (if width < 0 then MAX_SCANF_WIDTH else width)) (takeWhile (scan_digit base) s)"

lemma scan_num_val:
  assumes "scan_digit base c" "base = 10 \<or> base = 16"
  shows "scan_num base c = int (digit_val c)"
  using assms by (auto simp: scan_digit_def scan_num_def digit_to_num_val hex_decode_digit_iff split: if_splits)

lemma scan_overflow_check:
  assumes "0 < base"
  shows "result > (ULONG_MAX - digit) div base \<longleftrightarrow> result * base + digit > (ULONG_MAX :: int)"
proof -
  define q where "q = (ULONG_MAX - digit) div base"
  define r where "r = (ULONG_MAX - digit) mod base"
  have r: "0 \<le> r" "r < base" using assms by (simp_all add: r_def)
  have eq: "ULONG_MAX - digit = q * base + r" by (simp add: q_def r_def)
  have "q < result \<longleftrightarrow> q * base + r < result * base"
  proof
    assume "q < result"
    then have "(q + 1) * base \<le> result * base" using assms by (intro mult_right_mono) auto
    then show "q * base + r < result * base" using r by (simp add: algebra_simps)
  next
    assume "q * base + r < result * base"
    then have "q * base < result * base" using r by linarith
    then show "q < result" using assms by simp
  qed
  then show ?thesis unfolding q_def [symmetric] using eq by linarith
qed

text \<open>The number that digits stand for when they are read after \<open>v\<close>.\<close>

definition read_on :: "int \<Rightarrow> int \<Rightarrow> cstring \<Rightarrow> int" where
  "read_on base v ds = foldl (\<lambda>v c. v * base + int (digit_val c)) v ds"

lemma read_on_simps [simp]:
  "read_on base v [] = v" "read_on base v (c # ds) = read_on base (v * base + int (digit_val c)) ds"
  by (simp_all add: read_on_def)

lemma read_on_ge: "1 \<le> base \<Longrightarrow> 0 \<le> v \<Longrightarrow> v \<le> read_on base v ds"
proof (induction ds arbitrary: v)
  case (Cons c ds)
  have "v * 1 \<le> v * base" using Cons.prems by (intro mult_left_mono) auto
  then have "v \<le> v * base + int (digit_val c)" by simp
  also have "\<dots> \<le> read_on base (v * base + int (digit_val c)) ds"
    using Cons.prems by (intro Cons.IH) auto
  finally show ?case by simp
qed simp

lemma read_on_digits: "read_on (int b) (int v) ds = int (foldl (\<lambda>v c. v * b + digit_val c) v ds)"
proof (induction ds arbitrary: v)
  case (Cons c ds)
  then show ?case using Cons.IH [of "v * b + digit_val c"] by simp
qed simp

lemma scan_unsigned_loop_value:
  assumes base: "base = 10 \<or> base = 16"
  shows "0 \<le> result \<Longrightarrow> result \<le> ULONG_MAX \<Longrightarrow> scanned \<le> width \<Longrightarrow>
    scan_unsigned_loop base width s result scanned =
      (let ds = take (nat (width - scanned)) (takeWhile (scan_digit base) s)
       in if read_on base result ds \<le> ULONG_MAX
          then Some (read_on base result ds, scanned + int (length ds), drop (length ds) s) else None)"
proof (induction s arbitrary: result scanned)
  case (Cons c s)
  show ?case
  proof (cases "scan_digit base c \<and> scanned < width")
    case False
    then show ?thesis using Cons.prems by (auto simp: Let_def)
  next
    case True
    then obtain k where k: "nat (width - scanned) = Suc k" "nat (width - (scanned + 1)) = k"
      by (metis Suc_diff_1 diff_diff_add nat_1 nat_diff_distrib' nat_minus_as_int zero_less_diff
          zero_less_nat_eq Suc_nat_eq_nat_zadd1 add.commute diff_add_cancel zle_diff1_eq diff_ge_0_iff_ge)
    let ?d = "scan_num base c"
    have d: "?d = int (digit_val c)" using True base by (simp add: scan_num_val)
    have pos: "0 \<le> result * base + ?d" using Cons.prems(1) base d by auto
    have check: "result > (ULONG_MAX - ?d) div base \<longleftrightarrow> result * base + ?d > ULONG_MAX"
      using base by (intro scan_overflow_check) auto
    show ?thesis
    proof (cases "result * base + ?d > ULONG_MAX")
      case over: True
      have "result * base + ?d \<le> read_on base (result * base + ?d) (take k (takeWhile (scan_digit base) s))"
        using pos base by (intro read_on_ge) auto
      then show ?thesis using True over check k d by (simp add: Let_def)
    next
      case fits: False
      then show ?thesis
        using True check k d pos Cons.IH [of "result * base + ?d" "scanned + 1"]
        by (simp add: Let_def algebra_simps)
    qed
  qed
qed simp

text \<open>scan_unsigned takes the longest run of digits within the width and yields the number
  they denote, exactly when there is a digit and that number fits an unsigned long; its overflow test,
  made before each multiplication, never refuses a number that fits and never lets one wrap.\<close>

theorem scan_unsigned_exact:
  assumes "base = 10 \<or> base = 16"
  shows "scan_unsigned buf width base =
    (let ds = scan_text base width buf; v = int (digits_value (nat base) ds)
     in if ds = [] \<or> v > ULONG_MAX then None else Some (v, drop (length ds) buf))"
proof -
  let ?w = "if width < 0 then MAX_SCANF_WIDTH else width"
  have "0 \<le> ?w" by (simp add: MAX_SCANF_WIDTH_def)
  then have loop: "scan_unsigned_loop base ?w buf 0 0 =
      (let ds = scan_text base width buf
       in if read_on base 0 ds \<le> ULONG_MAX
          then Some (read_on base 0 ds, int (length ds), drop (length ds) buf) else None)"
    using scan_unsigned_loop_value [OF assms, of 0 0 ?w buf]
    by (simp add: scan_text_def ULONG_MAX_def Let_def)
  have "read_on base 0 ds = int (digits_value (nat base) ds)" for ds
    using assms read_on_digits [of "nat base" 0 ds] by (auto simp: digits_value_def)
  with loop show ?thesis
    by (auto simp: scan_unsigned_def Let_def)
qed

theorem scan_unsigned_exact_witness:
  "scan_unsigned ''18446744073709551615,'' (- 1) 10 = Some (18446744073709551615, '','')
   \<and> scan_unsigned ''18446744073709551616'' (- 1) 10 = None"
  by (simp add: scan_unsigned_exact scan_text_def scan_digit_def TOR_ISDIGIT_iff byte_between_def
      MAX_SCANF_WIDTH_def ULONG_MAX_def digits_value_def digit_val_def)

text \<open>Reading a given text of digits.\<close>

lemma scan_unsigned_digits:
  assumes "ds \<noteq> []" "\<And>c. c \<in> set ds \<Longrightarrow> TOR_ISDIGIT c" "int (digits_value 10 ds) \<le> ULONG_MAX"
    and "int (length ds) \<le> (if width < 0 then MAX_SCANF_WIDTH else width)"
    and "int (length ds) = width \<or> rest = [] \<or> \<not> TOR_ISDIGIT (hd rest)"
  shows "scan_unsigned (ds @ rest) width 10 = Some (int (digits_value 10 ds), rest)"
proof -
  let ?w = "if width < 0 then MAX_SCANF_WIDTH else width"
  have dig: "scan_digit 10 = TOR_ISDIGIT" by (simp add: fun_eq_iff scan_digit_def)
  have "scan_text 10 width (ds @ rest) = ds"
  proof (cases "rest = [] \<or> \<not> TOR_ISDIGIT (hd rest)")
    case True
    then have "takeWhile TOR_ISDIGIT (ds @ rest) = ds"
      using assms(2) by (intro takeWhile_all_stop) auto
    then show ?thesis using assms(4) by (simp add: scan_text_def dig)
  next
    case False
    then have "width = int (length ds)" using assms(5) by auto
    then show ?thesis
      using assms(2) by (simp add: scan_text_def dig takeWhile_append2)
  qed
  then show ?thesis
    using assms(1,3) by (simp add: scan_unsigned_exact)
qed

lemma scan_unsigned_decimal:
  assumes "n \<le> 4294967295" "rest = [] \<or> \<not> TOR_ISDIGIT (hd rest)"
  shows "scan_unsigned (decimal n @ rest) (- 1) 10 = Some (int n, rest)"
proof -
  have "length (decimal n) \<le> 10"
    using assms(1) by (intro decimal_length) auto
  then show ?thesis
    using scan_unsigned_digits [of "decimal n" "- 1" rest] TOR_ISDIGIT_decimal assms
    by (simp add: decimal_value MAX_SCANF_WIDTH_def ULONG_MAX_def)
qed

end
