(* ===== verification/Time_Fmt.thy ===== *)
theory Time_Fmt
  imports Scanf Util_String Binascii "HOL-Library.Signed_Division"
begin

text \<open>
  Dates (lib/encoding/time_fmt.c, and from lib/wallclock/time_to_tm.c the correction of what
  gmtime and localtime return).  A \<open>struct tm\<close> is a record of its \<open>int\<close> fields, a 64-bit
  \<open>time_t\<close> an integer.  gmtime and timegm are the C library's, in the proleptic Gregorian
  calendar without leap seconds; localtime is a parameter.  \<open>None\<close> is the return of -1.
\<close>

record tm =
  tm_year :: int
  tm_mon :: int
  tm_mday :: int
  tm_hour :: int
  tm_min :: int
  tm_sec :: int
  tm_wday :: int
  tm_yday :: int

subsection \<open>The calendar of the C library\<close>

definition leap_year :: "int \<Rightarrow> bool" where
  "leap_year y \<longleftrightarrow> 4 dvd y \<and> (\<not> 100 dvd y \<or> 400 dvd y)"

definition year_days :: "int \<Rightarrow> int" where
  "year_days y = (if leap_year y then 366 else 365)"

definition month_lengths :: "int \<Rightarrow> int list" where
  "month_lengths y = [31, if leap_year y then 29 else 28, 31, 30, 31, 30, 31, 31, 30, 31, 30, 31]"

text \<open>The year and the day of the year of the day \<open>d\<close> days after 1 January of \<open>y\<close>.\<close>

function civil_year :: "int \<Rightarrow> int \<Rightarrow> int \<times> int" where
  "civil_year y d =
     (if d < 0 then civil_year (y - 1) (d + year_days (y - 1))
      else if d < year_days y then (y, d)
      else civil_year (y + 1) (d - year_days y))"
  by pat_completeness auto
termination
  by (relation "measure (\<lambda>(y, d). if d < 0 then nat (- d) + 367 else nat d)")
    (auto simp: year_days_def split: if_splits)

declare civil_year.simps [simp del]

text \<open>The month and the day of the month, both from 0, of a day of the year.\<close>

fun civil_month :: "int list \<Rightarrow> int \<Rightarrow> int \<times> int" where
  "civil_month [] d = (0, d)"
| "civil_month (m # ms) d =
     (if d < m then (0, d) else (let (i, r) = civil_month ms (d - m) in (i + 1, r)))"

definition gmtime :: "int \<Rightarrow> tm" where
  "gmtime t =
     (let days = t div 86400; secs = t mod 86400;
          (y, yday) = civil_year 1970 days;
          (mon, mday) = civil_month (month_lengths y) yday
      in \<lparr>tm_year = y - 1900, tm_mon = mon, tm_mday = mday + 1,
          tm_hour = secs div 3600, tm_min = secs div 60 mod 60, tm_sec = secs mod 60,
          tm_wday = (4 + days) mod 7, tm_yday = yday\<rparr>)"

text \<open>The days from 1 January 1970 to 1 January of the year \<open>y\<close>.\<close>

definition days_to_year :: "int \<Rightarrow> int" where
  "days_to_year y = 365 * (y - 1970) + ((y - 1) div 4 - 492) - ((y - 1) div 100 - 19) + ((y - 1) div 400 - 4)"

text \<open>timegm takes fields out of range too: months carry into years, days into months.\<close>

definition timegm :: "tm \<Rightarrow> int" where
  "timegm tm =
     (let y = 1900 + tm_year tm + tm_mon tm div 12; m = tm_mon tm mod 12;
          days = days_to_year y + sum_list (take (nat m) (month_lengths y)) + tm_mday tm - 1
      in ((days * 24 + tm_hour tm) * 60 + tm_min tm) * 60 + tm_sec tm)"

text \<open>gmtime_r: \<open>None\<close> (a null pointer) when the year does not fit an \<open>int\<close>.\<close>

definition gmtime_r :: "int \<Rightarrow> tm option" where
  "gmtime_r t =
     (let r = gmtime t in if INT_MIN \<le> tm_year r \<and> tm_year r \<le> INT_MAX then Some r else None)"

subsection \<open>time_to_tm.c\<close>

definition INT32_MAX :: int where "INT32_MAX = 2147483647"

text \<open>The result, and whether an error message was produced.\<close>

definition correct_tm :: "int \<Rightarrow> tm option \<Rightarrow> tm \<times> bool" where
  "correct_tm timep r =
     (case r of
        Some r \<Rightarrow>
          (if tm_year r > 8099
           then (r\<lparr>tm_year := 8099, tm_mon := 11, tm_mday := 31, tm_yday := 364, tm_wday := 6,
                   tm_hour := 23, tm_min := 59, tm_sec := 59\<rparr>, False)
           else if tm_year r < 1 - 1900
           then (r\<lparr>tm_year := 1 - 1900, tm_mon := 0, tm_mday := 1, tm_yday := 0, tm_wday := 0,
                   tm_hour := 0, tm_min := 0, tm_sec := 0\<rparr>, False)
           else (r, False))
      | None \<Rightarrow>
          if timep < 0
          then (\<lparr>tm_year = 70, tm_mon = 0, tm_mday = 1, tm_hour = 0, tm_min = 0, tm_sec = 0,
                 tm_wday = 0, tm_yday = 0\<rparr>, True)
          else if timep \<ge> INT32_MAX
          then (\<lparr>tm_year = 137, tm_mon = 11, tm_mday = 31, tm_hour = 23, tm_min = 59, tm_sec = 59,
                 tm_wday = 6, tm_yday = 364\<rparr>, True)
          else (\<lparr>tm_year = 0, tm_mon = 0, tm_mday = 0, tm_hour = 0, tm_min = 0, tm_sec = 0,
                 tm_wday = 0, tm_yday = 0\<rparr>, True))"

definition tor_localtime_r_msg :: "(int \<Rightarrow> tm option) \<Rightarrow> int \<Rightarrow> tm \<times> bool" where
  "tor_localtime_r_msg localtime_r timep = correct_tm timep (localtime_r timep)"

definition tor_gmtime_r_msg :: "int \<Rightarrow> tm \<times> bool" where
  "tor_gmtime_r_msg timep = correct_tm timep (gmtime_r timep)"

subsection \<open>time_fmt.c\<close>

definition tor_localtime_r :: "(int \<Rightarrow> tm option) \<Rightarrow> int \<Rightarrow> tm" where
  "tor_localtime_r localtime_r timep = fst (tor_localtime_r_msg localtime_r timep)"

definition tor_gmtime_r :: "int \<Rightarrow> tm" where
  "tor_gmtime_r timep = fst (tor_gmtime_r_msg timep)"

text \<open>Division and remainder of the code round towards 0.\<close>

definition IS_LEAPYEAR :: "int \<Rightarrow> bool" where
  "IS_LEAPYEAR y \<longleftrightarrow> y smod 4 = 0 \<and> (y smod 100 \<noteq> 0 \<or> y smod 400 = 0)"

definition n_leapdays :: "int \<Rightarrow> int \<Rightarrow> int" where
  "n_leapdays year1 year2 =
     (let year1 = year1 - 1; year2 = year2 - 1
      in (year2 sdiv 4 - year1 sdiv 4) - (year2 sdiv 100 - year1 sdiv 100)
           + (year2 sdiv 400 - year1 sdiv 400))"

definition days_per_month :: "int list" where
  "days_per_month = [31, 28, 31, 30, 31, 30, 31, 31, 30, 31, 30, 31]"

definition tor_timegm_impl :: "tm \<Rightarrow> int option" where
  "tor_timegm_impl tm =
     (let year = (if tm_year tm < INT32_MAX - 1900 then tm_year tm + 1900 else INT32_MAX);
          invalid_year = (year < 1970 \<or> tm_year tm \<ge> INT32_MAX - 1900);
          dpm = (if tm_mon tm \<ge> 0 \<and> tm_mon tm \<le> 11
                 then (if tm_mon tm = 1 \<and> \<not> invalid_year \<and> IS_LEAPYEAR (tm_year tm) then 29
                       else days_per_month ! nat (tm_mon tm))
                 else 0)
      in if invalid_year \<or> tm_mon tm < 0 \<or> tm_mon tm > 11 \<or> tm_mday tm < 1 \<or> tm_mday tm > dpm
            \<or> tm_hour tm < 0 \<or> tm_hour tm > 23 \<or> tm_min tm < 0 \<or> tm_min tm > 59
            \<or> tm_sec tm < 0 \<or> tm_sec tm > 60
         then None
         else
           (let days = 365 * (year - 1970) + n_leapdays 1970 year;
                days = days + sum_list (take (nat (tm_mon tm)) days_per_month);
                days = (if tm_mon tm > 1 \<and> IS_LEAPYEAR year then days + 1 else days);
                days = days + (tm_mday tm - 1);
                hours = days * 24 + tm_hour tm;
                minutes = hours * 60 + tm_min tm;
                seconds = minutes * 60 + tm_sec tm
            in Some seconds))"

text \<open>\<open>have_timegm\<close> is whether HAVE_TIMEGM is defined.\<close>

definition tor_timegm :: "bool \<Rightarrow> tm \<Rightarrow> int option" where
  "tor_timegm have_timegm tm =
     (if have_timegm
      then (let result = timegm tm in if result = - 1 then None else Some result)
      else tor_timegm_impl tm)"

definition WEEKDAY_NAMES :: "cstring list" where
  "WEEKDAY_NAMES = [''Sun'', ''Mon'', ''Tue'', ''Wed'', ''Thu'', ''Fri'', ''Sat'']"

definition MONTH_NAMES :: "cstring list" where
  "MONTH_NAMES = [''Jan'', ''Feb'', ''Mar'', ''Apr'', ''May'', ''Jun'',
                  ''Jul'', ''Aug'', ''Sep'', ''Oct'', ''Nov'', ''Dec'']"

definition RFC1123_TIME_LEN :: nat where "RFC1123_TIME_LEN = 29"
definition ISO_TIME_LEN :: nat where "ISO_TIME_LEN = 19"
definition ISO_TIME_USEC_LEN :: nat where "ISO_TIME_USEC_LEN = ISO_TIME_LEN + 7"

text \<open>The conversions of strftime that the formats use: two digits, and a year from 1 on.\<close>

definition two_digits :: "int \<Rightarrow> cstring" where
  "two_digits n = [digit_char (nat n div 10), digit_char (nat n mod 10)]"

definition strftime_Y :: "tm \<Rightarrow> cstring" where
  "strftime_Y tm = decimal (nat (tm_year tm + 1900))"

definition strftime_HMS :: "tm \<Rightarrow> cstring" where
  "strftime_HMS tm = two_digits (tm_hour tm) @ '':'' @ two_digits (tm_min tm) @ '':'' @ two_digits (tm_sec tm)"

definition strftime_iso :: "tm \<Rightarrow> cstring" where
  "strftime_iso tm = strftime_Y tm @ ''-'' @ two_digits (tm_mon tm + 1) @ ''-'' @ two_digits (tm_mday tm)
     @ '' '' @ strftime_HMS tm"

text \<open>Overwriting bytes of a string from a position on.\<close>

definition overwrite :: "cstring \<Rightarrow> nat \<Rightarrow> cstring \<Rightarrow> cstring" where
  "overwrite buf pos s = take pos buf @ s @ drop (pos + length s) buf"

definition format_rfc1123_time :: "int \<Rightarrow> cstring option" where
  "format_rfc1123_time t =
     (let tm = tor_gmtime_r t;
          buf = ''___, '' @ two_digits (tm_mday tm) @ '' ___ '' @ strftime_Y tm @ '' ''
                  @ strftime_HMS tm @ '' GMT''
      in if tm_wday tm \<ge> 0 \<and> tm_wday tm \<le> 6 \<and> tm_mon tm \<ge> 0 \<and> tm_mon tm \<le> 11
         then Some (overwrite (overwrite buf 0 (WEEKDAY_NAMES ! nat (tm_wday tm)))
                      8 (MONTH_NAMES ! nat (tm_mon tm)))
         else None)"

definition format_local_iso_time :: "(int \<Rightarrow> tm option) \<Rightarrow> int \<Rightarrow> cstring" where
  "format_local_iso_time localtime_r t = strftime_iso (tor_localtime_r localtime_r t)"

definition format_iso_time :: "int \<Rightarrow> cstring" where
  "format_iso_time t = strftime_iso (tor_gmtime_r t)"

definition format_local_iso_time_nospace :: "(int \<Rightarrow> tm option) \<Rightarrow> int \<Rightarrow> cstring" where
  "format_local_iso_time_nospace localtime_r t = (format_local_iso_time localtime_r t)[10 := CHR ''T'']"

definition format_iso_time_nospace :: "int \<Rightarrow> cstring" where
  "format_iso_time_nospace t = (format_iso_time t)[10 := CHR ''T'']"

text \<open>\<open>tor_vsnprintf\<close> of a text into \<open>size\<close> bytes: what it returns and the string left.\<close>

definition tor_vsnprintf :: "nat \<Rightarrow> cstring \<Rightarrow> int \<times> cstring" where
  "tor_vsnprintf bufsize s =
     (if bufsize = 0 \<or> bufsize > SIZE_T_CEILING then (- 1, [])
      else (if length s \<ge> bufsize then - 1 else int (length s), take (bufsize - 1) s))"

text \<open>Six digits at least, with leading zeros.\<close>

definition six_digits :: "nat \<Rightarrow> cstring" where
  "six_digits n = replicate (6 - length (decimal n)) (CHR ''0'') @ decimal n"

definition format_iso_time_nospace_usec :: "int \<Rightarrow> nat \<Rightarrow> cstring" where
  "format_iso_time_nospace_usec tv_sec tv_usec =
     (let s = format_iso_time_nospace tv_sec
      in if length s < ISO_TIME_LEN then s
         else take ISO_TIME_LEN s @ snd (tor_vsnprintf 8 (''.'' @ six_digits tv_usec)))"

subsection \<open>Parsing\<close>

text \<open>No pattern of this file converts a double.\<close>

definition no_doubles :: "unit double_ops" where
  "no_doubles = \<lparr>d_of_int = (\<lambda>_. ()), d_add = (\<lambda>_ _. ()), d_mul = (\<lambda>_ _. ()),
                 d_div = (\<lambda>_ _. ()), d_neg = (\<lambda>_. ())\<rparr>"

text \<open>The first index of a month name; the loops run over the twelve names.\<close>

fun month_index :: "(cstring \<Rightarrow> bool) \<Rightarrow> cstring list \<Rightarrow> int \<Rightarrow> int" where
  "month_index eq [] i = - 1"
| "month_index eq (m # ms) i = (if eq m then i else month_index eq ms (i + 1))"

definition parse_rfc1123_time :: "bool \<Rightarrow> cstring \<Rightarrow> int option" where
  "parse_rfc1123_time have_timegm buf =
     (if length buf \<noteq> RFC1123_TIME_LEN then None
      else case tor_sscanf no_doubles buf ''%3s, %2u %3s %u %2u:%2u:%2u GMT'' of
        (_, [SString weekday, SUnsigned mday, SString month, SUnsigned year,
             SUnsigned hour, SUnsigned minute, SUnsigned sec]) \<Rightarrow>
          (let m = month_index (\<lambda>name. month = name) MONTH_NAMES 0
           in if m < 0 then None
              else
                (let invalid_year = (year \<ge> INT32_MAX \<or> year < 1970);
                     dpm = (if m = 1 \<and> \<not> invalid_year \<and> IS_LEAPYEAR year then 29
                            else days_per_month ! nat m)
                 in if invalid_year \<or> mday < 1 \<or> mday > dpm \<or> hour > 23 \<or> minute > 59 \<or> sec > 60
                    then None
                    else tor_timegm have_timegm
                      \<lparr>tm_year = year - 1900, tm_mon = m, tm_mday = mday, tm_hour = hour,
                        tm_min = minute, tm_sec = sec, tm_wday = 0, tm_yday = 0\<rparr>))
      | _ \<Rightarrow> None)"

text \<open>The fields of \<open>st_tm\<close> that are not set (tm_yday) are 0 here; no conversion reads them.\<close>

definition iso_to_time :: "bool \<Rightarrow> bool \<Rightarrow> int \<Rightarrow> int \<Rightarrow> int \<Rightarrow> char \<Rightarrow> int \<Rightarrow> int \<Rightarrow> int \<Rightarrow> int option" where
  "iso_to_time have_timegm nospace year month day separator_char hour minute second =
     (if separator_char \<noteq> (if nospace then CHR ''T'' else CHR '' '') then None
      else if year < 1970 \<or> month < 1 \<or> month > 12 \<or> day < 1 \<or> day > 31 \<or> hour > 23
              \<or> minute > 59 \<or> second > 60 \<or> year \<ge> INT32_MAX
      then None
      else tor_timegm have_timegm
             \<lparr>tm_year = year - 1900, tm_mon = month - 1, tm_mday = day, tm_hour = hour,
               tm_min = minute, tm_sec = second, tm_wday = 0, tm_yday = 0\<rparr>)"

definition parse_iso_time_impl :: "bool \<Rightarrow> cstring \<Rightarrow> bool \<Rightarrow> bool \<Rightarrow> int option" where
  "parse_iso_time_impl have_timegm cp strict nospace =
     (let (n_fields, fields) = tor_sscanf no_doubles cp ''%u-%2u-%2u%c%2u:%2u:%2u%c''
      in if (if strict then n_fields \<noteq> 7 else n_fields < 7) then None
         else case fields of
           SUnsigned year # SUnsigned month # SUnsigned day # SChar separator_char
             # SUnsigned hour # SUnsigned minute # SUnsigned second # _ \<Rightarrow>
             iso_to_time have_timegm nospace year month day separator_char hour minute second
         | _ \<Rightarrow> None)"

definition parse_iso_time :: "bool \<Rightarrow> cstring \<Rightarrow> int option" where
  "parse_iso_time have_timegm cp = parse_iso_time_impl have_timegm cp True False"

definition parse_iso_time_nospace :: "bool \<Rightarrow> cstring \<Rightarrow> int option" where
  "parse_iso_time_nospace have_timegm cp = parse_iso_time_impl have_timegm cp True True"

text \<open>
  \<open>parse_http_time\<close>: the date in one of the formats as its fields, the year as the
  32-bit \<open>unsigned\<close> it is, then the checks.
\<close>

definition sub_unsigned :: "int \<Rightarrow> int \<Rightarrow> int" where
  "sub_unsigned a b = (a - b) mod (UINT_MAX + 1)"

definition int_of_unsigned :: "int \<Rightarrow> int" where
  "int_of_unsigned u = (if u > INT_MAX then u - (UINT_MAX + 1) else u)"

definition http_fields :: "cstring \<Rightarrow> (int \<times> cstring \<times> int \<times> int \<times> int \<times> int) option" where
  "http_fields date =
     (case dropWhile (\<lambda>c. c \<noteq> CHR '','') date of
        _ # cp \<Rightarrow>
          (if cur cp \<noteq> CHR '' '' then None
           else case tor_sscanf no_doubles (tl cp) ''%2u %3s %4u %2u:%2u:%2u GMT'' of
             (_, [SUnsigned mday, SString month, SUnsigned year, SUnsigned hour, SUnsigned minute, SUnsigned sec]) \<Rightarrow>
               Some (mday, month, sub_unsigned year 1900, hour, minute, sec)
           | _ \<Rightarrow>
             (case tor_sscanf no_doubles (tl cp) ''%2u-%3s-%2u %2u:%2u:%2u GMT'' of
                (_, [SUnsigned mday, SString month, SUnsigned year, SUnsigned hour, SUnsigned minute, SUnsigned sec]) \<Rightarrow>
                  Some (mday, month, year, hour, minute, sec)
              | _ \<Rightarrow> None))
      | [] \<Rightarrow>
          (case tor_sscanf no_doubles date ''%3s %3s %2u %2u:%2u:%2u %4u'' of
             (_, [SString wkday, SString month, SUnsigned mday, SUnsigned hour, SUnsigned minute, SUnsigned sec, SUnsigned year]) \<Rightarrow>
               Some (mday, month, sub_unsigned year 1900, hour, minute, sec)
           | _ \<Rightarrow> None))"

text \<open>This loop over the names goes on after a match, so the last one counts.\<close>

definition last_month_index :: "cstring \<Rightarrow> int" where
  "last_month_index month =
     foldl (\<lambda>m i. if strcasecmp (MONTH_NAMES ! i) month = 0 then int i else m) (- 1) [0..<12]"

definition parse_http_time :: "cstring \<Rightarrow> tm option" where
  "parse_http_time date =
     (case http_fields date of
        None \<Rightarrow> None
      | Some (mday, month, year, hour, minute, sec) \<Rightarrow>
          (let tm = \<lparr>tm_year = int_of_unsigned year, tm_mon = last_month_index month,
                     tm_mday = int_of_unsigned mday, tm_hour = int_of_unsigned hour,
                     tm_min = int_of_unsigned minute, tm_sec = int_of_unsigned sec,
                     tm_wday = 0, tm_yday = 0\<rparr>
           in if tm_year tm < 0 \<or> tm_mon tm < 0 \<or> tm_mon tm > 11 \<or> tm_mday tm < 1 \<or> tm_mday tm > 31
                 \<or> tm_hour tm < 0 \<or> tm_hour tm > 23 \<or> tm_min tm < 0 \<or> tm_min tm > 59
                 \<or> tm_sec tm < 0 \<or> tm_sec tm > 60
              then None else Some tm))"

definition format_time_interval :: "nat \<Rightarrow> int \<Rightarrow> int \<times> cstring" where
  "format_time_interval out_len interval =
     (let interval = (if interval < - LONG_MAX then LONG_MAX
                      else if interval < 0 then - interval else interval);
          (day, interval) = (if interval \<ge> 86400 then (interval div 86400, interval mod 86400) else (0, interval));
          (hour, interval) = (if interval \<ge> 3600 then (interval div 3600, interval mod 3600) else (0, interval));
          (minute, interval) = (if interval \<ge> 60 then (interval div 60, interval mod 60) else (0, interval));
          sec = interval;
          num = (\<lambda>n. decimal (nat n))
      in tor_vsnprintf out_len
           (if day \<noteq> 0 then num day @ '' days, '' @ num hour @ '' hours, '' @ num minute @ '' minutes''
            else if hour \<noteq> 0 then num hour @ '' hours, '' @ num minute @ '' minutes''
            else if minute \<noteq> 0 then num minute @ '' minutes, '' @ num sec @ '' seconds''
            else num sec @ '' seconds''))"

end
