(* ===== verification/Time_Fmt_Props.thy ===== *)
theory Time_Fmt_Props
  imports Time_Fmt
begin

text \<open>
  The dates of time_fmt.c: the home-made timegm against the calendar of the C library, and the
  round trips of the text formats.
\<close>

subsection \<open>The calendar\<close>

lemma div_pred:
  assumes "0 < (k::int)"
  shows "y div k = (y - 1) div k + of_bool (k dvd y)"
proof -
  define q where "q = y div k"
  define r where "r = y mod k"
  have y: "y = k * q + r" and r: "0 \<le> r" "r < k"
    using assms by (simp_all add: q_def r_def)
  show ?thesis
  proof (cases "r = 0")
    case True
    have "(y - 1) div k = q - 1"
      by (rule int_div_pos_eq [where r = "k - 1"]) (use y True assms in \<open>auto simp: algebra_simps\<close>)
    with True show ?thesis by (simp add: q_def r_def dvd_eq_mod_eq_0)
  next
    case False
    have "(y - 1) div k = q"
      by (rule int_div_pos_eq [where r = "r - 1"]) (use y r False in auto)
    with False show ?thesis by (simp add: q_def r_def dvd_eq_mod_eq_0)
  qed
qed

lemma leap_step:
  fixes y :: int
  assumes "c \<longrightarrow> b" "b \<longrightarrow> a" "q4 = p4 + of_bool a" "q100 = p100 + of_bool b" "q400 = p400 + of_bool c"
  shows "365 * (y + 1 - 1970) + (q4 - 492) - (q100 - 19) + (q400 - 4) =
    365 * (y - 1970) + (p4 - 492) - (p100 - 19) + (p400 - 4) + (if a \<and> (\<not> b \<or> c) then 366 else 365)"
  using assms by (cases a; cases b; cases c) simp_all

lemma days_to_year_Suc: "days_to_year (y + 1) = days_to_year y + year_days y"
  unfolding days_to_year_def year_days_def leap_year_def add_diff_cancel_right'
  by (rule leap_step [OF _ _ div_pred div_pred div_pred])
    (use dvd_trans [of 4 100 y] dvd_trans [of 100 400 y] in simp_all)

lemma year_days_pos: "0 < year_days y" "year_days y \<le> 366"
  by (simp_all add: year_days_def)

lemma days_to_year_mono: "y \<le> z \<Longrightarrow> days_to_year y \<le> days_to_year z"
proof (induction z rule: int_ge_induct)
  case (step i)
  then show ?case using days_to_year_Suc [of i] year_days_pos(1) [of i] by linarith
qed simp

lemma civil_year_spec:
  "civil_year y d = (y', r) \<Longrightarrow> 0 \<le> r \<and> r < year_days y' \<and> days_to_year y' + r = days_to_year y + d"
proof (induction y d rule: civil_year.induct)
  case (1 y d)
  consider "d < 0" | "0 \<le> d" "d < year_days y" | "0 \<le> d" "year_days y \<le> d" by linarith
  then show ?case
  proof cases
    case 1
    with "1.prems" "1.IH"(1) days_to_year_Suc [of "y - 1"] show ?thesis
      by (simp add: civil_year.simps [of y d])
  next
    case 2
    with "1.prems" show ?thesis by (simp add: civil_year.simps [of y d])
  next
    case 3
    with "1.prems" "1.IH"(2) days_to_year_Suc [of y] show ?thesis
      by (simp add: civil_year.simps [of y d])
  qed
qed

lemma civil_month_spec:
  "0 \<le> d \<Longrightarrow> d < sum_list ms \<Longrightarrow> civil_month ms d = (i, r) \<Longrightarrow>
   0 \<le> i \<and> nat i < length ms \<and> 0 \<le> r \<and> r < ms ! nat i \<and> d = sum_list (take (nat i) ms) + r"
proof (induction ms arbitrary: d i)
  case (Cons m ms)
  show ?case
  proof (cases "d < m")
    case True
    with Cons.prems show ?thesis by auto
  next
    case False
    then obtain j where j: "civil_month ms (d - m) = (j, r)" "i = j + 1"
      using Cons.prems(3) by (auto split: prod.splits)
    then have "0 \<le> j \<and> nat j < length ms \<and> 0 \<le> r \<and> r < ms ! nat j \<and> d - m = sum_list (take (nat j) ms) + r"
      using Cons.IH [of "d - m" j] Cons.prems False by simp
    then show ?thesis using j(2) by (auto simp: nat_add_distrib)
  qed
qed simp

lemma sum_month_lengths: "sum_list (month_lengths y) = year_days y"
  by (simp add: month_lengths_def year_days_def)

lemma month_length_bounds: "i < 12 \<Longrightarrow> 28 \<le> month_lengths y ! i \<and> month_lengths y ! i \<le> 31"
  by (auto simp: month_lengths_def less_Suc_eq numeral_eq_Suc)

lemma time_of_day:
  assumes "0 \<le> (s::int)" "s < 86400"
  shows "0 \<le> s div 3600" "s div 3600 \<le> 23" "0 \<le> s div 60 mod 60" "s div 60 mod 60 \<le> 59"
    "0 \<le> s mod 60" "s mod 60 \<le> 59" "s div 3600 * 3600 + s div 60 mod 60 * 60 + s mod 60 = s"
proof -
  define q where "q = s div 60"
  have q: "s div 3600 = q div 60" using zdiv_zmult2_eq [of 60 s 60] by (simp add: q_def)
  have "0 \<le> q" "q < 1440" using assms by (simp_all add: q_def pos_imp_zdiv_nonneg_iff)
  then show "0 \<le> s div 3600" "s div 3600 \<le> 23" by (simp_all add: q pos_imp_zdiv_nonneg_iff)
  show "0 \<le> s div 60 mod 60" "0 \<le> s mod 60" by simp_all
  show "s div 60 mod 60 \<le> 59" "s mod 60 \<le> 59"
    using pos_mod_bound [of 60 "s div 60"] pos_mod_bound [of 60 s] by linarith+
  show "s div 3600 * 3600 + s div 60 mod 60 * 60 + s mod 60 = s"
    unfolding q using div_mult_mod_eq [of s 60] div_mult_mod_eq [of q 60] unfolding q_def by linarith
qed

lemma mod_7: "(n::int) mod 7 \<le> 6"
  using pos_mod_bound [of 7 n] by linarith

text \<open>The fields gmtime fills in, with \<open>y\<close> the year.\<close>

lemma gmtime_fields:
  fixes t :: int
  defines "y \<equiv> tm_year (gmtime t) + 1900" and "m \<equiv> nat (tm_mon (gmtime t))"
  shows "0 \<le> tm_mon (gmtime t)" "m < 12"
    and "1 \<le> tm_mday (gmtime t)" "tm_mday (gmtime t) \<le> month_lengths y ! m"
    and "0 \<le> tm_hour (gmtime t)" "tm_hour (gmtime t) \<le> 23"
    and "0 \<le> tm_min (gmtime t)" "tm_min (gmtime t) \<le> 59"
    and "0 \<le> tm_sec (gmtime t)" "tm_sec (gmtime t) \<le> 59"
    and "0 \<le> tm_wday (gmtime t)" "tm_wday (gmtime t) \<le> 6"
    and "tm_hour (gmtime t) * 3600 + tm_min (gmtime t) * 60 + tm_sec (gmtime t) = t mod 86400"
    and "days_to_year y + sum_list (take m (month_lengths y)) + tm_mday (gmtime t) - 1 = t div 86400"
    and "days_to_year y \<le> t div 86400" "t div 86400 < days_to_year (y + 1)"
proof -
  obtain y' yd where cy: "civil_year 1970 (t div 86400) = (y', yd)" by fastforce
  obtain mon md where cm: "civil_month (month_lengths y') yd = (mon, md)" by fastforce
  have fields: "y = y'" "tm_mon (gmtime t) = mon" "tm_mday (gmtime t) = md + 1"
    "tm_hour (gmtime t) = t mod 86400 div 3600" "tm_min (gmtime t) = t mod 86400 div 60 mod 60"
    "tm_sec (gmtime t) = t mod 86400 mod 60" "tm_wday (gmtime t) = (4 + t div 86400) mod 7"
    by (simp_all add: y_def gmtime_def cy cm Let_def)
  have d1970: "days_to_year 1970 = 0" by (simp add: days_to_year_def)
  have yd: "0 \<le> yd" "yd < year_days y'" "days_to_year y' + yd = t div 86400"
    using civil_year_spec [OF cy] d1970 by auto
  have md: "0 \<le> mon" "nat mon < 12" "0 \<le> md" "md < month_lengths y' ! nat mon"
      "yd = sum_list (take (nat mon) (month_lengths y')) + md"
    using civil_month_spec [OF yd(1) _ cm] yd(2) by (simp_all add: sum_month_lengths, simp_all add: month_lengths_def)
  show "0 \<le> tm_mon (gmtime t)" "m < 12" "1 \<le> tm_mday (gmtime t)"
      "tm_mday (gmtime t) \<le> month_lengths y ! m"
    using md by (simp_all add: fields m_def)
  show "days_to_year y + sum_list (take m (month_lengths y)) + tm_mday (gmtime t) - 1 = t div 86400"
    using md yd by (simp add: fields m_def)
  show "days_to_year y \<le> t div 86400" "t div 86400 < days_to_year (y + 1)"
    using yd by (simp_all add: fields days_to_year_Suc)
  have s: "0 \<le> t mod 86400" "t mod 86400 < 86400" by simp_all
  note tod = time_of_day [OF s]
  show "0 \<le> tm_hour (gmtime t)" "tm_hour (gmtime t) \<le> 23" "0 \<le> tm_min (gmtime t)" "tm_min (gmtime t) \<le> 59"
      "0 \<le> tm_sec (gmtime t)" "tm_sec (gmtime t) \<le> 59"
      "tm_hour (gmtime t) * 3600 + tm_min (gmtime t) * 60 + tm_sec (gmtime t) = t mod 86400"
    unfolding fields by (rule tod)+
  show "0 \<le> tm_wday (gmtime t)" "tm_wday (gmtime t) \<le> 6"
    unfolding fields by (simp, rule mod_7)
qed

lemma join_time:
  "h * 3600 + m * 60 + x = s \<Longrightarrow> d * 86400 + s = t \<Longrightarrow> ((d * 24 + h) * 60 + m) * 60 + x = (t::int)"
  by (simp add: algebra_simps)

lemma timegm_gmtime: "timegm (gmtime t) = t"
proof -
  let ?g = "gmtime t"
  have m: "tm_mon ?g div 12 = 0" "tm_mon ?g mod 12 = tm_mon ?g"
    using gmtime_fields(1,2) [of t] by (simp_all add: div_pos_pos_trivial)
  have "1900 + tm_year ?g = tm_year ?g + 1900" by simp
  then show ?thesis
    unfolding timegm_def Let_def m
    using gmtime_fields(13,14) [of t] div_mult_mod_eq [of t 86400]
    by (simp only: add.commute [of 1900] add_0_right) (rule join_time)
qed

subsection \<open>The home-made timegm\<close>

lemma sdiv_nonneg: "0 \<le> (a::int) \<Longrightarrow> 0 < k \<Longrightarrow> a sdiv k = a div k"
  by (cases "a = 0") (simp_all add: signed_divide_int_def)

lemma smod_nonneg: "0 \<le> (a::int) \<Longrightarrow> 0 < k \<Longrightarrow> a smod k = a mod k"
  by (cases "a = 0") (simp_all add: signed_modulo_int_def)

lemma IS_LEAPYEAR_leap_year: "0 \<le> y \<Longrightarrow> IS_LEAPYEAR y \<longleftrightarrow> leap_year y"
  by (simp add: IS_LEAPYEAR_def leap_year_def smod_nonneg dvd_eq_mod_eq_0)

lemma n_leapdays_1970:
  "1970 \<le> y \<Longrightarrow> 365 * (y - 1970) + n_leapdays 1970 y = days_to_year y"
  by (simp add: n_leapdays_def days_to_year_def sdiv_nonneg Let_def)

lemma month_days_sum:
  assumes "m < 12"
  shows "sum_list (take m (month_lengths y)) = sum_list (take m days_per_month) + of_bool (1 < m \<and> leap_year y)"
proof -
  have "list_all (\<lambda>m. sum_list (take m (month_lengths y)) =
      sum_list (take m days_per_month) + of_bool (1 < m \<and> leap_year y)) [0..<12]"
    by (simp add: upt_rec month_lengths_def days_per_month_def)
  then show ?thesis using assms by (simp add: list_all_iff)
qed

text \<open>What the guard of \<open>tor_timegm_impl\<close> lets through.\<close>

definition timegm_impl_accepts :: "tm \<Rightarrow> bool" where
  "timegm_impl_accepts tm \<longleftrightarrow>
     70 \<le> tm_year tm \<and> tm_year tm < INT32_MAX - 1900 \<and> 0 \<le> tm_mon tm \<and> tm_mon tm \<le> 11
     \<and> 1 \<le> tm_mday tm
     \<and> tm_mday tm \<le> (if tm_mon tm = 1 \<and> leap_year (tm_year tm) then 29 else days_per_month ! nat (tm_mon tm))
     \<and> 0 \<le> tm_hour tm \<and> tm_hour tm \<le> 23 \<and> 0 \<le> tm_min tm \<and> tm_min tm \<le> 59
     \<and> 0 \<le> tm_sec tm \<and> tm_sec tm \<le> 60"

lemma tor_timegm_impl_eq:
  "tor_timegm_impl tm = (if timegm_impl_accepts tm then Some (timegm tm) else None)"
proof (cases "timegm_impl_accepts tm")
  case True
  then have r: "70 \<le> tm_year tm" "tm_year tm < INT32_MAX - 1900" "0 \<le> tm_mon tm" "tm_mon tm \<le> 11"
    by (simp_all add: timegm_impl_accepts_def)
  have m: "tm_mon tm div 12 = 0" "tm_mon tm mod 12 = tm_mon tm"
    using r by (simp_all add: div_pos_pos_trivial)
  have days: "365 * (tm_year tm + 1900 - 1970) + n_leapdays 1970 (tm_year tm + 1900) = days_to_year (1900 + tm_year tm)"
    using n_leapdays_1970 [of "tm_year tm + 1900"] r by (simp add: add.commute)
  have "nat (tm_mon tm) < 12" using r by simp
  then have sum: "sum_list (take (nat (tm_mon tm)) (month_lengths (1900 + tm_year tm))) =
      sum_list (take (nat (tm_mon tm)) days_per_month) + of_bool (1 < tm_mon tm \<and> IS_LEAPYEAR (tm_year tm + 1900))"
    using r by (simp add: month_days_sum IS_LEAPYEAR_leap_year add.commute)
  have "tor_timegm_impl tm = Some (timegm tm)"
    using True r unfolding tor_timegm_impl_def timegm_def Let_def m timegm_impl_accepts_def
    by (auto simp: IS_LEAPYEAR_leap_year days [symmetric] sum split: if_splits)
  with True show ?thesis by simp
next
  case False
  then show ?thesis
    unfolding tor_timegm_impl_def timegm_impl_accepts_def Let_def
    by (auto simp: IS_LEAPYEAR_leap_year split: if_splits)
qed

text \<open>The leap days on which the code and the calendar differ.\<close>

lemma leap_year_1900: "leap_year (y - 1900) \<longleftrightarrow> 4 dvd y \<and> (\<not> 100 dvd y \<or> y mod 400 = 300)"
proof -
  have "4 dvd y - 1900 \<longleftrightarrow> 4 dvd y" "100 dvd y - 1900 \<longleftrightarrow> 100 dvd y"
    "400 dvd y - 1900 \<longleftrightarrow> y mod 400 = 300"
    using mod_eq_dvd_iff [of y 4 1900] mod_eq_dvd_iff [of y 100 1900] mod_eq_dvd_iff [of y 400 1900]
    by (simp_all add: dvd_eq_mod_eq_0)
  moreover have "100 dvd y" if "y mod 400 = 300"
    using that div_mult_mod_eq [of y 400] by (intro dvdI [of _ _ "4 * (y div 400) + 3"]) simp
  ultimately show ?thesis by (auto simp: leap_year_def)
qed

definition skipped_leap_day :: "tm \<Rightarrow> bool" where
  "skipped_leap_day tm \<longleftrightarrow> tm_mon tm = 1 \<and> tm_mday tm = 29 \<and> 400 dvd tm_year tm + 1900"

lemma gmtime_year_70: "70 \<le> tm_year (gmtime t) \<longleftrightarrow> 0 \<le> t"
proof -
  let ?y = "tm_year (gmtime t) + 1900"
  have d: "days_to_year 1970 = 0" by (simp add: days_to_year_def)
  have "0 \<le> t \<longleftrightarrow> 0 \<le> t div 86400" by (simp add: pos_imp_zdiv_nonneg_iff)
  moreover have "1970 \<le> ?y" if "0 \<le> t div 86400"
    using gmtime_fields(16) [of t] days_to_year_mono [of "?y + 1" 1970] d that by linarith
  moreover have "0 \<le> t div 86400" if "1970 \<le> ?y"
    using gmtime_fields(15) [of t] days_to_year_mono [of 1970 ?y] d that by linarith
  ultimately show ?thesis by linarith
qed

lemma gmtime_year_8099:
  assumes "t \<le> 253402300799"
  shows "tm_year (gmtime t) \<le> 8099"
proof (rule ccontr)
  let ?y = "tm_year (gmtime t) + 1900"
  assume "\<not> tm_year (gmtime t) \<le> 8099"
  then have "10000 \<le> ?y" by simp
  then have "days_to_year 10000 \<le> t div 86400"
    using gmtime_fields(15) [of t] days_to_year_mono [of 10000 ?y] by linarith
  moreover have "t div 86400 \<le> 253402300799 div 86400"
    using assms by (intro zdiv_mono1) auto
  ultimately show False by (simp add: days_to_year_def)
qed

lemma days_per_month_lengths:
  assumes "m < 12"
  shows "month_lengths y ! m = (if m = 1 \<and> leap_year y then 29 else days_per_month ! m)"
proof -
  have "list_all (\<lambda>m. month_lengths y ! m = (if m = 1 \<and> leap_year y then 29 else days_per_month ! m)) [0..<12]"
    by (simp add: upt_rec month_lengths_def days_per_month_def)
  then show ?thesis using assms by (simp add: list_all_iff)
qed

lemma accepts_gmtime:
  assumes "0 \<le> t" "tm_year (gmtime t) < INT32_MAX - 1900"
  shows "timegm_impl_accepts (gmtime t) \<longleftrightarrow> \<not> skipped_leap_day (gmtime t)"
proof -
  let ?g = "gmtime t" and ?y = "tm_year (gmtime t) + 1900"
  let ?m = "nat (tm_mon ?g)"
  note f = gmtime_fields [of t]
  have m1: "tm_mon ?g = 1 \<longleftrightarrow> ?m = 1" using f(1) by auto
  have len: "tm_mday ?g \<le> (if ?m = 1 \<and> leap_year ?y then 29 else days_per_month ! ?m)"
    using f(2,4) by (simp add: days_per_month_lengths)
  have acc: "timegm_impl_accepts ?g \<longleftrightarrow>
      tm_mday ?g \<le> (if ?m = 1 \<and> leap_year (tm_year ?g) then 29 else days_per_month ! ?m)"
    using assms f gmtime_year_70 [of t] unfolding timegm_impl_accepts_def m1 by (auto simp: nat_less_iff)
  show ?thesis
  proof (cases "?m = 1")
    case False
    with len show ?thesis unfolding acc skipped_leap_day_def m1 by simp
  next
    case True
    have feb: "days_per_month ! ?m = 28" by (simp add: True days_per_month_def)
    have "leap_year (tm_year ?g) \<longleftrightarrow> 4 dvd ?y \<and> (\<not> 100 dvd ?y \<or> ?y mod 400 = 300)"
      using leap_year_1900 [of ?y] by simp
    moreover have "100 dvd ?y" "4 dvd ?y" if "400 dvd ?y"
      using that dvd_trans [of 100 400 ?y] dvd_trans [of 4 400 ?y] by simp_all
    moreover have "?y mod 400 \<noteq> 300" if "400 dvd ?y" using that by (simp add: dvd_eq_mod_eq_0)
    ultimately show ?thesis
      using len True unfolding acc skipped_leap_day_def m1 feb leap_year_def
      by (auto split: if_splits)
  qed
qed

text \<open>C20: The home-made timegm of time_fmt.c undoes gmtime on every time from 1970 on whose year
  fits, except on the leap days of the years divisible by 400, such as 29 February 2000, which it
  refuses because it asks whether the years since 1900 are a leap year.  Where it accepts a date it
  agrees with the timegm of the C library.\<close>

theorem timegm_impl_inverse:
  assumes "0 \<le> t" "tm_year (gmtime t) < INT32_MAX - 1900"
  shows "tor_timegm_impl (gmtime t) = (if skipped_leap_day (gmtime t) then None else Some t)
    \<and> (\<forall>tm s. tor_timegm_impl tm = Some s \<longrightarrow> timegm tm = s)"
  using assms by (auto simp: tor_timegm_impl_eq accepts_gmtime timegm_gmtime split: if_splits)

text \<open>29 February and 1 March 2000.\<close>

lemma gmtime_2000:
  "gmtime 951782400 = \<lparr>tm_year = 100, tm_mon = 1, tm_mday = 29, tm_hour = 0, tm_min = 0, tm_sec = 0,
     tm_wday = 2, tm_yday = 59\<rparr>"
  "gmtime 951868800 = \<lparr>tm_year = 100, tm_mon = 2, tm_mday = 1, tm_hour = 0, tm_min = 0, tm_sec = 0,
     tm_wday = 3, tm_yday = 60\<rparr>"
  by code_simp+

theorem timegm_impl_inverse_witness:
  "tor_timegm_impl (gmtime 951782400) = None \<and> tor_timegm_impl (gmtime 951868800) = Some 951868800"
  using timegm_impl_inverse [of 951782400] timegm_impl_inverse [of 951868800]
  by (simp add: gmtime_2000 skipped_leap_day_def INT32_MAX_def)

subsection \<open>The text formats\<close>

lemma digits_two: "0 \<le> n \<Longrightarrow> n < 100 \<Longrightarrow> digits_value 10 (two_digits n) = nat n"
proof -
  assume "0 \<le> n" "n < 100"
  then have "nat n div 10 < 10" by simp
  then show ?thesis
    by (simp add: two_digits_def digits_value_def digit_val_digit_char)
qed

lemma scan_two_digits:
  assumes "0 \<le> n" "n < 100"
  shows "scan_unsigned (two_digits n @ rest) 2 10 = Some (n, rest)"
proof -
  have "nat n div 10 < 10" using assms by simp
  then have "c \<in> set (two_digits n) \<Longrightarrow> TOR_ISDIGIT c" for c
    by (auto simp: two_digits_def)
  then show ?thesis
    using scan_unsigned_digits [of "two_digits n" 2 rest] assms
    by (simp add: digits_two [OF assms] ULONG_MAX_def) (simp add: two_digits_def)
qed

text \<open>The pattern, one piece at a time.\<close>

lemma sscanf_literal:
  "p \<noteq> CHR ''%'' \<Longrightarrow> vsscanf_loop ops (p # buf) (p # pat) outs n = vsscanf_loop ops buf pat outs n"
  by simp

lemma sscanf_u:
  assumes "scan_unsigned buf (- 1) 10 = Some (v, rest)" "buf \<noteq> []" "v \<le> UINT_MAX"
  shows "vsscanf_loop ops buf (CHR ''%'' # CHR ''u'' # pat) outs n =
    vsscanf_loop ops rest pat (outs @ [SUnsigned v]) (n + 1)"
  using assms
  by (simp add: scan_width_def after_longmod_def convert_directive_def convert_with_def
      TOR_ISDIGIT_iff byte_between_def)

lemma sscanf_2u:
  assumes "scan_unsigned buf 2 10 = Some (v, rest)" "buf \<noteq> []" "v \<le> UINT_MAX"
  shows "vsscanf_loop ops buf (CHR ''%'' # CHR ''2'' # CHR ''u'' # pat) outs n =
    vsscanf_loop ops rest pat (outs @ [SUnsigned v]) (n + 1)"
  using assms
  by (simp add: scan_width_def after_longmod_def convert_directive_def convert_with_def digit_to_num_def
      TOR_ISDIGIT_iff byte_between_def)

lemma sscanf_two_digits:
  assumes "0 \<le> v" "v < 100"
  shows "vsscanf_loop ops (two_digits v @ rest) (CHR ''%'' # CHR ''2'' # CHR ''u'' # pat) outs n =
    vsscanf_loop ops rest pat (outs @ [SUnsigned v]) (n + 1)"
  using assms by (intro sscanf_2u scan_two_digits) (auto simp: two_digits_def UINT_MAX_def)

lemma sscanf_decimal:
  assumes "v \<le> 4294967295" "rest = [] \<or> \<not> TOR_ISDIGIT (hd rest)"
  shows "vsscanf_loop ops (decimal v @ rest) (CHR ''%'' # CHR ''u'' # pat) outs n =
    vsscanf_loop ops rest pat (outs @ [SUnsigned (int v)]) (n + 1)"
  using assms by (intro sscanf_u scan_unsigned_decimal) (auto simp: UINT_MAX_def)

lemma sscanf_char:
  "vsscanf_loop ops (c # buf) (CHR ''%'' # CHR ''c'' # pat) outs n = vsscanf_loop ops buf pat (outs @ [SChar c]) (n + 1)"
  by (simp add: scan_width_def after_longmod_def convert_directive_def TOR_ISDIGIT_iff byte_between_def)

lemma sscanf_end:
  "vsscanf_loop ops [] (CHR ''%'' # CHR ''c'' # pat) outs n = (n, outs)"
  by (simp add: scan_width_def after_longmod_def convert_directive_def TOR_ISDIGIT_iff byte_between_def)

lemma scan_string_3:
  "\<not> TOR_ISSPACE a \<Longrightarrow> \<not> TOR_ISSPACE b \<Longrightarrow> \<not> TOR_ISSPACE c \<Longrightarrow>
   scan_string (a # b # c # buf) 3 = Some ([a, b, c], buf)"
  by (cases buf) (simp_all add: scan_string_def)

lemma sscanf_3s:
  assumes "\<not> TOR_ISSPACE a" "\<not> TOR_ISSPACE b" "\<not> TOR_ISSPACE c"
  shows "vsscanf_loop ops (a # b # c # buf) (CHR ''%'' # CHR ''3'' # CHR ''s'' # pat) outs n =
    vsscanf_loop ops buf pat (outs @ [SString [a, b, c]]) (n + 1)"
  using scan_string_3 [OF assms, of buf]
  by (simp add: scan_width_def after_longmod_def convert_directive_def convert_with_def digit_to_num_def
      TOR_ISDIGIT_iff byte_between_def)

lemmas sscanf_steps = sscanf_literal sscanf_two_digits sscanf_decimal sscanf_char sscanf_end sscanf_3s

lemma separators [simp]:
  "\<not> TOR_ISDIGIT (CHR ''-'')" "\<not> TOR_ISDIGIT (CHR '' '')" "\<not> TOR_ISDIGIT (CHR '':'')"
  by (simp_all add: TOR_ISDIGIT_iff byte_between_def)

text \<open>Times a \<open>struct tm\<close> can hold in two digits each.\<close>

definition two_digit_fields :: "tm \<Rightarrow> bool" where
  "two_digit_fields tm \<longleftrightarrow> 0 \<le> tm_mon tm \<and> tm_mon tm < 12 \<and> 0 \<le> tm_mday tm \<and> tm_mday tm < 100
     \<and> 0 \<le> tm_hour tm \<and> tm_hour tm < 100 \<and> 0 \<le> tm_min tm \<and> tm_min tm < 100
     \<and> 0 \<le> tm_sec tm \<and> tm_sec tm < 100"

lemma sscanf_iso:
  assumes "y \<le> 4294967295" "0 \<le> mo" "mo < 100" "0 \<le> d" "d < 100" "0 \<le> h" "h < 100"
    "0 \<le> mi" "mi < 100" "0 \<le> se" "se < 100"
  shows "tor_sscanf ops (decimal y @ ''-'' @ two_digits mo @ ''-'' @ two_digits d @ [c]
      @ two_digits h @ '':'' @ two_digits mi @ '':'' @ two_digits se) ''%u-%2u-%2u%c%2u:%2u:%2u%c''
    = (7, [SUnsigned (int y), SUnsigned mo, SUnsigned d, SChar c, SUnsigned h, SUnsigned mi, SUnsigned se])"
  using sscanf_two_digits [OF assms(10,11), of ops "[]"]
  by (simp add: tor_sscanf_def sscanf_steps assms del: vsscanf_loop.simps)

lemma two_digit_gmtime: "two_digit_fields (gmtime t)"
proof -
  have "nat (tm_mon (gmtime t)) < 12" by (rule gmtime_fields)
  moreover have "tm_mday (gmtime t) \<le> 31"
    using gmtime_fields(4) [of t] month_length_bounds [OF gmtime_fields(2) [of t]] by (meson order_trans)
  ultimately show ?thesis
    using gmtime_fields [of t] by (simp add: two_digit_fields_def)
qed

lemma tor_gmtime_r_gmtime:
  "- 1899 \<le> tm_year (gmtime t) \<Longrightarrow> tm_year (gmtime t) \<le> 8099 \<Longrightarrow> tor_gmtime_r t = gmtime t"
  by (simp add: tor_gmtime_r_def tor_gmtime_r_msg_def correct_tm_def gmtime_r_def INT_MIN_def INT_MAX_def Let_def)

text \<open>Only the fields that timegm reads matter.\<close>

lemma tor_timegm_fields:
  assumes "0 \<le> t" "t \<le> 253402300799" "have_timegm \<or> \<not> skipped_leap_day (gmtime t)"
  defines "g \<equiv> gmtime t"
  shows "tor_timegm have_timegm \<lparr>tm_year = tm_year g, tm_mon = tm_mon g, tm_mday = tm_mday g,
     tm_hour = tm_hour g, tm_min = tm_min g, tm_sec = tm_sec g, tm_wday = 0, tm_yday = 0\<rparr> = Some t"
    (is "tor_timegm _ ?tm = _")
proof -
  have t: "timegm ?tm = timegm g" by (simp add: timegm_def)
  have a: "timegm_impl_accepts ?tm = timegm_impl_accepts g" by (simp add: timegm_impl_accepts_def)
  have "tm_year g < INT32_MAX - 1900"
    using gmtime_year_8099 [OF assms(2)] by (simp add: g_def INT32_MAX_def)
  then have "\<not> skipped_leap_day g \<Longrightarrow> timegm_impl_accepts g"
    using accepts_gmtime [OF assms(1)] by (simp add: g_def)
  then show ?thesis
    using assms(1-3) timegm_gmtime [of t] unfolding g_def [symmetric] tor_timegm_def tor_timegm_impl_eq t a Let_def
    by (auto split: if_splits)
qed

lemma iso_to_time_gmtime:
  assumes "0 \<le> t" "t \<le> 253402300799" "have_timegm \<or> \<not> skipped_leap_day (gmtime t)"
  defines "g \<equiv> gmtime t"
  shows "iso_to_time have_timegm nospace (tm_year g + 1900) (tm_mon g + 1) (tm_mday g)
     (if nospace then CHR ''T'' else CHR '' '') (tm_hour g) (tm_min g) (tm_sec g) = Some t"
proof -
  have y: "70 \<le> tm_year g" "tm_year g \<le> 8099"
    using gmtime_year_70 [of t] gmtime_year_8099 [OF assms(2)] assms(1) by (simp_all add: g_def)
  have d: "tm_mday g \<le> 31"
    using gmtime_fields(4) [of t] month_length_bounds [OF gmtime_fields(2) [of t]]
    unfolding g_def by (meson order_trans)
  have m: "0 \<le> tm_mon g" "nat (tm_mon g) < 12" unfolding g_def by (rule gmtime_fields)+
  then have "tm_mon g \<le> 11" by linarith
  with m y d show ?thesis
    using gmtime_fields(3,6,8,10) [of t] tor_timegm_fields [OF assms(1-3)] unfolding g_def [symmetric]
    by (simp add: iso_to_time_def INT32_MAX_def)
qed

lemma length_year:
  assumes "0 \<le> t" "t \<le> 253402300799"
  shows "length (strftime_Y (gmtime t)) = 4"
proof -
  let ?y = "nat (tm_year (gmtime t) + 1900)"
  have "1000 \<le> ?y" "?y < 10000"
    using gmtime_year_70 [of t] gmtime_year_8099 [OF assms(2)] assms(1) by simp_all
  have step: "length (decimal n) = Suc (length (decimal (n div 10)))" if "10 \<le> n" for n
    using that by (simp add: decimal.simps [of n])
  have "100 \<le> ?y div 10" "?y div 10 < 1000"
    using div_le_mono [OF \<open>1000 \<le> ?y\<close>, of 10] \<open>?y < 10000\<close> by (simp_all add: less_mult_imp_div_less)
  moreover from this have "10 \<le> ?y div 10 div 10" "?y div 10 div 10 < 100"
    using div_le_mono [of 100 "?y div 10" 10] less_mult_imp_div_less [of "?y div 10" 100 10] by simp_all
  moreover from this have "1 \<le> ?y div 10 div 10 div 10" "?y div 10 div 10 div 10 < 10"
    using div_le_mono [of 10 "?y div 10 div 10" 10] less_mult_imp_div_less [of "?y div 10 div 10" 10 10] by simp_all
  ultimately show ?thesis
    using \<open>1000 \<le> ?y\<close> step [of ?y] step [of "?y div 10"] step [of "?y div 10 div 10"]
    unfolding strftime_Y_def by (simp add: decimal.simps [of "?y div 10 div 10 div 10"] del: div_mult2_eq)
qed

lemma sscanf_gmtime_iso:
  fixes t :: int
  assumes "0 \<le> t" "t \<le> 253402300799"
  defines "g \<equiv> gmtime t"
  shows "tor_sscanf no_doubles (strftime_Y g @ ''-'' @ two_digits (tm_mon g + 1) @ ''-'' @ two_digits (tm_mday g)
      @ [c] @ strftime_HMS g) ''%u-%2u-%2u%c%2u:%2u:%2u%c''
    = (7, [SUnsigned (tm_year g + 1900), SUnsigned (tm_mon g + 1), SUnsigned (tm_mday g), SChar c,
           SUnsigned (tm_hour g), SUnsigned (tm_min g), SUnsigned (tm_sec g)])"
proof -
  have f: "two_digit_fields g" unfolding g_def by (rule two_digit_gmtime)
  have y: "70 \<le> tm_year g" "tm_year g \<le> 8099"
    using gmtime_year_70 [of t] gmtime_year_8099 [OF assms(2)] assms(1) by (simp_all add: g_def)
  show ?thesis
    using f y sscanf_iso [of "nat (tm_year g + 1900)" "tm_mon g + 1" "tm_mday g" "tm_hour g" "tm_min g" "tm_sec g"
        no_doubles c]
    by (simp add: two_digit_fields_def strftime_Y_def strftime_HMS_def del: vsscanf_loop.simps)
qed

lemma format_iso_gmtime:
  assumes "0 \<le> t" "t \<le> 253402300799"
  shows "format_iso_time t = strftime_iso (gmtime t)"
  using gmtime_year_70 [of t] gmtime_year_8099 [OF assms(2)] assms(1)
  by (simp add: format_iso_time_def tor_gmtime_r_gmtime)

lemma nospace_text:
  assumes "0 \<le> t" "t \<le> 253402300799"
  defines "g \<equiv> gmtime t"
  shows "format_iso_time_nospace t = strftime_Y g @ ''-'' @ two_digits (tm_mon g + 1) @ ''-''
    @ two_digits (tm_mday g) @ ''T'' @ strftime_HMS g"
proof -
  have "length (strftime_Y g) = 4" unfolding g_def by (rule length_year [OF assms(1,2)])
  then show ?thesis
    using assms(1,2)
    by (simp add: format_iso_time_nospace_def format_iso_gmtime strftime_iso_def g_def list_update_append
        two_digits_def)
qed

lemma parse_iso_gmtime:
  assumes "0 \<le> t" "t \<le> 253402300799" "have_timegm \<or> \<not> skipped_leap_day (gmtime t)"
  defines "g \<equiv> gmtime t"
  shows "parse_iso_time_impl have_timegm (strftime_Y g @ ''-'' @ two_digits (tm_mon g + 1) @ ''-''
    @ two_digits (tm_mday g) @ [if nospace then CHR ''T'' else CHR '' ''] @ strftime_HMS g) strict nospace = Some t"
  using sscanf_gmtime_iso [OF assms(1,2)] iso_to_time_gmtime [OF assms(1-3), of nospace]
  unfolding g_def [symmetric] parse_iso_time_impl_def by simp

lemma iso_roundtrip:
  assumes "0 \<le> t" "t \<le> 253402300799" "have_timegm \<or> \<not> skipped_leap_day (gmtime t)"
  shows "parse_iso_time have_timegm (format_iso_time t) = Some t"
    and "parse_iso_time_nospace have_timegm (format_iso_time_nospace t) = Some t"
  using parse_iso_gmtime [OF assms, of False True] parse_iso_gmtime [OF assms, of True True]
  by (simp_all add: parse_iso_time_def parse_iso_time_nospace_def format_iso_gmtime nospace_text assms(1,2)
      strftime_iso_def)

subsection \<open>RFC 1123\<close>

definition three_letters :: "cstring \<Rightarrow> bool" where
  "three_letters s \<longleftrightarrow> length s = 3 \<and> list_all (\<lambda>c. \<not> TOR_ISSPACE c \<and> c \<noteq> CHR '','') s"

lemma names_three_letters:
  "i < 7 \<Longrightarrow> three_letters (WEEKDAY_NAMES ! i)" "j < 12 \<Longrightarrow> three_letters (MONTH_NAMES ! j)"
proof -
  have "list_all three_letters WEEKDAY_NAMES" "list_all three_letters MONTH_NAMES"
    by (simp_all add: WEEKDAY_NAMES_def MONTH_NAMES_def three_letters_def TOR_ISSPACE_iff byte_between_def)
  then show "i < 7 \<Longrightarrow> three_letters (WEEKDAY_NAMES ! i)" "j < 12 \<Longrightarrow> three_letters (MONTH_NAMES ! j)"
    by (simp_all add: list_all_length) (simp_all add: WEEKDAY_NAMES_def MONTH_NAMES_def)
qed

definition rfc1123_text :: "tm \<Rightarrow> cstring" where
  "rfc1123_text tm = (WEEKDAY_NAMES ! nat (tm_wday tm)) @ '', '' @ two_digits (tm_mday tm) @ '' ''
     @ (MONTH_NAMES ! nat (tm_mon tm)) @ '' '' @ strftime_Y tm @ '' '' @ strftime_HMS tm @ '' GMT''"

lemma three_lettersE:
  assumes "three_letters s"
  obtains a b c where "s = [a, b, c]" "\<not> TOR_ISSPACE a" "\<not> TOR_ISSPACE b" "\<not> TOR_ISSPACE c"
    "CHR '','' \<notin> {a, b, c}"
proof -
  from assms obtain a b c where "s = [a, b, c]"
    by (auto simp: three_letters_def numeral_3_eq_3 length_Suc_conv)
  with assms show thesis by (intro that) (auto simp: three_letters_def)
qed

lemma format_rfc1123_text:
  assumes "0 \<le> t" "t \<le> 253402300799"
  shows "format_rfc1123_time t = Some (rfc1123_text (gmtime t))"
proof -
  let ?g = "gmtime t"
  have g: "tor_gmtime_r t = ?g"
    using gmtime_year_70 [of t] gmtime_year_8099 [OF assms(2)] assms(1) by (simp add: tor_gmtime_r_gmtime)
  have m: "0 \<le> tm_mon ?g" "nat (tm_mon ?g) < 12" "0 \<le> tm_wday ?g" "tm_wday ?g \<le> 6"
    by (rule gmtime_fields)+
  then have w: "nat (tm_wday ?g) < 7" and "tm_mon ?g \<le> 11" by linarith+
  moreover obtain a b c where "WEEKDAY_NAMES ! nat (tm_wday ?g) = [a, b, c]"
    using names_three_letters(1) [OF w] by (auto elim: three_lettersE)
  moreover obtain d e f where "MONTH_NAMES ! nat (tm_mon ?g) = [d, e, f]"
    using names_three_letters(2) [OF m(2)] by (auto elim: three_lettersE)
  ultimately show ?thesis
    using m by (simp add: format_rfc1123_time_def g overwrite_def rfc1123_text_def two_digits_def Let_def)
qed

lemma month_index_names: "j < 12 \<Longrightarrow> month_index (\<lambda>name. MONTH_NAMES ! j = name) MONTH_NAMES 0 = int j"
proof -
  have "list_all (\<lambda>j. month_index (\<lambda>name. MONTH_NAMES ! j = name) MONTH_NAMES 0 = int j) [0..<12]"
    by code_simp
  then show "j < 12 \<Longrightarrow> ?thesis" by (simp add: list_all_iff)
qed

definition lower_names :: "cstring list" where
  "lower_names = [''jan'', ''feb'', ''mar'', ''apr'', ''may'', ''jun'',
                  ''jul'', ''aug'', ''sep'', ''oct'', ''nov'', ''dec'']"

lemma lower_MONTH_NAMES: "map (map TOR_TOLOWER) MONTH_NAMES = lower_names"
  by (simp add: MONTH_NAMES_def lower_names_def TOR_TOLOWER_iff TOR_ISUPPER_iff byte_between_def char_of_def
      bit_iff_odd)

lemma nth_lower: "i < 12 \<Longrightarrow> map TOR_TOLOWER (MONTH_NAMES ! i) = lower_names ! i"
  using nth_map [of i MONTH_NAMES "map TOR_TOLOWER"] by (simp add: lower_MONTH_NAMES) (simp add: MONTH_NAMES_def)

lemma last_month_index_names: "j < 12 \<Longrightarrow> last_month_index (MONTH_NAMES ! j) = int j"
proof -
  assume j: "j < 12"
  have "strcasecmp (MONTH_NAMES ! i) (MONTH_NAMES ! j) = 0 \<longleftrightarrow> lower_names ! i = lower_names ! j" if "i < 12" for i
    using that j by (simp add: strcasecmp_def nth_lower)
  then have "last_month_index (MONTH_NAMES ! j) =
      foldl (\<lambda>m i. if lower_names ! i = lower_names ! j then int i else m) (- 1) [0..<12]"
    unfolding last_month_index_def by (intro foldl_cong) auto
  moreover have "list_all (\<lambda>j. foldl (\<lambda>m i. if lower_names ! i = lower_names ! j then int i else m) (- 1) [0..<12] = int j) [0..<12]"
    by code_simp
  ultimately show ?thesis using j by (simp add: list_all_iff)
qed

lemma sscanf_rfc1123:
  fixes t :: int
  assumes "0 \<le> t" "t \<le> 253402300799"
  defines "g \<equiv> gmtime t"
  shows "\<exists>wd. tor_sscanf no_doubles (rfc1123_text g) ''%3s, %2u %3s %u %2u:%2u:%2u GMT''
    = (7, [SString wd, SUnsigned (tm_mday g), SString (MONTH_NAMES ! nat (tm_mon g)), SUnsigned (tm_year g + 1900),
           SUnsigned (tm_hour g), SUnsigned (tm_min g), SUnsigned (tm_sec g)])"
proof -
  have f: "two_digit_fields g" unfolding g_def by (rule two_digit_gmtime)
  have y: "70 \<le> tm_year g" "tm_year g \<le> 8099"
    using gmtime_year_70 [of t] gmtime_year_8099 [OF assms(2)] assms(1) by (simp_all add: g_def)
  have w: "nat (tm_wday g) < 7" "nat (tm_mon g) < 12"
    using gmtime_fields(2,12) [of t] by (simp_all add: g_def)
  obtain a b c where wd: "WEEKDAY_NAMES ! nat (tm_wday g) = [a, b, c]"
      "\<not> TOR_ISSPACE a" "\<not> TOR_ISSPACE b" "\<not> TOR_ISSPACE c"
    using names_three_letters(1) [OF w(1)] by (elim three_lettersE)
  obtain d e m where mo: "MONTH_NAMES ! nat (tm_mon g) = [d, e, m]"
      "\<not> TOR_ISSPACE d" "\<not> TOR_ISSPACE e" "\<not> TOR_ISSPACE m"
    using names_three_letters(2) [OF w(2)] by (elim three_lettersE)
  show ?thesis
    using f y wd mo
    by (simp add: tor_sscanf_def rfc1123_text_def sscanf_steps two_digit_fields_def strftime_Y_def strftime_HMS_def
        del: vsscanf_loop.simps) simp
qed

lemma length_rfc1123:
  assumes "0 \<le> t" "t \<le> 253402300799"
  shows "length (rfc1123_text (gmtime t)) = 29"
proof -
  have "nat (tm_wday (gmtime t)) < 7" "nat (tm_mon (gmtime t)) < 12"
    using gmtime_fields(2,12) [of t] by simp_all
  then have "length (WEEKDAY_NAMES ! nat (tm_wday (gmtime t))) = 3" "length (MONTH_NAMES ! nat (tm_mon (gmtime t))) = 3"
    using names_three_letters by (auto simp: three_letters_def)
  then show ?thesis
    using length_year [OF assms] by (simp add: rfc1123_text_def strftime_HMS_def two_digits_def)
qed

lemma rfc1123_roundtrip:
  assumes "0 \<le> t" "t \<le> 253402300799" "have_timegm \<or> \<not> skipped_leap_day (gmtime t)"
  shows "Option.bind (format_rfc1123_time t) (parse_rfc1123_time have_timegm) = Some t"
proof -
  let ?g = "gmtime t"
  let ?y = "tm_year ?g + 1900"
  have y: "70 \<le> tm_year ?g" "tm_year ?g \<le> 8099"
    using gmtime_year_70 [of t] gmtime_year_8099 [OF assms(2)] assms(1) by simp_all
  have m: "0 \<le> tm_mon ?g" "nat (tm_mon ?g) < 12" by (rule gmtime_fields)+
  obtain wd where sc: "tor_sscanf no_doubles (rfc1123_text ?g) ''%3s, %2u %3s %u %2u:%2u:%2u GMT''
    = (7, [SString wd, SUnsigned (tm_mday ?g), SString (MONTH_NAMES ! nat (tm_mon ?g)), SUnsigned ?y,
           SUnsigned (tm_hour ?g), SUnsigned (tm_min ?g), SUnsigned (tm_sec ?g)])"
    using sscanf_rfc1123 [OF assms(1,2)] by blast
  have idx: "month_index (\<lambda>name. MONTH_NAMES ! nat (tm_mon ?g) = name) MONTH_NAMES 0 = tm_mon ?g"
    using month_index_names [OF m(2)] m(1) by simp
  have dpm: "tm_mday ?g \<le> (if tm_mon ?g = 1 \<and> IS_LEAPYEAR ?y then 29 else days_per_month ! nat (tm_mon ?g))"
    using gmtime_fields(4) [of t] days_per_month_lengths [OF m(2), of ?y] m(1) y
    by (auto simp: IS_LEAPYEAR_leap_year nat_eq_iff split: if_splits)
  have ok: "\<not> (?y \<ge> INT32_MAX \<or> ?y < 1970)" using y by (simp add: INT32_MAX_def)
  have "parse_rfc1123_time have_timegm (rfc1123_text ?g) = Some t"
    using ok dpm m gmtime_fields(3,6,8,10) [of t] tor_timegm_fields [OF assms]
    unfolding parse_rfc1123_time_def length_rfc1123 [OF assms(1,2)] sc
    by (simp add: RFC1123_TIME_LEN_def idx Let_def)
  then show ?thesis
    using format_rfc1123_text [OF assms(1,2)] by simp
qed

text \<open>C26: Every text format for times is read back to the time it was made from: the ISO format with
  and without the space, and RFC 1123, from 1970 to the end of the year 9999; without a timegm in the
  system all of them but those of the skipped leap days.\<close>

theorem time_text_roundtrip:
  assumes "0 \<le> t" "t \<le> 253402300799" "have_timegm \<or> \<not> skipped_leap_day (gmtime t)"
  shows "parse_iso_time have_timegm (format_iso_time t) = Some t
    \<and> parse_iso_time_nospace have_timegm (format_iso_time_nospace t) = Some t
    \<and> Option.bind (format_rfc1123_time t) (parse_rfc1123_time have_timegm) = Some t"
  using iso_roundtrip [OF assms] rfc1123_roundtrip [OF assms] by blast

theorem time_text_roundtrip_witness:
  "parse_iso_time False (format_iso_time 951868800) = Some 951868800
   \<and> parse_iso_time True (format_iso_time 951782400) = Some 951782400"
  using time_text_roundtrip [of 951868800 False] time_text_roundtrip [of 951782400 True]
  by (simp add: gmtime_2000 skipped_leap_day_def)

end
