(* ===== verification/Versions.thy ===== *)
theory Versions
  imports Protover Binascii Util_String Time_Fmt "HOL-Library.AList"
begin

text \<open>
  Tor versions (core/or/versions.c): parsing, comparing, the status of a version against a
  recommended list, sorting, and the memoized summary of a protocol list; and, from protover.c,
  the protocols of versions too old to declare them.  \<open>int\<close> fields are integers in the
  32-bit range, compared as the code does in \<open>unsigned\<close>.  A parser's \<open>None\<close> is its
  return of -1; a failed assertion is \<open>None\<close> where the text says so.
\<close>

datatype version_kind = VER_PRE | VER_RC | VER_RELEASE

fun ver_int :: "version_kind \<Rightarrow> int" where
  "ver_int VER_PRE = 0"
| "ver_int VER_RC = 1"
| "ver_int VER_RELEASE = 2"

record tor_version =
  v_major :: int
  v_minor :: int
  v_micro :: int
  v_status :: version_kind
  v_patchlevel :: int
  v_status_tag :: cstring
  v_svn_revision :: int
  v_git_tag_len :: nat
  v_git_tag :: bytes

definition MAX_STATUS_TAG_LEN :: nat where "MAX_STATUS_TAG_LEN = 32"
definition GIT_TAG_SIZE :: nat where "GIT_TAG_SIZE = 20"
definition HEX_DIGEST_LEN :: nat where "HEX_DIGEST_LEN = 40"

subsection \<open>Parsing\<close>

definition NUMBER :: "cstring \<Rightarrow> (int \<times> cstring) option" where
  "NUMBER cp =
     (if \<not> TOR_ISDIGIT (cur cp) then None
      else let r = tor_parse_uint64 cp 10 0 INT32_MAX True
           in if \<not> pr_ok r then None
              else case pr_next r of
                None \<Rightarrow> None
              | Some eos \<Rightarrow> if length eos = length cp then None else Some (pr_val r, eos))"

definition DOT :: "cstring \<Rightarrow> cstring option" where
  "DOT cp = (if cur cp \<noteq> CHR ''.'' then None else Some (tl cp))"

text \<open>The memory after the \<open>memset\<close>.\<close>

definition version_zero :: tor_version where
  "version_zero = \<lparr>v_major = 0, v_minor = 0, v_micro = 0, v_status = VER_RELEASE, v_patchlevel = 0,
     v_status_tag = [], v_svn_revision = 0, v_git_tag_len = 0, v_git_tag = replicate 20 0\<rparr>"

text \<open>The conversion of a \<open>long\<close> to \<open>int\<close>, which keeps the low 32 bits.\<close>

definition int_of_long :: "int \<Rightarrow> int" where
  "int_of_long v = sint (word_of_int v :: 32 word)"

definition parse_revision :: "tor_version \<Rightarrow> cstring \<Rightarrow> tor_version option" where
  "parse_revision out cp =
     (if strcmpstart cp ''(r'' = 0 then
        Some (out\<lparr>v_svn_revision := int_of_long (fst (strtol (drop 2 cp) 10))\<rparr>)
      else if strcmpstart cp ''(git-'' = 0 then
        (case memchr cp (CHR '')'') of
           None \<Rightarrow> None
         | Some close_paren \<Rightarrow>
             (let hexlen = close_paren - 5
              in if hexlen > HEX_DIGEST_LEN then None
                 else if hexlen = 0 \<or> hexlen mod 2 = 1 then None
                 else let (r, digest) = base16_decode (hexlen div 2) (take hexlen (drop 5 cp))
                      in if r \<noteq> int (hexlen div 2) then None
                         else Some (out\<lparr>v_git_tag := digest @ replicate (GIT_TAG_SIZE - hexlen div 2) 0,
                                        v_git_tag_len := hexlen div 2\<rparr>)))
      else Some out)"

definition parse_status_tag :: "tor_version \<Rightarrow> cstring \<Rightarrow> tor_version option" where
  "parse_status_tag out cp =
     (let cp = (if cur cp = CHR ''-'' \<or> cur cp = CHR ''.'' then tl cp else cp);
          eos = find_whitespace cp;
          out = (if eos \<ge> MAX_STATUS_TAG_LEN
                 then out\<lparr>v_status_tag := strlcpy cp MAX_STATUS_TAG_LEN\<rparr>
                 else out\<lparr>v_status_tag := take eos cp\<rparr>)
      in parse_revision out (eat_whitespace (drop eos cp)))"

definition parse_patchlevel :: "tor_version \<Rightarrow> cstring \<Rightarrow> tor_version option" where
  "parse_patchlevel out cp =
     Option.bind (NUMBER cp) (\<lambda>(n, cp). parse_status_tag (out\<lparr>v_patchlevel := n\<rparr>) cp)"

definition parse_after_micro :: "tor_version \<Rightarrow> cstring \<Rightarrow> tor_version option" where
  "parse_after_micro out cp =
     (if cp = [] then Some out
      else if cur cp = CHR ''.'' then parse_patchlevel out (tl cp)
      else if cur cp = CHR ''-'' then parse_status_tag out cp
      else if strncmp cp ''pre'' 3 = 0 then parse_patchlevel (out\<lparr>v_status := VER_PRE\<rparr>) (drop 3 cp)
      else if strncmp cp ''rc'' 2 = 0 then parse_patchlevel (out\<lparr>v_status := VER_RC\<rparr>) (drop 2 cp)
      else None)"

definition parse_after_minor :: "tor_version \<Rightarrow> cstring \<Rightarrow> tor_version option" where
  "parse_after_minor out cp =
     (if cp = [] then Some out
      else if cur cp = CHR ''-'' then parse_status_tag out cp
      else Option.bind (DOT cp) (\<lambda>cp.
           Option.bind (NUMBER cp) (\<lambda>(n, cp). parse_after_micro (out\<lparr>v_micro := n\<rparr>) cp)))"

definition tor_version_parse :: "cstring \<Rightarrow> tor_version option" where
  "tor_version_parse s =
     (let s = (if strcasecmpstart s ''Tor '' = 0 then drop 4 s else s)
      in Option.bind (NUMBER s) (\<lambda>(major, cp).
         Option.bind (DOT cp) (\<lambda>cp.
         Option.bind (NUMBER cp) (\<lambda>(minor, cp).
           parse_after_minor (version_zero\<lparr>v_major := major, v_minor := minor\<rparr>) cp))))"

subsection \<open>Comparing\<close>

definition CMP :: "int \<Rightarrow> int \<Rightarrow> int" where
  "CMP aval bval =
     (let result = sint ((word_of_int aval :: 32 word) - word_of_int bval)
      in if result < 0 then - 1 else if result > 0 then 1 else 0)"

text \<open>The first comparison that is not 0.\<close>

fun first_nonzero :: "int list \<Rightarrow> int" where
  "first_nonzero [] = 0"
| "first_nonzero (i # is) = (if i \<noteq> 0 then i else first_nonzero is)"

definition tor_version_compare :: "tor_version \<Rightarrow> tor_version \<Rightarrow> int" where
  "tor_version_compare a b = first_nonzero
     [CMP (v_major a) (v_major b), CMP (v_minor a) (v_minor b), CMP (v_micro a) (v_micro b),
      CMP (ver_int (v_status a)) (ver_int (v_status b)), CMP (v_patchlevel a) (v_patchlevel b),
      strcmp (v_status_tag a) (v_status_tag b), CMP (v_svn_revision a) (v_svn_revision b),
      CMP (int (v_git_tag_len a)) (int (v_git_tag_len b)),
      if v_git_tag_len a \<noteq> 0
      then memcmp (take (v_git_tag_len a) (v_git_tag a)) (take (v_git_tag_len a) (v_git_tag b))
      else 0]"

definition tor_version_same_series :: "tor_version \<Rightarrow> tor_version \<Rightarrow> bool" where
  "tor_version_same_series a b \<longleftrightarrow>
     v_major a = v_major b \<and> v_minor a = v_minor b \<and> v_micro a = v_micro b"

definition compare_tor_version_str_ptr_fn :: "cstring \<Rightarrow> cstring \<Rightarrow> int" where
  "compare_tor_version_str_ptr_fn a b =
     (case (tor_version_parse a, tor_version_parse b) of
        (Some va, Some vb) \<Rightarrow> tor_version_compare va vb
      | (Some _, None) \<Rightarrow> - 1
      | (None, Some _) \<Rightarrow> 1
      | (None, None) \<Rightarrow> strcmp a b)"

text \<open>\<open>qsort\<close>, the sort of the C library, is an argument.\<close>

definition sort_version_list ::
  "((cstring \<Rightarrow> cstring \<Rightarrow> int) \<Rightarrow> cstring list \<Rightarrow> cstring list) \<Rightarrow> cstring list \<Rightarrow> bool \<Rightarrow> cstring list" where
  "sort_version_list qsort versions remove_duplicates =
     (let versions = qsort compare_tor_version_str_ptr_fn versions
      in if remove_duplicates then smartlist_uniq compare_tor_version_str_ptr_fn versions else versions)"

subsection \<open>The status of a version\<close>

datatype version_status =
  VS_RECOMMENDED | VS_OLD | VS_NEW | VS_NEW_IN_SERIES | VS_UNRECOMMENDED | VS_EMPTY | VS_UNKNOWN

record obsolete_flags =
  found_newer :: bool
  found_older :: bool
  found_newer_in_series :: bool
  found_any_in_series :: bool

text \<open>The loop over the pieces of the list; \<open>None\<close> is the jump out on an equal version.\<close>

fun obsolete_loop :: "tor_version \<Rightarrow> cstring list \<Rightarrow> obsolete_flags \<Rightarrow> obsolete_flags option" where
  "obsolete_loop mine [] fl = Some fl"
| "obsolete_loop mine (cp # cps) fl =
     (let cp = (if strcmpstart cp ''Tor '' = 0 then drop 4 cp else cp)
      in case tor_version_parse cp of
           None \<Rightarrow> obsolete_loop mine cps fl
         | Some other \<Rightarrow>
             (let same = tor_version_same_series mine other;
                  fl = (if same then fl\<lparr>found_any_in_series := True\<rparr> else fl);
                  r = tor_version_compare mine other
              in if r = 0 then None
                 else if r < 0 then
                   obsolete_loop mine cps
                     (let fl = fl\<lparr>found_newer := True\<rparr>
                      in if same then fl\<lparr>found_newer_in_series := True\<rparr> else fl)
                 else obsolete_loop mine cps (fl\<lparr>found_older := True\<rparr>)))"

definition obsolete_verdict :: "obsolete_flags \<Rightarrow> version_status" where
  "obsolete_verdict fl =
     (if found_any_in_series fl \<and> \<not> found_newer_in_series fl \<and> found_newer fl then VS_NEW_IN_SERIES
      else if found_newer fl \<and> \<not> found_older fl then VS_OLD
      else if found_older fl \<and> \<not> found_newer fl then VS_NEW
      else VS_UNRECOMMENDED)"

text \<open>\<open>None\<close> is the failed assertion on one's own version.\<close>

definition tor_version_is_obsolete :: "cstring \<Rightarrow> cstring \<Rightarrow> version_status option" where
  "tor_version_is_obsolete myversion versionlist =
     (case tor_version_parse myversion of
        None \<Rightarrow> None
      | Some mine \<Rightarrow>
          (case smartlist_split_string [] versionlist (Some '','')
                  \<lparr>SPLIT_SKIP_SPACE = True, SPLIT_IGNORE_BLANK = False, SPLIT_STRIP_SPACE = False\<rparr> 0 of
             None \<Rightarrow> None
           | Some (version_sl, _) \<Rightarrow>
               Some (if versionlist = [] then VS_EMPTY
                     else case obsolete_loop mine version_sl
                            \<lparr>found_newer = False, found_older = False, found_newer_in_series = False,
                             found_any_in_series = False\<rparr> of
                       None \<Rightarrow> VS_RECOMMENDED
                     | Some fl \<Rightarrow> obsolete_verdict fl)))"

subsection \<open>Platform lines\<close>

datatype platform_result = Not_tor | Unparseable | Parsed tor_version

definition tor_version_parse_platform :: "cstring \<Rightarrow> bool \<Rightarrow> platform_result" where
  "tor_version_parse_platform platform strict =
     (if strcmpstart platform ''Tor '' \<noteq> 0 then Not_tor
      else
        (let start = eat_whitespace (drop 3 platform)
         in if start = [] then Unparseable
            else
              (let s = find_whitespace start;
                   s2 = eat_whitespace (drop s start);
                   s = (if strcmpstart s2 ''(r'' = 0 \<or> strcmpstart s2 ''(git-'' = 0
                        then length start - length s2 + find_whitespace s2 else s)
               in if s + 1 \<ge> 128 then Unparseable
                  else case tor_version_parse (strlcpy start (s + 1)) of
                    None \<Rightarrow> Unparseable
                  | Some v \<Rightarrow>
                      if strict \<and> (v_major v < 0 \<or> v_minor v < 0 \<or> v_micro v < 0
                                    \<or> v_patchlevel v < 0 \<or> v_svn_revision v < 0)
                      then Unparseable else Parsed v)))"

definition tor_version_as_new_as :: "cstring \<Rightarrow> cstring \<Rightarrow> bool" where
  "tor_version_as_new_as platform cutoff =
     (case tor_version_parse cutoff of
        None \<Rightarrow> False
      | Some cutoff_version \<Rightarrow>
          (case tor_version_parse_platform platform False of
             Not_tor \<Rightarrow> True
           | Unparseable \<Rightarrow> True
           | Parsed router_version \<Rightarrow> tor_version_compare router_version cutoff_version \<ge> 0))"

text \<open>From protover.c.\<close>

definition protover_compute_for_old_tor :: "cstring option \<Rightarrow> cstring" where
  "protover_compute_for_old_tor version =
     (let version = (case version of None \<Rightarrow> ''0.2.5.15'' | Some v \<Rightarrow> v)
      in if tor_version_as_new_as version ''0.2.9.3-alpha'' then ''''
         else if tor_version_as_new_as version ''0.2.9.1-alpha'' then
           ''Cons=1-2 Desc=1-2 DirCache=1 HSDir=1 HSIntro=3 HSRend=1-2 ''
           @ ''Link=1-4 LinkAuth=1 '' @ ''Microdesc=1-2 Relay=1-2''
         else if tor_version_as_new_as version ''0.2.7.5'' then
           ''Cons=1-2 Desc=1-2 DirCache=1 HSDir=1 HSIntro=3 HSRend=1 ''
           @ ''Link=1-4 LinkAuth=1 '' @ ''Microdesc=1-2 Relay=1-2''
         else if tor_version_as_new_as version ''0.2.4.19'' then
           ''Cons=1 Desc=1 DirCache=1 HSDir=1 HSIntro=3 HSRend=1 ''
           @ ''Link=1-4 LinkAuth=1 '' @ ''Microdesc=1 Relay=1-2''
         else '''')"

text \<open>\<open>release_date\<close> is the text of APPROX_RELEASE_DATE.\<close>

definition tor_get_approx_release_date :: "bool \<Rightarrow> cstring \<Rightarrow> int" where
  "tor_get_approx_release_date have_timegm release_date =
     (case parse_iso_time have_timegm (snd (tor_vsnprintf 20 (release_date @ '' 00:00:00''))) of
        None \<Rightarrow> 0 | Some t \<Rightarrow> t)"

subsection \<open>The memoized summary of a protocol list\<close>

record protover_summary_flags =
  protocols_known :: bool
  supports_extend2_cells :: bool
  supports_accepting_ipv6_extends :: bool
  supports_initiating_ipv6_extends :: bool
  supports_canonical_ipv6_conns :: bool
  supports_ed25519_link_handshake_compat :: bool
  supports_ed25519_link_handshake_any :: bool
  supports_ed25519_hs_intro :: bool
  supports_establish_intro_dos_extension :: bool
  supports_v3_hsdir :: bool
  supports_v3_rendezvous_point :: bool
  supports_hs_setup_padding :: bool
  supports_congestion_control :: bool
  supports_conflux :: bool

definition no_flags :: protover_summary_flags where
  "no_flags =
     \<lparr>protocols_known = False, supports_extend2_cells = False, supports_accepting_ipv6_extends = False,
      supports_initiating_ipv6_extends = False, supports_canonical_ipv6_conns = False,
      supports_ed25519_link_handshake_compat = False, supports_ed25519_link_handshake_any = False,
      supports_ed25519_hs_intro = False, supports_establish_intro_dos_extension = False,
      supports_v3_hsdir = False, supports_v3_rendezvous_point = False, supports_hs_setup_padding = False,
      supports_congestion_control = False, supports_conflux = False\<rparr>"

text \<open>
  The flags of a protocol list.  The versions are the PROTOVER constants; \<open>or_later\<close> is
  defined for all of them (\<open>None\<close> would be a shift by 64 bits or more).
\<close>

definition protover_flags :: "cstring \<Rightarrow> protover_summary_flags" where
  "protover_flags protocols =
     (let supports = protocol_list_supports_protocol protocols
      in \<lparr>protocols_known = True,
          supports_extend2_cells = supports PRT_RELAY 2,
          supports_accepting_ipv6_extends = (supports PRT_RELAY 2 \<or> supports PRT_RELAY 3),
          supports_initiating_ipv6_extends = supports PRT_RELAY 3,
          supports_canonical_ipv6_conns = supports PRT_RELAY 3,
          supports_ed25519_link_handshake_compat = supports PRT_LINKAUTH 3,
          supports_ed25519_link_handshake_any =
            (protocol_list_supports_protocol_or_later protocols PRT_LINKAUTH 3 = Some True),
          supports_ed25519_hs_intro = supports PRT_HSINTRO 4,
          supports_establish_intro_dos_extension = supports PRT_HSINTRO 5,
          supports_v3_hsdir = supports PRT_HSDIR 2,
          supports_v3_rendezvous_point = supports PRT_HSREND 2,
          supports_hs_setup_padding = supports PRT_PADDING 2,
          supports_congestion_control = (supports PRT_FLOWCTRL 2 \<and> supports PRT_RELAY 4),
          supports_conflux = (supports PRT_FLOWCTRL 2 \<and> supports PRT_CONFLUX 1)\<rparr>)"

definition MAX_PROTOVER_SUMMARY_MAP_LEN :: nat where "MAX_PROTOVER_SUMMARY_MAP_LEN = 1024"

text \<open>
  \<open>protover_summary_map\<close>: a string map as an association list with distinct keys, \<open>None\<close>
  before it is allocated.  Setting a key gives its old value back.
\<close>

type_synonym summary_map = "(cstring \<times> protover_summary_flags) list option"

definition strmap_get :: "(cstring \<times> 'v) list \<Rightarrow> cstring \<Rightarrow> 'v option" where
  "strmap_get m k = map_of m k"

definition strmap_set :: "(cstring \<times> 'v) list \<Rightarrow> cstring \<Rightarrow> 'v \<Rightarrow> 'v option \<times> (cstring \<times> 'v) list" where
  "strmap_set m k v = (map_of m k, AList.update k v m)"

definition protover_summary_cache_free_all :: "summary_map \<Rightarrow> summary_map" where
  "protover_summary_cache_free_all m = None"

text \<open>What is stored in \<open>*out\<close> and the map afterwards; \<open>None\<close> is a failed assertion.\<close>

definition memoize_protover_summary ::
  "summary_map \<Rightarrow> cstring \<Rightarrow> (protover_summary_flags \<times> summary_map) option" where
  "memoize_protover_summary m protocols =
     (let tab = (case m of None \<Rightarrow> [] | Some tab \<Rightarrow> tab);
          tab = (if length tab \<ge> MAX_PROTOVER_SUMMARY_MAP_LEN
                 then (case protover_summary_cache_free_all (Some tab) of None \<Rightarrow> [] | Some tab \<Rightarrow> tab)
                 else tab)
      in case strmap_get tab protocols of
           Some cached \<Rightarrow> if \<not> protocols_known cached then None else Some (cached, Some tab)
         | None \<Rightarrow>
             (let out = protover_flags protocols;
                  (cached, tab) = strmap_set tab protocols out
              in if cached \<noteq> None then None else Some (out, Some tab)))"

text \<open>What the version adds to the flags, or takes from them.\<close>

definition correct_for_version :: "cstring option \<Rightarrow> protover_summary_flags \<Rightarrow> protover_summary_flags" where
  "correct_for_version version out =
     (case version of
        Some v \<Rightarrow>
          if v \<noteq> [] \<and> strcmpstart v ''Tor '' = 0 then
            (if \<not> protocols_known out
             then out\<lparr>supports_extend2_cells := tor_version_as_new_as v ''0.2.4.8-alpha'',
                      protocols_known := True\<rparr>
             else if \<not> tor_version_as_new_as v ''0.3.0.8'' then out\<lparr>supports_v3_hsdir := False\<rparr>
             else out)
          else out
      | None \<Rightarrow> out)"

definition summarize_protover_flags ::
  "summary_map \<Rightarrow> cstring option \<Rightarrow> cstring option \<Rightarrow> (protover_summary_flags \<times> summary_map) option" where
  "summarize_protover_flags m protocols version =
     Option.bind
       (case protocols of
          Some p \<Rightarrow> if p \<noteq> [] then memoize_protover_summary m p else Some (no_flags, m)
        | None \<Rightarrow> Some (no_flags, m))
       (\<lambda>(out, m). Some (correct_for_version version out, m))"

end
