(* ===== verification/Versions_Props.thy ===== *)
theory Versions_Props
  imports Versions
begin

text \<open>
  Versions: what the parser yields, that the comparison orders it (and where it does not), what
  the status of a version means, and that the memoized summary is what it memoizes.
\<close>

subsection \<open>Well-formed versions\<close>

definition int_field :: "int \<Rightarrow> bool" where
  "int_field i \<longleftrightarrow> 0 \<le> i \<and> i \<le> INT32_MAX"

text \<open>
  What the fields of a \<open>tor_version_t\<close> hold after parsing: numbers that fit, a tag and a
  hash within their arrays, the unused rest of the hash zero.
\<close>

definition version_ok :: "tor_version \<Rightarrow> bool" where
  "version_ok v \<longleftrightarrow>
     int_field (v_major v) \<and> int_field (v_minor v) \<and> int_field (v_micro v) \<and> int_field (v_patchlevel v)
     \<and> - INT32_MAX - 1 \<le> v_svn_revision v \<and> v_svn_revision v \<le> INT32_MAX
     \<and> length (v_status_tag v) < MAX_STATUS_TAG_LEN
     \<and> v_git_tag_len v \<le> GIT_TAG_SIZE \<and> length (v_git_tag v) = GIT_TAG_SIZE
     \<and> drop (v_git_tag_len v) (v_git_tag v) = replicate (GIT_TAG_SIZE - v_git_tag_len v) 0"

lemma NUMBER_field: "NUMBER cp = Some (n, rest) \<Longrightarrow> int_field n"
  using check_ok_bounds [of cp 0 INT32_MAX True "strtoul cp 10"]
  by (auto simp: NUMBER_def tor_parse_uint64_def int_field_def Let_def split: if_splits option.splits)

lemma int_of_long_range: "- INT32_MAX - 1 \<le> int_of_long v" "int_of_long v \<le> INT32_MAX"
  using sint_greater_eq [of "word_of_int v :: 32 word"] sint_less [of "word_of_int v :: 32 word"]
  by (simp_all add: int_of_long_def INT32_MAX_def)

lemma base16_decode_length:
  "base16_decode n src = (int n, d) \<Longrightarrow> length d = n"
  by (auto simp: base16_decode_def split: if_splits option.splits)

lemma parse_revision_ok: "version_ok v \<Longrightarrow> parse_revision v cp = Some v' \<Longrightarrow> version_ok v'"
  by (auto simp: parse_revision_def version_ok_def int_of_long_range HEX_DIGEST_LEN_def GIT_TAG_SIZE_def Let_def
      dest: base16_decode_length split: if_splits option.splits prod.splits)

lemma parse_status_tag_ok:
  assumes "version_ok v" "parse_status_tag v cp = Some v'"
  shows "version_ok v'"
proof -
  define cp1 where "cp1 = (if cur cp = CHR ''-'' \<or> cur cp = CHR ''.'' then tl cp else cp)"
  define tag where "tag = (if find_whitespace cp1 \<ge> MAX_STATUS_TAG_LEN then strlcpy cp1 MAX_STATUS_TAG_LEN
      else take (find_whitespace cp1) cp1)"
  have "parse_status_tag v cp = parse_revision (v\<lparr>v_status_tag := tag\<rparr>) (eat_whitespace (drop (find_whitespace cp1) cp1))"
    by (simp add: parse_status_tag_def cp1_def [symmetric] tag_def Let_def)
  moreover have "length tag < MAX_STATUS_TAG_LEN"
    by (auto simp: tag_def strlcpy_def MAX_STATUS_TAG_LEN_def)
  then have "version_ok (v\<lparr>v_status_tag := tag\<rparr>)" using assms(1) by (simp add: version_ok_def)
  ultimately show ?thesis
    using parse_revision_ok assms(2) by metis
qed

lemma parse_patchlevel_ok: "version_ok v \<Longrightarrow> parse_patchlevel v cp = Some v' \<Longrightarrow> version_ok v'"
proof -
  assume v: "version_ok v" and "parse_patchlevel v cp = Some v'"
  then obtain n rest where "NUMBER cp = Some (n, rest)" "parse_status_tag (v\<lparr>v_patchlevel := n\<rparr>) rest = Some v'"
    by (auto simp: parse_patchlevel_def bind_eq_Some_conv)
  moreover from this v have "version_ok (v\<lparr>v_patchlevel := n\<rparr>)"
    using NUMBER_field by (simp add: version_ok_def)
  ultimately show "version_ok v'" using parse_status_tag_ok by blast
qed

lemma version_ok_status [simp]: "version_ok (v\<lparr>v_status := st\<rparr>) = version_ok v"
  by (simp add: version_ok_def)

lemma parse_after_micro_ok: "version_ok v \<Longrightarrow> parse_after_micro v cp = Some v' \<Longrightarrow> version_ok v'"
  by (auto simp: parse_after_micro_def dest: parse_patchlevel_ok parse_status_tag_ok
      intro: parse_patchlevel_ok [of "v\<lparr>v_status := VER_PRE\<rparr>"] parse_patchlevel_ok [of "v\<lparr>v_status := VER_RC\<rparr>"]
      split: if_splits)

lemma parse_after_minor_ok: "version_ok v \<Longrightarrow> parse_after_minor v cp = Some v' \<Longrightarrow> version_ok v'"
proof -
  assume v: "version_ok v" and p: "parse_after_minor v cp = Some v'"
  have "v' = v \<or> parse_status_tag v cp = Some v' \<or>
      (\<exists>n cp' rest. NUMBER cp' = Some (n, rest) \<and> parse_after_micro (v\<lparr>v_micro := n\<rparr>) rest = Some v')"
  proof (cases "cp = [] \<or> cur cp = CHR ''-''")
    case True
    with p show ?thesis by (auto simp: parse_after_minor_def split: if_splits)
  next
    case False
    then have "Option.bind (DOT cp) (\<lambda>cp. Option.bind (NUMBER cp) (\<lambda>(n, cp). parse_after_micro (v\<lparr>v_micro := n\<rparr>) cp)) = Some v'"
      using p by (simp add: parse_after_minor_def)
    then show ?thesis by (auto simp: bind_eq_Some_conv)
  qed
  then consider "v' = v" | "parse_status_tag v cp = Some v'"
    | n cp' rest where "NUMBER cp' = Some (n, rest)" "parse_after_micro (v\<lparr>v_micro := n\<rparr>) rest = Some v'"
    by blast
  then show "version_ok v'"
  proof cases
    case 3
    then have "version_ok (v\<lparr>v_micro := n\<rparr>)" using v NUMBER_field by (simp add: version_ok_def)
    with 3 show ?thesis using parse_after_micro_ok by blast
  qed (use v parse_status_tag_ok in auto)
qed

lemma parse_version_ok:
  assumes "tor_version_parse s = Some v"
  shows "version_ok v"
proof -
  obtain major minor cp cp1 cp2 cp3 where n: "NUMBER cp = Some (major, cp1)" "NUMBER cp2 = Some (minor, cp3)"
    and p: "parse_after_minor (version_zero\<lparr>v_major := major, v_minor := minor\<rparr>) cp3 = Some v"
    using assms by (auto simp: tor_version_parse_def bind_eq_Some_conv Let_def split: if_splits)
  have "version_ok (version_zero\<lparr>v_major := major, v_minor := minor\<rparr>)"
    using NUMBER_field [OF n(1)] NUMBER_field [OF n(2)]
    by (simp add: version_ok_def version_zero_def int_field_def INT32_MAX_def MAX_STATUS_TAG_LEN_def GIT_TAG_SIZE_def)
  then show ?thesis using p by (rule parse_after_minor_ok)
qed

subsection \<open>Comparison functions\<close>

text \<open>
  What the sorting and searching routines of the library ask of a comparison: on the members of
  a set, swapping the arguments negates it and \<open>\<le>\<close> is transitive.  The lemmas are what
  \<open>smartlist_uniq\<close> makes of a list sorted by it.
\<close>

locale comparison =
  fixes S :: "'a set" and cmp :: "'a \<Rightarrow> 'a \<Rightarrow> int"
  assumes anti: "x \<in> S \<Longrightarrow> y \<in> S \<Longrightarrow> cmp y x = - cmp x y"
    and trans_le: "x \<in> S \<Longrightarrow> y \<in> S \<Longrightarrow> z \<in> S \<Longrightarrow> cmp x y \<le> 0 \<Longrightarrow> cmp y z \<le> 0 \<Longrightarrow> cmp x z \<le> 0"
begin

lemma refl: "x \<in> S \<Longrightarrow> cmp x x = 0"
  using anti [of x x] by simp

lemma zero_le: "x \<in> S \<Longrightarrow> y \<in> S \<Longrightarrow> cmp x y = 0 \<longleftrightarrow> cmp x y \<le> 0 \<and> cmp y x \<le> 0"
  using anti [of x y] by auto

lemma zero_trans: "x \<in> S \<Longrightarrow> y \<in> S \<Longrightarrow> z \<in> S \<Longrightarrow> cmp x y = 0 \<Longrightarrow> cmp y z = 0 \<Longrightarrow> cmp x z = 0"
  using trans_le [of x y z] trans_le [of z y x] zero_le by metis

lemma less_le_trans:
  "x \<in> S \<Longrightarrow> y \<in> S \<Longrightarrow> z \<in> S \<Longrightarrow> cmp x y < 0 \<Longrightarrow> cmp y z \<le> 0 \<Longrightarrow> cmp x z < 0"
proof (rule ccontr)
  assume m: "x \<in> S" "y \<in> S" "z \<in> S" and lt: "cmp x y < 0" and le: "cmp y z \<le> 0" and "\<not> cmp x z < 0"
  then have "cmp z x \<le> 0" using anti [of x z] by simp
  then have "cmp y x \<le> 0" using trans_le m le by blast
  then show False using lt anti [OF m(1,2)] by simp
qed

lemma le_less_trans:
  "x \<in> S \<Longrightarrow> y \<in> S \<Longrightarrow> z \<in> S \<Longrightarrow> cmp x y \<le> 0 \<Longrightarrow> cmp y z < 0 \<Longrightarrow> cmp x z < 0"
proof (rule ccontr)
  assume m: "x \<in> S" "y \<in> S" "z \<in> S" and le: "cmp x y \<le> 0" and lt: "cmp y z < 0" and "\<not> cmp x z < 0"
  then have "cmp z x \<le> 0" using anti [of x z] by simp
  then have "cmp z y \<le> 0" using trans_le m le by blast
  then show False using lt anti [OF m(2,3)] by simp
qed

lemma uniq_head:
  "set (x # xs) \<subseteq> S \<Longrightarrow> sorted_wrt (\<lambda>x y. cmp x y \<le> 0) (x # xs) \<Longrightarrow>
   (\<exists>ys. uniq_adj cmp (x # xs) = x # ys) \<and> set (uniq_adj cmp (x # xs)) \<subseteq> set (x # xs)
   \<and> sorted_wrt (\<lambda>x y. cmp x y < 0) (uniq_adj cmp (x # xs))
   \<and> (\<forall>z \<in> set (x # xs). \<exists>y \<in> set (uniq_adj cmp (x # xs)). cmp z y = 0)"
proof (induction xs arbitrary: x)
  case Nil
  then show ?case using refl by simp
next
  case (Cons y ys)
  have m: "x \<in> S" "y \<in> S" "set ys \<subseteq> S" using Cons.prems(1) by auto
  show ?case
  proof (cases "cmp x y = 0")
    case True
    have "sorted_wrt (\<lambda>x y. cmp x y \<le> 0) (x # ys)" using Cons.prems(2) by simp
    then have IH: "(\<exists>zs. uniq_adj cmp (x # ys) = x # zs) \<and> set (uniq_adj cmp (x # ys)) \<subseteq> set (x # ys)
        \<and> sorted_wrt (\<lambda>x y. cmp x y < 0) (uniq_adj cmp (x # ys))
        \<and> (\<forall>z \<in> set (x # ys). \<exists>y \<in> set (uniq_adj cmp (x # ys)). cmp z y = 0)"
      using m by (intro Cons.IH) auto
    then obtain zs where zs: "uniq_adj cmp (x # ys) = x # zs" by blast
    have rest: "set (x # zs) \<subseteq> set (x # ys)" "sorted_wrt (\<lambda>x y. cmp x y < 0) (x # zs)"
        "\<forall>z \<in> set (x # ys). \<exists>y \<in> set (x # zs). cmp z y = 0"
      using IH unfolding zs by blast+
    have "cmp y x = 0" using anti [OF m(1,2)] True by simp
    moreover have "\<exists>y' \<in> set (x # zs). cmp z y' = 0" if "z \<in> set (x # y # ys)" for z
      using that rest(3) calculation by auto
    ultimately show ?thesis using zs rest(1,2) True by simp blast
  next
    case False
    have "sorted_wrt (\<lambda>x y. cmp x y \<le> 0) (y # ys)" "cmp x y < 0" using Cons.prems(2) False by auto
    have IH: "(\<exists>zs. uniq_adj cmp (y # ys) = y # zs) \<and> set (uniq_adj cmp (y # ys)) \<subseteq> set (y # ys)
        \<and> sorted_wrt (\<lambda>x y. cmp x y < 0) (uniq_adj cmp (y # ys))
        \<and> (\<forall>z \<in> set (y # ys). \<exists>y' \<in> set (uniq_adj cmp (y # ys)). cmp z y' = 0)"
      using m \<open>sorted_wrt (\<lambda>x y. cmp x y \<le> 0) (y # ys)\<close> by (intro Cons.IH) auto
    then obtain zs where zs: "uniq_adj cmp (y # ys) = y # zs" by blast
    have rest: "set (y # zs) \<subseteq> set (y # ys)" "sorted_wrt (\<lambda>x y. cmp x y < 0) (y # zs)"
        "\<forall>z \<in> set (y # ys). \<exists>y' \<in> set (y # zs). cmp z y' = 0"
      using IH unfolding zs by blast+
    have "cmp x z < 0" if "z \<in> set zs" for z
    proof -
      have "z \<in> S" using rest(1) m that by auto
      moreover have "cmp y z \<le> 0" using rest(2) that by auto
      ultimately show ?thesis using less_le_trans [OF m(1,2)] \<open>cmp x y < 0\<close> by blast
    qed
    moreover have "\<exists>y' \<in> set (x # y # zs). cmp z y' = 0" if "z \<in> set (x # y # ys)" for z
      using that rest(3) refl [OF m(1)] by auto
    ultimately show ?thesis using zs rest(1,2) \<open>cmp x y < 0\<close> False by simp blast
  qed
qed

lemma uniq_sorted:
  assumes "set xs \<subseteq> S" "sorted_wrt (\<lambda>x y. cmp x y \<le> 0) xs"
  shows "set (smartlist_uniq cmp xs) \<subseteq> set xs" "sorted_wrt (\<lambda>x y. cmp x y < 0) (smartlist_uniq cmp xs)"
    "z \<in> set xs \<Longrightarrow> \<exists>y \<in> set (smartlist_uniq cmp xs). cmp z y = 0"
  using uniq_head [of "hd xs" "tl xs"] assms by (cases xs; auto simp: smartlist_uniq_adj)+

end

text \<open>Comparisons made from comparisons: on a component, and one after the other.\<close>

lemma comparison_on:
  assumes "comparison T c" "\<And>x. x \<in> S \<Longrightarrow> f x \<in> T"
  shows "comparison S (\<lambda>x y. c (f x) (f y))"
proof (rule comparison.intro)
  fix x y assume x: "x \<in> S" and y: "y \<in> S"
  show "c (f y) (f x) = - c (f x) (f y)"
    by (rule comparison.anti [OF assms(1) assms(2) [OF x] assms(2) [OF y]])
next
  fix x y z assume x: "x \<in> S" and y: "y \<in> S" and z: "z \<in> S"
    and le: "c (f x) (f y) \<le> 0" "c (f y) (f z) \<le> 0"
  show "c (f x) (f z) \<le> 0"
    by (rule comparison.trans_le [OF assms(1) assms(2) [OF x] assms(2) [OF y] assms(2) [OF z] le])
qed

lemma comparison_zero: "comparison S (\<lambda>x y. 0)"
  by unfold_locales auto

lemma comparison_lex:
  assumes "comparison S c" "comparison S d"
  shows "comparison S (\<lambda>x y. if c x y \<noteq> 0 then c x y else d x y)"
proof (rule comparison.intro)
  fix x y assume x: "x \<in> S" and y: "y \<in> S"
  show "(if c y x \<noteq> 0 then c y x else d y x) = - (if c x y \<noteq> 0 then c x y else d x y)"
    using comparison.anti [OF assms(1) x y] comparison.anti [OF assms(2) x y] by simp
next
  fix x y z
  assume m: "x \<in> S" "y \<in> S" "z \<in> S"
    and xy: "(if c x y \<noteq> 0 then c x y else d x y) \<le> 0" and yz: "(if c y z \<noteq> 0 then c y z else d y z) \<le> 0"
  have c: "c x y \<le> 0" "c y z \<le> 0" using xy yz by (auto split: if_splits)
  show "(if c x z \<noteq> 0 then c x z else d x z) \<le> 0"
  proof (cases "c x y = 0 \<and> c y z = 0")
    case True
    then have "c x z = 0" using comparison.zero_trans [OF assms(1) m] by simp
    moreover have "d x z \<le> 0" using comparison.trans_le [OF assms(2) m] xy yz True by simp
    ultimately show ?thesis by simp
  next
    case False
    then have "c x y < 0 \<or> c y z < 0" using c by auto
    then have "c x z < 0"
      using comparison.less_le_trans [OF assms(1) m] comparison.le_less_trans [OF assms(1) m] c by argo
    then show ?thesis by simp
  qed
qed

lemma comparison_first_nonzero:
  "list_all (comparison S) cs \<Longrightarrow> comparison S (\<lambda>x y. first_nonzero (map (\<lambda>c. c x y) cs))"
proof (induction cs)
  case (Cons c cs)
  then show ?case
    using comparison_lex [of S c "\<lambda>x y. first_nonzero (map (\<lambda>c. c x y) cs)"] by simp
qed (simp add: comparison_zero)

text \<open>The comparisons of the code: \<open>CMP\<close> on nonnegative numbers, strcmp, memcmp.\<close>

lemma CMP_sgn:
  assumes "int_field a" "int_field b"
  shows "CMP a b = sgn (a - b)"
proof -
  have "- 2147483648 \<le> a - b" "a - b < 2147483648"
    using assms by (auto simp: int_field_def INT32_MAX_def)
  then have "signed_take_bit 31 (a - b) = a - b"
    by (intro signed_take_bit_int_eq_self) simp_all
  then have "sint ((word_of_int a :: 32 word) - word_of_int b) = a - b"
    by (simp only: wi_hom_sub sint_sbintrunc') simp
  then show ?thesis by (simp add: CMP_def sgn_if)
qed

interpretation cmp_int: comparison "Collect int_field" CMP
  by unfold_locales (simp_all add: CMP_sgn sgn_if split: if_splits)

interpretation cmp_str: comparison UNIV strcmp
  by unfold_locales (rule strcmp_anti, rule strcmp_trans)

interpretation cmp_mem: comparison "{d. length d = n}" memcmp
  by unfold_locales (rule memcmp_anti, metis (mono_tags) mem_Collect_eq memcmp_trans)

lemma CMP_zero: "int_field a \<Longrightarrow> int_field b \<Longrightarrow> CMP a b = 0 \<longleftrightarrow> a = b"
  by (auto simp: CMP_sgn sgn_if)

definition hash_compare :: "tor_version \<Rightarrow> tor_version \<Rightarrow> int" where
  "hash_compare a b = first_nonzero
     [CMP (int (v_git_tag_len a)) (int (v_git_tag_len b)),
      if v_git_tag_len a \<noteq> 0
      then memcmp (take (v_git_tag_len a) (v_git_tag a)) (take (v_git_tag_len a) (v_git_tag b))
      else 0]"

definition ordered_version :: "tor_version \<Rightarrow> bool" where
  "ordered_version v \<longleftrightarrow> version_ok v \<and> 0 \<le> v_svn_revision v"

lemma ordered_fields:
  assumes "ordered_version v"
  shows "int_field (v_major v)" "int_field (v_minor v)" "int_field (v_micro v)" "int_field (v_patchlevel v)"
    "int_field (v_svn_revision v)" "int_field (int (v_git_tag_len v))" "int_field (ver_int (v_status v))"
    "v_git_tag_len v \<le> 20" "length (v_git_tag v) = 20"
    "drop (v_git_tag_len v) (v_git_tag v) = replicate (20 - v_git_tag_len v) 0"
  using assms by (cases "v_status v"; simp add: ordered_version_def version_ok_def int_field_def INT32_MAX_def GIT_TAG_SIZE_def)+

lemma hash_compare_eq:
  assumes "ordered_version a" "ordered_version b"
  shows "hash_compare a b =
    (if v_git_tag_len a < v_git_tag_len b then - 1 else if v_git_tag_len b < v_git_tag_len a then 1
     else memcmp (take (v_git_tag_len a) (v_git_tag a)) (take (v_git_tag_len b) (v_git_tag b)))"
  using ordered_fields [OF assms(1)] ordered_fields [OF assms(2)]
  by (auto simp: hash_compare_def CMP_sgn sgn_if)

interpretation hash_order: comparison "Collect ordered_version" hash_compare
proof unfold_locales
  fix x y assume "x \<in> Collect ordered_version" "y \<in> Collect ordered_version"
  then show "hash_compare y x = - hash_compare x y"
    by (auto simp: hash_compare_eq intro: memcmp_anti)
next
  fix x y z
  assume m: "x \<in> Collect ordered_version" "y \<in> Collect ordered_version" "z \<in> Collect ordered_version"
    and le: "hash_compare x y \<le> 0" "hash_compare y z \<le> 0"
  let ?t = "\<lambda>v. take (v_git_tag_len v) (v_git_tag v)"
  show "hash_compare x z \<le> 0"
  proof (cases "v_git_tag_len x = v_git_tag_len y \<and> v_git_tag_len y = v_git_tag_len z")
    case True
    moreover have "length (?t x) = length (?t y)" "length (?t y) = length (?t z)"
      using True m ordered_fields(9) by simp_all
    ultimately show ?thesis using le m memcmp_trans [of "?t x" "?t y" "?t z"] by (simp add: hash_compare_eq)
  next
    case False
    then show ?thesis using le m by (auto simp: hash_compare_eq split: if_splits)
  qed
qed

subsection \<open>The order of versions\<close>

definition version_comparisons :: "(tor_version \<Rightarrow> tor_version \<Rightarrow> int) list" where
  "version_comparisons =
     [\<lambda>a b. CMP (v_major a) (v_major b), \<lambda>a b. CMP (v_minor a) (v_minor b), \<lambda>a b. CMP (v_micro a) (v_micro b),
      \<lambda>a b. CMP (ver_int (v_status a)) (ver_int (v_status b)), \<lambda>a b. CMP (v_patchlevel a) (v_patchlevel b),
      \<lambda>a b. strcmp (v_status_tag a) (v_status_tag b), \<lambda>a b. CMP (v_svn_revision a) (v_svn_revision b),
      hash_compare]"

lemma tor_version_compare_list:
  "tor_version_compare a b = first_nonzero (map (\<lambda>c. c a b) version_comparisons)"
  unfolding tor_version_compare_def version_comparisons_def hash_compare_def by simp

lemma version_comparisons_ok: "list_all (comparison (Collect ordered_version)) version_comparisons"
proof -
  have i: "comparison (Collect ordered_version) (\<lambda>a b. CMP (f a) (f b))"
    if "\<And>v. ordered_version v \<Longrightarrow> int_field (f v)" for f
    using that by (intro comparison_on [OF cmp_int.comparison_axioms]) simp
  show ?thesis
    unfolding version_comparisons_def
    by (simp add: i ordered_fields hash_order.comparison_axioms comparison_on [OF cmp_str.comparison_axioms])
qed

interpretation version_order: comparison "Collect ordered_version" tor_version_compare
proof -
  have "tor_version_compare = (\<lambda>a b. first_nonzero (map (\<lambda>c. c a b) version_comparisons))"
    by (intro ext) (rule tor_version_compare_list)
  then show "comparison (Collect ordered_version) tor_version_compare"
    using comparison_first_nonzero [OF version_comparisons_ok] by simp
qed

lemma first_nonzero_zero: "first_nonzero cs = 0 \<longleftrightarrow> list_all (\<lambda>c. c = 0) cs"
  by (induction cs) auto

lemma hash_compare_zero:
  assumes "ordered_version a" "ordered_version b" "hash_compare a b = 0"
  shows "v_git_tag_len a = v_git_tag_len b" "v_git_tag a = v_git_tag b"
proof -
  show len: "v_git_tag_len a = v_git_tag_len b"
    using assms by (auto simp: hash_compare_eq split: if_splits)
  have "take (v_git_tag_len a) (v_git_tag a) = take (v_git_tag_len b) (v_git_tag b)"
    using assms len ordered_fields(9) [OF assms(1)] ordered_fields(9) [OF assms(2)]
    by (simp add: hash_compare_eq memcmp_zero)
  then show "v_git_tag a = v_git_tag b"
    using ordered_fields(10) [OF assms(1)] ordered_fields(10) [OF assms(2)] len by (metis append_take_drop_id)
qed

lemma ver_int_inject: "ver_int a = ver_int b \<longleftrightarrow> a = b"
  by (cases a; cases b) simp_all

lemma version_compare_zero:
  assumes "ordered_version a" "ordered_version b"
  shows "tor_version_compare a b = 0 \<longleftrightarrow> a = b"
proof
  assume "tor_version_compare a b = 0"
  then have "list_all (\<lambda>c. c a b = 0) version_comparisons"
    by (simp add: tor_version_compare_list first_nonzero_zero list_all_iff)
  then show "a = b"
    using ordered_fields [OF assms(1)] ordered_fields [OF assms(2)] hash_compare_zero [OF assms]
    by (auto simp: version_comparisons_def CMP_zero ver_int_inject intro: tor_version.equality)
qed (use version_order.refl [of a] assms in simp)

text \<open>C22: On versions as the parser leaves them, with revisions that are not negative,
  tor_version_compare is a linear order: swapping the arguments swaps the sign, it is transitive, and
  it is 0 only on versions that agree in every field, so the wrapping subtractions in it do no harm.\<close>

theorem tor_version_order:
  assumes "tor_version_parse s = Some a" "tor_version_parse t = Some b" "tor_version_parse u = Some c"
    and "0 \<le> v_svn_revision a" "0 \<le> v_svn_revision b" "0 \<le> v_svn_revision c"
  shows "tor_version_compare b a = - tor_version_compare a b
    \<and> (tor_version_compare a b = 0 \<longleftrightarrow> a = b)
    \<and> (tor_version_compare a b \<le> 0 \<and> tor_version_compare b c \<le> 0 \<longrightarrow> tor_version_compare a c \<le> 0)"
proof -
  have o: "ordered_version a" "ordered_version b" "ordered_version c"
    using assms parse_version_ok by (simp_all add: ordered_version_def)
  show ?thesis
    using version_order.anti [of a b] version_order.trans_le [of a b c] version_compare_zero [of a b] o by simp
qed

text \<open>C27: Whatever string it is given, the version parser either fails or leaves a well-formed
  structure: the four numbers between 0 and INT32_MAX, the revision in the range of an int, the status
  tag and the git hash within their arrays, zero behind the hash.\<close>

theorem tor_version_parse_well_typed:
  assumes "tor_version_parse s = Some v"
  shows "version_ok v"
  using assms by (rule parse_version_ok)

subsection \<open>Concrete versions\<close>

lemma sint_word32: "sint (word_of_int k :: 32 word) =
   (let m = k mod 4294967296 in if m < 2147483648 then m else m - 4294967296)"
proof -
  have "sint (word_of_int k :: 32 word) = (k + 2147483648) mod 4294967296 - 2147483648"
    by (simp add: sint_sbintrunc' signed_take_bit_eq_take_bit_shift take_bit_eq_mod)
  then show ?thesis
    by (simp add: Let_def mod_add_eq [of k _ 2147483648, symmetric] mod_pos_pos_trivial)
      (smt (verit, ccfv_threshold) mod_pos_pos_trivial pos_mod_bound pos_mod_sign mod_add_self2 mod_add_left_eq minus_mod_self2)
qed

lemma int_of_long_code: "int_of_long v = (let m = v mod 4294967296 in if m < 2147483648 then m else m - 4294967296)"
  by (simp add: int_of_long_def sint_word32)

lemma CMP_code: "CMP a b = (let m = (a - b) mod 4294967296 in if m = 0 then 0 else if m < 2147483648 then 1 else - 1)"
proof -
  define m where "m = (a - b) mod 4294967296"
  then have "0 \<le> m" "m < 4294967296" by simp_all
  then show ?thesis
    unfolding CMP_def wi_hom_sub sint_word32 m_def [symmetric] by (simp add: Let_def)
qed

lemma NUMBER_digits:
  assumes "\<And>c. c \<in> set ds \<Longrightarrow> TOR_ISDIGIT c" "ds \<noteq> []" "rest = [] \<or> \<not> TOR_ISDIGIT (hd rest)"
    "int (digits_value 10 ds) \<le> INT32_MAX"
  shows "NUMBER (ds @ rest) = Some (int (digits_value 10 ds), rest)"
proof -
  have split: "takeWhile TOR_ISDIGIT (ds @ rest) = ds" "dropWhile TOR_ISDIGIT (ds @ rest) = rest"
    using takeWhile_all_stop [of ds TOR_ISDIGIT rest] dropWhile_all_stop [of ds TOR_ISDIGIT rest] assms by blast+
  have "TOR_ISDIGIT (cur (ds @ rest))" using assms(1,2) by (cases ds) auto
  then show ?thesis
    using assms(2,4)
    by (simp add: NUMBER_def tor_parse_uint64_def strtoul_def strtox_digit split CHECK_STRTOX_RESULT_def Let_def
        ULONG_MAX_def INT32_MAX_def)
qed

lemma NUMBER_1: "TOR_ISDIGIT d \<Longrightarrow> rest = [] \<or> \<not> TOR_ISDIGIT (hd rest) \<Longrightarrow> NUMBER (d # rest) = Some (int (digit_val d), rest)"
  using NUMBER_digits [of "[d]" rest] by (simp add: digits_value_def TOR_ISDIGIT_digit_val INT32_MAX_def)

lemma strtol_decimal:
  assumes "rest = [] \<or> \<not> TOR_ISDIGIT (hd rest)" "int n \<le> LONG_MAX"
  shows "fst (strtol (decimal n @ rest) 10) = int n"
  using assms by (simp add: strtol_def strtox_decimal LONG_MIN_def)

lemma version_with_revision:
  assumes "int n \<le> LONG_MAX"
  shows "tor_version_parse (''0.1.0.1 (r'' @ decimal n @ '')'') =
    Some (version_zero\<lparr>v_minor := 1, v_patchlevel := 1, v_svn_revision := int_of_long (int n)\<rparr>)"
  using strtol_decimal [of "'')''" n] assms
  by (simp add: tor_version_parse_def strcasecmpstart_iff tor_strlower_def NUMBER_1 DOT_def parse_after_minor_def
      parse_after_micro_def parse_patchlevel_def parse_status_tag_def parse_revision_def find_whitespace_def
      TOR_ISDIGIT_iff byte_between_def TOR_TOLOWER_iff TOR_ISUPPER_iff is_ws_def digit_val_def Let_def version_zero_def
      MAX_STATUS_TAG_LEN_def)

lemma int_of_long_values:
  "int_of_long 0 = 0" "int_of_long 1500000000 = 1500000000" "int_of_long 3000000000 = - 1294967296"
  by (simp_all add: int_of_long_code)

text \<open>C40: With negative revisions the order breaks: the three versions 0.1.0.1 with the revisions
  0, 1500000000 and 3000000000 (read into an int as -1294967296) parse, and each compares as older
  than the next, in a circle.\<close>

theorem tor_version_compare_cycle:
  "\<exists>s t u a b c. tor_version_parse s = Some a \<and> tor_version_parse t = Some b \<and> tor_version_parse u = Some c
     \<and> tor_version_compare a b < 0 \<and> tor_version_compare b c < 0 \<and> tor_version_compare c a < 0"
proof -
  let ?v = "\<lambda>i. version_zero\<lparr>v_minor := 1, v_patchlevel := 1, v_svn_revision := i\<rparr>"
  have "tor_version_compare (?v 0) (?v 1500000000) < 0"
    "tor_version_compare (?v 1500000000) (?v (- 1294967296)) < 0"
    "tor_version_compare (?v (- 1294967296)) (?v 0) < 0"
    by (simp_all add: tor_version_compare_def CMP_code version_zero_def)
  then show ?thesis
    using version_with_revision [of 0] version_with_revision [of 1500000000] version_with_revision [of 3000000000]
    by (simp add: int_of_long_values LONG_MAX_def) blast
qed

theorem tor_version_order_witness:
  "\<exists>a b. tor_version_parse (''0.1.0.1 (r'' @ decimal 1 @ '')'') = Some a
      \<and> tor_version_parse (''0.1.0.1 (r'' @ decimal 2 @ '')'') = Some b
      \<and> tor_version_compare b a = - tor_version_compare a b"
  using version_with_revision [of 1] version_with_revision [of 2]
    tor_version_order [of "''0.1.0.1 (r'' @ decimal 1 @ '')''" _ "''0.1.0.1 (r'' @ decimal 2 @ '')''" _
      "''0.1.0.1 (r'' @ decimal 2 @ '')''"]
  by (simp add: LONG_MAX_def int_of_long_code)

theorem tor_version_parse_well_typed_witness:
  "version_ok (version_zero\<lparr>v_minor := 1, v_patchlevel := 1, v_svn_revision := int_of_long 7\<rparr>)"
  using version_with_revision [of 7] by (intro tor_version_parse_well_typed) (simp add: LONG_MAX_def)

text \<open>The guess for an unknown version has no effect: without "Tor" in front it is not a platform.\<close>

lemma old_tor_default: "protover_compute_for_old_tor None = []"
  by (simp add: protover_compute_for_old_tor_def tor_version_as_new_as_def tor_version_parse_platform_def
      tor_version_parse_def strcasecmpstart_iff tor_strlower_def NUMBER_1 DOT_def parse_after_minor_def
      parse_after_micro_def parse_patchlevel_def parse_status_tag_def parse_revision_def find_whitespace_def
      TOR_ISDIGIT_iff byte_between_def TOR_TOLOWER_iff TOR_ISUPPER_iff is_ws_def digit_val_def Let_def version_zero_def
      MAX_STATUS_TAG_LEN_def)

subsection \<open>Sorting a list of versions\<close>

definition comparable_string :: "cstring \<Rightarrow> bool" where
  "comparable_string s = (case tor_version_parse s of None \<Rightarrow> True | Some v \<Rightarrow> 0 \<le> v_svn_revision v)"

interpretation string_order: comparison "Collect comparable_string" compare_tor_version_str_ptr_fn
proof unfold_locales
  fix x y assume m: "x \<in> Collect comparable_string" "y \<in> Collect comparable_string"
  show "compare_tor_version_str_ptr_fn y x = - compare_tor_version_str_ptr_fn x y"
  proof (cases "tor_version_parse x = None \<or> tor_version_parse y = None")
    case True
    then show ?thesis
      using strcmp_anti [of x y] by (auto simp: compare_tor_version_str_ptr_fn_def split: option.splits)
  next
    case False
    then obtain a b where p: "tor_version_parse x = Some a" "tor_version_parse y = Some b" by auto
    then have "ordered_version a" "ordered_version b"
      using m parse_version_ok by (auto simp: comparable_string_def ordered_version_def)
    then show ?thesis
      using p version_order.anti [of a b] by (simp add: compare_tor_version_str_ptr_fn_def)
  qed
next
  fix x y z
  assume m: "x \<in> Collect comparable_string" "y \<in> Collect comparable_string" "z \<in> Collect comparable_string"
    and le: "compare_tor_version_str_ptr_fn x y \<le> 0" "compare_tor_version_str_ptr_fn y z \<le> 0"
  show "compare_tor_version_str_ptr_fn x z \<le> 0"
  proof (cases "tor_version_parse x")
    case None
    then have "tor_version_parse y = None" "tor_version_parse z = None"
      using le by (auto simp: compare_tor_version_str_ptr_fn_def split: option.splits)
    then show ?thesis using le None strcmp_trans by (simp add: compare_tor_version_str_ptr_fn_def)
  next
    case (Some a)
    show ?thesis
    proof (cases "tor_version_parse z")
      case None
      with Some show ?thesis by (simp add: compare_tor_version_str_ptr_fn_def)
    next
      case c: (Some c)
      then obtain b where b: "tor_version_parse y = Some b"
        using le by (auto simp: compare_tor_version_str_ptr_fn_def split: option.splits)
      have "ordered_version a" "ordered_version b" "ordered_version c"
        using m Some b c parse_version_ok by (auto simp: comparable_string_def ordered_version_def)
      then show ?thesis
        using le Some b c version_order.trans_le [of a b c] by (simp add: compare_tor_version_str_ptr_fn_def)
    qed
  qed
qed

text \<open>What the C standard promises of \<open>qsort\<close>, for a comparison that is one.\<close>

definition qsort_contract :: "(('a \<Rightarrow> 'a \<Rightarrow> int) \<Rightarrow> 'a list \<Rightarrow> 'a list) \<Rightarrow> bool" where
  "qsort_contract qsort \<longleftrightarrow>
     (\<forall>S cmp xs. comparison S cmp \<longrightarrow> set xs \<subseteq> S \<longrightarrow>
        mset (qsort cmp xs) = mset xs \<and> sorted_wrt (\<lambda>x y. cmp x y \<le> 0) (qsort cmp xs))"

fun insert_by :: "('a \<Rightarrow> 'a \<Rightarrow> int) \<Rightarrow> 'a \<Rightarrow> 'a list \<Rightarrow> 'a list" where
  "insert_by cmp x [] = [x]"
| "insert_by cmp x (y # ys) = (if cmp x y \<le> 0 then x # y # ys else y # insert_by cmp x ys)"

definition insertion_sort :: "('a \<Rightarrow> 'a \<Rightarrow> int) \<Rightarrow> 'a list \<Rightarrow> 'a list" where
  "insertion_sort cmp xs = foldr (insert_by cmp) xs []"

lemma mset_insert_by [simp]: "mset (insert_by cmp x ys) = add_mset x (mset ys)"
  by (induction ys) auto

lemma set_insert_by: "set (insert_by cmp x ys) = insert x (set ys)"
  by (induction ys) auto

lemma sorted_insert_by:
  assumes "comparison S cmp" "x \<in> S"
  shows "set ys \<subseteq> S \<Longrightarrow> sorted_wrt (\<lambda>x y. cmp x y \<le> 0) ys \<Longrightarrow>
    sorted_wrt (\<lambda>x y. cmp x y \<le> 0) (insert_by cmp x ys)"
proof (induction ys)
  case (Cons y ys)
  have y: "y \<in> S" using Cons.prems by simp
  show ?case
  proof (cases "cmp x y \<le> 0")
    case True
    have "cmp x z \<le> 0" if "z \<in> set ys" for z
    proof -
      have "z \<in> S" "cmp y z \<le> 0" using Cons.prems that by auto
      then show ?thesis using comparison.trans_le [OF assms(1,2) y, of z] True by simp
    qed
    with True Cons.prems show ?thesis by simp
  next
    case False
    then have "cmp y x \<le> 0" using comparison.anti [OF assms y] by simp
    with False Cons show ?thesis by (simp add: set_insert_by)
  qed
qed simp

lemma insertion_sort_contract: "qsort_contract insertion_sort"
proof -
  have "mset (insertion_sort cmp xs) = mset xs \<and> sorted_wrt (\<lambda>x y. cmp x y \<le> 0) (insertion_sort cmp xs)"
    if S: "comparison S cmp" "set xs \<subseteq> S" for S and cmp :: "'a \<Rightarrow> 'a \<Rightarrow> int" and xs
    using S(2)
  proof (induction xs)
    case (Cons x xs)
    then have "set (insertion_sort cmp xs) \<subseteq> S"
      by (metis insert_subset list.simps(15) set_mset_mset)
    with Cons show ?case
      using sorted_insert_by [OF S(1), of x "insertion_sort cmp xs"] by (simp add: insertion_sort_def)
  qed (simp add: insertion_sort_def)
  then show ?thesis unfolding qsort_contract_def by blast
qed

text \<open>Sorting a list of version strings: with a correct qsort and no negative revisions the result
  has the same members in ascending order, and with remove_duplicates it is strictly ascending and has
  a member equal in order to every string of the input.\<close>

theorem sort_version_list_sorted:
  assumes "qsort_contract qsort" "list_all comparable_string versions"
  defines "cmp \<equiv> compare_tor_version_str_ptr_fn"
  shows "mset (sort_version_list qsort versions False) = mset versions
    \<and> sorted_wrt (\<lambda>s t. cmp s t \<le> 0) (sort_version_list qsort versions False)
    \<and> sorted_wrt (\<lambda>s t. cmp s t < 0) (sort_version_list qsort versions True)
    \<and> set (sort_version_list qsort versions True) \<subseteq> set versions
    \<and> list_all (\<lambda>s. list_ex (\<lambda>t. cmp s t = 0) (sort_version_list qsort versions True)) versions"
proof -
  let ?q = "qsort cmp versions"
  have v: "set versions \<subseteq> Collect comparable_string"
    using assms(2) by (auto simp: list_all_iff)
  then have q: "mset ?q = mset versions" "sorted_wrt (\<lambda>x y. cmp x y \<le> 0) ?q"
    using assms(1) string_order.comparison_axioms unfolding qsort_contract_def cmp_def by blast+
  then have s: "set ?q = set versions" by (metis set_mset_mset)
  with v have "set ?q \<subseteq> Collect comparable_string" by simp
  note u = string_order.uniq_sorted [OF this [unfolded cmp_def] q(2) [unfolded cmp_def], folded cmp_def]
  show ?thesis
    using q s u by (auto simp: sort_version_list_def cmp_def [symmetric] list_all_iff list_ex_iff Let_def)
qed

theorem sort_version_list_sorted_witness:
  "sort_version_list insertion_sort [''b'', ''a'', ''b''] True = [''a'', ''b'']
   \<and> list_all (\<lambda>s. list_ex (\<lambda>t. compare_tor_version_str_ptr_fn s t = 0)
        (sort_version_list insertion_sort [''b'', ''a'', ''b''] True)) [''b'', ''a'', ''b'']"
proof -
  have n: "tor_version_parse ''a'' = None" "tor_version_parse ''b'' = None"
    by (simp_all add: tor_version_parse_def NUMBER_def strcasecmpstart_iff tor_strlower_def TOR_ISDIGIT_iff
        byte_between_def TOR_TOLOWER_iff TOR_ISUPPER_iff)
  have "list_all comparable_string [''b'', ''a'', ''b'']"
    by (simp add: comparable_string_def n)
  from sort_version_list_sorted [OF insertion_sort_contract this] show ?thesis
    by (simp add: sort_version_list_def insertion_sort_def compare_tor_version_str_ptr_fn_def n smartlist_uniq_adj)
qed

subsection \<open>The status of a version\<close>

text \<open>The versions of a recommended list that parse, in its order.\<close>

definition strip_Tor :: "cstring \<Rightarrow> cstring" where
  "strip_Tor cp = (if strcmpstart cp ''Tor '' = 0 then drop 4 cp else cp)"

definition version_split :: split_flags where
  "version_split = \<lparr>SPLIT_SKIP_SPACE = True, SPLIT_IGNORE_BLANK = False, SPLIT_STRIP_SPACE = False\<rparr>"

definition listed_versions :: "cstring \<Rightarrow> tor_version list" where
  "listed_versions versionlist =
     (case smartlist_split_string [] versionlist (Some '','') version_split 0 of
        None \<Rightarrow> []
      | Some (sl, _) \<Rightarrow> List.map_filter (\<lambda>cp. tor_version_parse (strip_Tor cp)) sl)"

text \<open>
  What the comment of \<open>tor_version_is_obsolete\<close> says, in its order; the members of the list are the
  pieces that parse, since the others "are ignored".
\<close>

definition doc_status :: "tor_version \<Rightarrow> tor_version list \<Rightarrow> version_status" where
  "doc_status mine vs =
     (let newer = (\<lambda>v. tor_version_compare mine v < 0);
          older = (\<lambda>v. tor_version_compare mine v > 0);
          in_series = (\<lambda>v. (v_major v, v_minor v, v_micro v) = (v_major mine, v_minor mine, v_micro mine))
      in if list_ex (\<lambda>v. tor_version_compare mine v = 0) vs then VS_RECOMMENDED
         else if vs = [] then VS_EMPTY
         else if list_all newer vs then VS_OLD
         else if list_ex in_series vs \<and> \<not> list_ex (\<lambda>v. in_series v \<and> newer v) vs then VS_NEW_IN_SERIES
         else if list_all older vs then VS_NEW
         else VS_UNRECOMMENDED)"

lemma obsolete_loop_None:
  "tor_version_parse (strip_Tor cp) = None \<Longrightarrow> obsolete_loop mine (cp # sl) fl = obsolete_loop mine sl fl"
  unfolding obsolete_loop.simps strip_Tor_def [symmetric] by simp

lemma obsolete_loop_Some:
  "tor_version_parse (strip_Tor cp) = Some v \<Longrightarrow> obsolete_loop mine (cp # sl) fl =
     (if tor_version_compare mine v = 0 then None
      else obsolete_loop mine sl
        \<lparr>found_newer = (found_newer fl \<or> tor_version_compare mine v < 0),
         found_older = (found_older fl \<or> tor_version_compare mine v > 0),
         found_newer_in_series = (found_newer_in_series fl
            \<or> tor_version_same_series mine v \<and> tor_version_compare mine v < 0),
         found_any_in_series = (found_any_in_series fl \<or> tor_version_same_series mine v)\<rparr>)"
  unfolding obsolete_loop.simps strip_Tor_def [symmetric]
  by (cases fl; cases "tor_version_same_series mine v";
      cases "tor_version_compare mine v < 0") (simp_all add: Let_def)

lemma obsolete_loop_spec:
  "obsolete_loop mine sl fl =
     (let vs = List.map_filter (\<lambda>cp. tor_version_parse (strip_Tor cp)) sl
      in if list_ex (\<lambda>v. tor_version_compare mine v = 0) vs then None
         else Some \<lparr>found_newer = (found_newer fl \<or> list_ex (\<lambda>v. tor_version_compare mine v < 0) vs),
                    found_older = (found_older fl \<or> list_ex (\<lambda>v. tor_version_compare mine v > 0) vs),
                    found_newer_in_series = (found_newer_in_series fl
                       \<or> list_ex (\<lambda>v. tor_version_same_series mine v \<and> tor_version_compare mine v < 0) vs),
                    found_any_in_series = (found_any_in_series fl \<or> list_ex (tor_version_same_series mine) vs)\<rparr>)"
proof (induction sl arbitrary: fl)
  case Nil
  then show ?case by (simp add: List.map_filter_def)
next
  case (Cons cp sl)
  show ?case
  proof (cases "tor_version_parse (strip_Tor cp)")
    case None
    then show ?thesis
      using Cons.IH [of fl] by (simp add: obsolete_loop_None List.map_filter_simps del: obsolete_loop.simps)
  next
    case (Some v)
    then show ?thesis
      by (simp add: obsolete_loop_Some List.map_filter_simps Cons.IH Let_def disj_assoc del: obsolete_loop.simps)
  qed
qed

lemma split_versions_returns: "\<exists>r. smartlist_split_string [] s (Some '','') version_split 0 = Some r"
proof -
  obtain r where "split_loop (Some '','') version_split 0 s 0 = Some r"
    using split_loop_returns [of "Some '',''" version_split 0 s 0] by auto
  then show ?thesis by (simp add: smartlist_split_string_def)
qed

text \<open>Concrete lists: pieces without commas and spaces.\<close>

definition plain_piece :: "cstring \<Rightarrow> bool" where
  "plain_piece cp \<longleftrightarrow> list_all (\<lambda>c. c \<noteq> CHR '','' \<and> \<not> TOR_ISSPACE c) cp"

lemma split_versions:
  assumes "plain_piece cp"
  shows "split_loop (Some '','') version_split 0 cp n = Some [cp]"
    and "split_loop (Some '','') version_split 0 (cp @ CHR '','' # rest) n =
      Option.bind (split_loop (Some '','') version_split 0 rest (n + 1)) (\<lambda>r. Some (cp # r))"
proof -
  have comma: "\<not> TOR_ISSPACE (CHR '','')" by (simp add: TOR_ISSPACE_iff byte_between_def)
  have c: "CHR '','' \<notin> set cp" and s: "\<forall>c \<in> set cp. \<not> TOR_ISSPACE c"
    using assms by (auto simp: plain_piece_def list_all_iff)
  have right: "strip_right cp = cp"
    using s by (cases cp rule: rev_cases) (simp_all add: strip_right_def)
  have "dropWhile TOR_ISSPACE cp = cp" using s by (cases cp) simp_all
  moreover have "split_end (Some '','') 0 cp n = length cp"
    using c memchr_None [of cp "CHR '',''"] by (simp add: split_end_def strstr_single)
  ultimately show "split_loop (Some '','') version_split 0 cp n = Some [cp]"
    using right by (simp add: split_loop.simps [of "Some '',''"] version_split_def Let_def split_next_def split_piece_def)
  let ?s = "cp @ CHR '','' # rest"
  have "dropWhile TOR_ISSPACE ?s = ?s" using s comma by (cases cp) simp_all
  moreover have "split_end (Some '','') 0 ?s n = length cp"
    using c by (simp add: split_end_def strstr_single memchr_append)
  ultimately show "split_loop (Some '','') version_split 0 ?s n =
      Option.bind (split_loop (Some '','') version_split 0 rest (n + 1)) (\<lambda>r. Some (cp # r))"
    using right by (simp add: split_loop.simps [of "Some '',''" _ _ ?s] version_split_def Let_def split_next_def split_piece_def)
qed

text \<open>Short versions: \<open>short_version 1 2\<close> is 0.1.0.2.\<close>

definition short_version :: "nat \<Rightarrow> nat \<Rightarrow> tor_version" where
  "short_version minor patch = version_zero\<lparr>v_minor := int minor, v_patchlevel := int patch\<rparr>"

lemma version_short:
  assumes "TOR_ISDIGIT d" "TOR_ISDIGIT e"
  shows "tor_version_parse [CHR ''0'', CHR ''.'', d, CHR ''.'', CHR ''0'', CHR ''.'', e] =
    Some (short_version (digit_val d) (digit_val e))"
proof -
  have "digit_val (CHR ''0'') = 0" by (simp add: digit_val_def)
  then show ?thesis using assms
    by (simp add: tor_version_parse_def strcasecmpstart_iff tor_strlower_def NUMBER_1 DOT_def parse_after_minor_def
      parse_after_micro_def parse_patchlevel_def parse_status_tag_def parse_revision_def find_whitespace_def
      TOR_ISDIGIT_iff byte_between_def TOR_TOLOWER_iff TOR_ISUPPER_iff is_ws_def Let_def version_zero_def
      MAX_STATUS_TAG_LEN_def cur_def short_version_def)
qed

lemma nothing_parses: "tor_version_parse [] = None"
  by (simp add: tor_version_parse_def strcasecmpstart_iff tor_strlower_def NUMBER_def cur_def TOR_ISDIGIT_iff byte_between_def NUL_def)

text \<open>The lists "0.1.0.1", "0.1.0.1,0.2.0.1" and ",".\<close>

lemma listed_examples:
  "listed_versions ''0.1.0.1'' = [short_version 1 1]"
  "listed_versions ''0.1.0.1,0.2.0.1'' = [short_version 1 1, short_version 2 1]"
  "listed_versions '','' = []"
proof -
  have p: "plain_piece []" "plain_piece ''0.1.0.1''" "plain_piece ''0.2.0.1''"
    by (simp_all add: plain_piece_def TOR_ISSPACE_iff byte_between_def)
  have d: "TOR_ISDIGIT (CHR ''1'')" "TOR_ISDIGIT (CHR ''2'')" "digit_val (CHR ''1'') = 1" "digit_val (CHR ''2'') = 2"
    by (simp_all add: TOR_ISDIGIT_iff byte_between_def digit_val_def)
  show "listed_versions ''0.1.0.1'' = [short_version 1 1]"
    using split_versions(1) [OF p(2), of 0] d
    by (simp add: listed_versions_def smartlist_split_string_def List.map_filter_simps version_short strip_Tor_def)
  show "listed_versions ''0.1.0.1,0.2.0.1'' = [short_version 1 1, short_version 2 1]"
    using split_versions(2) [OF p(2), of "''0.2.0.1''" 0] split_versions(1) [OF p(3), of 1] d
    by (simp add: listed_versions_def smartlist_split_string_def List.map_filter_simps version_short strip_Tor_def)
  show "listed_versions '','' = []"
    using split_versions(2) [OF p(1), of "[]" 0] split_versions(1) [OF p(1), of 1]
    by (simp add: listed_versions_def smartlist_split_string_def List.map_filter_simps nothing_parses strip_Tor_def)
qed

lemma short_version_order:
  "i < 100 \<Longrightarrow> j < 100 \<Longrightarrow> k < 100 \<Longrightarrow> l < 100 \<Longrightarrow> tor_version_compare (short_version i j) (short_version k l) =
    (if i < k then - 1 else if k < i then 1 else if j < l then - 1 else if l < j then 1 else 0)"
  by (auto simp: tor_version_compare_def short_version_def version_zero_def CMP_sgn sgn_if int_field_def INT32_MAX_def)

lemma listed_nothing: "listed_versions [] = []"
  using split_versions(1) [of "[]" 0]
  by (simp add: plain_piece_def listed_versions_def smartlist_split_string_def List.map_filter_simps nothing_parses strip_Tor_def)

text \<open>The comment's statuses by what the loop looks for.\<close>

lemma doc_status_flags:
  "\<not> list_ex (\<lambda>v. tor_version_compare mine v = 0) vs \<Longrightarrow> vs \<noteq> [] \<Longrightarrow>
    doc_status mine vs =
      (if \<not> list_ex (\<lambda>v. tor_version_compare mine v > 0) vs then VS_OLD
       else if list_ex (tor_version_same_series mine) vs
               \<and> \<not> list_ex (\<lambda>v. tor_version_same_series mine v \<and> tor_version_compare mine v < 0) vs then VS_NEW_IN_SERIES
       else if \<not> list_ex (\<lambda>v. tor_version_compare mine v < 0) vs then VS_NEW
       else VS_UNRECOMMENDED)"
proof -
  assume ne: "\<not> list_ex (\<lambda>v. tor_version_compare mine v = 0) vs" "vs \<noteq> []"
  then have all: "list_all (\<lambda>v. tor_version_compare mine v < 0) vs = (\<not> list_ex (\<lambda>v. tor_version_compare mine v > 0) vs)"
    "list_all (\<lambda>v. tor_version_compare mine v > 0) vs = (\<not> list_ex (\<lambda>v. tor_version_compare mine v < 0) vs)"
    by (force simp: list_all_iff list_ex_iff not_less order_le_less)+
  have series: "(v_major v, v_minor v, v_micro v) = (v_major mine, v_minor mine, v_micro mine) \<longleftrightarrow> tor_version_same_series mine v" for v
    by (auto simp: tor_version_same_series_def)
  show ?thesis using ne by (simp only: doc_status_def Let_def series all if_False)
qed

text \<open>C25: The verdict of tor_version_is_obsolete on a parseable version of its own, against its comment.  It
  always ends, and it is the status that the comment gives, with two exceptions.  When nothing in a
  list that is not the empty string parses, it answers VS_UNRECOMMENDED where the comment says VS_EMPTY
  (or VS_OLD, if the ignored pieces count as entries: then every member that parses is newer, vacuously).
  When the comment says VS_NEW_IN_SERIES but every listed version is older, so that no later recommended
  version exists, it answers VS_NEW, which is what the comments on the enum in versions.h say.\<close>

theorem tor_version_status_correct:
  assumes "tor_version_parse myversion = Some mine"
  shows "tor_version_is_obsolete myversion versionlist =
    Some (let vs = listed_versions versionlist
          in if vs = [] \<and> versionlist \<noteq> [] then VS_UNRECOMMENDED
             else if doc_status mine vs = VS_NEW_IN_SERIES \<and> list_all (\<lambda>v. tor_version_compare mine v > 0) vs then VS_NEW
             else doc_status mine vs)"
proof -
  obtain sl n where sp: "smartlist_split_string [] versionlist (Some '','') version_split 0 = Some (sl, n)"
    using split_versions_returns [of versionlist] by auto
  let ?vs = "List.map_filter (\<lambda>cp. tor_version_parse (strip_Tor cp)) sl"
  let ?some = "\<lambda>P. list_ex P ?vs"
  let ?cmp = "tor_version_compare mine"
  have l: "listed_versions versionlist = ?vs" by (simp add: listed_versions_def sp)
  have code: "tor_version_is_obsolete myversion versionlist = Some (
      if versionlist = [] then VS_EMPTY else if ?some (\<lambda>v. ?cmp v = 0) then VS_RECOMMENDED
      else obsolete_verdict \<lparr>found_newer = ?some (\<lambda>v. ?cmp v < 0), found_older = ?some (\<lambda>v. ?cmp v > 0),
        found_newer_in_series = ?some (\<lambda>v. tor_version_same_series mine v \<and> ?cmp v < 0),
        found_any_in_series = ?some (tor_version_same_series mine)\<rparr>)"
    unfolding tor_version_is_obsolete_def assms version_split_def [symmetric] sp option.case prod.case obsolete_loop_spec
    by (simp add: Let_def)
  consider "?vs = []" | "?some (\<lambda>v. ?cmp v = 0)" | "?vs \<noteq> []" "\<not> ?some (\<lambda>v. ?cmp v = 0)" by blast
  then show ?thesis
  proof cases
    case 1
    then show ?thesis unfolding l Let_def code by (simp add: doc_status_def obsolete_verdict_def)
  next
    case 2
    then have "versionlist \<noteq> []" using l listed_nothing by auto
    then show ?thesis using 2 unfolding l Let_def code by (auto simp: doc_status_def)
  next
    case 3
    have "versionlist \<noteq> []" using 3(1) l listed_nothing by auto
    moreover have "?some (\<lambda>v. ?cmp v < 0) \<or> ?some (\<lambda>v. ?cmp v > 0)"
      using 3 by (cases ?vs) (auto simp: neq_iff)
    moreover have "list_all (\<lambda>v. ?cmp v > 0) ?vs = (\<not> ?some (\<lambda>v. ?cmp v < 0))"
      using 3(2) by (force simp: list_all_iff list_ex_iff not_less order_le_less)
    moreover have "?some (\<lambda>v. tor_version_same_series mine v \<and> ?cmp v < 0) \<longrightarrow> ?some (\<lambda>v. ?cmp v < 0)"
      "\<not> ?some (\<lambda>v. ?cmp v > 0) \<longrightarrow> ?some (tor_version_same_series mine)
         \<longrightarrow> ?some (\<lambda>v. tor_version_same_series mine v \<and> ?cmp v < 0)"
      using 3(2) by (force simp: list_ex_iff not_less order_le_less)+
    ultimately show ?thesis
      using 3 unfolding l Let_def code doc_status_flags [OF 3(2,1)] obsolete_verdict_def by (simp; blast)
  qed
qed

theorem tor_version_status_correct_witness:
  "tor_version_is_obsolete ''0.1.0.2'' ''0.1.0.1'' = Some VS_NEW
   \<and> doc_status (short_version 1 2) (listed_versions ''0.1.0.1'') = VS_NEW_IN_SERIES
   \<and> tor_version_is_obsolete ''0.1.0.2'' ''0.1.0.1,0.2.0.1'' = Some VS_NEW_IN_SERIES
   \<and> tor_version_is_obsolete ''0.1.0.2'' '','' = Some VS_UNRECOMMENDED"
proof -
  have "TOR_ISDIGIT (CHR ''1'')" "TOR_ISDIGIT (CHR ''2'')" "digit_val (CHR ''1'') = 1" "digit_val (CHR ''2'') = 2"
    by (simp_all add: TOR_ISDIGIT_iff byte_between_def digit_val_def)
  then have p: "tor_version_parse ''0.1.0.2'' = Some (short_version 1 2)"
    by (simp add: version_short)
  have s: "v_major (short_version i j) = 0" "v_minor (short_version i j) = int i" "v_micro (short_version i j) = 0" for i j
    by (simp_all add: short_version_def version_zero_def)
  have d: "doc_status (short_version 1 2) [short_version 1 1] = VS_NEW_IN_SERIES"
    "doc_status (short_version 1 2) [short_version 1 1, short_version 2 1] = VS_NEW_IN_SERIES"
    by (simp_all add: doc_status_def short_version_order s)
  show ?thesis
    unfolding tor_version_status_correct [OF p] listed_examples d Let_def by (simp add: short_version_order)
qed

subsection \<open>The memoized summary\<close>

text \<open>What the map holds: at most 1024 lists, each once, each with its own flags.\<close>

definition summary_map_ok :: "summary_map \<Rightarrow> bool" where
  "summary_map_ok m =
     (case m of
        None \<Rightarrow> True
      | Some tab \<Rightarrow> distinct (map fst tab) \<and> length tab \<le> MAX_PROTOVER_SUMMARY_MAP_LEN
                      \<and> list_all (\<lambda>(protocols, flags). flags = protover_flags protocols) tab)"

lemma protover_flags_known: "protocols_known (protover_flags protocols)"
  by (simp add: protover_flags_def Let_def)

lemma update_new: "map_of tab k = None \<Longrightarrow> AList.update k v tab = tab @ [(k, v)]"
  by (induction tab) (auto split: if_splits)

lemma memoize_ok:
  assumes "summary_map_ok m"
  shows "\<exists>m'. memoize_protover_summary m protocols = Some (protover_flags protocols, m') \<and> summary_map_ok m'"
proof -
  let ?N = "MAX_PROTOVER_SUMMARY_MAP_LEN"
  define tab0 where "tab0 = (case m of None \<Rightarrow> [] | Some tab \<Rightarrow> tab)"
  define tab where "tab = (if length tab0 \<ge> ?N then [] else tab0)"
  have tab: "distinct (map fst tab)" "length tab < ?N" "list_all (\<lambda>(p, f). f = protover_flags p) tab"
    using assms by (auto simp: summary_map_ok_def tab_def tab0_def MAX_PROTOVER_SUMMARY_MAP_LEN_def split: option.splits)
  have m: "memoize_protover_summary m protocols =
      (case map_of tab protocols of
         Some cached \<Rightarrow> if \<not> protocols_known cached then None else Some (cached, Some tab)
       | None \<Rightarrow> Some (protover_flags protocols, Some (AList.update protocols (protover_flags protocols) tab)))"
    by (simp add: memoize_protover_summary_def tab_def tab0_def protover_summary_cache_free_all_def
        strmap_get_def strmap_set_def Let_def split: option.splits)
  show ?thesis
  proof (cases "map_of tab protocols")
    case None
    then have "protocols \<notin> set (map fst tab)" by (simp add: map_of_eq_None_iff)
    with None tab show ?thesis
      by (simp add: m update_new summary_map_ok_def)
  next
    case (Some f)
    then have "f = protover_flags protocols"
      using tab(3) map_of_SomeD [OF Some] by (auto simp: list_all_iff)
    with Some tab show ?thesis
      by (simp add: m protover_flags_known summary_map_ok_def)
  qed
qed

text \<open>C21: The memoization cannot be observed: from every map that calls can have left, a summary is
  that of the protocol list itself, corrected for the version, no assertion fails, and the map stays
  within 1024 entries, each the flags of its own key.\<close>

theorem summary_memo_transparent:
  assumes "summary_map_ok m"
  shows "\<exists>m'. summarize_protover_flags m protocols version =
      Some (correct_for_version version
              (case protocols of
                 None \<Rightarrow> no_flags
               | Some p \<Rightarrow> if p = [] then no_flags else protover_flags p), m')
    \<and> summary_map_ok m' \<and> summary_map_ok None"
proof (cases "protocols = None \<or> protocols = Some []")
  case True
  then show ?thesis
    using assms by (auto simp: summarize_protover_flags_def summary_map_ok_def)
next
  case False
  then obtain p where p: "protocols = Some p" "p \<noteq> []" by auto
  obtain m' where "memoize_protover_summary m p = Some (protover_flags p, m')" "summary_map_ok m'"
    using memoize_ok [OF assms] by blast
  then show ?thesis
    by (simp add: summarize_protover_flags_def p) (simp add: summary_map_ok_def)
qed

theorem summary_memo_transparent_witness:
  "\<exists>m'. summarize_protover_flags (Some []) (Some ''Relay=2'') None = Some (protover_flags ''Relay=2'', m')"
proof -
  have "summary_map_ok (Some [])" by (simp add: summary_map_ok_def)
  from summary_memo_transparent [OF this, of "Some ''Relay=2''" None] show ?thesis
    by (auto simp: correct_for_version_def)
qed

end
