(* ===== verification/Spec2Isabelle.thy ===== *)
theory Spec2Isabelle
  imports Prelude Ctype Parse_Int Smartlist Pqueue Binascii Consdiff_Doc Protover_Props Buffers_Props
    Token_Bucket Sendme_Protocol Conflux_Protocol Circuitmux_Ewma
    Congestion_Protocol Flow_Protocol Utf8 Time_Fmt_Props Versions_Props
begin

text \<open>
  A verification development for the C Tor that swift-tor embeds (Sources/libtor/src).  All paths
  below are relative to that directory.

  The program.  swift-tor builds the C Tor as a library (libtor) and starts it from Swift.  The C Tor has
  a layer of utilities (lib/: containers, strings, encodings, buffers, timers), the
  onion routing core (core/: connections, channels, circuits, relay cells, flow control), and features
  (feature/: directory authorities and caches, clients, relays, onion services).  The development
  follows that layering: from the utilities up to the flow control and the multipath scheduling
  of a circuit, and to the consensus diffs and the protocol voting of the directory system.

  Theories and the code they model (a definition has the name of the C function, constant or struct it
  models; loops and sub-expressions that needed a name have descriptive ones, and the header of each
  theory says how its state corresponds):

    Prelude             the types of the model (bytes, strings up to their NUL), C string helpers,
                        list facts shared by the theories
    Ctype               lib/string/compat_ctype.c: character classes, case mapping, hex digits
    Parse_Int           lib/string/parse_int.c: tor_parse_long, _ulong, _uint64
    Scanf               lib/string/scanf.c: tor_sscanf, its integer and string scanners
    Util_String         lib/string/util_string.c: trimming, prefix and suffix tests, case-insensitive
                        comparison, white space, C identifiers
    Utf8                lib/string/util_string.c: string_is_utf8, against the well-formed sequences of
                        the Unicode standard
    Time_Fmt, Time_Fmt_Props
                        lib/encoding/time_fmt.c, lib/wallclock/time_to_tm.c: tor_timegm, the RFC 1123,
                        ISO 8601 and HTTP dates
    Smartlist           lib/smartlist_core, lib/container/smartlist.c: lists, set operations, search,
                        split and join
    Pqueue              lib/container/smartlist.c: the binary heap with the index field of its items;
                        locale pqueue_order is the contract of the comparison callback
    Binascii            lib/encoding/binascii.c: base16, base32, base64
    Consdiff_Lines, Consdiff_Gen, Consdiff_Apply, Consdiff_Doc
                        feature/dircommon/consdiff.c: the longest common subsequence of slices, the ed diff
                        of two lists of lines, its application, and consensus documents with their digests
    Protover, Protover_Props
                        core/or/protover.c: protocol lists, support tests, the authorities' vote
    Versions, Versions_Props
                        core/or/versions.c with protover_compute_for_old_tor: Tor versions, their order,
                        the recommended-version status, the memoized protocol summary; locale
                        comparison is the contract of a three-way comparison, interpreted on the
                        comparisons that do have one
    Buffers, Buffers_Props
                        lib/buf/buffers.c: chunked byte queues with their memory; locale byte_stream is
                        the contract of a byte stream, interpreted on the buffers
    Token_Bucket        lib/evloop/token_bucket.c: rate limiting in 32 and 64-bit arithmetic
    Sendme              core/or/sendme.c, trunnel/sendme_cell.c, and the window helpers of
                        core/or/congestion_control_common.c: SENDME cells and windows
    Sendme_Protocol     two ends of a circuit that run the functions of Sendme in the order of relay.c,
                        as an inductive step relation with FIFO channels
    Conflux             core/or/conflux.c with conflux_util.c, conflux_cell.c and parts of
                        conflux_pool.c: one stream over several circuits; its queue is the heap of Pqueue
                        (interpretation conflux_pq), its windows those of Sendme
    Conflux_Protocol    a sender and a receiver of a conflux set with one FIFO per leg and an
                        environment that changes windows, round-trip times and closes circuits
    Congestion_Control  core/or/congestion_control_vegas.c with the estimates of
                        core/or/congestion_control_common.c and the consensus parameters
                        (get_net_param_from_list of feature/nodelist/networkstatus.c), in 64-bit arithmetic
    Congestion_Protocol a sender under TOR_VEGAS as an inductive relation: sending, SENDMEs coming back
    Flow_Control        core/or/congestion_control_flow.c with its cells (trunnel/flow_control_cells.c) and the
                        places that call it: XON and XOFF of a stream; it extends the edge connection
                        of Sendme and uses the buckets of Token_Bucket and the average of
                        Congestion_Control
    Flow_Protocol       the two ends of a stream under flow control as an inductive relation, with an
                        arbitrary environment of clocks and sockets
    Circuitmux          core/or/circuitmux.c and a round of the flushing loop of core/or/relay.c: the
                        circuits of a channel, their counts, what is sent next
    Circuitmux_Props    locale policy_contract: what the multiplexer asks of a policy, and what it then
                        keeps; the calls of the rest of the relay as an inductive relation
    Circuitmux_Ewma     core/or/circuitmux_ewma.c: the policy, on the heap of Pqueue (interpretation ewma)

  What the lemmas show.
    Consensus diffs: applying a generated diff gives back the target document, also through the
    intermediate lists of lines; an applied diff is only accepted when both digests match; the branches
    that the code thinks impossible are impossible.
    Flow control: in every reachable state of two ends the windows stay in their bounds, nothing is lost
    (a conservation law), authenticated SENDMEs of an honest peer are accepted and all others are not, and
    the two ends can always get to send again.
    Conflux: the receiver delivers a prefix of what was sent, whatever legs are chosen and however they
    are delayed; it has delivered everything when the legs are empty and none was closed; its loop ends.
    Congestion control: for SENDME increments of at least 2 (not the 1 that a consensus may also set) and
    SENDMEs that come within 2^32 microseconds, the window keeps its bounds under any consensus; a sender
    never stalls when the parameters are also at least the SENDME increment; it backs off on congestion.
    Stream flow control: an outstanding XOFF always has queued data behind it, the two ends agree when
    nothing is in flight, the events that follow when no more is packaged come to an end, with
    everything flushed and a source that the handling of the XON has resumed (well-founded order
    flow_order), the rates and counts stay in range and the products compared do not wrap, and below the
    scaling limits an honest end is never taken for an attacker.
    Circuit multiplexer: no assertion fails in any order of the calls that mux_allowed describes (a circuit
    without a channel, for one, must not be detached: exactly that makes detaching fail); after such
    calls the counters are exact, relay cells and DESTROY cells alternate and something is sent whenever anything waits.
    Protocol versions: the vote is the threshold over the parsed lists, parsing and printing are
    inverse, the hardwired lists are supported.
    Tor versions: a parsed version is well typed; the comparison is a linear order on versions whose
    revisions are not negative (and has cycles beyond that, tor_version_compare_cycle); the
    status of a version against a recommended list is that of the code's comment, up to two cases
    in which it is shown to differ (tor_version_status_correct); the memoized summary of a protocol list
    is the summary, whatever was asked before.
    Dates: tor_timegm is the inverse of the calendar but for the leap days of the years divisible
    by 400, which it refuses; printing a date and parsing it back gives the same second.
    UTF-8: string_is_utf8 accepts exactly the well-formed sequences.
    Buffers: any legal sequence of operations is a byte stream; pullup, move, line reading and searching
    do what their comments say, on the stated conditions.
    Rate limiting: reads never exceed the level plus the rate times the time, in machine arithmetic.
    Utilities: the heap pops in order, binary search finds, encoders and decoders are inverse, integer
    parsing accepts exactly the decimal numbers within the bounds.
  Where the code does not do what it says, a theorem states what it does (pqueue_remove_breaks_heap,
  protover_vote_undefined, buf_find_string_reads_uninitialised, conflux_cwndrtt_aborts,
  vegas_window_wraps, vegas_bdp_exceeds_cwnd, timegm_impl_inverse, tor_version_compare_cycle,
  old_tor_default).

  Conventions.  Errors are values (option or a sum type); None stands for a failed assertion, an undefined
  operation or a closed circuit, as the theory says.  Machine integers are words where the code
  relies on their width (the token buckets, the protocol bit masks, bytes), and int or nat with the
  wrap-around written out elsewhere.  Loops are recursive functions with a measure.  Fuel is used
  where the code's own loop need not end: in sendme_circuit_consider_sending (consider_fuel: each round adds
  a positive increment to a window bounded by 1000, so the fuel is enough whenever the increment
  is positive, and the protocol lemmas show that the result is never None) and in the dequeue
  loop of conflux (one round per queued cell; conflux_receive_total).

  Parameters.  What is not under src/, or belongs to a part that is not modelled, is an argument: the digest
  functions and the running digests of relay cells, the sending of a relay cell, the congestion control
  algorithm, consensus parameters, the C library's localtime, its qsort (under qsort_contract: a sorted
  permutation when the comparison is an order), the arithmetic of doubles (also where tor_sscanf reads
  one).  gmtime, timegm and the strftime formats that the code uses are written out from their standards.

  Not modelled: logging, memory management and wiping, I/O, cryptography, configuration, the event
  loop, threads, the circuit and channel state machines, directory parsing and voting other than
  protocol versions, onion services, and the Swift wrapper.  These are mostly glue over a large shared
  mutable state and the network; PROJECT.json lists them with the reasons.
\<close>

end
